(* ===== verification/Scat_Prelude.thy ===== *)
theory Scat_Prelude
  imports Main "HOL-Library.Word" "HOL-Library.AList" "HOL-Library.Multiset"
begin

text \<open>
  Shared vocabulary of the development: Go's 64-bit integers with their wrap-around,
  calls that may panic, the error values of the program, loops that may not end, and
  the generic lemmas the component theories rely on.
\<close>

named_theorems run_simps \<open>equations that unfold one call of a component's operations\<close>

section \<open>Integers, bytes, hashes\<close>

text \<open>
  Go's \<open>int\<close> has 64 bits on the platforms the program is built for. A value of type
  \<open>int\<close> is an Isabelle \<open>int\<close>, and \<open>wrap_int\<close> is applied to every arithmetic result
  that can leave the range.
\<close>

definition wrap_int :: "int \<Rightarrow> int" where
  "wrap_int i = (i + 2 ^ 63) mod 2 ^ 64 - 2 ^ 63"

lemma wrap_int_id [simp]: "- (2 ^ 63) \<le> i \<Longrightarrow> i < 2 ^ 63 \<Longrightarrow> wrap_int i = i"
  by (simp add: wrap_int_def)

lemma wrap_int_bounds: "- (2 ^ 63) \<le> wrap_int i \<and> wrap_int i < 2 ^ 63"
proof -
  have "0 \<le> (i + 2 ^ 63) mod 2 ^ 64" and "(i + 2 ^ 63) mod 2 ^ 64 < (2 ^ 64 :: int)"
    by simp_all
  then show ?thesis
    by (simp add: wrap_int_def)
qed

text \<open>Go's integer division truncates towards zero.\<close>

definition go_div :: "int \<Rightarrow> int \<Rightarrow> int" where
  "go_div a b = sgn a * sgn b * (\<bar>a\<bar> div \<bar>b\<bar>)"

lemma go_div_nonneg [simp]: "0 \<le> a \<Longrightarrow> 0 < b \<Longrightarrow> go_div a b = a div b"
  by (cases "a = 0") (simp_all add: go_div_def)

lemma div_mult_bounds:
  fixes a b :: int
  assumes "1 \<le> b"
  shows "a div b * b \<le> a" and "a < a div b * b + b"
  using assms pos_mod_bound [of b a] pos_mod_sign [of b a] div_mult_mod_eq [of a b] by linarith+

type_synonym byte = "8 word"
type_synonym bytes = "byte list"
type_synonym uint64 = "64 word"

text \<open>\<open>checksum.Hash\<close> is a \<open>[32]byte\<close>; its zero value is 32 zero bytes.\<close>

type_synonym hash = bytes

definition zero_hash :: hash where
  "zero_hash = replicate 32 0"

section \<open>Errors and panics\<close>

text \<open>
  The \<open>error\<close> values of the program. Named error variables are constructors of their
  own; an error made in place by \<open>errors.New\<close> or \<open>fmt.Errorf\<close> is its text.
  \<open>ExitError\<close> is \<open>*exec.ExitError\<close> with its captured standard error.
\<close>

datatype err =
    ErrShort
  | ErrUnreturnedSlots
  | MissingDataError err
  | ErrIntegrityCheckFailed
  | ErrIndexUnprocessedChunk
  | ErrIndexProcessEnded
  | ErrIndexDup
  | ErrStripeShort
  | ErrMultiReaderNoneAvail
  | ExitError string
  | ErrText string

text \<open>The result of a call that may panic.\<close>

datatype 'a outcome = Ret 'a | Panic string

fun bind_outcome :: "'a outcome \<Rightarrow> ('a \<Rightarrow> 'b outcome) \<Rightarrow> 'b outcome" where
  "bind_outcome (Ret x) f = f x"
| "bind_outcome (Panic m) f = Panic m"

fun returns :: "'a outcome \<Rightarrow> bool" where
  "returns (Ret _) = True"
| "returns (Panic _) = False"

lemma bind_outcome_Ret_iff:
  "bind_outcome m f = Ret y \<longleftrightarrow> (\<exists>x. m = Ret x \<and> f x = Ret y)"
  by (cases m) auto

section \<open>Loops\<close>

text \<open>
  A Go \<open>for\<close> loop with a guard whose body may leave the function with an error
  (\<open>Fail\<close>), leave the loop (\<open>Break\<close>) or go on (\<open>Next\<close>). \<open>None\<close> is a loop that
  never ends.
\<close>

datatype ('e, 's) ctl = Fail 'e | Break 's | Next 's

partial_function (option) go_loop ::
  "('s \<Rightarrow> bool) \<Rightarrow> ('s \<Rightarrow> ('e, 's) ctl) \<Rightarrow> 's \<Rightarrow> ('e + 's) option" where
  "go_loop b f s =
     (if b s then
        (case f s of
           Fail e \<Rightarrow> Some (Inl e)
         | Break s' \<Rightarrow> Some (Inr s')
         | Next s' \<Rightarrow> go_loop b f s')
      else Some (Inr s))"

declare go_loop.simps [code]

lemma go_loop_done [run_simps]: "\<not> b s \<Longrightarrow> go_loop b f s = Some (Inr s)"
  by (subst go_loop.simps) simp

lemma go_loop_step [run_simps]:
  "b s \<Longrightarrow> go_loop b f s =
     (case f s of
        Fail e \<Rightarrow> Some (Inl e)
      | Break s' \<Rightarrow> Some (Inr s')
      | Next s' \<Rightarrow> go_loop b f s')"
  by (subst go_loop.simps) simp

text \<open>Partial correctness: an invariant of the body, for each way out of the loop.\<close>

lemma go_loop_rule:
  assumes ret: "go_loop b f s = Some r"
    and start: "I s"
    and fail: "\<And>s e. I s \<Longrightarrow> b s \<Longrightarrow> f s = Fail e \<Longrightarrow> Q (Inl e)"
    and break: "\<And>s s'. I s \<Longrightarrow> b s \<Longrightarrow> f s = Break s' \<Longrightarrow> Q (Inr s')"
    and "next": "\<And>s s'. I s \<Longrightarrow> b s \<Longrightarrow> f s = Next s' \<Longrightarrow> I s'"
    and exit: "\<And>s. I s \<Longrightarrow> \<not> b s \<Longrightarrow> Q (Inr s)"
  shows "Q r"
proof -
  have "b = b \<and> f = f \<longrightarrow> I s \<longrightarrow> Q r"
  proof (rule go_loop.raw_induct
      [where P = "\<lambda>b' f' s r. b' = b \<and> f' = f \<longrightarrow> I s \<longrightarrow> Q r", OF _ ret])
    fix loop b' f' s r
    assume IH: "\<And>b' f' s r. loop b' f' s = Some r \<Longrightarrow> b' = b \<and> f' = f \<longrightarrow> I s \<longrightarrow> Q r"
      and eq: "(if b' s then
                 (case f' s of
                    Fail e \<Rightarrow> Some (Inl e)
                  | Break s' \<Rightarrow> Some (Inr s')
                  | Next s' \<Rightarrow> loop b' f' s')
               else Some (Inr s)) = Some r"
    show "b' = b \<and> f' = f \<longrightarrow> I s \<longrightarrow> Q r"
    proof (intro impI, elim conjE)
      assume same: "b' = b" "f' = f" and inv: "I s"
      show "Q r"
      proof (cases "b s")
        case False
        with eq same inv exit show ?thesis by auto
      next
        case True
        with eq same inv fail break "next" IH show ?thesis
          by (auto split: ctl.splits)
      qed
    qed
  qed
  with start show ?thesis by simp
qed

text \<open>Termination: the body decreases a well-founded relation under the invariant.\<close>

lemma go_loop_terminates:
  assumes wf: "wf R"
    and start: "I s"
    and "next": "\<And>s s'. I s \<Longrightarrow> b s \<Longrightarrow> f s = Next s' \<Longrightarrow> I s' \<and> (s', s) \<in> R"
  shows "\<exists>r. go_loop b f s = Some r"
  using start
proof (induction s rule: wf_induct_rule [OF wf])
  case (1 s)
  show ?case
  proof (cases "b s")
    case False
    then show ?thesis by (simp add: run_simps)
  next
    case True
    with 1 "next" show ?thesis
      by (cases "f s") (auto simp: run_simps)
  qed
qed

text \<open>Divergence: a set of states the body never leaves.\<close>

lemma go_loop_diverges:
  assumes start: "I s"
    and stay: "\<And>s. I s \<Longrightarrow> b s \<and> (\<exists>s'. f s = Next s' \<and> I s')"
  shows "go_loop b f s = None"
proof (cases "go_loop b f s")
  case (Some r)
  have "False"
    by (rule go_loop_rule [OF Some, where I = I and Q = "\<lambda>_. False"])
      (use start stay in fastforce)+
  then show ?thesis ..
qed simp

section \<open>Words\<close>

lemma unat_word_of_nat_add:
  assumes "a + unat n < 2 ^ 64"
  shows "unat (word_of_nat a + n :: uint64) = a + unat n"
proof -
  have "(word_of_nat a + n :: uint64) = word_of_nat (a + unat n)" by simp
  then show ?thesis
    using assms by (simp only: unat_of_nat) (simp add: take_bit_nat_eq_self)
qed

section \<open>Lists\<close>

lemma distinct_of_map: "distinct (map f xs) \<Longrightarrow> distinct xs"
  by (simp add: distinct_map)

lemma sorted_sort_key_id [simp]: "sort_key k (sort_key k xs) = sort_key k xs"
  by (rule sort_key_id_if_sorted) simp

text \<open>A measure of a list goes down with one of its entries.\<close>

lemma sum_list_update_less:
  fixes f :: "'a \<Rightarrow> nat"
  shows "i < length xs \<Longrightarrow> f y < f (xs ! i) \<Longrightarrow> sum_list (map f (xs[i := y])) < sum_list (map f xs)"
proof (induction xs arbitrary: i)
  case (Cons x xs)
  then show ?case
    by (cases i) auto
qed simp

end
