(* ===== verification/Quota.thy ===== *)
theory Quota
  imports Scat_Prelude
begin

text \<open>
  \<^verbatim>\<open>stores/quota/quota.go\<close>: how much each resource has been used, and which resources can take
  some more. A resource is any \<open>'r\<close> with its \<open>Id\<close>; the counters are 64-bit words. The
  map is an association list whose order is the one Go yields its keys in.
\<close>

unbundle bit_operations_syntax

section \<open>State and operations\<close>

definition unlimited :: uint64 where
  "unlimited = NOT 0"

record 'r usage =
  u_res :: 'r
  u_use :: uint64
  u_max :: uint64

type_synonym ('id, 'r) quota_man = "('id \<times> 'r usage) list"

definition new_man :: "('id, 'r) quota_man" where
  "new_man = []"

definition man_add_res_quota :: "('r \<Rightarrow> 'id) \<Rightarrow> 'r \<Rightarrow> uint64 \<Rightarrow> ('id, 'r) quota_man \<Rightarrow> ('id, 'r) quota_man" where
  "man_add_res_quota rid r mx man =
     (let man = (if map_of man (rid r) = None
                 then AList.update (rid r) \<lparr>u_res = r, u_use = 0, u_max = 0\<rparr> man else man)
      in AList.map_entry (rid r) (\<lambda>u. u\<lparr>u_max := mx\<rparr>) man)"

definition man_add_res :: "('r \<Rightarrow> 'id) \<Rightarrow> 'r \<Rightarrow> ('id, 'r) quota_man \<Rightarrow> ('id, 'r) quota_man" where
  "man_add_res rid r man = man_add_res_quota rid r unlimited man"

text \<open>\<open>addUse\<close> also returns the counter it changed, as \<open>AddUse\<close> reports it to \<open>OnUse\<close>.\<close>

definition man_count_use ::
  "('r \<Rightarrow> 'id) \<Rightarrow> 'r \<Rightarrow> uint64 \<Rightarrow> ('id, 'r) quota_man \<Rightarrow> 'r usage option \<times> ('id, 'r) quota_man" where
  "man_count_use rid r n man =
     (case map_of man (rid r) of
        None \<Rightarrow> (None, man)
      | Some u \<Rightarrow>
          (let u' = u\<lparr>u_use := u_use u + n\<rparr>;
               man' = AList.update (rid r) u' man
           in (Some u', if u_use u' \<ge> u_max u' then AList.delete (rid r) man' else man')))"

definition man_add_use :: "('r \<Rightarrow> 'id) \<Rightarrow> ('r \<Rightarrow> uint64 \<Rightarrow> uint64 \<Rightarrow> 's \<Rightarrow> 's) option \<Rightarrow> 'r \<Rightarrow> uint64 \<Rightarrow>
    ('id, 'r) quota_man \<Rightarrow> 's \<Rightarrow> ('id, 'r) quota_man \<times> 's" where
  "man_add_use rid on_use r n man s =
     (case man_count_use rid r n man of
        (u, man') \<Rightarrow>
          (man', case (u, on_use) of
                   (Some u', Some cb) \<Rightarrow> cb r (u_use u') (u_max u') s
                 | _ \<Rightarrow> s))"

definition man_delete :: "('r \<Rightarrow> 'id) \<Rightarrow> 'r \<Rightarrow> ('id, 'r) quota_man \<Rightarrow> ('id, 'r) quota_man" where
  "man_delete rid r man = AList.delete (rid r) man"

definition man_resources :: "uint64 \<Rightarrow> ('id, 'r) quota_man \<Rightarrow> 'r list" where
  "man_resources n man =
     map (\<lambda>(_, u). u_res u) (filter (\<lambda>(_, u). \<not> u_use u + n > u_max u) man)"

section \<open>Well-formedness\<close>

text \<open>Every entry is that of the resource under its own id.\<close>

definition man_ok :: "('r \<Rightarrow> 'i) \<Rightarrow> ('i, 'r) quota_man \<Rightarrow> bool" where
  "man_ok rid man \<longleftrightarrow> distinct (map fst man) \<and> (\<forall>(i, u) \<in> set man. rid (u_res u) = i)"

lemma man_ok_new [simp]: "man_ok rid new_man"
  by (simp add: man_ok_def new_man_def)

lemma update_pairs: "set (AList.update k v al) \<subseteq> insert (k, v) (set al)"
  by (induction al) auto

lemma delete_pairs: "set (AList.delete k al) \<subseteq> set al"
  by (induction al) auto

lemma man_ok_update: "man_ok rid man \<Longrightarrow> rid (u_res u) = i \<Longrightarrow> man_ok rid (AList.update i u man)"
  using update_pairs [of i u man] by (fastforce simp: man_ok_def distinct_update)

lemma man_ok_delete: "man_ok rid man \<Longrightarrow> man_ok rid (AList.delete i man)"
  using delete_pairs [of i man] by (fastforce simp: man_ok_def distinct_delete)

lemma man_ok_lookup: "man_ok rid man \<Longrightarrow> map_of man i = Some u \<Longrightarrow> rid (u_res u) = i"
  by (auto simp: man_ok_def dest: map_of_SomeD)

lemma man_ok_add_res_quota: "man_ok rid man \<Longrightarrow> man_ok rid (man_add_res_quota rid r mx man)"
proof -
  have entry: "man_ok rid (AList.map_entry i (\<lambda>u. u\<lparr>u_max := mx\<rparr>) man)" if "man_ok rid man" for man i
    using that
  proof (induction man)
    case (Cons x man)
    then show ?case
      using dom_map_entry [of i "\<lambda>u. u\<lparr>u_max := mx\<rparr>" man] by (cases x) (auto simp: man_ok_def)
  qed (simp add: man_ok_def)
  show "man_ok rid man \<Longrightarrow> man_ok rid (man_add_res_quota rid r mx man)"
    by (auto simp: man_add_res_quota_def Let_def intro!: entry man_ok_update)
qed

lemma man_ok_add_use': "man_ok rid man \<Longrightarrow> man_ok rid (snd (man_count_use rid r n man))"
  by (auto simp: man_count_use_def Let_def man_ok_lookup intro!: man_ok_update man_ok_delete
      split: option.split)

section \<open>What the operations do\<close>

lemma map_of_add_res_quota:
  "map_of (man_add_res_quota rid r mx man) =
     (map_of man)(rid r \<mapsto> (case map_of man (rid r) of
        None \<Rightarrow> \<lparr>u_res = r, u_use = 0, u_max = mx\<rparr> | Some u \<Rightarrow> u\<lparr>u_max := mx\<rparr>))"
  by (auto simp: man_add_res_quota_def map_of_map_entry update_conv' fun_eq_iff
      split: option.split)

lemma map_of_add_use':
  "man_count_use rid r n man =
     (map_option (\<lambda>u. u\<lparr>u_use := u_use u + n\<rparr>) (map_of man (rid r)), snd (man_count_use rid r n man))"
  "map_of (snd (man_count_use rid r n man)) =
     (case map_of man (rid r) of
        None \<Rightarrow> map_of man
      | Some u \<Rightarrow> (map_of man)(rid r := (if u_use u + n \<ge> u_max u then None
                                        else Some (u\<lparr>u_use := u_use u + n\<rparr>))))"
  by (auto simp: man_count_use_def Let_def update_conv' delete_conv' fun_eq_iff split: option.split)

lemma man_resources_iff:
  assumes "man_ok rid man"
  shows "r \<in> set (man_resources n man) \<longleftrightarrow>
    (\<exists>u. map_of man (rid r) = Some u \<and> u_res u = r \<and> u_use u + n \<le> u_max u)"
proof -
  have "(i, u) \<in> set man \<longleftrightarrow> map_of man i = Some u" for i u
    using assms by (simp add: man_ok_def)
  moreover have "rid (u_res u) = i" if "(i, u) \<in> set man" for i u
    using assms that by (auto simp: man_ok_def)
  ultimately show ?thesis
    by (force simp: man_resources_def not_less)
qed

section \<open>Quotas are kept\<close>

definition man_uses :: "('r \<Rightarrow> 'id) \<Rightarrow> 'r \<Rightarrow> uint64 list \<Rightarrow> ('id, 'r) quota_man \<Rightarrow> ('id, 'r) quota_man" where
  "man_uses rid r ns man = fold (\<lambda>n man. snd (man_count_use rid r n man)) ns man"

lemma man_ok_uses: "man_ok rid man \<Longrightarrow> man_ok rid (man_uses rid r ns man)"
  unfolding man_uses_def by (induction ns arbitrary: man) (simp_all add: man_ok_add_use')

text \<open>Uses that add up to less than \<open>2 ^ 64\<close> are counted without wrapping.\<close>

lemma man_uses_account:
  assumes "map_of man (rid r) = Some \<lparr>u_res = r, u_use = 0, u_max = mx\<rparr>"
    and "sum_list (map unat ns) < 2 ^ 64"
  shows "map_of (man_uses rid r ns man) (rid r) =
    (if ns \<noteq> [] \<and> unat mx \<le> sum_list (map unat ns) then None
     else Some \<lparr>u_res = r, u_use = of_nat (sum_list (map unat ns)), u_max = mx\<rparr>)"
  using assms(2)
proof (induction ns rule: rev_induct)
  case Nil
  then show ?case
    using assms(1) by (simp add: man_uses_def)
next
  case (snoc n ns)
  let ?s = "sum_list (map unat ns)"
  have uses: "man_uses rid r (ns @ [n]) man = snd (man_count_use rid r n (man_uses rid r ns man))"
    by (simp add: man_uses_def)
  have le: "mx \<le> word_of_nat ?s + n \<longleftrightarrow> unat mx \<le> ?s + unat n"
    using snoc.prems by (simp add: word_le_nat_alt unat_word_of_nat_add)
  show ?case
    using snoc by (auto simp: uses map_of_add_use'(2) le split: if_splits)
qed

text \<open>
  C12: a resource is offered for a use exactly when what it has used and the new use fit in its
  quota, and it is not full: the sums are those of the natural numbers as long as they stay
  below \<open>2 ^ 64\<close>.
\<close>

theorem quota_offers_iff_fits:
  assumes "man_ok rid man" and "map_of man (rid r) = None"
    and "sum_list (map unat ns) + unat n < 2 ^ 64"
  shows "r \<in> set (man_resources n (man_uses rid r ns (man_add_res_quota rid r mx man))) \<longleftrightarrow>
    (ns = [] \<or> sum_list (map unat ns) < unat mx) \<and> sum_list (map unat ns) + unat n \<le> unat mx"
proof -
  let ?man = "man_add_res_quota rid r mx man"
  let ?s = "sum_list (map unat ns)"
  have start: "map_of ?man (rid r) = Some \<lparr>u_res = r, u_use = 0, u_max = mx\<rparr>"
    using assms(2) by (simp add: map_of_add_res_quota)
  have "word_of_nat ?s + n \<le> mx \<longleftrightarrow> ?s + unat n \<le> unat mx"
    using assms(3) by (simp add: word_le_nat_alt unat_word_of_nat_add)
  moreover have "man_ok rid (man_uses rid r ns ?man)"
    using assms(1) by (intro man_ok_uses man_ok_add_res_quota)
  moreover note man_uses_account [where rid = rid and r = r and ns = ns, OF start]
  ultimately show ?thesis
    using assms(3) by (auto simp: man_resources_iff)
qed

theorem quota_offers_iff_fits_witness:
  "(7 :: nat) \<in> set (man_resources 3 (man_uses (\<lambda>r. r) 7 [1, 1] (man_add_res_quota (\<lambda>r. r) 7 5 new_man)))"
  by (subst quota_offers_iff_fits) (simp_all add: new_man_def man_ok_def)

end
