(* ===== verification/Chunk.thy ===== *)
theory Chunk
  imports Scat_Prelude
begin

text \<open>
  \<^verbatim>\<open>chunk.go\<close> and \<^verbatim>\<open>checksum/checksum.go\<close>: the unit of work every proc receives and
  emits, its data, which may be readable once only, and its metadata.
\<close>

section \<open>Data\<close>

text \<open>
  \<open>BytesData\<close> is a byte slice. \<open>ReaderData\<close> wraps an \<open>io.Reader\<close>: the bytes it delivers,
  the error that ends it (none for end of file), and whether \<open>onceChan\<close> is already full.
\<close>

datatype data = BytesData bytes | ReaderData bytes "err option" bool

text \<open>\<open>once\<close> runs its argument the first time and panics afterwards.\<close>

definition data_once :: "data \<Rightarrow> ((bytes \<times> err option) \<times> data) outcome" where
  "data_once d =
     (case d of
        BytesData b \<Rightarrow> Ret ((b, None), d)
      | ReaderData b e used \<Rightarrow>
          if used then Panic ''reader data can only be read once''
          else Ret ((b, e), ReaderData b e True))"

definition data_bytes :: "data \<Rightarrow> ((bytes \<times> err option) \<times> data) outcome" where
  "data_bytes d =
     (case d of
        BytesData b \<Rightarrow> Ret ((b, None), d)
      | ReaderData _ _ _ \<Rightarrow> data_once d)"

text \<open>What reading \<open>Reader()\<close> to its end delivers.\<close>

definition data_reader :: "data \<Rightarrow> ((bytes \<times> err option) \<times> data) outcome" where
  "data_reader d =
     (case d of
        BytesData b \<Rightarrow> Ret ((b, None), d)
      | ReaderData _ _ _ \<Rightarrow> data_once d)"

text \<open>The type assertion \<open>d.(Sizer)\<close>, then \<open>Size()\<close>: only \<open>BytesData\<close> has a size.\<close>

fun data_size :: "data \<Rightarrow> int option" where
  "data_size (BytesData b) = Some (int (length b))"
| "data_size (ReaderData _ _ _) = None"

section \<open>Chunks and their metadata\<close>

text \<open>
  \<open>Meta\<close> maps any key to any value; the program uses the two keys of
  \<^verbatim>\<open>procs/group.go\<close>, the group of chunks and a recovered error. A group holds chunks,
  so the two types are mutually recursive and the struct is a datatype with one
  constructor. A nil \<open>meta\<close> is \<open>None\<close>.
\<close>

datatype meta_key = MetaGroup | MetaGroupErr

datatype chunk =
  Chunk (chunk_num: int) (chunk_data: data) (chunk_hash: hash) (chunk_target_size: int)
    (chunk_meta: "(meta_key \<times> meta_val) list option")
and meta_val = MetaChunks "chunk list" | MetaError err

definition new_chunk :: "int \<Rightarrow> data option \<Rightarrow> chunk" where
  "new_chunk num data =
     Chunk num (case data of None \<Rightarrow> BytesData [] | Some d \<Rightarrow> d) zero_hash 0 None"

definition meta_dup :: "(meta_key \<times> meta_val) list \<Rightarrow> (meta_key \<times> meta_val) list" where
  "meta_dup m = fold (\<lambda>(k, v) dup. AList.update k v dup) m []"

fun with_data :: "data \<Rightarrow> chunk \<Rightarrow> chunk" where
  "with_data d (Chunk n _ h t m) = Chunk n d h t (map_option meta_dup m)"

fun set_hash :: "hash \<Rightarrow> chunk \<Rightarrow> chunk" where
  "set_hash h (Chunk n d _ t m) = Chunk n d h t m"

fun set_target_size :: "int \<Rightarrow> chunk \<Rightarrow> chunk" where
  "set_target_size t (Chunk n d h _ m) = Chunk n d h t m"

text \<open>\<open>Meta()\<close> creates the map on first use; \<open>Get\<close> of an absent key is nil.\<close>

fun meta_get :: "meta_key \<Rightarrow> chunk \<Rightarrow> meta_val option" where
  "meta_get k (Chunk _ _ _ _ m) = (case m of None \<Rightarrow> None | Some kvs \<Rightarrow> map_of kvs k)"

fun meta_set :: "meta_key \<Rightarrow> meta_val \<Rightarrow> chunk \<Rightarrow> chunk" where
  "meta_set k v (Chunk n d h t m) =
     Chunk n d h t (Some (AList.update k v (case m of None \<Rightarrow> [] | Some kvs \<Rightarrow> kvs)))"

text \<open>Replacing the data without any other field: reading marks a \<open>ReaderData\<close> as used.\<close>

fun mark_read :: "data \<Rightarrow> chunk \<Rightarrow> chunk" where
  "mark_read d (Chunk n _ h t m) = Chunk n d h t m"

subsection \<open>How the accessors interact\<close>

lemma map_of_fold_update:
  "map_of (fold (\<lambda>(k, v) dup. AList.update k v dup) m acc) = map_of acc ++ map_of (rev m)"
  by (induction m arbitrary: acc) (auto simp: update_conv' split: prod.splits)

lemma map_of_meta_dup:
  "distinct (map fst m) \<Longrightarrow> map_of (meta_dup m) = map_of m"
  unfolding meta_dup_def map_of_fold_update
  by (simp add: map_of_inject_set rev_map [symmetric])

lemma chunk_new [simp]:
  "chunk_num (new_chunk n d) = n" "chunk_hash (new_chunk n d) = zero_hash"
  "chunk_target_size (new_chunk n d) = 0" "chunk_meta (new_chunk n d) = None"
  "meta_get k (new_chunk n d) = None"
  "chunk_data (new_chunk n None) = BytesData []" "chunk_data (new_chunk n (Some e)) = e"
  by (simp_all add: new_chunk_def)

lemma chunk_num_upd [simp]:
  "chunk_num (with_data d c) = chunk_num c" "chunk_num (set_hash h c) = chunk_num c"
  "chunk_num (set_target_size t c) = chunk_num c" "chunk_num (meta_set k v c) = chunk_num c"
  "chunk_num (mark_read d c) = chunk_num c"
  by (cases c; simp)+

lemma chunk_hash_upd [simp]:
  "chunk_hash (with_data d c) = chunk_hash c" "chunk_hash (set_hash h c) = h"
  "chunk_hash (set_target_size t c) = chunk_hash c" "chunk_hash (meta_set k v c) = chunk_hash c"
  "chunk_hash (mark_read d c) = chunk_hash c"
  by (cases c; simp)+

lemma chunk_data_upd [simp]:
  "chunk_data (with_data d c) = d" "chunk_data (set_hash h c) = chunk_data c"
  "chunk_data (set_target_size t c) = chunk_data c" "chunk_data (meta_set k v c) = chunk_data c"
  "chunk_data (mark_read d c) = d"
  by (cases c; simp)+

lemma chunk_target_size_upd [simp]:
  "chunk_target_size (with_data d c) = chunk_target_size c"
  "chunk_target_size (set_hash h c) = chunk_target_size c"
  "chunk_target_size (set_target_size t c) = t"
  "chunk_target_size (meta_set k v c) = chunk_target_size c"
  "chunk_target_size (mark_read d c) = chunk_target_size c"
  by (cases c; simp)+

lemma meta_get_upd [simp]:
  "meta_get k (set_hash h c) = meta_get k c"
  "meta_get k (set_target_size t c) = meta_get k c"
  "meta_get k (mark_read d c) = meta_get k c"
  "meta_get k (meta_set k' v c) = (if k = k' then Some v else meta_get k c)"
  by (cases c; simp add: update_conv' split: option.split)+

lemma mark_read_same: "chunk_data c = d \<Longrightarrow> mark_read d c = c"
  by (cases c) simp

section \<open>Hashes\<close>

text \<open>\<open>Hash.LoadSlice\<close>; \<open>Sum\<close> over a reader, with SHA-256 itself a parameter.\<close>

definition load_slice :: "bytes \<Rightarrow> err + hash" where
  "load_slice s = (if length s \<noteq> 32 then Inl (ErrText ''invalid hash length'') else Inr s)"

definition checksum_sum :: "(bytes \<Rightarrow> hash) \<Rightarrow> bytes \<times> err option \<Rightarrow> err + hash" where
  "checksum_sum sha rd = (case snd rd of Some e \<Rightarrow> Inl e | None \<Rightarrow> Inr (sha (fst rd)))"

text \<open>Reading a \<open>ReaderData\<close> a second time panics; \<open>BytesData\<close> can be read again.\<close>

lemma data_bytes_twice:
  "data_bytes d = Ret (r, d') \<Longrightarrow>
     returns (data_bytes d') \<longleftrightarrow> (case d of BytesData _ \<Rightarrow> True | _ \<Rightarrow> False)"
  by (auto simp: data_bytes_def data_once_def split: data.splits if_splits)

end
