(* ===== verification/Procs.thy ===== *)
theory Procs
  imports Chunk
begin

text \<open>
  \<^verbatim>\<open>procs/procs.go\<close>, \<^verbatim>\<open>procs/procfunc.go\<close> and the wrappers of \<^verbatim>\<open>procs/\<close>: what a proc
  is, the procs made from plain functions, and the combinators. A proc's \<open>Process\<close> takes
  a chunk and a state, the state of every object the call can reach, and returns the
  results put on its channel, in order, with the new state.
\<close>

datatype res = Res (res_chunk: "chunk option") (res_err: "err option")

type_synonym 'st process = "chunk \<Rightarrow> 'st \<Rightarrow> res list \<times> 'st"

definition single_res :: "chunk \<Rightarrow> err option \<Rightarrow> res list" where
  "single_res c e = [Res (Some c) e]"

section \<open>Errors of a stream\<close>

text \<open>The first error that arrives, as \<open>concur.FirstErr\<close> and \<open>OnEnd\<close> keep it.\<close>

fun first_err :: "err option list \<Rightarrow> err option" where
  "first_err [] = None"
| "first_err (None # es) = first_err es"
| "first_err (Some e # es) = Some e"

definition stream_err :: "res list \<Rightarrow> err option" where
  "stream_err rs = first_err (map res_err rs)"

lemma first_err_None_iff: "first_err es = None \<longleftrightarrow> (\<forall>e \<in> set es. e = None)"
  by (induction es rule: first_err.induct) auto

lemma stream_err_None_iff [simp]: "stream_err rs = None \<longleftrightarrow> (\<forall>r \<in> set rs. res_err r = None)"
  by (auto simp: stream_err_def first_err_None_iff)

text \<open>
  \<open>concur.Funcs.FirstErr\<close> runs every function in a goroutine of its own; \<open>order\<close> lists
  the results in the order they arrive on the channel.
\<close>

definition concur_first_err :: "err option list \<Rightarrow> err option" where
  "concur_first_err order = first_err order"

lemma concur_first_err_order:
  "mset es = mset fs \<Longrightarrow> concur_first_err es = None \<longleftrightarrow> concur_first_err fs = None"
  by (simp add: concur_first_err_def first_err_None_iff) (metis set_mset_mset)

text \<open>\<open>procs.Process\<close>: the first error of the stream, else what \<open>Finish\<close> returns.\<close>

definition process_driver :: "res list \<Rightarrow> err option \<Rightarrow> err option" where
  "process_driver rs finish = (case stream_err rs of Some e \<Rightarrow> Some e | None \<Rightarrow> finish)"

section \<open>Procs from functions\<close>

text \<open>
  \<open>InplaceFunc\<close>: the function may change the chunk it is given (it holds a pointer), so
  it returns it. \<open>ChunkFunc\<close> returns a new chunk or an error.
\<close>

definition inplace_func :: "(chunk \<Rightarrow> 'st \<Rightarrow> (err option \<times> chunk) \<times> 'st) \<Rightarrow> 'st process" where
  "inplace_func fn c st = (case fn c st of ((e, c'), st') \<Rightarrow> ([Res (Some c') e], st'))"

definition chunk_func :: "(chunk \<Rightarrow> 'st \<Rightarrow> (err + chunk) \<times> 'st) \<Rightarrow> 'st process" where
  "chunk_func fn c st =
     (case fn c st of
        (Inl e, st') \<Rightarrow> ([Res (Some c) (Some e)], st')
      | (Inr new, st') \<Rightarrow> ([Res (Some new) None], st'))"

section \<open>Combinators\<close>

definition discard_chunks :: "'st process \<Rightarrow> 'st process" where
  "discard_chunks p c st =
     (case p c st of (rs, st') \<Rightarrow> (filter (\<lambda>r. res_err r \<noteq> None) rs, st'))"

definition filter_proc :: "(res \<Rightarrow> res) \<Rightarrow> 'st process \<Rightarrow> 'st process" where
  "filter_proc f p c st = (case p c st of (rs, st') \<Rightarrow> (map f rs, st'))"

text \<open>\<open>OnEnd\<close> calls back once, after the last result, with the first error.\<close>

definition on_end :: "(err option \<Rightarrow> 'st \<Rightarrow> 'st) \<Rightarrow> 'st process \<Rightarrow> 'st process" where
  "on_end callback p c st = (case p c st of (rs, st') \<Rightarrow> (rs, callback (stream_err rs) st'))"

text \<open>
  \<open>Cascade\<close> tries the procs in turn with the same chunk, buffering the results of each,
  and stops at the first whose results hold no error.
\<close>

fun cascade_loop :: "'st process list \<Rightarrow> chunk \<Rightarrow> res list \<Rightarrow> 'st \<Rightarrow> res list \<times> 'st" where
  "cascade_loop [] c buf st = (buf, st)"
| "cascade_loop (p # ps) c buf st =
     (case p c st of (rs, st') \<Rightarrow>
        if \<exists>r \<in> set rs. res_err r \<noteq> None then cascade_loop ps c rs st' else (rs, st'))"

definition cascade :: "'st process list \<Rightarrow> 'st process" where
  "cascade casc c st = cascade_loop casc c [] st"

end
