(* ===== verification/Chain.thy ===== *)
theory Chain
  imports Procs
begin

text \<open>
  \<^verbatim>\<open>procs/chain.go\<close>: a pipeline of procs. Each proc is a goroutine that reads results from
  the one before; here the stages run one after the other, each over all the results of the
  one before, which is what each of them sees. The results of different chunks leave a stage
  interleaved: \<open>mg\<close> merges them, and the lemmas ask of it no more than that it keeps them all.
\<close>

section \<open>Procs as objects\<close>

text \<open>A call of \<open>Process\<close> that may panic.\<close>

type_synonym 'st oprocess = "chunk \<Rightarrow> 'st \<Rightarrow> (res list \<times> 'st) outcome"

text \<open>
  A proc with the interfaces its \<open>underlying\<close> proc has: \<open>ErrProc\<close>, and \<open>EndProc\<close> with its
  \<open>ProcessFinal\<close> and \<open>ProcessEnd\<close>. \<open>pr_inplace\<close> says that the chunks of its results are the
  very chunk it was given, changed where it is, as with \<open>InplaceFunc\<close>: who holds the pointer
  sees the change.
\<close>

record 'st ender =
  en_final :: "chunk \<Rightarrow> chunk \<Rightarrow> 'st \<Rightarrow> err option \<times> 'st"
  en_end :: "chunk \<Rightarrow> 'st \<Rightarrow> err option \<times> 'st"

record 'st proc =
  pr_process :: "'st oprocess"
  pr_err :: "(chunk \<Rightarrow> err \<Rightarrow> 'st \<Rightarrow> (res list \<times> 'st) outcome) option"
  pr_ender :: "'st ender option"
  pr_finish :: "'st \<Rightarrow> err option \<times> 'st"
  pr_inplace :: bool

text \<open>\<open>WrapperProc\<close>: a proc around another, with the other's interfaces.\<close>

definition wrapper :: "'st oprocess \<Rightarrow> ('st \<Rightarrow> err option \<times> 'st) \<Rightarrow> 'st proc \<Rightarrow> 'st proc" where
  "wrapper process finish p =
     \<lparr>pr_process = process, pr_err = pr_err p, pr_ender = pr_ender p, pr_finish = finish,
      pr_inplace = pr_inplace p\<rparr>"

definition ret_process :: "'st process \<Rightarrow> 'st oprocess" where
  "ret_process p c st = Ret (p c st)"

definition simple_proc :: "bool \<Rightarrow> 'st oprocess \<Rightarrow> 'st proc" where
  "simple_proc inplace p =
     \<lparr>pr_process = p, pr_err = None, pr_ender = None, pr_finish = (\<lambda>st. (None, st)),
      pr_inplace = inplace\<rparr>"

lemma simple_proc_sel [simp]:
  "pr_process (simple_proc i p) = p" "pr_err (simple_proc i p) = None"
  "pr_ender (simple_proc i p) = None" "pr_finish (simple_proc i p) st = (None, st)"
  "pr_inplace (simple_proc i p) = i"
  by (simp_all add: simple_proc_def)

text \<open>
  The procs of a chain keep states of their own; the state of the chain is their product, and
  a proc leaves the other part of it alone.
\<close>

definition over_fst :: "'a proc \<Rightarrow> ('a \<times> 'b) proc" where
  "over_fst p =
     \<lparr>pr_process = (\<lambda>c (x, y). bind_outcome (pr_process p c x) (\<lambda>(rs, x). Ret (rs, (x, y)))),
      pr_err = map_option (\<lambda>f c e (x, y). bind_outcome (f c e x) (\<lambda>(rs, x). Ret (rs, (x, y)))) (pr_err p),
      pr_ender = map_option (\<lambda>en.
        \<lparr>en_final = (\<lambda>c final (x, y). apsnd (\<lambda>x. (x, y)) (en_final en c final x)),
         en_end = (\<lambda>c (x, y). apsnd (\<lambda>x. (x, y)) (en_end en c x))\<rparr>) (pr_ender p),
      pr_finish = (\<lambda>(x, y). apsnd (\<lambda>x. (x, y)) (pr_finish p x)),
      pr_inplace = pr_inplace p\<rparr>"

definition over_snd :: "'b proc \<Rightarrow> ('a \<times> 'b) proc" where
  "over_snd p =
     \<lparr>pr_process = (\<lambda>c (x, y). bind_outcome (pr_process p c y) (\<lambda>(rs, y). Ret (rs, (x, y)))),
      pr_err = map_option (\<lambda>f c e (x, y). bind_outcome (f c e y) (\<lambda>(rs, y). Ret (rs, (x, y)))) (pr_err p),
      pr_ender = map_option (\<lambda>en.
        \<lparr>en_final = (\<lambda>c final (x, y). apsnd (\<lambda>y. (x, y)) (en_final en c final y)),
         en_end = (\<lambda>c (x, y). apsnd (\<lambda>y. (x, y)) (en_end en c y))\<rparr>) (pr_ender p),
      pr_finish = (\<lambda>(x, y). apsnd (\<lambda>y. (x, y)) (pr_finish p y)),
      pr_inplace = pr_inplace p\<rparr>"

lemma over_fst_sel [simp]:
  "pr_process (over_fst p) c (x, y) = bind_outcome (pr_process p c x) (\<lambda>(rs, x). Ret (rs, (x, y)))"
  "pr_err (over_fst p) = None \<longleftrightarrow> pr_err p = None" "pr_ender (over_fst p) = None \<longleftrightarrow> pr_ender p = None"
  "pr_finish (over_fst p) (x, y) = apsnd (\<lambda>x. (x, y)) (pr_finish p x)"
  "pr_inplace (over_fst p) = pr_inplace p"
  by (simp_all add: over_fst_def)

lemma over_snd_sel [simp]:
  "pr_process (over_snd p) c (x, y) = bind_outcome (pr_process p c y) (\<lambda>(rs, y). Ret (rs, (x, y)))"
  "pr_err (over_snd p) = None \<longleftrightarrow> pr_err p = None" "pr_ender (over_snd p) = None \<longleftrightarrow> pr_ender p = None"
  "pr_finish (over_snd p) (x, y) = apsnd (\<lambda>y. (x, y)) (pr_finish p y)"
  "pr_inplace (over_snd p) = pr_inplace p"
  by (simp_all add: over_snd_def)

section \<open>The combinators as procs\<close>

text \<open>
  \<open>DiscardChunks\<close>, \<open>Filter\<close> and \<open>OnEnd\<close> have the \<open>Finish\<close> of the proc inside, and none of its other
  interfaces: they are no \<open>WrapperProc\<close>.
\<close>

definition discard_obj :: "'st proc \<Rightarrow> 'st proc" where
  "discard_obj p =
     \<lparr>pr_process = (\<lambda>c st. bind_outcome (pr_process p c st) (\<lambda>(rs, st).
        Ret (filter (\<lambda>r. res_err r \<noteq> None) rs, st))),
      pr_err = None, pr_ender = None, pr_finish = pr_finish p, pr_inplace = pr_inplace p\<rparr>"

definition filter_obj :: "(res \<Rightarrow> res) \<Rightarrow> 'st proc \<Rightarrow> 'st proc" where
  "filter_obj f p =
     \<lparr>pr_process = (\<lambda>c st. bind_outcome (pr_process p c st) (\<lambda>(rs, st). Ret (map f rs, st))),
      pr_err = None, pr_ender = None, pr_finish = pr_finish p, pr_inplace = False\<rparr>"

definition on_end_obj :: "(err option \<Rightarrow> 'st \<Rightarrow> 'st) \<Rightarrow> 'st proc \<Rightarrow> 'st proc" where
  "on_end_obj callback p =
     \<lparr>pr_process = (\<lambda>c st. bind_outcome (pr_process p c st) (\<lambda>(rs, st).
        Ret (rs, callback (stream_err rs) st))),
      pr_err = None, pr_ender = None, pr_finish = pr_finish p, pr_inplace = pr_inplace p\<rparr>"

text \<open>\<open>procs.Process\<close>: \<open>Finish\<close> is called in any case, and once more when the results hold no error.\<close>

definition process_all :: "'st proc \<Rightarrow> chunk \<Rightarrow> 'st \<Rightarrow> (err option \<times> 'st) outcome" where
  "process_all p c st =
     bind_outcome (pr_process p c st) (\<lambda>(rs, st1).
       case stream_err rs of
         Some e \<Rightarrow> Ret (Some e, snd (pr_finish p st1))
       | None \<Rightarrow> (case pr_finish p st1 of (e, st2) \<Rightarrow> Ret (e, snd (pr_finish p st2))))"

lemma process_all_err:
  assumes "pr_process p c st = Ret (rs, st1)"
  shows "\<exists>st2. process_all p c st = Ret (process_driver rs (fst (pr_finish p st1)), st2)"
  using assms by (cases "stream_err rs") (auto simp: process_all_def process_driver_def simp del: stream_err_None_iff split: prod.split)

lemma combinators_ret:
  assumes "pr_process p = ret_process q"
  shows "pr_process (discard_obj p) = ret_process (discard_chunks q)"
    and "pr_process (filter_obj f p) = ret_process (filter_proc f q)"
    and "pr_process (on_end_obj cb p) = ret_process (on_end cb q)"
  by (simp_all add: assms fun_eq_iff ret_process_def discard_obj_def discard_chunks_def filter_obj_def
      filter_proc_def on_end_obj_def on_end_def split: prod.split)

section \<open>Stages\<close>

text \<open>
  \<open>process(out, in, proc)\<close>: the results of each call, in the order of the calls. An error goes
  to an \<open>ErrProc\<close>, and past any other proc.
\<close>

fun stage_calls :: "'st proc \<Rightarrow> res list \<Rightarrow> 'st \<Rightarrow> (res list list \<times> 'st) outcome" where
  "stage_calls p [] st = Ret ([], st)"
| "stage_calls p (Res c e # rs) st =
     bind_outcome
       (case (e, c) of
          (Some e, Some c) \<Rightarrow>
            (case pr_err p of Some f \<Rightarrow> f c e st | None \<Rightarrow> Ret ([Res (Some c) (Some e)], st))
        | (Some e, None) \<Rightarrow> Ret ([Res None (Some e)], st)
        | (None, Some c) \<Rightarrow> pr_process p c st
        | (None, None) \<Rightarrow> Panic ''nil pointer dereference'')
       (\<lambda>(out, st). bind_outcome (stage_calls p rs st) (\<lambda>(outs, st). Ret (out # outs, st)))"

definition stage ::
  "(res list list \<Rightarrow> res list) \<Rightarrow> 'st proc \<Rightarrow> res list \<Rightarrow> 'st \<Rightarrow> (res list \<times> 'st) outcome" where
  "stage mg p ins st = bind_outcome (stage_calls p ins st) (\<lambda>(outs, st). Ret (mg outs, st))"

fun stages ::
  "(res list list \<Rightarrow> res list) \<Rightarrow> 'st proc list \<Rightarrow> res list \<Rightarrow> 'st \<Rightarrow> (res list \<times> 'st) outcome" where
  "stages mg [] ins st = Ret (ins, st)"
| "stages mg (p # ps) ins st = bind_outcome (stage mg p ins st) (\<lambda>(outs, st). stages mg ps outs st)"

text \<open>
  \<open>endCallProc\<close> holds the pointer to the chunk the chain was given. \<open>seen\<close> is that chunk: up to
  the first proc that makes new chunks, what a proc puts out is the chunk itself, as it has
  changed it; from there on the procs work on other chunks. (A proc that makes new chunks may
  still read the data of the one it is given, which a later call for the end does not look at.)
\<close>

definition seen_after :: "res list \<Rightarrow> chunk \<Rightarrow> chunk" where
  "seen_after outs seen = (case outs of Res (Some c) _ # _ \<Rightarrow> c | _ \<Rightarrow> seen)"

fun stages_seen ::
  "(res list list \<Rightarrow> res list) \<Rightarrow> 'st proc list \<Rightarrow> chunk \<Rightarrow> res list \<Rightarrow> 'st \<Rightarrow>
   ((chunk \<times> res list) \<times> 'st) outcome" where
  "stages_seen mg [] seen ins st = Ret ((seen, ins), st)"
| "stages_seen mg (p # ps) seen ins st =
     (if pr_inplace p then
        bind_outcome (stage mg p ins st) (\<lambda>(outs, st). stages_seen mg ps (seen_after outs seen) outs st)
      else
        bind_outcome (stages mg (p # ps) ins st) (\<lambda>(outs, st). Ret ((seen, outs), st)))"

lemma stages_seen_stages:
  "bind_outcome (stages_seen mg ps seen ins st) (\<lambda>((seen, outs), st). Ret (outs, st)) =
     stages mg ps ins st"
proof (induction ps arbitrary: seen ins st)
  case (Cons p ps)
  show ?case
  proof (cases "stage mg p ins st")
    case (Ret x)
    then show ?thesis
      using Cons.IH by (cases x; cases "stages mg ps (fst x) (snd x)") auto
  qed simp
qed simp

section \<open>The last stage\<close>

text \<open>\<open>endCallProc\<close> tells every \<open>EndProc\<close> of the chain of each final chunk, and of the end.\<close>

definition end_procs :: "'st proc list \<Rightarrow> 'st ender list" where
  "end_procs ps = map (\<lambda>p. the (pr_ender p)) (filter (\<lambda>p. pr_ender p \<noteq> None) ps)"

fun end_calls :: "('st \<Rightarrow> err option \<times> 'st) list \<Rightarrow> 'st \<Rightarrow> err option \<times> 'st" where
  "end_calls [] st = (None, st)"
| "end_calls (f # fs) st =
     (case f st of (Some e, st') \<Rightarrow> (Some e, st') | (None, st') \<Rightarrow> end_calls fs st')"

definition end_call_proc :: "chunk \<Rightarrow> 'st ender list \<Rightarrow> 'st proc" where
  "end_call_proc c es = simple_proc True (ret_process (inplace_func (\<lambda>final st.
     case end_calls (map (\<lambda>e. en_final e c final) es) st of (e, st') \<Rightarrow> ((e, final), st'))))"

definition process_end :: "chunk \<Rightarrow> 'st ender list \<Rightarrow> 'st \<Rightarrow> err option \<times> 'st" where
  "process_end c es st = end_calls (map (\<lambda>e. en_end e c) es) st"

section \<open>The chain\<close>

definition chain_process ::
  "(res list list \<Rightarrow> res list) \<Rightarrow> 'st proc list \<Rightarrow> 'st oprocess" where
  "chain_process mg ps c st =
     bind_outcome (stages_seen mg ps c (single_res c None) st) (\<lambda>((c, outs), st).
       let es = end_procs ps in
       if es = [] then Ret (outs, st)
       else
         bind_outcome (stage mg (end_call_proc c es) outs st) (\<lambda>(outs, st).
           case process_end c es st of
             (None, st') \<Rightarrow> Ret (outs, st')
           | (Some e, st') \<Rightarrow> Ret (outs @ [Res None (Some e)], st')))"

text \<open>\<open>Finish\<close> finishes every proc, and returns the first error that arrives.\<close>

fun finish_each :: "('st \<Rightarrow> err option \<times> 'st) list \<Rightarrow> 'st \<Rightarrow> err option list \<times> 'st" where
  "finish_each [] st = ([], st)"
| "finish_each (f # fs) st =
     (case f st of (e, st') \<Rightarrow> (case finish_each fs st' of (es, st'') \<Rightarrow> (e # es, st'')))"

definition chain_finish ::
  "(err option list \<Rightarrow> err option list) \<Rightarrow> 'st proc list \<Rightarrow> 'st \<Rightarrow> err option \<times> 'st" where
  "chain_finish order ps st =
     (case finish_each (map pr_finish ps) st of (es, st') \<Rightarrow> (concur_first_err (order es), st'))"

text \<open>\<open>Cascade\<close> as a proc, with the \<open>Finish\<close> of all.\<close>

fun cascade_calls :: "'st proc list \<Rightarrow> chunk \<Rightarrow> res list \<Rightarrow> 'st \<Rightarrow> (res list \<times> 'st) outcome" where
  "cascade_calls [] c buf st = Ret (buf, st)"
| "cascade_calls (p # ps) c buf st =
     bind_outcome (pr_process p c st) (\<lambda>(rs, st).
       if stream_err rs \<noteq> None then cascade_calls ps c rs st else Ret (rs, st))"

definition cascade_obj :: "(err option list \<Rightarrow> err option list) \<Rightarrow> 'st proc list \<Rightarrow> 'st proc" where
  "cascade_obj order ps =
     \<lparr>pr_process = (\<lambda>c. cascade_calls ps c []), pr_err = None, pr_ender = None,
      pr_finish = chain_finish order ps, pr_inplace = False\<rparr>"

lemma cascade_calls_ret:
  assumes "list_all2 (\<lambda>p q. pr_process p = ret_process q) ps qs"
  shows "cascade_calls ps c buf st = Ret (cascade_loop qs c buf st)"
  using assms
  by (induction ps qs arbitrary: buf st rule: list_all2_induct) (auto simp: ret_process_def split: prod.split)

definition chain ::
  "(res list list \<Rightarrow> res list) \<Rightarrow> (err option list \<Rightarrow> err option list) \<Rightarrow> 'st proc list \<Rightarrow> 'st proc" where
  "chain mg order ps =
     \<lparr>pr_process = chain_process mg ps, pr_err = None, pr_ender = None,
      pr_finish = chain_finish order ps, pr_inplace = list_all pr_inplace ps\<rparr>"

section \<open>Merging\<close>

text \<open>A merge keeps the results; of a single call, in their order.\<close>

definition merges :: "(res list list \<Rightarrow> res list) \<Rightarrow> bool" where
  "merges mg \<longleftrightarrow> (\<forall>rss. mset (mg rss) = mset (concat rss)) \<and> (\<forall>rs. mg [rs] = rs)"

lemma merges_concat: "merges concat"
  by (simp add: merges_def)

lemma merges_one: "merges mg \<Longrightarrow> mg [rs] = rs"
  by (simp add: merges_def)

lemma merges_empty: "merges mg \<Longrightarrow> mg [] = []"
  unfolding merges_def by (metis concat.simps(1) mset_zero_iff)

lemma merges_no_error: "merges mg \<Longrightarrow> stream_err (concat rss) = None \<Longrightarrow> stream_err (mg rss) = None"
  unfolding merges_def by (metis stream_err_None_iff mset_eq_setD)

section \<open>Procs that give one result for a chunk\<close>

text \<open>
  \<open>InplaceFunc\<close> or \<open>ChunkFunc\<close> over a function that may panic: it returns its error, if any, and
  the chunk of the result, the given one or, from a \<open>ChunkFunc\<close> without error, the new one.
\<close>

type_synonym 'st chunk_fn = "chunk \<Rightarrow> 'st \<Rightarrow> ((err option \<times> chunk) \<times> 'st) outcome"

definition func_proc :: "'st chunk_fn \<Rightarrow> 'st oprocess" where
  "func_proc f c st = bind_outcome (f c st) (\<lambda>((e, c'), st). Ret ([Res (Some c') e], st))"

lemma func_proc_Ret [simp]: "f c st = Ret ((e, c'), st') \<Longrightarrow> func_proc f c st = Ret ([Res (Some c') e], st')"
  by (simp add: func_proc_def)

lemma func_proc_Panic [simp]: "f c st = Panic m \<Longrightarrow> func_proc f c st = Panic m"
  by (simp add: func_proc_def)

text \<open>One after the other, until one fails.\<close>

fun func_chain :: "'st chunk_fn list \<Rightarrow> chunk \<Rightarrow> 'st \<Rightarrow> (res \<times> 'st) outcome" where
  "func_chain [] c st = Ret (Res (Some c) None, st)"
| "func_chain (f # fs) c st =
     bind_outcome (f c st) (\<lambda>((e, c'), st).
       case e of Some e \<Rightarrow> Ret (Res (Some c') (Some e), st) | None \<Rightarrow> func_chain fs c' st)"

lemma stages_error:
  assumes "merges mg" and "\<forall>p \<in> set ps. pr_err p = None"
  shows "stages mg ps [Res c (Some e)] st = Ret ([Res c (Some e)], st)"
  using assms(2)
proof (induction ps arbitrary: st)
  case (Cons p ps)
  then show ?case
    by (cases c) (simp_all add: stage_def merges_one [OF assms(1)])
qed simp

text \<open>The procs of such functions, each with whether it works in place.\<close>

abbreviation func_objs :: "(bool \<times> 'st chunk_fn) list \<Rightarrow> 'st proc list" where
  "func_objs fs \<equiv> map (\<lambda>(inplace, f). simple_proc inplace (func_proc f)) fs"

lemma stages_func_chain:
  assumes "merges mg"
  shows "stages mg (func_objs fs) [Res (Some c) None] st =
    bind_outcome (func_chain (map snd fs) c st) (\<lambda>(r, st). Ret ([r], st))"
proof (induction fs arbitrary: c st)
  case (Cons f fs)
  obtain i g where f: "f = (i, g)"
    by fastforce
  show ?case
  proof (cases "g c st")
    case (Ret x)
    obtain e c' st' where x: "x = ((e, c'), st')"
      by (cases x) auto
    have "stages mg (func_objs fs) [Res (Some c') (Some e)] st' =
        Ret ([Res (Some c') (Some e)], st')" for e
      by (rule stages_error [OF assms]) auto
    with Ret x Cons.IH show ?thesis
      by (cases e) (simp_all add: f stage_def merges_one [OF assms])
  qed (simp add: f stage_def)
qed simp

lemma chain_without_end:
  assumes "end_procs ps = []"
  shows "chain_process mg ps c st = stages mg ps (single_res c None) st"
  using stages_seen_stages [of mg ps c "single_res c None" st]
  unfolding chain_process_def assms by (simp add: Let_def case_prod_unfold)

lemma chain_func_chain:
  assumes "merges mg"
  shows "chain_process mg (func_objs fs) c st =
    bind_outcome (func_chain (map snd fs) c st) (\<lambda>(r, st). Ret ([r], st))"
proof -
  have none: "end_procs (func_objs fs) = []"
    by (auto simp: end_procs_def filter_empty_conv)
  show ?thesis
    unfolding chain_without_end [OF none] single_res_def stages_func_chain [OF assms] ..
qed

end
