(* ===== verification/Index_Format.thy ===== *)
theory Index_Format
  imports Scat_Prelude
begin

text \<open>
  \<^verbatim>\<open>index/write.go\<close>: one index line, the format \<open>"%x %d\n"\<close> of a hash and a size. Strings
  are lists of bytes, as in Go.
\<close>

definition hex_digit :: "nat \<Rightarrow> char" where
  "hex_digit n = ''0123456789abcdef'' ! n"

definition hex_byte :: "byte \<Rightarrow> string" where
  "hex_byte b = [hex_digit (unat b div 16), hex_digit (unat b mod 16)]"

definition hex_string :: "bytes \<Rightarrow> string" where
  "hex_string bs = concat (map hex_byte bs)"

fun dec_nat :: "nat \<Rightarrow> string" where
  "dec_nat n = (if n < 10 then [hex_digit n] else dec_nat (n div 10) @ [hex_digit (n mod 10)])"

declare dec_nat.simps [simp del]

definition dec_int :: "int \<Rightarrow> string" where
  "dec_int i = (if i < 0 then CHR ''-'' # dec_nat (nat (- i)) else dec_nat (nat i))"

definition index_line :: "hash \<Rightarrow> int \<Rightarrow> string" where
  "index_line hash size' = hex_string hash @ '' '' @ dec_int size' @ [CHR 0x0A]"

text \<open>Distinct lines come from distinct entries: the hex digits and the number can be read back.\<close>

lemma hex_digit_inj: "m < 16 \<Longrightarrow> n < 16 \<Longrightarrow> hex_digit m = hex_digit n \<Longrightarrow> m = n"
  unfolding hex_digit_def by (rule nth_eq_iff_index_eq [THEN iffD1]) auto

lemma hex_byte_inj: "hex_byte a = hex_byte b \<Longrightarrow> a = b"
proof -
  assume eq: "hex_byte a = hex_byte b"
  have lt: "unat c div 16 < 16" for c :: byte
  proof -
    have "unat c < 2 ^ LENGTH(8)"
      by (rule unsigned_less)
    then show ?thesis
      by simp
  qed
  have "unat a div 16 = unat b div 16" "unat a mod 16 = unat b mod 16"
    using eq hex_digit_inj lt by (auto simp: hex_byte_def)
  then have "unat a = unat b"
    by (metis div_mult_mod_eq)
  then show ?thesis
    by (simp add: word_unat_eq_iff)
qed

lemma length_hex_string: "length (hex_string bs) = 2 * length bs"
  by (induction bs) (simp_all add: hex_string_def hex_byte_def)

lemma hex_string_inj: "hex_string xs = hex_string ys \<Longrightarrow> xs = ys"
proof (induction xs arbitrary: ys)
  case Nil
  then have "length (hex_string ys) = 0"
    by (simp add: hex_string_def)
  then show ?case
    by (simp add: length_hex_string)
next
  case (Cons x xs)
  then obtain y ys' where ys: "ys = y # ys'"
    by (cases ys) (simp_all add: hex_string_def hex_byte_def)
  with Cons.prems have "hex_byte x = hex_byte y" "hex_string xs = hex_string ys'"
    by (simp_all add: hex_string_def hex_byte_def)
  with Cons.IH ys show ?case
    by (simp add: hex_byte_inj)
qed

end
