(* ===== verification/Stats.thy ===== *)
theory Stats
  imports Chain Index_Format
begin

text \<open>
  \<^verbatim>\<open>slidecnt/counter.go\<close> and \<^verbatim>\<open>stats/\<close>: the counters behind \<open>-stats\<close>, the proc that counts what
  another puts out, and the table that shows them. Times are nanoseconds, given by the caller.
\<close>

section \<open>Sums over a window of time\<close>

record tick =
  tk_time :: int
  tk_num :: uint64

record slide_counter =
  sc_window :: int
  sc_ticks :: "tick list"

definition slide_prune :: "int \<Rightarrow> slide_counter \<Rightarrow> slide_counter" where
  "slide_prune now c =
     (let min_time = now - sc_window c in
      c\<lparr>sc_ticks := dropWhile (\<lambda>t. \<not> (min_time < tk_time t \<or> tk_time t = min_time)) (sc_ticks c)\<rparr>)"

definition slide_add :: "int \<Rightarrow> uint64 \<Rightarrow> slide_counter \<Rightarrow> slide_counter" where
  "slide_add now num c =
     (let c' = slide_prune now c in c'\<lparr>sc_ticks := sc_ticks c' @ [\<lparr>tk_time = now, tk_num = num\<rparr>]\<rparr>)"

text \<open>
  \<open>AvgRate\<close>. The quotient in floating point, \<open>float64(elapsed) / float64(unit)\<close> and the sum by
  it, is a parameter; it is asked only for positive numbers.
\<close>

definition slide_avg_rate ::
  "(uint64 \<Rightarrow> int \<Rightarrow> int \<Rightarrow> uint64) \<Rightarrow> int \<Rightarrow> int \<Rightarrow> slide_counter \<Rightarrow> uint64 \<times> slide_counter" where
  "slide_avg_rate fdiv now unit c =
     (if unit = 0 then (0, c)
      else
        (let c' = slide_prune now c in
         case sc_ticks c' of
           [] \<Rightarrow> (0, c')
         | t # ts \<Rightarrow>
             (let elapsed = now - tk_time t in
              if elapsed = 0 then (0, c')
              else (fdiv (\<Sum>t \<leftarrow> sc_ticks c'. tk_num t) elapsed unit, c'))))"

section \<open>Counters\<close>

record counter =
  ct_pos :: "32 word"
  ct_last :: int
  ct_inst :: "32 word"
  ct_out :: slide_counter
  ct_quota_init :: bool
  ct_quota_use :: uint64
  ct_quota_max :: uint64

record 'id statsd =
  sd_counters :: "('id \<times> counter) list"
  sd_next_pos :: "32 word"

definition out_rate_window :: int where
  "out_rate_window = 2000000000"

definition alive_threshold :: int where
  "alive_threshold = 1000000000"

definition new_statsd :: "'id statsd" where
  "new_statsd = \<lparr>sd_counters = [], sd_next_pos = 0\<rparr>"

definition new_counter :: "32 word \<Rightarrow> counter" where
  "new_counter pos =
     \<lparr>ct_pos = pos, ct_last = 0, ct_inst = 0, ct_out = \<lparr>sc_window = out_rate_window, sc_ticks = []\<rparr>,
      ct_quota_init = False, ct_quota_use = 0, ct_quota_max = 0\<rparr>"

text \<open>\<open>Counter(id)\<close> returns a pointer: here the state has the counter, to be changed in place.\<close>

definition stats_counter :: "'id \<Rightarrow> 'id statsd \<Rightarrow> 'id statsd" where
  "stats_counter i st =
     (if map_of (sd_counters st) i = None then
        st\<lparr>sd_counters := AList.update i (new_counter (sd_next_pos st)) (sd_counters st),
           sd_next_pos := sd_next_pos st + 1\<rparr>
      else st)"

definition upd_counter :: "'id \<Rightarrow> (counter \<Rightarrow> counter) \<Rightarrow> 'id statsd \<Rightarrow> 'id statsd" where
  "upd_counter i f st = st\<lparr>sd_counters := AList.map_entry i f (sd_counters st)\<rparr>"

definition add_inst :: "int \<Rightarrow> 32 word \<Rightarrow> counter \<Rightarrow> counter" where
  "add_inst now delta c = c\<lparr>ct_inst := ct_inst c + delta, ct_last := now\<rparr>"

definition add_out :: "int \<Rightarrow> uint64 \<Rightarrow> counter \<Rightarrow> counter" where
  "add_out now delta c = c\<lparr>ct_out := slide_add now delta (ct_out c)\<rparr>"

text \<open>\<open>sortedCounters\<close>: \<open>entries\<close> are those of the map, in any order.\<close>

definition sorted_counters :: "('id \<times> counter) list \<Rightarrow> ('id \<times> counter) list" where
  "sorted_counters entries = sort_key (\<lambda>(i, c). ct_pos c) entries"

section \<open>The proc that counts\<close>

text \<open>
  \<open>Proc.Process\<close>, with the times of the call, of each result and of the end: what each result's
  chunk has as data is added to the rate if its size is known.
\<close>

fun count_results :: "'id \<Rightarrow> int list \<Rightarrow> res list \<Rightarrow> 'id statsd \<Rightarrow> 'id statsd" where
  "count_results i ts [] sd = sd"
| "count_results i ts (r # rs) sd =
     count_results i (tl ts) rs
       (case res_chunk r of
          None \<Rightarrow> sd
        | Some c \<Rightarrow>
            (case data_size (chunk_data c) of
               None \<Rightarrow> sd
             | Some sz \<Rightarrow> if 0 \<le> sz then upd_counter i (add_out (hd ts) (word_of_int sz)) sd else sd))"

definition stats_process ::
  "'id \<Rightarrow> int \<Rightarrow> int list \<Rightarrow> int \<Rightarrow> 'st oprocess \<Rightarrow> ('st \<times> 'id statsd) oprocess" where
  "stats_process i t0 ts t1 p c st =
     (case st of (s, sd) \<Rightarrow>
        bind_outcome (p c s) (\<lambda>(rs, s').
          let sd1 = upd_counter i (add_inst t0 1) (stats_counter i sd);
              sd2 = upd_counter i (add_inst t1 (- 1)) (count_results i ts rs sd1)
          in Ret (rs, (s', sd2))))"

section \<open>The table\<close>

text \<open>\<open>%Ns\<close>: padded on the left. The symbol for no limit is one rune wide.\<close>

definition pad_left :: "nat \<Rightarrow> string \<Rightarrow> string" where
  "pad_left n s = replicate (n - length s) CHR '' '' @ s"

definition infinity_sign :: string where
  "infinity_sign = [CHR 0xE2, CHR 0x88, CHR 0x9E]"

definition pad_cell :: "nat \<Rightarrow> string \<Rightarrow> string" where
  "pad_cell n s = (if s = infinity_sign then replicate (n - 1) CHR '' '' @ s else pad_left n s)"

definition tab :: string where
  "tab = [CHR 0x09]"

definition format_quota :: "(uint64 \<Rightarrow> string) \<Rightarrow> uint64 \<Rightarrow> bool \<Rightarrow> string" where
  "format_quota ibytes n blank_zero =
     (if n = - 1 then infinity_sign else if n = 0 \<and> blank_zero then [] else ibytes n)"

definition format_quota_fill :: "(uint64 \<Rightarrow> uint64 \<Rightarrow> string) \<Rightarrow> uint64 \<Rightarrow> uint64 \<Rightarrow> string" where
  "format_quota_fill percent used mx =
     (if mx = - 1 then infinity_sign else if mx = 0 then [] else percent used mx)"

text \<open>A line of the table, and the counter, whose rate is pruned when it is shown.\<close>

definition stats_row ::
  "('id \<Rightarrow> string) \<Rightarrow> (uint64 \<Rightarrow> string) \<Rightarrow> (uint64 \<Rightarrow> uint64 \<Rightarrow> string) \<Rightarrow> (uint64 \<Rightarrow> int \<Rightarrow> int \<Rightarrow> uint64) \<Rightarrow>
   int \<Rightarrow> 'id \<Rightarrow> counter \<Rightarrow> string \<times> counter" where
  "stats_row show_id ibytes percent fdiv now i c =
     (let dead = (ct_inst c = 0 \<and> alive_threshold < now - ct_last c);
          (out, c') = (if dead then ([], c)
            else (case slide_avg_rate fdiv now 1000000000 (ct_out c) of
                    (n, sc) \<Rightarrow> (ibytes n @ ''/s'', c\<lparr>ct_out := sc\<rparr>)));
          quota_use = (if ct_quota_init c then CHR 0x1B # ''[33mcalculating'' @ CHR 0x1B # ''[0m''
            else format_quota ibytes (ct_quota_use c) (ct_quota_max c = 0));
          line = pad_left 15 (show_id i) @ tab @ ''x'' @ dec_int (sint (ct_inst c)) @ tab @
            pad_left 12 out @ tab @ pad_cell 11 quota_use @ tab @
            pad_cell 10 (format_quota ibytes (ct_quota_max c) True) @ tab @
            pad_cell 7 (format_quota_fill percent (ct_quota_use c) (ct_quota_max c)) @ [CHR 0x0A]
      in (if dead then CHR 0x1B # ''[90m'' @ line @ CHR 0x1B # ''[0m'' else line, c'))"

text \<open>A writer: how many bytes it took, and its error.\<close>

type_synonym 'w text_writer = "string \<Rightarrow> 'w \<Rightarrow> (int \<times> err option) \<times> 'w"

fun stats_rows ::
  "('id \<Rightarrow> counter \<Rightarrow> string \<times> counter) \<Rightarrow> 'w text_writer \<Rightarrow> ('id \<times> counter) list \<Rightarrow>
   int \<Rightarrow> 'id statsd \<Rightarrow> 'w \<Rightarrow> (int \<times> err option) \<times> 'id statsd \<times> 'w" where
  "stats_rows row wr [] written sd w = ((written, None), sd, w)"
| "stats_rows row wr ((i, c) # cs) written sd w =
     (case row i c of (line, c') \<Rightarrow>
        (case wr line w of
           ((n, Some e), w') \<Rightarrow> ((written + n, Some e), upd_counter i (\<lambda>_. c') sd, w')
         | ((n, None), w') \<Rightarrow> stats_rows row wr cs (written + n) (upd_counter i (\<lambda>_. c') sd) w'))"

definition stats_header :: string where
  "stats_header = pad_left 15 ''PROC'' @ tab @ ''INST'' @ tab @ pad_left 12 ''RATE'' @ tab @
     pad_left 11 ''USE'' @ tab @ pad_left 10 ''QUOTA'' @ tab @ pad_left 7 ''FILL'' @ [CHR 0x0A]"

definition stats_write_to ::
  "('id \<Rightarrow> counter \<Rightarrow> string \<times> counter) \<Rightarrow> ('id \<times> counter) list \<Rightarrow> int \<Rightarrow> 'w text_writer \<Rightarrow>
   'id statsd \<Rightarrow> 'w \<Rightarrow> (int \<times> err option) \<times> 'id statsd \<times> 'w" where
  "stats_write_to row entries goroutines wr sd w =
     (case wr stats_header w of
        ((n, Some e), w1) \<Rightarrow> ((n, Some e), sd, w1)
      | ((n, None), w1) \<Rightarrow>
          (case stats_rows row wr (sorted_counters entries) n sd w1 of
             ((n, Some e), sd', w2) \<Rightarrow> ((n, Some e), sd', w2)
           | ((n, None), sd', w2) \<Rightarrow>
               (case wr (pad_left 15 ''(goroutines)'' @ tab @ ''x'' @ dec_int goroutines @ [CHR 0x0A]) w2 of
                  ((m, e), w3) \<Rightarrow> ((n + m, e), sd', w3))))"

section \<open>What the window holds\<close>

text \<open>The counter after additions at the given times.\<close>

definition slide_run :: "int \<Rightarrow> (int \<times> uint64) list \<Rightarrow> slide_counter" where
  "slide_run window adds =
     fold (\<lambda>(t, n) c. slide_add t n c) adds \<lparr>sc_window = window, sc_ticks = []\<rparr>"

definition tick_of :: "int \<times> uint64 \<Rightarrow> tick" where
  "tick_of a = \<lparr>tk_time = fst a, tk_num = snd a\<rparr>"

lemma slide_run_snoc: "slide_run w (adds @ [(t, n)]) = slide_add t n (slide_run w adds)"
  by (simp add: slide_run_def)

lemma slide_run_window [simp]: "sc_window (slide_run w adds) = w"
  by (induction adds rule: rev_induct) (auto simp: slide_run_snoc slide_add_def slide_prune_def Let_def slide_run_def split: prod.splits)

lemma dropWhile_sorted_filter:
  "sorted (map f xs) \<Longrightarrow> dropWhile (\<lambda>x. f x < (a :: int)) xs = filter (\<lambda>x. a \<le> f x) xs"
proof (induction xs)
  case (Cons x xs)
  show ?case
  proof (cases "f x < a")
    case False
    then have "\<forall>y \<in> set xs. a \<le> f y"
      using Cons.prems by auto
    with False show ?thesis
      by simp
  qed (use Cons in simp)
qed simp

lemma slide_prune_ticks:
  "sc_ticks (slide_prune now c) = dropWhile (\<lambda>t. tk_time t < now - sc_window c) (sc_ticks c)"
  by (auto simp: slide_prune_def Let_def intro!: dropWhile_cong)

lemma slide_run_ticks:
  assumes "sorted (map fst adds)" and "adds \<noteq> []" and "0 \<le> w"
  shows "sc_ticks (slide_run w adds) = map tick_of (filter (\<lambda>(t, n). fst (last adds) - w \<le> t) adds)"
  using assms(1,2)
proof (induction adds rule: rev_induct)
  case (snoc a adds)
  obtain t n where a: "a = (t, n)"
    by fastforce
  have sorted: "sorted (map fst adds)" "\<forall>b \<in> set adds. fst b \<le> t"
    using snoc.prems(1) by (auto simp: a sorted_append)
  have ticks: "\<exists>u \<le> t. sc_ticks (slide_run w adds) = map tick_of (filter (\<lambda>(s, n). u - w \<le> s) adds)"
  proof (cases "adds = []")
    case True
    then show ?thesis
      by (auto simp: slide_run_def)
  next
    case False
    then show ?thesis
      using snoc.IH sorted by (intro exI [of _ "fst (last adds)"]) simp
  qed
  then obtain u where u: "u \<le> t" "sc_ticks (slide_run w adds) = map tick_of (filter (\<lambda>(s, n). u - w \<le> s) adds)"
    by blast
  have "sorted (map fst (filter (\<lambda>(s, n). u - w \<le> s) adds))"
    using sorted(1) by (rule sorted_filter)
  then have "dropWhile (\<lambda>k. tk_time k < t - w) (sc_ticks (slide_run w adds)) =
      map tick_of (filter (\<lambda>(s, n). t - w \<le> s) adds)"
    using u by (subst dropWhile_sorted_filter)
      (auto simp: comp_def tick_of_def filter_map intro!: arg_cong [of _ _ "map tick_of"] filter_cong)
  then show ?case
    using assms(3) by (simp add: a slide_run_snoc slide_add_def Let_def slide_prune_ticks tick_of_def)
qed simp

section \<open>Positions\<close>

lemma map_entry_keys [simp]: "map fst (AList.map_entry i f xs) = map fst xs"
  by (induction xs) auto

text \<open>The counters in the order they were first asked for, numbered from 0.\<close>

definition numbered :: "'id statsd \<Rightarrow> bool" where
  "numbered st \<longleftrightarrow>
     (\<forall>k < length (sd_counters st). ct_pos (snd (sd_counters st ! k)) = word_of_nat k) \<and>
     sd_next_pos st = word_of_nat (length (sd_counters st))"

lemma update_new: "map_of xs k = None \<Longrightarrow> AList.update k v xs = xs @ [(k, v)]"
  by (induction xs) (auto split: if_splits)

lemma stats_counter_numbered: "numbered st \<Longrightarrow> numbered (stats_counter i st)"
  by (auto simp: numbered_def stats_counter_def update_new nth_append new_counter_def less_Suc_eq)

lemma stats_counter_keys:
  "map fst (sd_counters (stats_counter i st)) =
     (if i \<in> fst ` set (sd_counters st) then map fst (sd_counters st) else map fst (sd_counters st) @ [i])"
  by (auto simp: stats_counter_def update_new map_of_eq_None_iff)

definition first_uses :: "'id list \<Rightarrow> 'id list" where
  "first_uses is = rev (remdups (rev is))"

lemma first_uses_snoc: "first_uses (is @ [i]) = (if i \<in> set is then first_uses is else first_uses is @ [i])"
  by (simp add: first_uses_def)

lemma fold_stats_counter:
  "numbered (fold stats_counter is new_statsd) \<and>
   map fst (sd_counters (fold stats_counter is new_statsd)) = first_uses is"
proof (induction "is" rule: rev_induct)
  case Nil
  show ?case
    by (simp add: numbered_def new_statsd_def first_uses_def)
next
  case (snoc i "is")
  have "fst ` set (sd_counters (fold stats_counter is new_statsd)) = set is"
    using arg_cong [OF conjunct2 [OF snoc], of set] by (simp add: first_uses_def)
  with snoc show ?case
    by (simp add: stats_counter_numbered stats_counter_keys first_uses_snoc)
qed

lemma sorted_counters_numbered:
  assumes "numbered st" and "mset entries = mset (sd_counters st)" and "length (sd_counters st) \<le> 2 ^ 32"
  shows "sorted_counters entries = sd_counters st"
proof -
  let ?pos = "\<lambda>(i, c). ct_pos c" and ?cs = "sd_counters st"
  have pos: "?pos (?cs ! k) = word_of_nat k" if "k < length ?cs" for k
    using assms(1) that by (simp add: numbered_def case_prod_beta)
  have mono: "(word_of_nat j :: 32 word) < word_of_nat k" if "j < k" "k < length ?cs" for j k
    using that assms(3) by (simp add: word_less_nat_alt unat_of_nat take_bit_nat_eq_self)
  have sorted: "sorted (map ?pos ?cs)"
    by (auto simp: sorted_iff_nth_mono_less pos less_imp_le mono)
  have "inj_on ?pos (set ?cs)"
  proof (rule inj_onI)
    fix x y
    assume x: "x \<in> set ?cs" and y: "y \<in> set ?cs" and eq: "?pos x = ?pos y"
    obtain j k where jk: "j < length ?cs" "x = ?cs ! j" "k < length ?cs" "y = ?cs ! k"
      using x y by (metis in_set_conv_nth)
    then have "(word_of_nat j :: 32 word) = word_of_nat k"
      using eq pos by simp
    then have "j = k"
      using mono [of j k] mono [of k j] jk by (metis less_irrefl linorder_neqE_nat)
    with jk show "x = y"
      by simp
  qed
  then have pick: "filter (\<lambda>x. ?pos k = ?pos x) zs = filter ((=) k) zs"
    if "k \<in> set ?cs" "set zs = set ?cs" for k zs
    using that by (intro filter_cong) (auto simp: inj_on_def)
  have filter: "filter ((=) k) zs = replicate (count (mset zs) k) k" for k and zs :: "('a \<times> counter) list"
    by (induction zs) auto
  have count: "filter ((=) k) entries = filter ((=) k) ?cs" for k
    unfolding filter assms(2) ..
  have set: "set entries = set ?cs"
    using assms(2) by (rule mset_eq_setD)
  show ?thesis
    unfolding sorted_counters_def
  proof (rule properties_for_sort_key [OF assms(2) [symmetric] _ sorted])
    fix k
    assume "k \<in> set ?cs"
    then show "filter (\<lambda>x. ?pos k = ?pos x) ?cs = filter (\<lambda>x. ?pos k = ?pos x) entries"
      using pick [of k ?cs] pick [of k entries] set count by simp
  qed
qed

section \<open>The proc changes nothing\<close>

lemma map_of_upd_counter:
  "map_of (sd_counters (upd_counter i f sd)) j =
     (if j = i then map_option f (map_of (sd_counters sd) i) else map_of (sd_counters sd) j)"
  by (simp add: upd_counter_def map_of_map_entry split: option.split)

text \<open>The times and sizes of the results whose data has a size.\<close>

definition output_of :: "int \<times> res \<Rightarrow> (int \<times> uint64) option" where
  "output_of tr = (case res_chunk (snd tr) of
     None \<Rightarrow> None
   | Some c \<Rightarrow> map_option (\<lambda>sz. (fst tr, word_of_int sz)) (data_size (chunk_data c)))"

definition outputs :: "int list \<Rightarrow> res list \<Rightarrow> (int \<times> uint64) list" where
  "outputs ts rs = List.map_filter output_of (zip ts rs)"

definition slide_adds :: "(int \<times> uint64) list \<Rightarrow> slide_counter \<Rightarrow> slide_counter" where
  "slide_adds adds sc = fold (\<lambda>(t, n). slide_add t n) adds sc"

lemma data_size_nonneg: "data_size d = Some sz \<Longrightarrow> 0 \<le> sz"
  by (cases d) auto

lemma count_results_others: "j \<noteq> i \<Longrightarrow> map_of (sd_counters (count_results i ts rs sd)) j = map_of (sd_counters sd) j"
  by (induction i ts rs sd rule: count_results.induct)
    (auto simp: map_of_upd_counter split: option.split)

lemma count_results_counter:
  "length ts = length rs \<Longrightarrow> map_of (sd_counters sd) i = Some c \<Longrightarrow>
   map_of (sd_counters (count_results i ts rs sd)) i = Some (c\<lparr>ct_out := slide_adds (outputs ts rs) (ct_out c)\<rparr>)"
proof (induction ts rs arbitrary: sd c rule: list_induct2)
  case Nil
  then show ?case
    by (simp add: outputs_def List.map_filter_def slide_adds_def)
next
  case (Cons t ts r rs)
  show ?case
  proof (cases "output_of (t, r)")
    case None
    then have "outputs (t # ts) (r # rs) = outputs ts rs"
      by (simp add: outputs_def List.map_filter_def)
    moreover have "count_results i (t # ts) (r # rs) sd = count_results i ts rs sd"
      using None by (auto simp: output_of_def split: option.splits)
    ultimately show ?thesis
      using Cons by simp
  next
    case (Some a)
    then obtain c' sz where r: "res_chunk r = Some c'" "data_size (chunk_data c') = Some sz"
      and a: "a = (t, word_of_int sz)"
      by (auto simp: output_of_def split: option.splits)
    have "outputs (t # ts) (r # rs) = (t, word_of_int sz) # outputs ts rs"
      using Some a by (simp add: outputs_def List.map_filter_def)
    moreover have "count_results i (t # ts) (r # rs) sd =
        count_results i ts rs (upd_counter i (add_out t (word_of_int sz)) sd)"
      using r data_size_nonneg [OF r(2)] by simp
    moreover have "map_of (sd_counters (upd_counter i (add_out t (word_of_int sz)) sd)) i =
        Some (c\<lparr>ct_out := slide_add t (word_of_int sz) (ct_out c)\<rparr>)"
      using Cons.prems by (simp add: map_of_upd_counter add_out_def)
    ultimately show ?thesis
      using Cons.IH by (simp add: slide_adds_def)
  qed
qed

definition counter_or_new :: "'id \<Rightarrow> 'id statsd \<Rightarrow> counter" where
  "counter_or_new i sd =
     (case map_of (sd_counters sd) i of Some c \<Rightarrow> c | None \<Rightarrow> new_counter (sd_next_pos sd))"

lemma stats_counter_of:
  "map_of (sd_counters (stats_counter i sd)) j =
     (if j = i then Some (counter_or_new i sd) else map_of (sd_counters sd) j)"
  by (auto simp: stats_counter_def counter_or_new_def update_conv' split: option.split)

text \<open>
  A call of the proc passes on what the proc inside puts out, counts what of it has data, and is
  counted as running only while it runs; no other counter changes.
\<close>

lemma stats_process_passes:
  assumes "p c s = Ret (rs, s')" and "length ts = length rs"
  shows "\<exists>sd'. stats_process i t0 ts t1 p c (s, sd) = Ret (rs, (s', sd')) \<and>
    map_of (sd_counters sd') i =
      Some (let k = counter_or_new i sd in k\<lparr>ct_last := t1, ct_out := slide_adds (outputs ts rs) (ct_out k)\<rparr>) \<and>
    (\<forall>j. j \<noteq> i \<longrightarrow> map_of (sd_counters sd') j = map_of (sd_counters sd) j)"
proof -
  let ?sd1 = "upd_counter i (add_inst t0 1) (stats_counter i sd)"
  have "map_of (sd_counters ?sd1) i = Some (add_inst t0 1 (counter_or_new i sd))"
    by (simp add: map_of_upd_counter stats_counter_of)
  from count_results_counter [OF assms(2) this] show ?thesis
    by (simp add: stats_process_def assms(1) map_of_upd_counter count_results_others stats_counter_of
        add_inst_def Let_def)
qed

end
