(* ===== verification/Quota_Report.thy ===== *)
theory Quota_Report
  imports Quota Stats
begin

text \<open>
  What \<^verbatim>\<open>argproc/argproc.go\<close> puts between the quotas of \<^verbatim>\<open>stores/quota/\<close> and the counters of
  \<^verbatim>\<open>stats/\<close>: the quota of a resource is shown when it is parsed, its use each time the manager
  counts one, and that it is being listed while it is. A use is counted under the manager's lock but
  read and shown after that is released, so that the reports of several goroutines may overtake each
  other.
\<close>

section \<open>Reports\<close>

text \<open>The filter of \<open>newArgQuota\<close>.\<close>

definition quota_max_report :: "'id \<Rightarrow> uint64 \<Rightarrow> 'id statsd \<Rightarrow> 'id statsd" where
  "quota_max_report i mx sd = upd_counter i (\<lambda>c. c\<lparr>ct_quota_max := mx\<rparr>) (stats_counter i sd)"

text \<open>The \<open>OnUse\<close> of the manager that \<open>newS\<close> makes.\<close>

definition quota_use_report :: "('r \<Rightarrow> 'id) \<Rightarrow> 'r \<Rightarrow> uint64 \<Rightarrow> uint64 \<Rightarrow> 'id statsd \<Rightarrow> 'id statsd" where
  "quota_use_report rid r n mx sd =
     upd_counter (rid r) (\<lambda>c. c\<lparr>ct_quota_use := n, ct_quota_max := mx\<rparr>) (stats_counter (rid r) sd)"

text \<open>\<open>quotaInitReport.Ls\<close>, and what it does before and after the listing of its lister.\<close>

definition ls_begin :: "'id \<Rightarrow> 'id statsd \<Rightarrow> 'id statsd" where
  "ls_begin i sd = upd_counter i (\<lambda>c. c\<lparr>ct_quota_init := True\<rparr>) (stats_counter i sd)"

definition ls_done :: "'id \<Rightarrow> 'id statsd \<Rightarrow> 'id statsd" where
  "ls_done i sd = upd_counter i (\<lambda>c. c\<lparr>ct_quota_init := False\<rparr>) sd"

definition quota_init_report :: "'id \<Rightarrow> ('id statsd \<Rightarrow> 'a \<times> 'id statsd) \<Rightarrow> 'id statsd \<Rightarrow> 'a \<times> 'id statsd" where
  "quota_init_report i ls sd = (case ls (ls_begin i sd) of (x, sd') \<Rightarrow> (x, ls_done i sd'))"

section \<open>A manager and its counters\<close>

text \<open>The resources as they are parsed, one after the other, and then given to the manager.\<close>

definition quota_setup ::
  "('r \<Rightarrow> 'id) \<Rightarrow> ('r \<times> uint64) list \<Rightarrow> 'id statsd \<Rightarrow> ('id, 'r) quota_man \<times> 'id statsd" where
  "quota_setup rid ress sd =
     (fold (\<lambda>(r, mx). man_add_res_quota rid r mx) ress new_man,
      fold (\<lambda>(r, mx). quota_max_report (rid r) mx) ress sd)"

text \<open>
  A call of \<open>AddUse\<close> that \<open>addUse\<close> has given a pointer to the usage of its resource: before it has
  read the use and the quota through the pointer, and after that, before \<open>OnUse\<close> is done.
\<close>

datatype 'r use_call = Counted 'r | HasRead 'r uint64 uint64

fun call_res :: "'r use_call \<Rightarrow> 'r" where
  "call_res (Counted r) = r"
| "call_res (HasRead r n mx) = r"

fun has_read :: "'r use_call \<Rightarrow> bool" where
  "has_read (Counted r) = False"
| "has_read (HasRead r n mx) = True"

text \<open>
  The manager; the usages pointers lead to, also when the manager has deleted them; the calls under
  way, by goroutine; and the counters.
\<close>

record ('id, 'r) quota_view =
  qv_man :: "('id, 'r) quota_man"
  qv_usages :: "('id \<times> 'r usage) list"
  qv_calls :: "(nat \<times> 'r use_call) list"
  qv_stats :: "'id statsd"

definition quota_start :: "('r \<Rightarrow> 'id) \<Rightarrow> ('r \<times> uint64) list \<Rightarrow> 'id statsd \<Rightarrow> ('id, 'r) quota_view" where
  "quota_start rid ress sd =
     (case quota_setup rid ress sd of
        (man, sd') \<Rightarrow> \<lparr>qv_man = man, qv_usages = man, qv_calls = [], qv_stats = sd'\<rparr>)"

text \<open>
  What then happens, from any goroutine: the parts of a call of \<open>AddUse\<close>, removals, and listings that
  begin and end. \<open>None\<close> is a step that is not there to be made.
\<close>

datatype 'r quota_op =
    UseCount nat 'r uint64
  | UseRead nat
  | UseReport nat
  | Dropped 'r
  | LsBegin 'r
  | LsDone 'r

fun quota_step :: "('r \<Rightarrow> 'id) \<Rightarrow> 'r quota_op \<Rightarrow> ('id, 'r) quota_view \<Rightarrow> ('id, 'r) quota_view option" where
  "quota_step rid (UseCount g r n) v =
     (if map_of (qv_calls v) g \<noteq> None then None
      else (case man_count_use rid r n (qv_man v) of
              (None, man) \<Rightarrow> Some (v\<lparr>qv_man := man\<rparr>)
            | (Some u, man) \<Rightarrow>
                Some (v\<lparr>qv_man := man, qv_usages := AList.update (rid r) u (qv_usages v),
                        qv_calls := (g, Counted r) # qv_calls v\<rparr>)))"
| "quota_step rid (UseRead g) v =
     (case map_of (qv_calls v) g of
        Some (Counted r) \<Rightarrow>
          map_option
            (\<lambda>u. v\<lparr>qv_calls := (g, HasRead r (u_use u) (u_max u)) # AList.delete g (qv_calls v)\<rparr>)
            (map_of (qv_usages v) (rid r))
      | _ \<Rightarrow> None)"
| "quota_step rid (UseReport g) v =
     (case map_of (qv_calls v) g of
        Some (HasRead r n mx) \<Rightarrow>
          Some (v\<lparr>qv_stats := quota_use_report rid r n mx (qv_stats v),
                  qv_calls := AList.delete g (qv_calls v)\<rparr>)
      | _ \<Rightarrow> None)"
| "quota_step rid (Dropped r) v = Some (v\<lparr>qv_man := man_delete rid r (qv_man v)\<rparr>)"
| "quota_step rid (LsBegin r) v = Some (v\<lparr>qv_stats := ls_begin (rid r) (qv_stats v)\<rparr>)"
| "quota_step rid (LsDone r) v = Some (v\<lparr>qv_stats := ls_done (rid r) (qv_stats v)\<rparr>)"

fun quota_run :: "('r \<Rightarrow> 'id) \<Rightarrow> 'r quota_op list \<Rightarrow> ('id, 'r) quota_view \<Rightarrow> ('id, 'r) quota_view option" where
  "quota_run rid [] v = Some v"
| "quota_run rid (op # ops) v = Option.bind (quota_step rid op v) (quota_run rid ops)"

text \<open>One call after the other is the \<open>AddUse\<close> of the manager.\<close>

lemma quota_run_add_use:
  assumes "qv_calls v = []"
  shows "case man_add_use rid (Some (quota_use_report rid)) r n (qv_man v) (qv_stats v) of (man, sd) \<Rightarrow>
    \<exists>v'. (quota_run rid [UseCount g r n, UseRead g, UseReport g] v = Some v' \<or>
           quota_run rid [UseCount g r n] v = Some v') \<and>
         qv_man v' = man \<and> qv_stats v' = sd \<and> qv_calls v' = []"
  using assms by (cases "map_of (qv_man v) (rid r)")
    (auto simp: man_add_use_def man_count_use_def Let_def update_conv')

text \<open>
  Whether a call for a resource with this id is under way, and whether one of them has read the use;
  and runs in which no use is counted between the reading and the report of another.
\<close>

definition busy :: "('r \<Rightarrow> 'id) \<Rightarrow> 'id \<Rightarrow> ('id, 'r) quota_view \<Rightarrow> bool" where
  "busy rid i v \<longleftrightarrow> (\<exists>(g, k) \<in> set (qv_calls v). rid (call_res k) = i)"

definition reading :: "('r \<Rightarrow> 'id) \<Rightarrow> 'id \<Rightarrow> ('id, 'r) quota_view \<Rightarrow> bool" where
  "reading rid i v \<longleftrightarrow> (\<exists>(g, k) \<in> set (qv_calls v). rid (call_res k) = i \<and> has_read k)"

fun counts_apart :: "('r \<Rightarrow> 'id) \<Rightarrow> 'id \<Rightarrow> 'r quota_op list \<Rightarrow> ('id, 'r) quota_view \<Rightarrow> bool" where
  "counts_apart rid i [] v = True"
| "counts_apart rid i (op # ops) v =
     ((case op of UseCount g r n \<Rightarrow> rid r \<noteq> i \<or> \<not> reading rid i v | _ \<Rightarrow> True) \<and>
      (case quota_step rid op v of None \<Rightarrow> True | Some v' \<Rightarrow> counts_apart rid i ops v'))"

section \<open>The counters show the quotas\<close>

text \<open>
  The counter of a resource with the quota \<open>mx\<close> shows the quota, and the use when no call is under
  way; calls that have read the use are to show it as it is; the manager has the usage or, when it
  was not removed, the resource is full.
\<close>

definition shows_quota :: "('r \<Rightarrow> 'id) \<Rightarrow> 'id \<Rightarrow> bool \<Rightarrow> uint64 \<Rightarrow> ('id, 'r) quota_view \<Rightarrow> bool" where
  "shows_quota rid i dropped mx v \<longleftrightarrow> distinct (map fst (qv_calls v)) \<and>
     (\<exists>c u. map_of (sd_counters (qv_stats v)) i = Some c \<and> ct_quota_max c = mx \<and>
        map_of (qv_usages v) i = Some u \<and> u_max u = mx \<and>
        (map_of (qv_man v) i = Some u \<or> map_of (qv_man v) i = None \<and> (dropped \<or> mx \<le> u_use u)) \<and>
        (\<forall>g r n m. (g, HasRead r n m) \<in> set (qv_calls v) \<longrightarrow> rid r = i \<longrightarrow> n = u_use u \<and> m = mx) \<and>
        (busy rid i v \<or> ct_quota_use c = u_use u))"

lemma map_of_report:
  "map_of (sd_counters (upd_counter i f (stats_counter i sd))) j =
     (if j = i then Some (f (counter_or_new i sd)) else map_of (sd_counters sd) j)"
  by (simp add: map_of_upd_counter stats_counter_of)

lemma counter_or_new_found: "map_of (sd_counters sd) i = Some c \<Longrightarrow> counter_or_new i sd = c"
  by (simp add: counter_or_new_def)

lemma in_delete: "x \<in> set (AList.delete g xs) \<longleftrightarrow> x \<in> set xs \<and> fst x \<noteq> g"
  by (auto simp: AList.delete_eq)

lemma shows_quotaE:
  assumes "shows_quota rid i d mx v"
  obtains c u where "distinct (map fst (qv_calls v))"
    and "map_of (sd_counters (qv_stats v)) i = Some c" and "ct_quota_max c = mx"
    and "map_of (qv_usages v) i = Some u" and "u_max u = mx"
    and "map_of (qv_man v) i = Some u \<or> map_of (qv_man v) i = None \<and> (d \<or> mx \<le> u_use u)"
    and "\<And>g r n m. (g, HasRead r n m) \<in> set (qv_calls v) \<Longrightarrow> rid r = i \<Longrightarrow> n = u_use u \<and> m = mx"
    and "busy rid i v \<or> ct_quota_use c = u_use u"
  using assms unfolding shows_quota_def by blast

lemma shows_quotaI:
  assumes "distinct (map fst (qv_calls v))"
    and "map_of (sd_counters (qv_stats v)) i = Some c" and "ct_quota_max c = mx"
    and "map_of (qv_usages v) i = Some u" and "u_max u = mx"
    and "map_of (qv_man v) i = Some u \<or> map_of (qv_man v) i = None \<and> (d \<or> mx \<le> u_use u)"
    and "\<And>g r n m. (g, HasRead r n m) \<in> set (qv_calls v) \<Longrightarrow> rid r = i \<Longrightarrow> n = u_use u \<and> m = mx"
    and "busy rid i v \<or> ct_quota_use c = u_use u"
  shows "shows_quota rid i d mx v"
  using assms unfolding shows_quota_def by blast

lemma shows_quota_count:
  assumes "shows_quota rid i d mx v" and "quota_step rid (UseCount g r n) v = Some v'"
    and "rid r = i \<Longrightarrow> \<not> reading rid i v"
  shows "shows_quota rid i d mx v'"
  using assms(1)
proof (rule shows_quotaE)
  fix c u
  assume dist: "distinct (map fst (qv_calls v))"
    and c: "map_of (sd_counters (qv_stats v)) i = Some c" "ct_quota_max c = mx"
    and u: "map_of (qv_usages v) i = Some u" "u_max u = mx"
      "map_of (qv_man v) i = Some u \<or> map_of (qv_man v) i = None \<and> (d \<or> mx \<le> u_use u)"
    and calls: "\<And>g r n m. (g, HasRead r n m) \<in> set (qv_calls v) \<Longrightarrow> rid r = i \<Longrightarrow> n = u_use u \<and> m = mx"
      "busy rid i v \<or> ct_quota_use c = u_use u"
  show ?thesis
  proof (cases "map_of (qv_man v) (rid r)")
    case None
    then have "v' = v"
      using assms(2) by (simp add: man_count_use_def split: if_splits)
    then show ?thesis
      using assms(1) by simp
  next
    case (Some w)
    define w' where "w' = w\<lparr>u_use := u_use w + n\<rparr>"
    have free: "map_of (qv_calls v) g = None"
      using assms(2) by (auto split: if_splits)
    have v': "qv_stats v' = qv_stats v" "qv_calls v' = (g, Counted r) # qv_calls v"
        "map_of (qv_usages v') = (map_of (qv_usages v))(rid r \<mapsto> w')"
        "map_of (qv_man v') = (map_of (qv_man v))(rid r := if u_max w' \<le> u_use w' then None else Some w')"
      using assms(2) Some free by (auto simp: man_count_use_def Let_def w'_def update_conv' delete_conv')
    have dist': "distinct (map fst (qv_calls v'))"
      using dist free by (simp add: v' map_of_eq_None_iff)
    have busy: "busy rid i v' \<longleftrightarrow> rid r = i \<or> busy rid i v"
      by (simp add: busy_def v')
    show ?thesis
    proof (cases "rid r = i")
      case False
      show ?thesis
        by (rule shows_quotaI [OF dist', where c = c and u = u]) (use False c u calls in \<open>auto simp: v' busy\<close>)
    next
      case True
      have "rid r' \<noteq> i" if "(g', HasRead r' n' m) \<in> set (qv_calls v')" for g' r' n' m
        using that assms(3) True by (force simp: reading_def v')
      moreover have "u_max w' = mx"
        using True Some u by (simp add: w'_def)
      ultimately show ?thesis
        using True c by (intro shows_quotaI [OF dist', where c = c and u = w']) (auto simp: v' busy)
    qed
  qed
qed

lemma shows_quota_read:
  assumes "shows_quota rid i d mx v" and "quota_step rid (UseRead g) v = Some v'"
  shows "shows_quota rid i d mx v'"
  using assms(1)
proof (rule shows_quotaE)
  fix c u
  assume dist: "distinct (map fst (qv_calls v))"
    and c: "map_of (sd_counters (qv_stats v)) i = Some c" "ct_quota_max c = mx"
    and u: "map_of (qv_usages v) i = Some u" "u_max u = mx"
      "map_of (qv_man v) i = Some u \<or> map_of (qv_man v) i = None \<and> (d \<or> mx \<le> u_use u)"
    and calls: "\<And>g r n m. (g, HasRead r n m) \<in> set (qv_calls v) \<Longrightarrow> rid r = i \<Longrightarrow> n = u_use u \<and> m = mx"
      "busy rid i v \<or> ct_quota_use c = u_use u"
  obtain r w where r: "map_of (qv_calls v) g = Some (Counted r)" "map_of (qv_usages v) (rid r) = Some w"
    and v': "v' = v\<lparr>qv_calls := (g, HasRead r (u_use w) (u_max w)) # AList.delete g (qv_calls v)\<rparr>"
    using assms(2) by (auto split: option.splits use_call.splits)
  have "busy rid i v' \<or> ct_quota_use c = u_use u"
  proof (cases "busy rid i v")
    case True
    then obtain g' k where k: "(g', k) \<in> set (qv_calls v)" "rid (call_res k) = i"
      by (auto simp: busy_def)
    have "k = Counted r" if "g' = g"
      using k(1) r(1) dist that by simp
    then have "busy rid i v'"
      using k by (cases "g' = g") (force simp: busy_def v' in_delete)+
    then show ?thesis ..
  qed (use calls(2) in simp)
  then show ?thesis
    by (intro shows_quotaI [where c = c and u = u])
      (use c u calls(1) r(2) dist in \<open>auto simp: v' in_delete distinct_delete\<close>)
qed

lemma shows_quota_report:
  assumes "shows_quota rid i d mx v" and "quota_step rid (UseReport g) v = Some v'"
  shows "shows_quota rid i d mx v'"
  using assms(1)
proof (rule shows_quotaE)
  fix c u
  assume dist: "distinct (map fst (qv_calls v))"
    and c: "map_of (sd_counters (qv_stats v)) i = Some c" "ct_quota_max c = mx"
    and u: "map_of (qv_usages v) i = Some u" "u_max u = mx"
      "map_of (qv_man v) i = Some u \<or> map_of (qv_man v) i = None \<and> (d \<or> mx \<le> u_use u)"
    and calls: "\<And>g r n m. (g, HasRead r n m) \<in> set (qv_calls v) \<Longrightarrow> rid r = i \<Longrightarrow> n = u_use u \<and> m = mx"
      "busy rid i v \<or> ct_quota_use c = u_use u"
  obtain r n m where r: "map_of (qv_calls v) g = Some (HasRead r n m)"
    and v': "v' = v\<lparr>qv_stats := quota_use_report rid r n m (qv_stats v), qv_calls := AList.delete g (qv_calls v)\<rparr>"
    using assms(2) by (auto split: option.splits use_call.splits)
  have in_calls: "(g, HasRead r n m) \<in> set (qv_calls v)"
    by (rule map_of_SomeD [OF r])
  have calls': "n' = u_use u \<and> m' = mx" if "(g', HasRead r' n' m') \<in> set (qv_calls v')" "rid r' = i" for g' r' n' m'
    using that calls(1) by (auto simp: v' in_delete)
  show ?thesis
  proof (cases "rid r = i")
    case True
    then have "map_of (sd_counters (qv_stats v')) i = Some (c\<lparr>ct_quota_use := u_use u, ct_quota_max := mx\<rparr>)"
      using calls(1) [OF in_calls True] c(1) by (simp add: v' quota_use_report_def map_of_report counter_or_new_found)
    then show ?thesis
      by (rule shows_quotaI [rotated, where u = u]) (use u calls' dist in \<open>auto simp: v' distinct_delete\<close>)
  next
    case False
    have "busy rid i v' \<or> ct_quota_use c = u_use u"
    proof (cases "busy rid i v")
      case True
      then obtain g' k where k: "(g', k) \<in> set (qv_calls v)" "rid (call_res k) = i"
        by (auto simp: busy_def)
      have "k = HasRead r n m" if "g' = g"
        using k(1) r dist that by simp
      then have "busy rid i v'"
        using k False by (cases "g' = g") (force simp: busy_def v' in_delete)+
      then show ?thesis ..
    qed (use calls(2) in simp)
    then show ?thesis
      using False by (intro shows_quotaI [where c = c and u = u])
        (use c u calls' dist in \<open>auto simp: v' distinct_delete quota_use_report_def map_of_report\<close>)
  qed
qed

text \<open>Other changes of the counter.\<close>

lemma shows_quota_stats:
  assumes "shows_quota rid i d mx v"
    and "\<And>c. map_of (sd_counters (qv_stats v)) i = Some c \<Longrightarrow>
      \<exists>c'. map_of (sd_counters sd) i = Some c' \<and> ct_quota_max c' = ct_quota_max c \<and> ct_quota_use c' = ct_quota_use c"
  shows "shows_quota rid i d mx (v\<lparr>qv_stats := sd\<rparr>)"
  using assms(1)
proof (rule shows_quotaE)
  fix c u
  assume c: "map_of (sd_counters (qv_stats v)) i = Some c" "ct_quota_max c = mx"
    and inv: "distinct (map fst (qv_calls v))" "map_of (qv_usages v) i = Some u" "u_max u = mx"
      "map_of (qv_man v) i = Some u \<or> map_of (qv_man v) i = None \<and> (d \<or> mx \<le> u_use u)"
      "\<And>g r n m. (g, HasRead r n m) \<in> set (qv_calls v) \<Longrightarrow> rid r = i \<Longrightarrow> n = u_use u \<and> m = mx"
      "busy rid i v \<or> ct_quota_use c = u_use u"
  obtain c' where c': "map_of (sd_counters sd) i = Some c'" "ct_quota_max c' = mx" "ct_quota_use c' = ct_quota_use c"
    using assms(2) [OF c(1)] c(2) by auto
  have "busy rid i (v\<lparr>qv_stats := sd\<rparr>) = busy rid i v"
    by (simp add: busy_def)
  then show ?thesis
    by (intro shows_quotaI [where c = c' and u = u]) (use inv c' in simp_all)
qed

lemma shows_quota_step:
  assumes "shows_quota rid i d mx v" and "quota_step rid op v = Some v'"
    and "\<And>g r n. op = UseCount g r n \<Longrightarrow> rid r = i \<Longrightarrow> \<not> reading rid i v"
    and "\<And>r. op = Dropped r \<Longrightarrow> rid r = i \<Longrightarrow> d"
  shows "shows_quota rid i d mx v'"
proof (cases op)
  case (UseCount g r n)
  show ?thesis
    by (rule shows_quota_count [OF assms(1) assms(2) [unfolded UseCount]]) (rule assms(3) [OF UseCount])
next
  case (UseRead g)
  show ?thesis
    by (rule shows_quota_read [OF assms(1) assms(2) [unfolded UseRead]])
next
  case (UseReport g)
  show ?thesis
    by (rule shows_quota_report [OF assms(1) assms(2) [unfolded UseReport]])
next
  case (LsBegin r)
  have v': "v' = v\<lparr>qv_stats := ls_begin (rid r) (qv_stats v)\<rparr>"
    using assms(2) by (simp add: LsBegin)
  show ?thesis
    unfolding v' by (rule shows_quota_stats [OF assms(1)])
      (auto simp: ls_begin_def map_of_report counter_or_new_found)
next
  case (LsDone r)
  have v': "v' = v\<lparr>qv_stats := ls_done (rid r) (qv_stats v)\<rparr>"
    using assms(2) by (simp add: LsDone)
  show ?thesis
    unfolding v' by (rule shows_quota_stats [OF assms(1)]) (auto simp: ls_done_def map_of_upd_counter)
next
  case (Dropped r)
  have v': "v' = v\<lparr>qv_man := man_delete rid r (qv_man v)\<rparr>"
    using assms(2) by (simp add: Dropped)
  have "busy rid i v' = busy rid i v"
    by (simp add: busy_def v')
  with assms(1) show ?thesis
    by (elim shows_quotaE, intro shows_quotaI)
      (use assms(4) [OF Dropped] in \<open>auto simp: v' man_delete_def delete_conv'\<close>)
qed

lemma shows_quota_run:
  assumes "shows_quota rid i d mx v" and "quota_run rid ops v = Some v'" and "counts_apart rid i ops v"
    and "\<And>r. Dropped r \<in> set ops \<Longrightarrow> rid r = i \<Longrightarrow> d"
  shows "shows_quota rid i d mx v'"
  using assms
proof (induction ops arbitrary: v)
  case (Cons op ops)
  obtain v1 where v1: "quota_step rid op v = Some v1" "quota_run rid ops v1 = Some v'"
    using Cons.prems(2) by (auto simp: bind_eq_Some_conv)
  have "shows_quota rid i d mx v1"
    by (rule shows_quota_step [OF Cons.prems(1) v1(1)]) (use Cons.prems(3,4) in auto)
  then show ?case
    by (rule Cons.IH [OF _ v1(2)]) (use Cons.prems(3,4) v1(1) in auto)
qed simp

text \<open>The quota of an id is the one it was last given.\<close>

definition last_max :: "('r \<Rightarrow> 'id) \<Rightarrow> ('r \<times> uint64) list \<Rightarrow> 'id \<rightharpoonup> uint64" where
  "last_max rid ress = map_of (rev (map (\<lambda>(r, mx). (rid r, mx)) ress))"

lemma quota_setup_snoc:
  "quota_setup rid (ress @ [(r, mx)]) sd =
     (man_add_res_quota rid r mx (fst (quota_setup rid ress sd)),
      quota_max_report (rid r) mx (snd (quota_setup rid ress sd)))"
  by (simp add: quota_setup_def)

lemma setup_uses:
  "map_of (fst (quota_setup rid ress sd)) i = Some u \<Longrightarrow> u_use u = 0"
  by (induction ress arbitrary: u rule: rev_induct)
    (auto simp: quota_setup_snoc map_of_add_res_quota quota_setup_def new_man_def split: if_splits option.splits)

text \<open>Counters of which no use has been reported.\<close>

definition unreported :: "'id statsd \<Rightarrow> bool" where
  "unreported sd \<longleftrightarrow> (\<forall>i c. map_of (sd_counters sd) i = Some c \<longrightarrow> ct_quota_use c = 0)"

lemma unreported_new: "unreported sd \<Longrightarrow> ct_quota_use (counter_or_new i sd) = 0"
  by (auto simp: unreported_def counter_or_new_def new_counter_def split: option.split)

lemma setup_unreported: "unreported sd \<Longrightarrow> unreported (snd (quota_setup rid ress sd))"
proof (induction ress rule: rev_induct)
  case (snoc a ress)
  have report: "unreported (quota_max_report i mx sd')" if "unreported sd'" for i mx sd'
    using that unreported_new [OF that, of i]
    by (auto simp: unreported_def quota_max_report_def map_of_report)
  from snoc show ?case
    by (cases a) (simp add: quota_setup_snoc report)
qed (simp add: quota_setup_def)

lemma setup_shows:
  assumes "unreported sd" and "last_max rid ress i = Some mx"
  shows "shows_quota rid i d mx (quota_start rid ress sd)"
proof -
  let ?v = "quota_setup rid ress sd"
  have "\<exists>c u. map_of (sd_counters (snd (quota_setup rid ress sd))) i = Some c \<and> ct_quota_max c = mx \<and>
      map_of (fst (quota_setup rid ress sd)) i = Some u \<and> u_max u = mx"
    using assms(2)
  proof (induction ress rule: rev_induct)
    case (snoc a ress)
    then show ?case
      by (cases a; cases "i = rid (fst a)")
        (auto simp: quota_setup_snoc last_max_def map_of_add_res_quota quota_max_report_def map_of_report
          split: option.splits)
  qed (simp add: last_max_def)
  then obtain c u where cu: "map_of (sd_counters (snd ?v)) i = Some c" "ct_quota_max c = mx"
      "map_of (fst ?v) i = Some u" "u_max u = mx"
    by blast
  moreover have "ct_quota_use c = 0"
    using setup_unreported [OF assms(1), of rid ress] cu(1) by (simp add: unreported_def)
  moreover have "u_use u = 0"
    by (rule setup_uses [OF cu(3)])
  ultimately show ?thesis
    by (intro shows_quotaI [where c = c and u = u]) (simp_all add: quota_start_def case_prod_beta')
qed

section \<open>Properties\<close>

text \<open>
  C13: after any uses, removals and listings of resources given to the manager, when no call of
  \<open>AddUse\<close> for one of them is under way and none of its uses was counted while another call had read
  the use and not yet shown it, the table of statistics shows for it the quota it was last given and
  the use the manager has counted; one the manager has no more, and that was not removed, is shown
  as full.
\<close>

theorem stats_show_quotas:
  assumes "unreported sd" and "last_max rid ress i = Some mx"
    and "quota_run rid ops (quota_start rid ress sd) = Some v"
    and "counts_apart rid i ops (quota_start rid ress sd)" and "\<not> busy rid i v"
  shows "\<exists>c. map_of (sd_counters (qv_stats v)) i = Some c \<and> ct_quota_max c = mx \<and>
    (case map_of (qv_man v) i of
       Some u \<Rightarrow> u_max u = mx \<and> ct_quota_use c = u_use u
     | None \<Rightarrow> (\<exists>r. Dropped r \<in> set ops \<and> rid r = i) \<or> mx \<le> ct_quota_use c)"
proof -
  have "shows_quota rid i (\<exists>r. Dropped r \<in> set ops \<and> rid r = i) mx v"
    by (rule shows_quota_run [OF setup_shows [OF assms(1,2)] assms(3,4)]) blast
  then show ?thesis
    using assms(5) by (elim shows_quotaE) (auto split: option.split)
qed

text \<open>A resource that two goroutines fill up while it is being listed.\<close>

lemma stats_show_quotas_witness:
  "\<exists>v c. quota_run (\<lambda>r. r)
       [LsBegin 7, UseCount 0 7 3, UseCount 1 7 4, LsDone 7, UseRead 1, UseRead 0, UseReport 0, UseReport 1]
       (quota_start (\<lambda>r. r) [(7 :: nat, 5)] new_statsd) = Some v \<and>
     map_of (qv_man v) 7 = None \<and> map_of (sd_counters (qv_stats v)) 7 = Some c \<and> ct_quota_max c = 5 \<and> 5 \<le> ct_quota_use c"
proof -
  let ?ops = "[LsBegin 7, UseCount 0 7 3, UseCount 1 7 4, LsDone 7, UseRead 1, UseRead 0, UseReport 0, UseReport 1]"
  let ?v = "quota_start (\<lambda>r. r) [(7 :: nat, 5)] new_statsd"
  have run: "quota_run (\<lambda>r. r) ?ops ?v = Some (the (quota_run (\<lambda>r. r) ?ops ?v))"
      "map_of (qv_man (the (quota_run (\<lambda>r. r) ?ops ?v))) 7 = None"
      "\<not> busy (\<lambda>r. r) 7 (the (quota_run (\<lambda>r. r) ?ops ?v))" "counts_apart (\<lambda>r. r) 7 ?ops ?v"
    by (simp_all add: quota_start_def quota_setup_def new_man_def man_add_res_quota_def man_count_use_def
      Let_def busy_def reading_def)
  have "unreported new_statsd" and "last_max (\<lambda>r. r) [(7, 5)] 7 = Some 5"
    by (simp_all add: unreported_def new_statsd_def last_max_def)
  from stats_show_quotas [OF this run(1,4,3)] run(2) obtain c where
    "map_of (sd_counters (qv_stats (the (quota_run (\<lambda>r. r) ?ops ?v)))) 7 = Some c" "ct_quota_max c = 5" "5 \<le> ct_quota_use c"
    by auto
  then show ?thesis
    using run(1,2) by blast
qed

text \<open>
  Without that, the counter may show less than was used, for ever: of two goroutines that use 3 and
  7 of a quota of 5, the first reads 3, the second counts, reads and shows 10, and the first then
  shows its 3; the manager has deleted the resource, so that no use will be shown any more.
\<close>

lemma stats_show_stale_use:
  "\<exists>v c. quota_run (\<lambda>r. r) [UseCount 0 7 3, UseRead 0, UseCount 1 7 7, UseRead 1, UseReport 1, UseReport 0]
       (quota_start (\<lambda>r. r) [(7 :: nat, 5)] new_statsd) = Some v \<and>
     qv_calls v = [] \<and> map_of (qv_man v) 7 = None \<and>
     map_of (sd_counters (qv_stats v)) 7 = Some c \<and> ct_quota_max c = 5 \<and> ct_quota_use c = 3"
  by (simp add: quota_start_def quota_setup_def new_man_def man_add_res_quota_def man_count_use_def
      Let_def quota_use_report_def quota_max_report_def map_of_report counter_or_new_def new_statsd_def
      new_counter_def)

end
