(* ===== verification/Rolling.thy ===== *)
theory Rolling
  imports Scat_Prelude
begin

text \<open>
  The interface \<^verbatim>\<open>procs/sort.go\<close> and \<^verbatim>\<open>procs/index.go\<close> rely on: a store of values by
  position that hands out the values from its first position up to the first gap, and
  drops what was handed out. The locale states its laws over an abstract content
  \<open>at\<close>; its lemmas show what a client that adds arrivals and releases runs emits.
\<close>

locale rolling =
  fixes add :: "int \<Rightarrow> 'v option \<Rightarrow> 's \<Rightarrow> 's outcome"
    and drop_first :: "int \<Rightarrow> 's \<Rightarrow> 's"
    and sorted_run :: "'s \<Rightarrow> 'v list"
    and size_of :: "'s \<Rightarrow> nat"
    and ok :: "'s \<Rightarrow> bool"
    and first :: "'s \<Rightarrow> int"
    and at :: "'s \<Rightarrow> int \<Rightarrow> 'v option"
    and limit :: int
  assumes add_ok: "ok s \<Longrightarrow> first s \<le> p \<Longrightarrow> p < limit \<Longrightarrow>
      \<exists>s'. add p (Some v) s = Ret s' \<and> ok s' \<and> first s' = first s \<and> at s' = (at s)(p \<mapsto> v)"
    and add_below: "ok s \<Longrightarrow> 0 \<le> p \<Longrightarrow> p < first s \<Longrightarrow> \<not> returns (add p w s)"
    and run_at: "ok s \<Longrightarrow> j < length (sorted_run s) \<Longrightarrow>
      at s (first s + int j) = Some (sorted_run s ! j)"
    and run_gap: "ok s \<Longrightarrow> at s (first s + int (length (sorted_run s))) = None"
    and drop_ok: "ok s \<Longrightarrow> k \<le> length (sorted_run s) \<Longrightarrow>
      ok (drop_first (int k) s) \<and> first (drop_first (int k) s) = first s + int k \<and>
      at (drop_first (int k) s) = (\<lambda>p. if p < first s + int k then None else at s p)"
    and size_zero: "ok s \<Longrightarrow> size_of s = 0 \<longleftrightarrow> (\<forall>p. at s p = None)"
    and at_below: "ok s \<Longrightarrow> p < first s \<Longrightarrow> at s p = None"
begin

text \<open>
  What a client has seen so far: \<open>M\<close> is every value that arrived, by position, and
  \<open>out\<close> is what was released. The store holds the rest.
\<close>

definition tracks :: "'s \<Rightarrow> 'v list \<Rightarrow> (int \<Rightarrow> 'v option) \<Rightarrow> bool" where
  "tracks s out M \<longleftrightarrow>
     ok s \<and> first s = int (length out) \<and>
     (\<forall>i < length out. M (int i) = Some (out ! i)) \<and>
     (\<forall>p. int (length out) \<le> p \<longrightarrow> at s p = M p)"

lemma tracks_start: "ok s \<Longrightarrow> first s = 0 \<Longrightarrow> (\<And>p. at s p = None) \<Longrightarrow> tracks s [] (\<lambda>_. None)"
  by (simp add: tracks_def)

lemma tracks_add:
  assumes "tracks s out M" and "int (length out) \<le> p" and "p < limit"
  shows "\<exists>s'. add p (Some v) s = Ret s' \<and> tracks s' out (M(p \<mapsto> v))"
proof -
  from assms obtain s' where "add p (Some v) s = Ret s'" "ok s'" "first s' = first s"
    "at s' = (at s)(p \<mapsto> v)"
    using add_ok by (metis tracks_def)
  with assms show ?thesis
    by (auto simp: tracks_def)
qed

text \<open>A position that has not arrived has not been released either.\<close>

lemma tracks_new:
  assumes "tracks s out M" and "M p = None" and "0 \<le> p"
  shows "int (length out) \<le> p"
proof (rule ccontr)
  assume "\<not> int (length out) \<le> p"
  with assms(3) have "nat p < length out"
    by linarith
  moreover have "\<forall>i < length out. M (int i) \<noteq> None"
    using assms(1) by (simp add: tracks_def)
  ultimately have "M (int (nat p)) \<noteq> None"
    by blast
  with assms(2,3) show False by simp
qed

lemma tracks_drop:
  assumes "tracks s out M" and "k \<le> length (sorted_run s)"
  shows "tracks (drop_first (int k) s) (out @ take k (sorted_run s)) M"
proof -
  let ?out = "out @ take k (sorted_run s)"
  have s: "ok s" "first s = int (length out)"
    and out: "\<And>i. i < length out \<Longrightarrow> M (int i) = Some (out ! i)"
    and at: "\<And>p. int (length out) \<le> p \<Longrightarrow> at s p = M p"
    using assms(1) by (auto simp: tracks_def)
  have "M (int i) = Some (?out ! i)" if "i < length ?out" for i
  proof (cases "i < length out")
    case False
    then have "at s (first s + int (i - length out)) = Some (sorted_run s ! (i - length out))"
      using that s(1) by (intro run_at) auto
    with False that s(2) at [of "int i"] show ?thesis
      by (simp add: nth_append)
  qed (simp add: out nth_append)
  moreover have "length ?out = length out + k"
    using assms(2) by simp
  ultimately show ?thesis
    using drop_ok [OF s(1) assms(2)] s(2) at by (simp add: tracks_def)
qed

lemma tracks_run:
  assumes "tracks s out M" and "j < length (sorted_run s)"
  shows "M (int (length out + j)) = Some (sorted_run s ! j)"
proof -
  have s: "ok s" "first s = int (length out)"
    and at: "at s (int (length out + j)) = M (int (length out + j))"
    using assms(1) by (auto simp: tracks_def)
  with run_at [OF s(1) assms(2)] show ?thesis by simp
qed

text \<open>Once a full run is released, the next position is the first that has not arrived.\<close>

lemma tracks_release_gap:
  assumes "tracks s out M"
  shows "M (int (length (out @ sorted_run s))) = None"
  using assms run_gap [of s] by (auto simp: tracks_def)

lemma tracks_released:
  assumes "tracks s out M" and "M (int (length out)) = None"
  shows "out = map (\<lambda>i. the (M (int i))) [0..<(LEAST i. M (int i) = None)]"
proof -
  have some: "M (int i) = Some (out ! i)" if "i < length out" for i
    using assms(1) that by (simp add: tracks_def)
  have "length out \<le> i" if "M (int i) = None" for i
    using some [of i] that by (cases "i < length out") auto
  with assms(2) have "(LEAST i. M (int i) = None) = length out"
    by (intro Least_equality)
  then show ?thesis
    using some by (intro nth_equalityI) auto
qed

lemma tracks_empty:
  assumes "tracks s out M"
  shows "size_of s = 0 \<longleftrightarrow> (\<forall>p. int (length out) \<le> p \<longrightarrow> M p = None)"
proof -
  have "at s p = None" if "p < int (length out)" for p
    using assms that at_below by (simp add: tracks_def)
  then show ?thesis
    using assms size_zero [of s] by (auto simp: tracks_def) (metis not_le)
qed

end

end
