(* ===== verification/Series.thy ===== *)
theory Series
  imports Scat_Prelude Rolling
begin

text \<open>
  \<^verbatim>\<open>seriessort/series.go\<close>: a rolling series of values sorted by position. The Go type
  holds a slice, so the model keeps the slice's backing cells up to its capacity beside
  its length: growing within the capacity exposes whatever those cells hold. A cell is
  \<open>None\<close> for the nil interface. The second half states what a client may rely on: a
  map from positions to values.
\<close>

section \<open>The data and its operations\<close>

record 'v series =
  scells :: "'v option list"   \<comment> \<open>the backing array, from the slice's first cell to its capacity\<close>
  slen :: nat                 \<comment> \<open>the slice's length\<close>
  sstart :: int

definition new_series :: "'v series" where
  "new_series = \<lparr>scells = [], slen = 0, sstart = 0\<rparr>"

text \<open>
  \<open>Add\<close> up to the store: subtract the start, refuse a dropped position, grow. The
  capacity asked from \<open>make\<close> is \<open>i*2+1\<close>; \<open>make\<close> panics when it wraps below the length.
\<close>

definition series_grow :: "int \<Rightarrow> 'v series \<Rightarrow> 'v series outcome" where
  "series_grow i s =
     (let minLen = wrap_int (i + 1) in
      if int (slen s) < minLen then
        (if int (length (scells s)) < minLen then
           (let newCap = wrap_int (wrap_int (i * 2) + 1) in
            if newCap < minLen then Panic ''makeslice: cap out of range''
            else Ret (s\<lparr>scells := take (slen s) (scells s) @ replicate (nat newCap - slen s) None,
                        slen := nat minLen\<rparr>))
         else Ret (s\<lparr>slen := nat minLen\<rparr>))
      else Ret s)"

definition series_add :: "int \<Rightarrow> 'v option \<Rightarrow> 'v series \<Rightarrow> 'v series outcome" where
  "series_add i val s =
     (let i = wrap_int (i - sstart s) in
      if i < 0 then Panic ''position lower than minimum''
      else bind_outcome (series_grow i s) (\<lambda>s'.
        if int (slen s') \<le> i then Panic ''index out of range''
        else Ret (s'\<lparr>scells := (scells s')[nat i := val]\<rparr>)))"

definition series_drop :: "int \<Rightarrow> 'v series \<Rightarrow> 'v series" where
  "series_drop n s =
     (let n = (if n < 0 then 0 else n);
          n = (if n > int (slen s) then int (slen s) else n)
      in s\<lparr>scells := drop (nat n) (scells s), slen := slen s - nat n,
           sstart := wrap_int (sstart s + n)\<rparr>)"

definition series_sorted :: "'v series \<Rightarrow> 'v list" where
  "series_sorted s = map the (takeWhile (\<lambda>v. v \<noteq> None) (take (slen s) (scells s)))"

definition series_len :: "'v series \<Rightarrow> nat" where
  "series_len s = slen s"

section \<open>What the representation means\<close>

text \<open>The value held at a position, and the invariant that makes growing safe.\<close>

definition series_at :: "'v series \<Rightarrow> int \<Rightarrow> 'v option" where
  "series_at s p =
     (if sstart s \<le> p \<and> p < sstart s + int (slen s) then scells s ! nat (p - sstart s) else None)"

text \<open>
  Positions stay below \<open>2^62\<close>, so neither \<open>i*2+1\<close> nor the start wraps. The cells between
  length and capacity are nil, and the last cell of a non-empty series is set.
\<close>

definition pos_limit :: int where
  "pos_limit = 2 ^ 62"

definition series_ok :: "'v series \<Rightarrow> bool" where
  "series_ok s \<longleftrightarrow>
     0 \<le> sstart s \<and> sstart s + int (slen s) \<le> pos_limit \<and> slen s \<le> length (scells s) \<and>
     (\<forall>j. slen s \<le> j \<longrightarrow> j < length (scells s) \<longrightarrow> scells s ! j = None) \<and>
     (0 < slen s \<longrightarrow> scells s ! (slen s - 1) \<noteq> None)"

lemma series_ok_new [simp]: "series_ok new_series"
  by (simp add: series_ok_def new_series_def pos_limit_def)

lemma series_at_new [simp]: "series_at new_series p = None"
  by (auto simp: series_at_def new_series_def)

lemma start_new [simp]: "sstart new_series = 0"
  by (simp add: new_series_def)

subsection \<open>Adding\<close>

text \<open>Within the limits growing extends the series with unset cells and nothing else.\<close>

lemma series_grow_cases:
  assumes "0 \<le> i" "i < pos_limit" "slen s \<le> length (scells s)"
  shows "series_grow i s = Ret
    (if int (slen s) < i + 1
     then if int (length (scells s)) < i + 1
       then s\<lparr>scells := take (slen s) (scells s) @ replicate (nat (i * 2 + 1) - slen s) None,
              slen := nat (i + 1)\<rparr>
       else s\<lparr>slen := nat (i + 1)\<rparr>
     else s)"
proof -
  from assms(1,2) have "i + 1 < 2 ^ 63" "i * 2 < 2 ^ 63" "i * 2 + 1 < 2 ^ 63"
    by (simp_all add: pos_limit_def)
  with assms(1) have "wrap_int (i + 1) = i + 1" "wrap_int (wrap_int (i * 2) + 1) = i * 2 + 1"
    by simp_all
  with assms(1) show ?thesis
    by (simp add: series_grow_def Let_def)
qed

text \<open>The cell at \<open>j\<close> counted from the slice's start, as the client sees it.\<close>

definition series_cell :: "'v series \<Rightarrow> nat \<Rightarrow> 'v option" where
  "series_cell s j = (if j < slen s then scells s ! j else None)"

lemma series_at_cell:
  "series_at s p = (if sstart s \<le> p then series_cell s (nat (p - sstart s)) else None)"
  by (auto simp: series_at_def series_cell_def)

lemma series_cell_at: "0 \<le> sstart s \<Longrightarrow> series_cell s j = series_at s (sstart s + int j)"
  by (auto simp: series_at_def series_cell_def)

lemma series_grow_cell:
  assumes "series_ok s" "0 \<le> i" "i < pos_limit" "series_grow i s = Ret s'"
  shows "series_cell s' j = series_cell s j" and "sstart s' = sstart s"
    and "slen s' = max (slen s) (nat (i + 1))" and "slen s' \<le> length (scells s')"
    and "slen s' \<le> k \<Longrightarrow> k < length (scells s') \<Longrightarrow> scells s' ! k = None"
proof -
  from assms have "slen s \<le> length (scells s)"
    by (simp add: series_ok_def)
  with assms(4) have s': "s' =
    (if int (slen s) < i + 1
     then if int (length (scells s)) < i + 1
       then s\<lparr>scells := take (slen s) (scells s) @ replicate (nat (i * 2 + 1) - slen s) None,
              slen := nat (i + 1)\<rparr>
       else s\<lparr>slen := nat (i + 1)\<rparr>
     else s)"
    using series_grow_cases [OF assms(2,3) \<open>slen s \<le> length (scells s)\<close>] by simp
  show "series_cell s' j = series_cell s j" and "sstart s' = sstart s"
    and "slen s' = max (slen s) (nat (i + 1))" and "slen s' \<le> length (scells s')"
    and "slen s' \<le> k \<Longrightarrow> k < length (scells s') \<Longrightarrow> scells s' ! k = None"
    using assms(1,2) unfolding s'
    by (auto simp: series_cell_def series_ok_def nth_append min_def max_def split: if_splits)
qed

lemma series_add_ok:
  assumes ok: "series_ok s" and lo: "sstart s \<le> p" and hi: "p < pos_limit"
  shows "\<exists>s'. series_add p (Some v) s = Ret s' \<and> series_ok s' \<and> sstart s' = sstart s \<and>
    series_at s' = (series_at s)(p \<mapsto> v)"
proof -
  define i where "i = p - sstart s"
  have i: "0 \<le> i" "i < pos_limit" "wrap_int (p - sstart s) = i"
    using assms by (simp_all add: i_def series_ok_def pos_limit_def)
  obtain g where g: "series_grow i s = Ret g"
    using series_grow_cases [OF i(1,2), of s] ok by (auto simp: series_ok_def)
  note cell = series_grow_cell [OF ok i(1,2) g]
  define s' where "s' = g\<lparr>scells := (scells g)[nat i := Some v]\<rparr>"
  have "int (slen g) > i"
    using cell(3) i(1) by (auto simp: max_def)
  then have "series_add p (Some v) s = Ret s'"
    using i g by (simp add: series_add_def s'_def)
  moreover have "sstart s' = sstart s"
    using cell by (simp add: s'_def)
  moreover have "series_at s' q = ((series_at s)(p \<mapsto> v)) q" for q
    using cell(1) [of "nat (q - sstart s)"] cell(2,4) \<open>int (slen g) > i\<close> i(1) lo
    by (auto simp: series_at_cell series_cell_def s'_def i_def nth_list_update)
  moreover have "series_ok s'"
    unfolding series_ok_def
  proof (intro conjI impI allI)
    show "0 \<le> sstart s'" "sstart s' + int (slen s') \<le> pos_limit"
      using ok cell hi i(1) by (auto simp: s'_def series_ok_def i_def)
    show "slen s' \<le> length (scells s')"
      using cell by (simp add: s'_def)
    show "scells s' ! j = None" if "slen s' \<le> j" "j < length (scells s')" for j
      using cell(5) [of j] that \<open>int (slen g) > i\<close> i(1) by (auto simp: s'_def nth_list_update)
    assume "0 < slen s'"
    show "scells s' ! (slen s' - 1) \<noteq> None"
    proof (cases "slen s < nat (i + 1)")
      case True
      then show ?thesis
        using cell i(1) by (simp add: s'_def max_def nat_add_distrib)
    next
      case False
      then have "slen g = slen s" "0 < slen s"
        using cell i(1) by (auto simp: max_def)
      then show ?thesis
        using cell(1) [of "slen s - 1"] cell(4) ok
        by (cases "nat i = slen s - 1") (auto simp: s'_def series_cell_def series_ok_def nth_list_update)
    qed
  qed
  ultimately show ?thesis by blast
qed

lemma series_add_below:
  assumes "series_ok s" "0 \<le> p" "p < sstart s"
  shows "series_add p v s = Panic ''position lower than minimum''"
proof -
  have "wrap_int (p - sstart s) = p - sstart s"
    using assms by (simp add: series_ok_def pos_limit_def)
  with assms show ?thesis
    by (simp add: series_add_def)
qed

subsection \<open>Reading and dropping\<close>

lemma series_sorted_cell:
  assumes "series_ok s"
  shows "j < length (series_sorted s) \<Longrightarrow> series_cell s j = Some (series_sorted s ! j)"
    and "series_cell s (length (series_sorted s)) = None"
proof -
  let ?w = "takeWhile (\<lambda>v. v \<noteq> None) (take (slen s) (scells s))"
  have len: "length (series_sorted s) = length ?w"
    by (simp add: series_sorted_def)
  have le: "length ?w \<le> slen s"
    using length_takeWhile_le [of "\<lambda>v. v \<noteq> None" "take (slen s) (scells s)"] by simp
  show "series_cell s j = Some (series_sorted s ! j)" if "j < length (series_sorted s)"
  proof -
    have j: "j < length ?w" "j < slen s"
      using that len le by simp_all
    then have "?w ! j = scells s ! j"
      by (simp add: takeWhile_nth)
    moreover have "?w ! j \<noteq> None"
      using set_takeWhileD [OF nth_mem [OF j(1)]] by blast
    ultimately have "scells s ! j = Some (the (?w ! j))"
      by (cases "?w ! j") simp_all
    with j show ?thesis
      by (simp add: series_sorted_def series_cell_def)
  qed
  show "series_cell s (length (series_sorted s)) = None"
  proof (cases "length ?w < slen s")
    case True
    with assms have "length ?w < length (take (slen s) (scells s))"
      by (simp add: series_ok_def)
    from nth_length_takeWhile [OF this] True show ?thesis
      by (simp add: len series_cell_def)
  qed (simp add: len series_cell_def)
qed

lemma series_sorted_length: "length (series_sorted s) \<le> slen s"
  using length_takeWhile_le [of "\<lambda>v. v \<noteq> None" "take (slen s) (scells s)"]
  by (simp add: series_sorted_def)

lemma series_drop_cell:
  assumes "series_ok s" "k \<le> slen s"
  shows "series_ok (series_drop (int k) s)"
    and "sstart (series_drop (int k) s) = sstart s + int k"
    and "series_cell (series_drop (int k) s) j = series_cell s (k + j)"
proof -
  have w: "wrap_int (sstart s + int k) = sstart s + int k"
    using assms by (simp add: series_ok_def pos_limit_def)
  have d: "series_drop (int k) s =
    s\<lparr>scells := drop k (scells s), slen := slen s - k, sstart := sstart s + int k\<rparr>"
    using assms(2) w by (simp add: series_drop_def)
  show "sstart (series_drop (int k) s) = sstart s + int k"
    by (simp add: d)
  have len: "slen s \<le> length (scells s)"
    and rest: "\<And>j. slen s \<le> j \<Longrightarrow> j < length (scells s) \<Longrightarrow> scells s ! j = None"
    and last: "0 < slen s \<Longrightarrow> scells s ! (slen s - 1) \<noteq> None"
    using assms(1) by (simp_all add: series_ok_def)
  show "series_cell (series_drop (int k) s) j = series_cell s (k + j)"
    using len by (auto simp: d series_cell_def)
  have "drop k (scells s) ! (slen s - k - 1) \<noteq> None" if "k < slen s"
    using last that len by (simp add: nth_drop)
  moreover have "drop k (scells s) ! j = None"
    if "slen s - k \<le> j" "j < length (scells s) - k" for j
    using rest [of "k + j"] that len by simp
  ultimately show "series_ok (series_drop (int k) s)"
    using assms len by (auto simp: d series_ok_def diff_le_mono)
qed

lemma series_len_zero:
  assumes "series_ok s"
  shows "series_len s = 0 \<longleftrightarrow> (\<forall>p. series_at s p = None)"
proof
  show "series_len s = 0 \<Longrightarrow> \<forall>p. series_at s p = None"
    by (auto simp: series_len_def series_at_def)
next
  assume "\<forall>p. series_at s p = None"
  then have "series_at s (sstart s + int (slen s - 1)) = None" by blast
  then show "series_len s = 0"
    using assms by (cases "slen s") (auto simp: series_len_def series_at_def series_ok_def)
qed

section \<open>The series keeps the contract of its clients\<close>

interpretation ser: rolling series_add series_drop series_sorted series_len
  series_ok sstart series_at pos_limit
proof
  fix s :: "'v series" and p :: int and v :: 'v
  assume ok: "series_ok s"
  show "sstart s \<le> p \<Longrightarrow> p < pos_limit \<Longrightarrow>
      \<exists>s'. series_add p (Some v) s = Ret s' \<and> series_ok s' \<and> sstart s' = sstart s \<and>
        series_at s' = (series_at s)(p \<mapsto> v)"
    by (rule series_add_ok [OF ok])
  show "series_len s = 0 \<longleftrightarrow> (\<forall>p. series_at s p = None)"
    by (rule series_len_zero [OF ok])
  show "p < sstart s \<Longrightarrow> series_at s p = None"
    by (simp add: series_at_def)
  fix j k :: nat and w :: "'v option"
  show "0 \<le> p \<Longrightarrow> p < sstart s \<Longrightarrow> \<not> returns (series_add p w s)"
    by (simp add: series_add_below [OF ok])
  have "0 \<le> sstart s"
    using ok by (simp add: series_ok_def)
  note cell_at = series_cell_at [OF this]
  show "j < length (series_sorted s) \<Longrightarrow>
      series_at s (sstart s + int j) = Some (series_sorted s ! j)"
    using series_sorted_cell(1) [OF ok] by (simp add: cell_at)
  show "series_at s (sstart s + int (length (series_sorted s))) = None"
    using series_sorted_cell(2) [OF ok] by (simp add: cell_at)
  assume "k \<le> length (series_sorted s)"
  then have k: "k \<le> slen s"
    using series_sorted_length [of s] by simp
  note d = series_drop_cell [OF ok k]
  have "series_at (series_drop (int k) s) q = (if q < sstart s + int k then None else series_at s q)"
    for q
  proof (cases "q < sstart s + int k")
    case False
    then have "k + nat (q - (sstart s + int k)) = nat (q - sstart s)"
      by simp
    with False d(2) d(3) [of "nat (q - (sstart s + int k))"] show ?thesis
      by (simp add: series_at_cell)
  qed (simp add: series_at_cell d(2))
  then show "series_ok (series_drop (int k) s) \<and>
      sstart (series_drop (int k) s) = sstart s + int k \<and>
      series_at (series_drop (int k) s) =
        (\<lambda>q. if q < sstart s + int k then None else series_at s q)"
    using d by auto
qed

end
