(* ===== verification/Sorter.thy ===== *)
theory Sorter
  imports Series Chunk
begin

text \<open>
  \<^verbatim>\<open>procs/sort.go\<close>: chunks arrive in any order and leave in the order of their numbers.
  The proc's state is its series; a call returns the chunks put on the result channel.
\<close>

definition sort_process :: "chunk \<Rightarrow> chunk series \<Rightarrow> (chunk list \<times> chunk series) outcome" where
  "sort_process c s =
     bind_outcome (series_add (chunk_num c) (Some c) s) (\<lambda>s.
       let sorted = series_sorted s
       in Ret (sorted, series_drop (int (length sorted)) s))"

definition sort_finish :: "chunk series \<Rightarrow> err option" where
  "sort_finish s = (if 0 < series_len s then Some ErrShort else None)"

text \<open>The proc as the chain drives it: one call for each arriving chunk.\<close>

fun sort_run :: "chunk list \<Rightarrow> chunk series \<Rightarrow> (chunk list \<times> chunk series) outcome" where
  "sort_run [] s = Ret ([], s)"
| "sort_run (c # cs) s =
     bind_outcome (sort_process c s) (\<lambda>(out, s).
     bind_outcome (sort_run cs s) (\<lambda>(outs, s). Ret (out @ outs, s)))"

text \<open>The chunks that arrived, by number.\<close>

definition arrived :: "chunk list \<Rightarrow> int \<Rightarrow> chunk option" where
  "arrived cs = map_of (map (\<lambda>c. (chunk_num c, c)) cs)"

lemma arrived_None: "arrived cs p = None \<longleftrightarrow> p \<notin> chunk_num ` set cs"
  by (auto simp: arrived_def map_of_eq_None_iff image_image)

lemma arrived_Cons: "arrived (c # cs) = (arrived cs)(chunk_num c \<mapsto> c)"
  by (simp add: arrived_def)

lemma arrived_Some:
  "distinct (map chunk_num cs) \<Longrightarrow> c \<in> set cs \<Longrightarrow> arrived cs (chunk_num c) = Some c"
  by (auto simp: arrived_def comp_def)

lemma arrived_num: "arrived cs p = Some c \<Longrightarrow> chunk_num c = p \<and> c \<in> set cs"
  by (auto simp: arrived_def dest: map_of_SomeD)

lemma sort_process_tracks:
  assumes "ser.tracks s out M" and "M (int (length out)) = None" and "M (chunk_num c) = None"
    and "0 \<le> chunk_num c" and "chunk_num c < pos_limit"
  shows "\<exists>o' s'. sort_process c s = Ret (o', s') \<and>
    ser.tracks s' (out @ o') (M(chunk_num c \<mapsto> c)) \<and>
    (M(chunk_num c \<mapsto> c)) (int (length (out @ o'))) = None"
proof -
  have "int (length out) \<le> chunk_num c"
    using assms(1,3,4) by (rule ser.tracks_new)
  from ser.tracks_add [OF assms(1) this assms(5)]
  obtain g where g: "series_add (chunk_num c) (Some c) s = Ret g"
    and t: "ser.tracks g out (M(chunk_num c \<mapsto> c))" by blast
  from ser.tracks_drop [OF t order_refl] ser.tracks_release_gap [OF t] g
  show ?thesis
    by (simp add: sort_process_def Let_def)
qed

lemma sort_run_tracks:
  assumes "ser.tracks s out M" and "M (int (length out)) = None"
    and "distinct (map chunk_num cs)" and "\<forall>c \<in> set cs. 0 \<le> chunk_num c \<and> chunk_num c < pos_limit"
    and "\<forall>c \<in> set cs. M (chunk_num c) = None"
  shows "\<exists>outs s'. sort_run cs s = Ret (outs, s') \<and>
    ser.tracks s' (out @ outs) (M ++ arrived cs) \<and>
    (M ++ arrived cs) (int (length (out @ outs))) = None"
  using assms
proof (induction cs arbitrary: s out M)
  case Nil
  then show ?case by (simp add: arrived_def)
next
  case (Cons c cs)
  obtain o' s' where o': "sort_process c s = Ret (o', s')"
    "ser.tracks s' (out @ o') (M(chunk_num c \<mapsto> c))"
    "(M(chunk_num c \<mapsto> c)) (int (length (out @ o'))) = None"
    using sort_process_tracks [OF Cons.prems(1,2), of c] Cons.prems(4,5) by auto
  have "chunk_num c \<notin> dom (arrived cs)"
    using Cons.prems(3) by (auto simp: arrived_None domIff)
  then have eq: "M(chunk_num c \<mapsto> c) ++ arrived cs = M ++ arrived (c # cs)"
    by (simp add: arrived_Cons map_add_upd_left)
  have "\<forall>d \<in> set cs. (M(chunk_num c \<mapsto> c)) (chunk_num d) = None"
    using Cons.prems(3,5) by (auto simp: image_iff)
  then obtain outs t where
    "sort_run cs s' = Ret (outs, t)"
    "ser.tracks t ((out @ o') @ outs) (M(chunk_num c \<mapsto> c) ++ arrived cs)"
    "(M(chunk_num c \<mapsto> c) ++ arrived cs) (int (length ((out @ o') @ outs))) = None"
    using Cons.IH [OF o'(2,3)] Cons.prems(3,4) by (metis distinct.simps(2) list.set_intros(2) list.simps(9))
  with o'(1) show ?case
    unfolding eq by (intro exI [of _ "o' @ outs"] exI [of _ t]) simp
qed

text \<open>
  What the proc emits over a run: the chunks numbered from 0 up to the first number that
  never arrived, in order.
\<close>

definition first_missing :: "chunk list \<Rightarrow> nat" where
  "first_missing cs = (LEAST i. int i \<notin> chunk_num ` set cs)"

lemma sort_run_state:
  assumes "distinct (map chunk_num cs)"
    and "\<forall>c \<in> set cs. 0 \<le> chunk_num c \<and> chunk_num c < pos_limit"
  obtains s' where
    "sort_run cs new_series = Ret (map (\<lambda>i. the (arrived cs (int i))) [0..<first_missing cs], s')"
    and "sort_finish s' = None \<longleftrightarrow> (\<forall>c \<in> set cs. chunk_num c < int (first_missing cs))"
proof -
  have "ser.tracks (new_series :: chunk series) [] (\<lambda>_. None)"
    by (rule ser.tracks_start) simp_all
  from sort_run_tracks [OF this _ assms] obtain outs s' where
    run: "sort_run cs new_series = Ret (outs, s')" and t: "ser.tracks s' outs (arrived cs)"
    and gap: "arrived cs (int (length outs)) = None"
    by auto
  have outs: "outs = map (\<lambda>i. the (arrived cs (int i))) [0..<first_missing cs]"
    using ser.tracks_released [OF t gap] by (simp add: first_missing_def arrived_None)
  then have len: "length outs = first_missing cs"
    by simp
  have "sort_finish s' = None \<longleftrightarrow> (\<forall>p \<ge> int (length outs). arrived cs p = None)"
    using ser.tracks_empty [OF t] by (auto simp: sort_finish_def)
  also have "\<dots> \<longleftrightarrow> (\<forall>c \<in> set cs. chunk_num c < int (first_missing cs))"
    unfolding len arrived_None not_le [symmetric] by blast
  finally show ?thesis
    by (rule that [OF run [unfolded outs]])
qed

lemma first_missing_upto:
  "chunk_num ` set cs = int ` {..<n} \<Longrightarrow> first_missing cs = n"
  unfolding first_missing_def by (rule Least_equality) (auto simp: image_iff not_le [symmetric])

lemma sort_run_sorts:
  assumes "distinct (map chunk_num cs)" and "chunk_num ` set cs = int ` {..<n}"
    and "int n \<le> pos_limit"
  shows "\<exists>s'. sort_run cs new_series = Ret (sort_key chunk_num cs, s') \<and> sort_finish s' = None"
proof -
  have range: "0 \<le> chunk_num c \<and> chunk_num c < int n" if "c \<in> set cs" for c
    using assms(2) that by (metis atMost_iff image_iff lessThan_iff of_nat_0_le_iff of_nat_less_iff imageI)
  have missing: "first_missing cs = n"
    by (rule first_missing_upto [OF assms(2)])
  let ?out = "map (\<lambda>i. the (arrived cs (int i))) [0..<n]"
  have some: "\<exists>c \<in> set cs. arrived cs (int i) = Some c \<and> chunk_num c = int i" if "i < n" for i
    using arrived_None [of cs "int i"] arrived_num assms(2) that
    by (metis image_eqI lessThan_iff option.exhaust)
  have nums: "map chunk_num ?out = map int [0..<n]"
    using some by (intro nth_equalityI) force+
  have "sort_key chunk_num cs = ?out"
  proof (rule sort_key_inj_key_eq)
    have "distinct (map chunk_num ?out)"
      unfolding nums by (simp add: distinct_map)
    then have out: "distinct ?out"
      by (rule distinct_of_map)
    have cs: "distinct cs"
      using assms(1) by (rule distinct_of_map)
    have "set ?out = set cs"
    proof
      show "set ?out \<subseteq> set cs"
        using some by fastforce
      show "set cs \<subseteq> set ?out"
      proof
        fix c assume "c \<in> set cs"
        with range [of c] have "nat (chunk_num c) < n" "int (nat (chunk_num c)) = chunk_num c"
          by linarith+
        with arrived_Some [OF assms(1) \<open>c \<in> set cs\<close>] show "c \<in> set ?out"
          by (auto simp: image_iff intro!: bexI [of _ "nat (chunk_num c)"])
      qed
    qed
    then show "mset cs = mset ?out"
      using set_eq_iff_mset_eq_distinct [OF cs out] by metis
    show "inj_on chunk_num (set cs)"
      using assms(1) by (simp add: distinct_map)
    show "sorted (map chunk_num ?out)"
      unfolding nums by (simp add: sorted_map)
  qed
  moreover have "\<forall>c \<in> set cs. 0 \<le> chunk_num c \<and> chunk_num c < pos_limit"
    using range assms(3) by fastforce
  from sort_run_state [OF assms(1) this] obtain s' where
    "sort_run cs new_series = Ret (?out, s')" "sort_finish s' = None"
    using missing range by metis
  ultimately show ?thesis by metis
qed

section \<open>Properties\<close>

text \<open>
  C5: whatever the order of arrival, the sort proc emits exactly the chunks numbered from 0
  up to the first number that never arrived, in order and once each, never panics on
  distinct numbers, and \<open>Finish\<close> reports \<open>ErrShort\<close> exactly when some chunk is held back
  behind a gap.
\<close>

theorem sort_run_emits:
  assumes "distinct (map chunk_num cs)"
    and "\<forall>c \<in> set cs. 0 \<le> chunk_num c \<and> chunk_num c < pos_limit"
  shows "\<exists>s'. sort_run cs new_series =
      Ret (map (\<lambda>i. the (arrived cs (int i))) [0..<first_missing cs], s') \<and>
    sort_finish s' = (if \<forall>c \<in> set cs. chunk_num c < int (first_missing cs)
                      then None else Some ErrShort)"
  using sort_run_state [OF assms] by (metis option.distinct(1) sort_finish_def)

theorem sort_run_emits_witness:
  "\<exists>s'. sort_run [new_chunk 3 None, new_chunk 1 None, new_chunk 0 None] new_series =
      Ret (map (\<lambda>i. the (arrived [new_chunk 3 None, new_chunk 1 None, new_chunk 0 None] (int i)))
             [0..<first_missing [new_chunk 3 None, new_chunk 1 None, new_chunk 0 None]], s') \<and>
    sort_finish s' =
      (if \<forall>c \<in> set [new_chunk 3 None, new_chunk 1 None, new_chunk 0 None].
            chunk_num c < int (first_missing [new_chunk 3 None, new_chunk 1 None, new_chunk 0 None])
       then None else Some ErrShort)"
  by (rule sort_run_emits) (simp_all add: pos_limit_def)

end
