(* ===== verification/Grouping.thy ===== *)
theory Grouping
  imports Procs
begin

text \<open>
  \<^verbatim>\<open>procs/group.go\<close>: chunks are collected by \<open>num / size\<close>; when a group is full it
  leaves as one aggregate chunk that carries the sorted group in its metadata.
\<close>

section \<open>The proc\<close>

record group =
  gsize :: int
  growing :: "(int \<times> chunk list) list"

definition new_group :: "int \<Rightarrow> group outcome" where
  "new_group sz =
     (if sz < 1 then Panic ''size must be >= 1'' else Ret \<lparr>gsize = sz, growing = []\<rparr>)"

fun contiguous :: "chunk list \<Rightarrow> bool" where
  "contiguous (a # b # cs) = (chunk_num b = wrap_int (chunk_num a + 1) \<and> contiguous (b # cs))"
| "contiguous _ = True"

text \<open>\<open>build\<close>: the head, the group so far, whether it is complete, and an error.\<close>

definition group_build :: "chunk \<Rightarrow> group \<Rightarrow> (int \<times> chunk list \<times> bool \<times> err option) \<times> group" where
  "group_build c g =
     (let head = go_div (chunk_num c) (gsize g);
          have = (case map_of (growing g) head of None \<Rightarrow> [] | Some cs \<Rightarrow> cs) @ [c]
      in if int (length have) < gsize g then
           ((head, have, False, None), g\<lparr>growing := AList.update head have (growing g)\<rparr>)
         else
           (let g' = g\<lparr>growing := AList.delete head (growing g)\<rparr> in
            if int (length have) \<noteq> gsize g then
              ((head, have, False, Some (ErrText ''accumulated too many chunks'')), g')
            else
              (let chunks = sort_key chunk_num have in
               ((head, chunks, True,
                 if contiguous chunks then None else Some (ErrText ''non-contiguous series'')), g'))))"

definition group_agg :: "int \<Rightarrow> chunk list \<Rightarrow> chunk" where
  "group_agg head grouped =
     meta_set MetaGroup (MetaChunks grouped)
       (set_target_size (chunk_target_size (hd grouped)) (new_chunk head None))"

definition group_process :: "group process" where
  "group_process c g =
     (case group_build c g of ((head, grouped, ok, err), g') \<Rightarrow>
        (if err \<noteq> None then [Res (Some c) err]
         else if ok then [Res (Some (group_agg head grouped)) None]
         else [], g'))"

definition group_process_err :: "chunk \<Rightarrow> err \<Rightarrow> group \<Rightarrow> res list \<times> group" where
  "group_process_err c e g = group_process (meta_set MetaGroupErr (MetaError e) c) g"

definition group_finish :: "group \<Rightarrow> err option" where
  "group_finish g = (if growing g \<noteq> [] then Some ErrShort else None)"

definition get_group :: "chunk \<Rightarrow> chunk list option" where
  "get_group c = (case meta_get MetaGroup c of Some (MetaChunks cs) \<Rightarrow> Some cs | _ \<Rightarrow> None)"

definition get_group_err :: "chunk \<Rightarrow> err option" where
  "get_group_err c = (case meta_get MetaGroupErr c of Some (MetaError e) \<Rightarrow> Some e | _ \<Rightarrow> None)"

fun group_run :: "chunk list \<Rightarrow> group \<Rightarrow> res list \<times> group" where
  "group_run [] g = ([], g)"
| "group_run (c # cs) g =
     (case group_process c g of (rs, g') \<Rightarrow>
      case group_run cs g' of (rs', g'') \<Rightarrow> (rs @ rs', g''))"

lemma get_group_agg [simp]: "get_group (group_agg h cs) = Some cs"
  by (simp add: get_group_def group_agg_def)

lemma group_agg_num [simp]: "chunk_num (group_agg h cs) = h"
  by (simp add: group_agg_def)

section \<open>What a growing group holds\<close>

text \<open>
  A group that is still growing has at least one chunk, fewer than the size, and only
  chunks of its head.
\<close>

definition group_ok :: "group \<Rightarrow> bool" where
  "group_ok g \<longleftrightarrow> 1 \<le> gsize g \<and>
     (\<forall>h cs. map_of (growing g) h = Some cs \<longrightarrow>
        cs \<noteq> [] \<and> int (length cs) < gsize g \<and> (\<forall>c \<in> set cs. go_div (chunk_num c) (gsize g) = h))"

lemma group_ok_new: "new_group sz = Ret g \<Longrightarrow> group_ok g"
  by (auto simp: new_group_def group_ok_def split: if_splits)

lemma group_ok_update:
  assumes "group_ok g" and "cs \<noteq> []" and "int (length cs) < gsize g"
    and "\<forall>c \<in> set cs. go_div (chunk_num c) (gsize g) = h"
  shows "group_ok (g\<lparr>growing := AList.update h cs (growing g)\<rparr>)"
  using assms by (simp add: group_ok_def update_conv')

lemma group_ok_delete: "group_ok g \<Longrightarrow> group_ok (g\<lparr>growing := AList.delete h (growing g)\<rparr>)"
  by (simp add: group_ok_def delete_conv')

lemma group_build_cases:
  assumes ok: "group_ok g" and b: "group_build c g = ((head, chunks, done, err), g')"
  shows "group_ok g'" and "gsize g' = gsize g"
    and "head = go_div (chunk_num c) (gsize g)"
    and "err = None \<or> err = Some (ErrText ''non-contiguous series'') \<and> \<not> contiguous chunks"
    and "done \<Longrightarrow> int (length chunks) = gsize g \<and> sorted (map chunk_num chunks) \<and>
           (\<forall>c \<in> set chunks. go_div (chunk_num c) (gsize g) = head) \<and>
           (err = None \<longrightarrow> contiguous chunks)"
    and "err \<noteq> None \<Longrightarrow> done"
proof -
  define old where "old = (case map_of (growing g) (go_div (chunk_num c) (gsize g)) of
    None \<Rightarrow> [] | Some cs \<Rightarrow> cs)"
  have old: "int (length old) < gsize g"
    "\<forall>d \<in> set old. go_div (chunk_num d) (gsize g) = go_div (chunk_num c) (gsize g)"
    using ok by (cases "map_of (growing g) (go_div (chunk_num c) (gsize g))";
        auto simp: old_def group_ok_def)+
  have sz: "1 \<le> gsize g"
    using ok by (simp add: group_ok_def)
  show "group_ok g'" "gsize g' = gsize g" "head = go_div (chunk_num c) (gsize g)"
    "err = None \<or> err = Some (ErrText ''non-contiguous series'') \<and> \<not> contiguous chunks"
    "done \<Longrightarrow> int (length chunks) = gsize g \<and> sorted (map chunk_num chunks) \<and>
           (\<forall>c \<in> set chunks. go_div (chunk_num c) (gsize g) = head) \<and>
           (err = None \<longrightarrow> contiguous chunks)"
    "err \<noteq> None \<Longrightarrow> done"
    using b old ok sz unfolding group_build_def old_def [symmetric] Let_def
    by (auto intro!: group_ok_update group_ok_delete split: if_splits)
qed

section \<open>A run over a stream of distinct chunks\<close>

text \<open>The chunks of one head among those that arrived, in order of arrival.\<close>

definition members :: "int \<Rightarrow> chunk list \<Rightarrow> int \<Rightarrow> chunk list" where
  "members sz cs h = filter (\<lambda>c. chunk_num c div sz = h) cs"

definition agg_res :: "int \<Rightarrow> chunk list \<Rightarrow> int \<Rightarrow> res" where
  "agg_res sz cs h = Res (Some (group_agg h (sort_key chunk_num (members sz cs h)))) None"

definition full_heads :: "int \<Rightarrow> chunk list \<Rightarrow> int set" where
  "full_heads sz cs = {h. int (length (members sz cs h)) = sz}"

definition group_tracks :: "int \<Rightarrow> group \<Rightarrow> chunk list \<Rightarrow> bool" where
  "group_tracks sz g cs \<longleftrightarrow> gsize g = sz \<and>
     map_of (growing g) = (\<lambda>h. if members sz cs h = [] \<or> h \<in> full_heads sz cs then None
                               else Some (members sz cs h))"

definition num_ok :: "chunk \<Rightarrow> bool" where
  "num_ok c \<longleftrightarrow> 0 \<le> chunk_num c \<and> chunk_num c < 2 ^ 63"

lemma members_snoc:
  "members sz (cs @ [c]) h =
     (if chunk_num c div sz = h then members sz cs h @ [c] else members sz cs h)"
  by (simp add: members_def)

lemma members_nums:
  assumes "1 \<le> sz" and "distinct (map chunk_num cs)" and "\<forall>c \<in> set cs. num_ok c"
  shows "distinct (map chunk_num (members sz cs h))"
    and "set (map chunk_num (members sz cs h)) \<subseteq> {h * sz ..< h * sz + sz}"
proof -
  show "distinct (map chunk_num (members sz cs h))"
    using assms(2) by (auto simp: members_def distinct_map intro: inj_on_subset)
  have "n \<in> {n div sz * sz ..< n div sz * sz + sz}" for n :: int
    using div_mult_bounds [OF assms(1)] by simp
  then show "set (map chunk_num (members sz cs h)) \<subseteq> {h * sz ..< h * sz + sz}"
    by (fastforce simp: members_def)
qed

lemma members_length:
  assumes "1 \<le> sz" and "distinct (map chunk_num cs)" and "\<forall>c \<in> set cs. num_ok c"
  shows "int (length (members sz cs h)) \<le> sz"
proof -
  have "length (members sz cs h) = card (set (map chunk_num (members sz cs h)))"
    using members_nums(1) [OF assms] distinct_card by (metis length_map)
  also have "\<dots> \<le> card {h * sz ..< h * sz + sz}"
    by (rule card_mono [OF _ members_nums(2) [OF assms]]) simp
  finally show ?thesis
    using assms(1) by simp
qed

lemma contiguous_upto:
  assumes "map chunk_num cs = [a..b]" and "- (2 ^ 63) \<le> a" and "b < 2 ^ 63"
  shows "contiguous cs"
  using assms
proof (induction cs arbitrary: a rule: contiguous.induct)
  case (1 c d cs)
  then have a: "a \<le> b" "chunk_num c = a" "map chunk_num (d # cs) = [a + 1..b]"
    by (auto simp: upto.simps [of a b] split: if_splits)
  then have "a + 1 \<le> b" "chunk_num d = a + 1"
    by (auto simp: upto.simps [of "a + 1" b] split: if_splits)
  with 1 a show ?case by simp
qed simp_all

text \<open>A full group, sorted, is the run of \<open>sz\<close> numbers that starts at \<open>h * sz\<close>.\<close>

lemma full_group_nums:
  assumes "1 \<le> sz" and "distinct (map chunk_num cs)" and "\<forall>c \<in> set cs. num_ok c"
    and "int (length (members sz cs h)) = sz"
  shows "map chunk_num (sort_key chunk_num (members sz cs h)) = [h * sz..h * sz + sz - 1]"
    and "contiguous (sort_key chunk_num (members sz cs h))"
proof -
  let ?m = "members sz cs h"
  note nums = members_nums [OF assms(1-3), of h]
  have "card (set (map chunk_num ?m)) = card {h * sz ..< h * sz + sz}"
    using distinct_card [OF nums(1)] assms(4) by simp
  then have eq: "set (map chunk_num ?m) = {h * sz ..< h * sz + sz}"
    using card_subset_eq [OF _ nums(2)] by simp
  show sorted: "map chunk_num (sort_key chunk_num ?m) = [h * sz..h * sz + sz - 1]"
  proof (rule sorted_distinct_set_unique)
    show "distinct (map chunk_num (sort_key chunk_num ?m))"
      using nums(1) by (simp add: distinct_map)
    show "set (map chunk_num (sort_key chunk_num ?m)) = set [h * sz..h * sz + sz - 1]"
      using eq by auto
  qed simp_all
  have "h * sz + sz - 1 \<in> chunk_num ` set ?m"
    using eq assms(1) by auto
  then have "h * sz + sz - 1 < 2 ^ 63"
    using assms(3) by (auto simp: members_def num_ok_def)
  moreover have "h * sz \<in> chunk_num ` set ?m"
    using eq assms(1) by auto
  then have "- (2 ^ 63) \<le> h * sz"
    using assms(3) by (auto simp: members_def num_ok_def)
  ultimately show "contiguous (sort_key chunk_num ?m)"
    by (intro contiguous_upto [OF sorted])
qed

lemma group_process_tracks:
  assumes "1 \<le> sz" and t: "group_tracks sz g cs"
    and new: "distinct (map chunk_num (cs @ [c]))" "\<forall>c \<in> set (cs @ [c]). num_ok c"
  shows "\<exists>g'. group_process c g =
      (if chunk_num c div sz \<in> full_heads sz (cs @ [c])
       then [agg_res sz (cs @ [c]) (chunk_num c div sz)] else [], g') \<and>
    group_tracks sz g' (cs @ [c])"
proof -
  define h where "h = chunk_num c div sz"
  define m where "m = members sz cs h"
  have m': "members sz (cs @ [c]) h = m @ [c]"
    by (simp add: members_snoc h_def m_def)
  have other: "members sz (cs @ [c]) h' = members sz cs h'" if "h' \<noteq> h" for h'
    using that by (simp add: members_snoc h_def)
  have le: "int (length m) + 1 \<le> sz"
    using members_length [OF assms(1) new, of h] by (simp add: m')
  then have "h \<notin> full_heads sz cs"
    by (simp add: full_heads_def m_def)
  then have old: "(case map_of (growing g) h of None \<Rightarrow> [] | Some cs \<Rightarrow> cs) = m"
    using t by (simp add: group_tracks_def m_def)
  have size: "gsize g = sz" and head: "go_div (chunk_num c) sz = h"
    using t new(2) assms(1) by (simp_all add: group_tracks_def h_def num_ok_def)
  show ?thesis
  proof (cases "int (length m) + 1 = sz")
    case True
    then have full: "h \<in> full_heads sz (cs @ [c])"
      by (simp add: full_heads_def m')
    have "contiguous (sort_key chunk_num (m @ [c]))"
      using full_group_nums(2) [OF assms(1) new, of h] full by (simp add: full_heads_def m')
    with True have "group_process c g =
      ([agg_res sz (cs @ [c]) h], g\<lparr>growing := AList.delete h (growing g)\<rparr>)"
      by (simp add: group_process_def group_build_def size head old m' agg_res_def)
    moreover have "group_tracks sz (g\<lparr>growing := AList.delete h (growing g)\<rparr>) (cs @ [c])"
      using t full other
      by (auto simp: group_tracks_def delete_conv' fun_eq_iff full_heads_def m')
    ultimately show ?thesis
      using full by (auto simp: h_def)
  next
    case False
    then have short: "h \<notin> full_heads sz (cs @ [c])"
      by (simp add: full_heads_def m')
    with False le have "group_process c g =
      ([], g\<lparr>growing := AList.update h (m @ [c]) (growing g)\<rparr>)"
      by (simp add: group_process_def group_build_def size head old Let_def)
    moreover have "group_tracks sz (g\<lparr>growing := AList.update h (m @ [c]) (growing g)\<rparr>) (cs @ [c])"
      using t short other
      by (auto simp: group_tracks_def update_conv' fun_eq_iff full_heads_def m')
    ultimately show ?thesis
      using short by (auto simp: h_def)
  qed
qed

lemma group_run_append:
  "group_run (cs @ ds) g =
     (case group_run cs g of (rs, g') \<Rightarrow> case group_run ds g' of (rs', g'') \<Rightarrow> (rs @ rs', g''))"
  by (induction cs arbitrary: g) (auto split: prod.splits)

lemma full_heads_finite: "1 \<le> sz \<Longrightarrow> finite (full_heads sz cs)"
proof -
  assume "1 \<le> sz"
  then have "members sz cs h \<noteq> []" if "h \<in> full_heads sz cs" for h
    using that by (auto simp: full_heads_def)
  then have "full_heads sz cs \<subseteq> (\<lambda>c. chunk_num c div sz) ` set cs"
    by (force simp: members_def filter_empty_conv)
  then show ?thesis
    by (rule finite_subset) simp
qed

lemma full_heads_snoc:
  assumes "1 \<le> sz" and "distinct (map chunk_num (cs @ [c]))" and "\<forall>c \<in> set (cs @ [c]). num_ok c"
  shows "chunk_num c div sz \<notin> full_heads sz cs"
    and "full_heads sz (cs @ [c]) =
      (if chunk_num c div sz \<in> full_heads sz (cs @ [c])
       then insert (chunk_num c div sz) (full_heads sz cs) else full_heads sz cs)"
    and "h \<in> full_heads sz cs \<Longrightarrow> agg_res sz (cs @ [c]) h = agg_res sz cs h"
proof -
  have "int (length (members sz cs (chunk_num c div sz))) + 1 \<le> sz"
    using members_length [OF assms, of "chunk_num c div sz"] by (simp add: members_snoc)
  then show no: "chunk_num c div sz \<notin> full_heads sz cs"
    by (simp add: full_heads_def)
  then show "full_heads sz (cs @ [c]) =
      (if chunk_num c div sz \<in> full_heads sz (cs @ [c])
       then insert (chunk_num c div sz) (full_heads sz cs) else full_heads sz cs)"
    by (auto simp: full_heads_def members_snoc split: if_splits)
  show "h \<in> full_heads sz cs \<Longrightarrow> agg_res sz (cs @ [c]) h = agg_res sz cs h"
    using no by (auto simp: agg_res_def members_snoc)
qed

text \<open>
  Over a run of distinct chunks the proc emits one aggregate for each full group, and
  what is still growing is the rest.
\<close>

lemma group_run_tracks:
  assumes "1 \<le> sz" and "distinct (map chunk_num cs)" and "\<forall>c \<in> set cs. num_ok c"
  shows "\<exists>rs g. group_run cs \<lparr>gsize = sz, growing = []\<rparr> = (rs, g) \<and> group_tracks sz g cs \<and>
    mset rs = image_mset (agg_res sz cs) (mset_set (full_heads sz cs))"
  using assms(2,3)
proof (induction cs rule: rev_induct)
  case Nil
  then show ?case
    using assms(1) by (simp add: group_tracks_def members_def full_heads_def)
next
  case (snoc c cs)
  then obtain rs g where run: "group_run cs \<lparr>gsize = sz, growing = []\<rparr> = (rs, g)"
    and t: "group_tracks sz g cs"
    and rs: "mset rs = image_mset (agg_res sz cs) (mset_set (full_heads sz cs))"
    by auto
  note full = full_heads_snoc [OF assms(1) snoc.prems]
  have old: "image_mset (agg_res sz cs) (mset_set (full_heads sz cs)) =
      image_mset (agg_res sz (cs @ [c])) (mset_set (full_heads sz cs))"
    using full(3) full_heads_finite [OF assms(1)] by (intro image_mset_cong) simp
  from group_process_tracks [OF assms(1) t snoc.prems] obtain g' where
    step: "group_process c g =
      (if chunk_num c div sz \<in> full_heads sz (cs @ [c])
       then [agg_res sz (cs @ [c]) (chunk_num c div sz)] else [], g')"
    and "group_tracks sz g' (cs @ [c])" by blast
  moreover have "mset (rs @ fst (group_process c g)) =
      image_mset (agg_res sz (cs @ [c])) (mset_set (full_heads sz (cs @ [c])))"
    using full(1,2) full_heads_finite [OF assms(1), of cs]
    by (auto simp: step rs old split: if_splits)
  ultimately show ?case
    using run by (auto simp: group_run_append)
qed

lemma group_tracks_finish:
  assumes "1 \<le> sz" and "group_tracks sz g cs"
  shows "group_finish g = None \<longleftrightarrow> (\<forall>c \<in> set cs. chunk_num c div sz \<in> full_heads sz cs)"
proof -
  have "group_finish g = None \<longleftrightarrow> map_of (growing g) = Map.empty"
    by (simp add: group_finish_def)
  also have "\<dots> \<longleftrightarrow> (\<forall>h. members sz cs h = [] \<or> h \<in> full_heads sz cs)"
    using assms(2) by (auto simp: group_tracks_def fun_eq_iff)
  also have "\<dots> \<longleftrightarrow> (\<forall>c \<in> set cs. chunk_num c div sz \<in> full_heads sz cs)"
    by (auto simp: members_def filter_empty_conv)
  finally show ?thesis .
qed

section \<open>Properties\<close>

text \<open>
  From \<open>NewGroup\<close> on, whatever chunks arrive (any numbers, duplicates included), an
  emitted aggregate carries exactly \<open>size\<close> chunks, sorted and contiguous, all of its head;
  the only error is the non-contiguous series, so too many chunks never accumulate.
\<close>

lemma group_run_results:
  assumes "new_group sz = Ret g" and "group_run cs g = (rs, g')" and "r \<in> set rs"
  shows "(\<exists>c. res_chunk r = Some c \<and> res_err r = None \<and>
           (\<exists>grp. get_group c = Some grp \<and> int (length grp) = sz \<and> contiguous grp \<and>
              sorted (map chunk_num grp) \<and> (\<forall>d \<in> set grp. go_div (chunk_num d) sz = chunk_num c))) \<or>
         (\<exists>c \<in> set cs. r = Res (Some c) (Some (ErrText ''non-contiguous series'')))"
proof -
  have "group_ok g" and "gsize g = sz"
    using assms(1) group_ok_new by (auto simp: new_group_def split: if_splits)
  with assms(2,3) show ?thesis
  proof (induction cs arbitrary: g rs g')
    case (Cons c cs)
    obtain head chunks done' err g1 where b: "group_build c g = ((head, chunks, done', err), g1)"
      by (metis prod_cases5 surj_pair)
    obtain rs2 g2 where run: "group_run cs g1 = (rs2, g2)" by fastforce
    note built = group_build_cases [OF Cons.prems(3) b]
    have rs: "rs = (if err \<noteq> None then [Res (Some c) err]
        else if done' then [Res (Some (group_agg head chunks)) None] else []) @ rs2"
      using Cons.prems(1) b run by (simp add: group_process_def)
    show ?case
    proof (cases "r \<in> set rs2")
      case True
      with Cons.IH [OF run True built(1)] built(2) Cons.prems(4) show ?thesis by auto
    next
      case False
      with rs Cons.prems(2,4) built(3-6) show ?thesis by (auto split: if_splits)
    qed
  qed simp
qed

text \<open>
  C6: for distinct chunks the proc emits exactly one aggregate for each head whose chunks
  have all arrived, holding those chunks in order, and \<open>Finish\<close> reports \<open>ErrShort\<close>
  exactly when some chunk that arrived is still waiting for its group.
\<close>

theorem group_run_emits:
  assumes "1 \<le> sz" and "distinct (map chunk_num cs)" and "\<forall>c \<in> set cs. num_ok c"
  shows "\<exists>rs g. group_run cs \<lparr>gsize = sz, growing = []\<rparr> = (rs, g) \<and>
    mset rs = image_mset (agg_res sz cs) (mset_set (full_heads sz cs)) \<and>
    group_finish g = (if \<forall>c \<in> set cs. chunk_num c div sz \<in> full_heads sz cs
                      then None else Some ErrShort)"
proof -
  from group_run_tracks [OF assms] obtain rs g where
    run: "group_run cs \<lparr>gsize = sz, growing = []\<rparr> = (rs, g)" and t: "group_tracks sz g cs"
    and rs: "mset rs = image_mset (agg_res sz cs) (mset_set (full_heads sz cs))" by blast
  have "group_finish g = (if \<forall>c \<in> set cs. chunk_num c div sz \<in> full_heads sz cs
                      then None else Some ErrShort)"
    using group_tracks_finish [OF assms(1) t] by (auto simp: group_finish_def split: if_splits)
  with run rs show ?thesis by blast
qed

theorem group_run_emits_witness:
  "\<exists>rs g. group_run [new_chunk 3 None, new_chunk 0 None] \<lparr>gsize = 2, growing = []\<rparr> = (rs, g) \<and>
    mset rs = image_mset (agg_res 2 [new_chunk 3 None, new_chunk 0 None])
      (mset_set (full_heads 2 [new_chunk 3 None, new_chunk 0 None])) \<and>
    group_finish g =
      (if \<forall>c \<in> set [new_chunk 3 None, new_chunk 0 None].
            chunk_num c div 2 \<in> full_heads 2 [new_chunk 3 None, new_chunk 0 None]
       then None else Some ErrShort)"
  by (rule group_run_emits) (simp_all add: num_ok_def)

end
