(* ===== verification/Index_Writer.thy ===== *)
theory Index_Writer
  imports Series Procs Index_Format
begin

text \<open>
  \<^verbatim>\<open>procs/index.go\<close>: the index lists, for every chunk that entered the proc and in the
  order of the chunk numbers, the final chunks made from it. A chunk whose hash was seen
  before is not processed again; its position repeats the entries of the first one.

  The writer is the interface \<open>io.Writer\<close>: \<open>wr line w\<close> is one call of \<open>Write\<close>, its error and
  the writer afterwards.
\<close>

section \<open>State\<close>

record index_entry =
  en_num :: int
  en_hash :: hash
  en_size :: int

record finals =
  fnum :: int
  entries :: "index_entry list"
  complete :: bool

record 'w index_st =
  iw :: 'w
  iorder :: "hash series"
  ifinals :: "hash \<Rightarrow> finals option"

type_synonym 'w writer = "string \<Rightarrow> 'w \<Rightarrow> err option \<times> 'w"

definition new_index :: "'w \<Rightarrow> 'w index_st" where
  "new_index w = \<lparr>iw = w, iorder = new_series, ifinals = (\<lambda>_. None)\<rparr>"

section \<open>Operations\<close>

definition index_set_order :: "chunk \<Rightarrow> 'w index_st \<Rightarrow> 'w index_st outcome" where
  "index_set_order c st =
     bind_outcome (series_add (chunk_num c) (Some (chunk_hash c)) (iorder st))
       (\<lambda>order. Ret (st\<lparr>iorder := order\<rparr>))"

definition index_process :: "chunk \<Rightarrow> 'w index_st \<Rightarrow> (res list \<times> 'w index_st) outcome" where
  "index_process c st =
     bind_outcome (index_set_order c st) (\<lambda>st.
       if ifinals st (chunk_hash c) = None then
         Ret ([Res (Some c) None],
              st\<lparr>ifinals := (ifinals st)(chunk_hash c \<mapsto>
                   \<lparr>fnum = chunk_num c, entries = [], complete = False\<rparr>)\<rparr>)
       else Ret ([], st))"

definition index_process_final :: "chunk \<Rightarrow> chunk \<Rightarrow> 'w index_st \<Rightarrow> err option \<times> 'w index_st" where
  "index_process_final c final st =
     (let entry = \<lparr>en_num = chunk_num final, en_hash = chunk_hash final,
                   en_size = chunk_target_size final\<rparr>
      in case ifinals st (chunk_hash c) of
           None \<Rightarrow> (Some ErrIndexUnprocessedChunk, st)
         | Some f \<Rightarrow>
             if complete f then (Some ErrIndexProcessEnded, st)
             else if fnum f \<noteq> chunk_num c then (Some ErrIndexDup, st)
             else (None, st\<lparr>ifinals := (ifinals st)(chunk_hash c \<mapsto>
                              f\<lparr>entries := entries f @ [entry]\<rparr>)\<rparr>))"

definition index_set_complete :: "chunk \<Rightarrow> 'w index_st \<Rightarrow> err option \<times> 'w index_st" where
  "index_set_complete c st =
     (case ifinals st (chunk_hash c) of
        None \<Rightarrow> (Some ErrIndexUnprocessedChunk, st)
      | Some f \<Rightarrow>
          if fnum f \<noteq> chunk_num c then (None, st)
          else (None, st\<lparr>ifinals := (ifinals st)(chunk_hash c \<mapsto> f\<lparr>complete := True\<rparr>)\<rparr>))"

definition entry_line :: "index_entry \<Rightarrow> string" where
  "entry_line e = index_line (en_hash e) (en_size e)"

fun write_entries :: "'w writer \<Rightarrow> index_entry list \<Rightarrow> 'w \<Rightarrow> err option \<times> 'w" where
  "write_entries wr [] w = (None, w)"
| "write_entries wr (e # es) w =
     (case wr (entry_line e) w of
        (Some err, w') \<Rightarrow> (Some err, w')
      | (None, w') \<Rightarrow> write_entries wr es w')"

text \<open>
  The loop of \<open>flush\<close> over the sorted hashes; it returns how many positions to drop. The
  entries are sorted in place, by a sort that is stable, as \<open>sort.Slice\<close> need not be: of the orders
  it may leave entries with equal numbers in, which only final chunks with the same number have, the
  model takes one.
\<close>

fun flush_loop :: "'w writer \<Rightarrow> hash list \<Rightarrow> 'w index_st \<Rightarrow> (err option \<times> nat) \<times> 'w index_st" where
  "flush_loop wr [] st = ((None, 0), st)"
| "flush_loop wr (h # hs) st =
     (case ifinals st h of
        None \<Rightarrow> ((None, 0), st)
      | Some f \<Rightarrow>
          if \<not> complete f then ((None, 0), st)
          else
            (let es = sort_key en_num (entries f);
                 st1 = st\<lparr>ifinals := (ifinals st)(h \<mapsto> f\<lparr>entries := es\<rparr>)\<rparr>
             in case write_entries wr es (iw st1) of
                  (Some e, w) \<Rightarrow> ((Some e, 0), st1\<lparr>iw := w\<rparr>)
                | (None, w) \<Rightarrow>
                    (case flush_loop wr hs (st1\<lparr>iw := w\<rparr>) of
                       ((e, i), st2) \<Rightarrow> ((e, Suc i), st2))))"

definition index_flush :: "'w writer \<Rightarrow> 'w index_st \<Rightarrow> err option \<times> 'w index_st" where
  "index_flush wr st =
     (case flush_loop wr (series_sorted (iorder st)) st of
        ((e, i), st') \<Rightarrow> (e, st'\<lparr>iorder := series_drop (int i) (iorder st')\<rparr>))"

definition index_process_end :: "'w writer \<Rightarrow> chunk \<Rightarrow> 'w index_st \<Rightarrow> err option \<times> 'w index_st" where
  "index_process_end wr c st =
     (case index_set_complete c st of
        (Some e, st') \<Rightarrow> (Some e, st')
      | (None, st') \<Rightarrow> index_flush wr st')"

definition index_finish :: "'w index_st \<Rightarrow> err option" where
  "index_finish st = (if 0 < series_len (iorder st) then Some ErrShort else None)"

text \<open>The calls a chain makes, in the order they take the proc's locks.\<close>

datatype index_event = EProcess chunk | EFinal chunk chunk | EEnd chunk

definition index_step :: "'w writer \<Rightarrow> index_event \<Rightarrow> 'w index_st \<Rightarrow> (err option \<times> 'w index_st) outcome" where
  "index_step wr ev st =
     (case ev of
        EProcess c \<Rightarrow> bind_outcome (index_process c st) (\<lambda>(rs, st'). Ret (None, st'))
      | EFinal c final \<Rightarrow> Ret (index_process_final c final st)
      | EEnd c \<Rightarrow> Ret (index_process_end wr c st))"

fun index_run :: "'w writer \<Rightarrow> index_event list \<Rightarrow> 'w index_st \<Rightarrow> (err option list \<times> 'w index_st) outcome" where
  "index_run wr [] st = Ret ([], st)"
| "index_run wr (ev # evs) st =
     bind_outcome (index_step wr ev st) (\<lambda>(e, st').
     bind_outcome (index_run wr evs st') (\<lambda>(es, st''). Ret (e # es, st'')))"

section \<open>What has been written\<close>

text \<open>
  A writer that accepts every line, and its state after some lines. \<open>H\<close> is the hash of the
  chunk processed at each position, \<open>R\<close> the final entries reported so far for each hash.
\<close>

definition writer_ok :: "'w writer \<Rightarrow> bool" where
  "writer_ok wr \<longleftrightarrow> (\<forall>l w. fst (wr l w) = None)"

definition put_lines :: "'w writer \<Rightarrow> string list \<Rightarrow> 'w \<Rightarrow> 'w" where
  "put_lines wr ls w = fold (\<lambda>l w. snd (wr l w)) ls w"

definition hash_lines :: "(hash \<Rightarrow> index_entry list) \<Rightarrow> hash \<Rightarrow> string list" where
  "hash_lines R h = map entry_line (sort_key en_num (R h))"

definition fin_complete :: "(hash \<Rightarrow> finals option) \<Rightarrow> hash \<Rightarrow> bool" where
  "fin_complete fin h \<longleftrightarrow> (case fin h of None \<Rightarrow> False | Some f \<Rightarrow> complete f)"

definition reports :: "(hash \<Rightarrow> finals option) \<Rightarrow> (hash \<Rightarrow> index_entry list) \<Rightarrow> bool" where
  "reports fin R \<longleftrightarrow> (\<forall>h. case fin h of
       None \<Rightarrow> R h = []
     | Some f \<Rightarrow> sort_key en_num (entries f) = sort_key en_num (R h) \<and>
                 (\<not> complete f \<longrightarrow> entries f = R h))"

definition index_inv ::
  "'w writer \<Rightarrow> 'w \<Rightarrow> (int \<Rightarrow> hash option) \<Rightarrow> (hash \<Rightarrow> index_entry list) \<Rightarrow> hash list \<Rightarrow>
   'w index_st \<Rightarrow> bool" where
  "index_inv wr w0 H R outs st \<longleftrightarrow>
     ser.tracks (iorder st) outs H \<and> reports (ifinals st) R \<and>
     (\<forall>h \<in> set outs. fin_complete (ifinals st) h) \<and>
     iw st = put_lines wr (concat (map (hash_lines R) outs)) w0"

lemma put_lines_append: "put_lines wr (ls @ ms) w = put_lines wr ms (put_lines wr ls w)"
  by (simp add: put_lines_def)

lemma write_entries_ok:
  "writer_ok wr \<Longrightarrow> write_entries wr es w = (None, put_lines wr (map entry_line es) w)"
proof (induction es arbitrary: w)
  case (Cons e es)
  obtain w' where "wr (entry_line e) w = (None, w')"
    using Cons.prems by (metis prod.collapse writer_ok_def)
  with Cons show ?case
    by (simp add: put_lines_def)
qed (simp add: put_lines_def)

text \<open>Sorting the entries of a complete hash in place changes nothing the invariant sees.\<close>

lemma reports_sort:
  assumes "reports fin R" and "fin h = Some f" and "complete f"
  shows "reports (fin(h \<mapsto> f\<lparr>entries := sort_key en_num (entries f)\<rparr>)) R"
  using assms by (auto simp: reports_def sorted_sort_key_id split: option.splits)

lemma reports_append:
  assumes "reports fin R" and "fin h = Some f" and "\<not> complete f"
  shows "reports (fin(h \<mapsto> f\<lparr>entries := entries f @ [e]\<rparr>)) (R(h := R h @ [e]))"
  unfolding reports_def
proof
  fix h'
  show "case (fin(h \<mapsto> f\<lparr>entries := entries f @ [e]\<rparr>)) h' of
       None \<Rightarrow> (R(h := R h @ [e])) h' = []
     | Some g \<Rightarrow> sort_key en_num (entries g) = sort_key en_num ((R(h := R h @ [e])) h') \<and>
                 (\<not> complete g \<longrightarrow> entries g = (R(h := R h @ [e])) h')"
    using spec [OF assms(1) [unfolded reports_def], of h'] assms(2,3)
    by (cases "h' = h") (simp_all split: option.splits)
qed

lemma fin_complete_sort:
  "fin h = Some f \<Longrightarrow> fin_complete (fin(h \<mapsto> f\<lparr>entries := es\<rparr>)) = fin_complete fin"
  by (rule ext) (auto simp: fin_complete_def)

lemma flush_loop_ok:
  assumes "writer_ok wr" and "reports (ifinals st) R"
  shows "\<exists>st'. flush_loop wr hs st = ((None, length (takeWhile (fin_complete (ifinals st)) hs)), st') \<and>
    iorder st' = iorder st \<and> reports (ifinals st') R \<and>
    fin_complete (ifinals st') = fin_complete (ifinals st) \<and>
    (\<forall>h. map_option fnum (ifinals st' h) = map_option fnum (ifinals st h)) \<and>
    iw st' = put_lines wr
      (concat (map (hash_lines R) (takeWhile (fin_complete (ifinals st)) hs))) (iw st)"
  using assms(2)
proof (induction hs arbitrary: st)
  case Nil
  then show ?case by (simp add: put_lines_def)
next
  case (Cons h hs)
  show ?case
  proof (cases "fin_complete (ifinals st) h")
    case False
    then show ?thesis
      using Cons.prems by (auto simp: fin_complete_def put_lines_def split: option.splits)
  next
    case True
    then obtain f where f: "ifinals st h = Some f" "complete f"
      by (auto simp: fin_complete_def split: option.splits)
    define es where "es = sort_key en_num (entries f)"
    define st1 where "st1 = st\<lparr>ifinals := (ifinals st)(h \<mapsto> f\<lparr>entries := es\<rparr>),
      iw := put_lines wr (map entry_line es) (iw st)\<rparr>"
    have es: "es = sort_key en_num (R h)"
      using Cons.prems f by (auto simp: reports_def es_def split: option.splits)
    have "reports (ifinals st1) R"
      using reports_sort [OF Cons.prems f] by (simp add: st1_def es_def)
    from Cons.IH [OF this] obtain st' where st':
      "flush_loop wr hs st1 = ((None, length (takeWhile (fin_complete (ifinals st1)) hs)), st')"
      "iorder st' = iorder st1" "reports (ifinals st') R"
      "fin_complete (ifinals st') = fin_complete (ifinals st1)"
      "\<forall>h. map_option fnum (ifinals st' h) = map_option fnum (ifinals st1 h)"
      "iw st' = put_lines wr
        (concat (map (hash_lines R) (takeWhile (fin_complete (ifinals st1)) hs))) (iw st1)"
      by blast
    have same: "fin_complete (ifinals st1) = fin_complete (ifinals st)"
      using fin_complete_sort [of "ifinals st" h f] f(1) by (simp add: st1_def)
    have "flush_loop wr (h # hs) st =
      ((None, Suc (length (takeWhile (fin_complete (ifinals st)) hs))), st')"
      using f st'(1) by (simp add: write_entries_ok [OF assms(1)] es_def [symmetric] st1_def [symmetric]
          same Let_def)
    then show ?thesis
      using st'(2-6) True f(1)
      by (auto simp: fin_complete_sort [where fin = "ifinals st", OF f(1)] put_lines_append st1_def es hash_lines_def [abs_def])
  qed
qed

lemma index_flush_ok:
  assumes "writer_ok wr" and "index_inv wr w0 H R outs st"
  shows "\<exists>st'. index_flush wr st = (None, st') \<and>
    index_inv wr w0 H R
      (outs @ takeWhile (fin_complete (ifinals st)) (series_sorted (iorder st))) st' \<and>
    fin_complete (ifinals st') = fin_complete (ifinals st) \<and>
    (\<forall>h. map_option fnum (ifinals st' h) = map_option fnum (ifinals st h))"
proof -
  let ?hs = "series_sorted (iorder st)"
  let ?run = "takeWhile (fin_complete (ifinals st)) ?hs"
  have inv: "ser.tracks (iorder st) outs H" "reports (ifinals st) R"
    "\<forall>h \<in> set outs. fin_complete (ifinals st) h"
    "iw st = put_lines wr (concat (map (hash_lines R) outs)) w0"
    using assms(2) by (simp_all add: index_inv_def)
  from flush_loop_ok [OF assms(1) inv(2), of ?hs] obtain st1 where
    st1: "flush_loop wr ?hs st = ((None, length ?run), st1)" "iorder st1 = iorder st"
    "reports (ifinals st1) R" "fin_complete (ifinals st1) = fin_complete (ifinals st)"
    "\<forall>h. map_option fnum (ifinals st1 h) = map_option fnum (ifinals st h)"
    "iw st1 = put_lines wr (concat (map (hash_lines R) ?run)) (iw st)"
    by blast
  let ?st' = "st1\<lparr>iorder := series_drop (int (length ?run)) (iorder st1)\<rparr>"
  have "length ?run \<le> length ?hs"
    by (rule length_takeWhile_le)
  from ser.tracks_drop [OF inv(1) this]
  have "ser.tracks (iorder ?st') (outs @ ?run) H"
    by (simp add: st1(2) takeWhile_eq_take [symmetric])
  moreover have "\<forall>h \<in> set (outs @ ?run). fin_complete (ifinals ?st') h"
    using inv(3) st1(4) by (auto dest: set_takeWhileD)
  ultimately have "index_inv wr w0 H R (outs @ ?run) ?st'"
    using st1(3,6) inv(4) by (simp add: index_inv_def put_lines_append)
  moreover have "index_flush wr st = (None, ?st')"
    using st1(1) by (simp add: index_flush_def)
  ultimately show ?thesis
    using st1(4,5) by auto
qed

section \<open>Each operation keeps the account\<close>

definition entry_of :: "chunk \<Rightarrow> index_entry" where
  "entry_of c = \<lparr>en_num = chunk_num c, en_hash = chunk_hash c, en_size = chunk_target_size c\<rparr>"

lemma index_process_inv:
  assumes inv: "index_inv wr w0 H R outs st" and new: "H (chunk_num c) = None"
    and range: "0 \<le> chunk_num c" "chunk_num c < pos_limit"
  shows "\<exists>rs st'. index_process c st = Ret (rs, st') \<and>
    index_inv wr w0 (H(chunk_num c \<mapsto> chunk_hash c)) R outs st' \<and>
    ifinals st' = (if ifinals st (chunk_hash c) = None
      then (ifinals st)(chunk_hash c \<mapsto> \<lparr>fnum = chunk_num c, entries = [], complete = False\<rparr>)
      else ifinals st)"
proof -
  have t: "ser.tracks (iorder st) outs H"
    using inv by (simp add: index_inv_def)
  have "int (length outs) \<le> chunk_num c"
    using t new range(1) by (rule ser.tracks_new)
  from ser.tracks_add [OF t this range(2)] obtain order where
    "series_add (chunk_num c) (Some (chunk_hash c)) (iorder st) = Ret order"
    "ser.tracks order outs (H(chunk_num c \<mapsto> chunk_hash c))" by blast
  moreover have "R (chunk_hash c) = []" if "ifinals st (chunk_hash c) = None"
    using inv that by (auto simp: index_inv_def reports_def dest: spec [of _ "chunk_hash c"])
  ultimately show ?thesis
    using inv by (auto simp: index_process_def index_set_order_def index_inv_def reports_def
        fin_complete_def split: option.splits)
qed

lemma index_final_inv:
  assumes inv: "index_inv wr w0 H R outs st"
    and step: "index_process_final c final st = (e, st')"
  shows "index_inv wr w0 H
      (if e = None then R(chunk_hash c := R (chunk_hash c) @ [entry_of final]) else R) outs st'"
    and "fin_complete (ifinals st') = fin_complete (ifinals st)"
    and "\<forall>h. map_option fnum (ifinals st' h) = map_option fnum (ifinals st h)"
proof -
  let ?h = "chunk_hash c"
  consider (same) "e \<noteq> None" "st' = st"
    | (add) f where "e = None" "ifinals st ?h = Some f" "\<not> complete f"
      "st' = st\<lparr>ifinals := (ifinals st)(?h \<mapsto> f\<lparr>entries := entries f @ [entry_of final]\<rparr>)\<rparr>"
    using step by (auto simp: index_process_final_def entry_of_def Let_def split: option.splits if_splits)
  then have "index_inv wr w0 H
      (if e = None then R(?h := R ?h @ [entry_of final]) else R) outs st' \<and>
    fin_complete (ifinals st') = fin_complete (ifinals st) \<and>
    (\<forall>h. map_option fnum (ifinals st' h) = map_option fnum (ifinals st h))"
  proof cases
    case same
    with inv show ?thesis by auto
  next
    case add
    have "?h \<notin> set outs"
      using inv add(2,3) by (auto simp: index_inv_def fin_complete_def)
    then have "concat (map (hash_lines (R(?h := R ?h @ [entry_of final]))) outs) =
        concat (map (hash_lines R) outs)"
      by (intro arg_cong [of _ _ concat] map_cong) (auto simp: hash_lines_def)
    moreover have "fin_complete (ifinals st') = fin_complete (ifinals st)"
      using add(2-4) by (auto simp: fin_complete_def fun_eq_iff)
    moreover have "reports (ifinals st') (R(?h := R ?h @ [entry_of final]))"
      using inv reports_append [where fin = "ifinals st", OF _ add(2,3)]
      by (simp add: index_inv_def add(4))
    ultimately show ?thesis
      using inv add(1,2,4) by (simp add: index_inv_def)
  qed
  then show "index_inv wr w0 H
      (if e = None then R(?h := R ?h @ [entry_of final]) else R) outs st'"
    "fin_complete (ifinals st') = fin_complete (ifinals st)"
    "\<forall>h. map_option fnum (ifinals st' h) = map_option fnum (ifinals st h)"
    by simp_all
qed

lemma index_set_complete_inv:
  assumes inv: "index_inv wr w0 H R outs st" and step: "index_set_complete c st = (e, st')"
  shows "index_inv wr w0 H R outs st'"
    and "\<forall>h. fin_complete (ifinals st) h \<longrightarrow> fin_complete (ifinals st') h"
    and "\<forall>h. map_option fnum (ifinals st' h) = map_option fnum (ifinals st h)"
    and "e = None \<longleftrightarrow> ifinals st (chunk_hash c) \<noteq> None"
    and "\<forall>f. ifinals st (chunk_hash c) = Some f \<longrightarrow> fnum f = chunk_num c \<longrightarrow>
           fin_complete (ifinals st') (chunk_hash c)"
proof -
  let ?h = "chunk_hash c"
  consider (same) "st' = st" "e = None \<longleftrightarrow> ifinals st ?h \<noteq> None"
      "\<forall>f. ifinals st ?h = Some f \<longrightarrow> fnum f \<noteq> chunk_num c"
    | (done') f where "e = None" "ifinals st ?h = Some f"
      "st' = st\<lparr>ifinals := (ifinals st)(?h \<mapsto> f\<lparr>complete := True\<rparr>)\<rparr>"
    using step by (auto simp: index_set_complete_def split: option.splits if_splits)
  then have "index_inv wr w0 H R outs st' \<and>
    (\<forall>h. fin_complete (ifinals st) h \<longrightarrow> fin_complete (ifinals st') h) \<and>
    (\<forall>h. map_option fnum (ifinals st' h) = map_option fnum (ifinals st h)) \<and>
    (e = None \<longleftrightarrow> ifinals st ?h \<noteq> None) \<and>
    (\<forall>f. ifinals st ?h = Some f \<longrightarrow> fnum f = chunk_num c \<longrightarrow> fin_complete (ifinals st') ?h)"
  proof cases
    case same
    with inv show ?thesis by auto
  next
    case (done' f)
    moreover have "reports (ifinals st') R"
      using inv done'(2) by (auto simp: index_inv_def reports_def done'(3) split: option.splits)
    ultimately show ?thesis
      using inv by (auto simp: index_inv_def fin_complete_def)
  qed
  then show "index_inv wr w0 H R outs st'"
    "\<forall>h. fin_complete (ifinals st) h \<longrightarrow> fin_complete (ifinals st') h"
    "\<forall>h. map_option fnum (ifinals st' h) = map_option fnum (ifinals st h)"
    "e = None \<longleftrightarrow> ifinals st (chunk_hash c) \<noteq> None"
    "\<forall>f. ifinals st (chunk_hash c) = Some f \<longrightarrow> fnum f = chunk_num c \<longrightarrow>
       fin_complete (ifinals st') (chunk_hash c)"
    by simp_all
qed

section \<open>Runs\<close>

text \<open>
  The chunks processed, the hash at each position, and the entries reported for a hash by
  the calls that returned no error, all read off the calls and their results.
\<close>

definition processed :: "index_event list \<Rightarrow> chunk list" where
  "processed evs = concat (map (\<lambda>ev. case ev of EProcess c \<Rightarrow> [c] | _ \<Rightarrow> []) evs)"

definition hash_at :: "index_event list \<Rightarrow> int \<Rightarrow> hash option" where
  "hash_at evs = map_of (map (\<lambda>c. (chunk_num c, chunk_hash c)) (processed evs))"

definition reported :: "index_event list \<Rightarrow> err option list \<Rightarrow> hash \<Rightarrow> index_entry list" where
  "reported evs es h = concat (map (\<lambda>(ev, e). case ev of
       EFinal c final \<Rightarrow> if e = None \<and> chunk_hash c = h then [entry_of final] else []
     | _ \<Rightarrow> []) (zip evs es))"

definition index_nums_ok :: "index_event list \<Rightarrow> bool" where
  "index_nums_ok evs \<longleftrightarrow> distinct (map chunk_num (processed evs)) \<and>
     (\<forall>c \<in> set (processed evs). 0 \<le> chunk_num c \<and> chunk_num c < pos_limit)"

definition ended :: "hash \<Rightarrow> int \<Rightarrow> (hash \<Rightarrow> finals option) \<Rightarrow> bool" where
  "ended h n fin \<longleftrightarrow> (\<exists>f. fin h = Some f \<and> (fnum f = n \<longrightarrow> complete f))"

text \<open>Nothing more can be written: the next position is missing or its hash not complete.\<close>

definition flushed :: "(int \<Rightarrow> hash option) \<Rightarrow> hash list \<Rightarrow> (hash \<Rightarrow> finals option) \<Rightarrow> bool" where
  "flushed H outs fin \<longleftrightarrow> (case H (int (length outs)) of
       None \<Rightarrow> True | Some h \<Rightarrow> \<not> fin_complete fin h)"

lemma index_run_snoc:
  assumes "index_run wr evs st = Ret (es, st')" and "index_step wr ev st' = Ret (e, st'')"
  shows "index_run wr (evs @ [ev]) st = Ret (es @ [e], st'')"
  using assms(1)
proof (induction evs arbitrary: st es)
  case (Cons ev' evs)
  from Cons.prems obtain e' st1 es' where "index_step wr ev' st = Ret (e', st1)"
    "index_run wr evs st1 = Ret (es', st')" "es = e' # es'"
    by (auto simp: bind_outcome_Ret_iff)
  with Cons.IH [of st1 es'] show ?case by simp
qed (simp add: assms(2))

lemma processed_snoc:
  "processed (evs @ [ev]) = processed evs @ (case ev of EProcess c \<Rightarrow> [c] | _ \<Rightarrow> [])"
  by (simp add: processed_def)

lemma hash_at_snoc:
  assumes "index_nums_ok (evs @ [EProcess c])"
  shows "hash_at evs (chunk_num c) = None"
    and "hash_at (evs @ [EProcess c]) = (hash_at evs)(chunk_num c \<mapsto> chunk_hash c)"
proof -
  have "chunk_num c \<notin> chunk_num ` set (processed evs)"
    using assms by (auto simp: index_nums_ok_def processed_snoc)
  then show new: "hash_at evs (chunk_num c) = None"
    by (auto simp: hash_at_def map_of_eq_None_iff)
  have "[chunk_num c \<mapsto> chunk_hash c] ++ m = m(chunk_num c \<mapsto> chunk_hash c)"
    if "m (chunk_num c) = None" for m :: "int \<Rightarrow> hash option"
    using that by (auto simp: fun_eq_iff map_add_def split: option.splits)
  then show "hash_at (evs @ [EProcess c]) = (hash_at evs)(chunk_num c \<mapsto> chunk_hash c)"
    using new by (simp add: hash_at_def processed_snoc)
qed

lemma hash_at_other: "\<forall>c. ev \<noteq> EProcess c \<Longrightarrow> hash_at (evs @ [ev]) = hash_at evs"
  by (cases ev) (simp_all add: hash_at_def processed_snoc)

lemma reported_snoc:
  assumes "length es = length evs"
  shows "reported (evs @ [ev]) (es @ [e]) = (case ev of
      EFinal c final \<Rightarrow> if e = None then (reported evs es)(chunk_hash c := reported evs es (chunk_hash c) @ [entry_of final])
                     else reported evs es
    | _ \<Rightarrow> reported evs es)"
  using assms by (auto simp: reported_def fun_eq_iff split: index_event.splits)

text \<open>The account of a run: the invariant, who owns each hash, and what the ends completed.\<close>

definition index_account ::
  "'w writer \<Rightarrow> 'w \<Rightarrow> index_event list \<Rightarrow> err option list \<Rightarrow> hash list \<Rightarrow> 'w index_st \<Rightarrow> bool" where
  "index_account wr w0 evs es outs st \<longleftrightarrow>
     length es = length evs \<and>
     index_inv wr w0 (hash_at evs) (reported evs es) outs st \<and>
     (\<forall>h f. ifinals st h = Some f \<longrightarrow>
        (\<exists>c \<in> set (processed evs). chunk_hash c = h \<and> chunk_num c = fnum f)) \<and>
     (\<forall>c \<in> set (processed evs). ifinals st (chunk_hash c) \<noteq> None) \<and>
     (\<forall>c. (EEnd c, None) \<in> set (zip evs es) \<longrightarrow> ended (chunk_hash c) (chunk_num c) (ifinals st)) \<and>
     (\<forall>c. evs \<noteq> [] \<longrightarrow> last evs = EEnd c \<longrightarrow> last es = None \<longrightarrow>
        flushed (hash_at evs) outs (ifinals st))"

lemma ended_mono:
  assumes "ended h n fin" and "\<And>h. fin_complete fin h \<Longrightarrow> fin_complete fin' h"
    and "\<And>h f. fin h = Some f \<Longrightarrow> map_option fnum (fin' h) = Some (fnum f)"
  shows "ended h n fin'"
  using assms(1) assms(2) [of h] assms(3) [of h] by (auto simp: ended_def fin_complete_def)

lemma index_account_start: "index_account wr w [] [] [] (new_index w)"
proof -
  have "ser.tracks (new_series :: hash series) [] (\<lambda>_. None)"
    by (rule ser.tracks_start) simp_all
  then show ?thesis
    by (simp add: index_account_def index_inv_def new_index_def hash_at_def processed_def
        reported_def reports_def put_lines_def)
qed

lemma index_account_process:
  assumes acc: "index_account wr w0 evs es outs st" and ok: "index_nums_ok (evs @ [EProcess c])"
  shows "\<exists>st'. index_step wr (EProcess c) st = Ret (None, st') \<and>
    index_account wr w0 (evs @ [EProcess c]) (es @ [None]) outs st'"
proof -
  have inv: "index_inv wr w0 (hash_at evs) (reported evs es) outs st" "length es = length evs"
    using acc by (simp_all add: index_account_def)
  have "0 \<le> chunk_num c" "chunk_num c < pos_limit"
    using ok by (simp_all add: index_nums_ok_def processed_snoc)
  from index_process_inv [OF inv(1) hash_at_snoc(1) [OF ok] this] obtain rs st' where
    st': "index_process c st = Ret (rs, st')"
    "index_inv wr w0 ((hash_at evs)(chunk_num c \<mapsto> chunk_hash c)) (reported evs es) outs st'"
    "ifinals st' = (if ifinals st (chunk_hash c) = None
      then (ifinals st)(chunk_hash c \<mapsto> \<lparr>fnum = chunk_num c, entries = [], complete = False\<rparr>)
      else ifinals st)" by blast
  have "ended h n (ifinals st')" if "ended h n (ifinals st)" for h n
    using that by (auto simp: st'(3) ended_def)
  then have "index_account wr w0 (evs @ [EProcess c]) (es @ [None]) outs st'"
    using acc st'(2) inv(2)
    by (auto simp: index_account_def hash_at_snoc(2) [OF ok] reported_snoc processed_snoc st'(3))
  then show ?thesis
    using st'(1) by (simp add: index_step_def)
qed

lemma index_account_final:
  assumes acc: "index_account wr w0 evs es outs st"
  shows "\<exists>e st'. index_step wr (EFinal c final) st = Ret (e, st') \<and>
    index_account wr w0 (evs @ [EFinal c final]) (es @ [e]) outs st'"
proof -
  obtain e st' where step: "index_process_final c final st = (e, st')"
    by fastforce
  have inv: "index_inv wr w0 (hash_at evs) (reported evs es) outs st" "length es = length evs"
    using acc by (simp_all add: index_account_def)
  note final = index_final_inv [OF inv(1) step]
  have some: "map_option fnum (ifinals st' h) = map_option fnum (ifinals st h)" for h
    using final(3) by simp
  have "ended h n (ifinals st')" if "ended h n (ifinals st)" for h n
    by (rule ended_mono [OF that]) (simp_all add: final(2) some)
  moreover have "\<exists>f'. ifinals st h = Some f' \<and> fnum f' = fnum f" if "ifinals st' h = Some f" for h f
    using some [of h] that by (auto simp: eq_commute [of "Some _"])
  moreover have "ifinals st' h \<noteq> None" if "ifinals st h \<noteq> None" for h
    using some [of h] that by auto
  ultimately have "index_account wr w0 (evs @ [EFinal c final]) (es @ [e]) outs st'"
    using acc final(1) inv(2)
    by (fastforce simp: index_account_def hash_at_other reported_snoc processed_snoc split: if_splits)
  then show ?thesis
    using step by (auto simp: index_step_def)
qed

lemma takeWhile_flushed:
  assumes "ser.tracks order outs H"
  shows "flushed H (outs @ takeWhile (fin_complete fin) (series_sorted order)) fin"
proof -
  let ?hs = "series_sorted order" and ?k = "length (takeWhile (fin_complete fin) (series_sorted order))"
  show ?thesis
  proof (cases "?k < length ?hs")
    case True
    then show ?thesis
      using ser.tracks_run [OF assms True] nth_length_takeWhile [OF True] by (simp add: flushed_def)
  next
    case False
    then have "?k = length ?hs"
      using length_takeWhile_le [of "fin_complete fin" ?hs] by simp
    then show ?thesis
      using ser.tracks_release_gap [OF assms] by (simp add: flushed_def)
  qed
qed

lemma index_account_end:
  assumes "writer_ok wr" and acc: "index_account wr w0 evs es outs st"
  shows "\<exists>e st' outs'. index_step wr (EEnd c) st = Ret (e, st') \<and>
    index_account wr w0 (evs @ [EEnd c]) (es @ [e]) outs' st'"
proof -
  obtain e st1 where step: "index_set_complete c st = (e, st1)"
    by fastforce
  have inv: "index_inv wr w0 (hash_at evs) (reported evs es) outs st" "length es = length evs"
    using acc by (simp_all add: index_account_def)
  note compl = index_set_complete_inv [OF inv(1) step]
  from index_flush_ok [OF assms(1) compl(1)] obtain st2 where
    st2: "index_flush wr st1 = (None, st2)"
      "index_inv wr w0 (hash_at evs) (reported evs es)
        (outs @ takeWhile (fin_complete (ifinals st1)) (series_sorted (iorder st1))) st2"
      "fin_complete (ifinals st2) = fin_complete (ifinals st1)"
      "\<forall>h. map_option fnum (ifinals st2 h) = map_option fnum (ifinals st1 h)" by blast
  define st' where "st' = (if e = None then st2 else st1)"
  define outs' where "outs' = (if e = None
    then outs @ takeWhile (fin_complete (ifinals st1)) (series_sorted (iorder st1)) else outs)"
  have some: "map_option fnum (ifinals st' h) = map_option fnum (ifinals st h)" for h
    using compl(3) st2(4) by (simp add: st'_def)
  have mono: "fin_complete (ifinals st) h \<Longrightarrow> fin_complete (ifinals st') h" for h
    using compl(2) st2(3) by (simp add: st'_def)
  have "flushed (hash_at evs) outs' (ifinals st')" if "e = None"
    using takeWhile_flushed [of "iorder st1" outs "hash_at evs" "ifinals st1"] compl(1) that
    by (auto simp: index_inv_def st'_def outs'_def flushed_def st2(3) split: option.splits)
  moreover have "ended (chunk_hash c) (chunk_num c) (ifinals st')" if e: "e = None"
  proof -
    obtain f where "ifinals st (chunk_hash c) = Some f"
      using compl(4) e by auto
    moreover from this obtain f' where "ifinals st' (chunk_hash c) = Some f'" "fnum f' = fnum f"
      using some [of "chunk_hash c"] by auto
    moreover from \<open>ifinals st (chunk_hash c) = Some f\<close>
    have "fin_complete (ifinals st') (chunk_hash c)" if "fnum f = chunk_num c"
      using compl(5) e that by (simp add: st'_def st2(3))
    ultimately show ?thesis
      by (simp add: ended_def fin_complete_def)
  qed
  moreover have "ended h n (ifinals st')" if "ended h n (ifinals st)" for h n
    by (rule ended_mono [OF that mono]) (simp_all add: some)
  moreover have "\<exists>f'. ifinals st h = Some f' \<and> fnum f' = fnum f" if "ifinals st' h = Some f" for h f
    using some [of h] that by (auto simp: eq_commute [of "Some _"])
  moreover have "ifinals st' h \<noteq> None" if "ifinals st h \<noteq> None" for h
    using some [of h] that by auto
  moreover have "index_inv wr w0 (hash_at evs) (reported evs es) outs' st'"
    using compl(1) st2(2) by (simp add: st'_def outs'_def)
  ultimately have "index_account wr w0 (evs @ [EEnd c]) (es @ [e]) outs' st'"
    using acc inv(2)
    by (fastforce simp: index_account_def hash_at_other reported_snoc processed_snoc)
  then show ?thesis
    using step st2(1) by (auto simp: index_step_def index_process_end_def st'_def split: option.splits)
qed

lemma index_run_account:
  assumes "writer_ok wr" and "index_nums_ok evs"
  shows "\<exists>es st outs. index_run wr evs (new_index w0) = Ret (es, st) \<and>
    index_account wr w0 evs es outs st"
  using assms(2)
proof (induction evs rule: rev_induct)
  case Nil
  show ?case using index_account_start [of wr w0] by auto
next
  case (snoc ev evs)
  have "index_nums_ok evs"
    using snoc.prems by (auto simp: index_nums_ok_def processed_snoc)
  with snoc.IH obtain es st outs where run: "index_run wr evs (new_index w0) = Ret (es, st)"
    and acc: "index_account wr w0 evs es outs st" by blast
  have "\<exists>e st' outs'. index_step wr ev st = Ret (e, st') \<and>
      index_account wr w0 (evs @ [ev]) (es @ [e]) outs' st'"
  proof (cases ev)
    case (EProcess c)
    with index_account_process [OF acc] snoc.prems show ?thesis by blast
  next
    case (EFinal c final)
    with index_account_final [OF acc] show ?thesis by blast
  next
    case (EEnd c)
    with index_account_end [OF assms(1) acc] show ?thesis by blast
  qed
  with index_run_snoc [OF run] show ?case by blast
qed

text \<open>What the account says of the writer and of \<open>Finish\<close>.\<close>

lemma account_written:
  assumes "index_account wr w0 evs es outs st"
  shows "\<forall>i < length outs. hash_at evs (int i) = Some (outs ! i)"
    and "outs = map (\<lambda>i. the (hash_at evs (int i))) [0..<length outs]"
    and "iw st = put_lines wr (concat (map (hash_lines (reported evs es)) outs)) w0"
    and "index_finish st = None \<longleftrightarrow> (\<forall>p. int (length outs) \<le> p \<longrightarrow> hash_at evs p = None)"
proof -
  have t: "ser.tracks (iorder st) outs (hash_at evs)"
    and w: "iw st = put_lines wr (concat (map (hash_lines (reported evs es)) outs)) w0"
    using assms by (simp_all add: index_account_def index_inv_def)
  show at: "\<forall>i < length outs. hash_at evs (int i) = Some (outs ! i)"
    using t by (simp add: ser.tracks_def)
  then show "outs = map (\<lambda>i. the (hash_at evs (int i))) [0..<length outs]"
    by (intro nth_equalityI) auto
  show "iw st = put_lines wr (concat (map (hash_lines (reported evs es)) outs)) w0"
    by (rule w)
  show "index_finish st = None \<longleftrightarrow> (\<forall>p. int (length outs) \<le> p \<longrightarrow> hash_at evs p = None)"
    using ser.tracks_empty [OF t] by (auto simp: index_finish_def)
qed

lemma hash_at_dom: "hash_at evs p = None \<longleftrightarrow> p \<notin> chunk_num ` set (processed evs)"
  by (auto simp: hash_at_def map_of_eq_None_iff image_image)

lemma hash_at_chunk:
  assumes "hash_at evs p = Some h"
  shows "\<exists>c \<in> set (processed evs). chunk_num c = p \<and> chunk_hash c = h"
  using map_of_SomeD [OF assms [unfolded hash_at_def]] by auto

lemma account_all_complete:
  assumes acc: "index_account wr w0 evs es outs st"
    and ends: "\<And>c. c \<in> set (processed evs) \<Longrightarrow> (EEnd c, None) \<in> set (zip evs es)"
    and h: "hash_at evs p = Some h"
  shows "fin_complete (ifinals st) h"
proof -
  obtain c where "c \<in> set (processed evs)" "chunk_hash c = h"
    using hash_at_chunk [OF h] by blast
  with acc obtain f where f: "ifinals st h = Some f"
    by (auto simp: index_account_def)
  with acc obtain d where d: "d \<in> set (processed evs)" "chunk_hash d = h" "chunk_num d = fnum f"
    by (auto simp: index_account_def)
  have "ended (chunk_hash d) (chunk_num d) (ifinals st)"
    using acc ends [OF d(1)] by (simp add: index_account_def)
  with f d show ?thesis
    by (simp add: ended_def fin_complete_def)
qed

text \<open>Once every chunk processed has ended, all positions have been written.\<close>

lemma drained:
  assumes "writer_ok wr" and "index_nums_ok evs"
    and "index_run wr evs (new_index w0) = Ret (es, st)"
    and "chunk_num ` set (processed evs) = {0..<int n}"
    and "\<forall>c \<in> set (processed evs). (EEnd c, None) \<in> set (zip evs es)"
    and "evs \<noteq> []" and "last evs = EEnd c" and "last es = None"
  shows "index_finish st = None \<and>
    iw st = put_lines wr (concat (map (\<lambda>i. hash_lines (reported evs es) (the (hash_at evs (int i))))
                                      [0..<n])) w0"
proof -
  obtain outs where acc: "index_account wr w0 evs es outs st"
    using index_run_account [OF assms(1,2), of w0] assms(3) by auto
  note written = account_written [OF acc]
  have fl: "flushed (hash_at evs) outs (ifinals st)"
    using acc assms(6-8) by (simp add: index_account_def)
  have "hash_at evs (int (length outs)) = None"
  proof (cases "hash_at evs (int (length outs))")
    case (Some h)
    with account_all_complete [OF acc _ Some] assms(5) fl show ?thesis
      by (simp add: flushed_def)
  qed
  then have "n \<le> length outs"
    using assms(4) by (simp add: hash_at_dom)
  moreover have "length outs \<le> n"
  proof (rule ccontr)
    assume "\<not> length outs \<le> n"
    then have "hash_at evs (int n) \<noteq> None"
      using written(1) by simp
    with assms(4) show False by (simp add: hash_at_dom)
  qed
  ultimately have n: "length outs = n" by simp
  have "iw st = put_lines wr (concat (map (\<lambda>i. hash_lines (reported evs es) (the (hash_at evs (int i))))
      [0..<length outs])) w0"
    unfolding written(3) by (subst written(2)) (simp add: comp_def)
  moreover have "index_finish st = None"
    using written(4) n assms(4) by (simp add: hash_at_dom)
  ultimately show ?thesis
    using n by simp
qed

section \<open>Properties\<close>

text \<open>
  C7: whatever the order of the calls and whatever errors they return, the index holds, for
  some \<open>k\<close>, exactly the lines of the positions 0 to k-1: for each of them, the lines of the
  final chunks reported for the hash processed there, in the order of their numbers. Every one
  of those positions was processed, and \<open>Finish\<close> returns no error iff all processed positions
  are among them.
\<close>

theorem index_run_written:
  assumes "writer_ok wr" and "index_nums_ok evs"
  shows "\<exists>es st k. index_run wr evs (new_index w0) = Ret (es, st) \<and>
    (\<forall>i < k. hash_at evs (int i) \<noteq> None) \<and>
    iw st = put_lines wr (concat (map (\<lambda>i. hash_lines (reported evs es) (the (hash_at evs (int i))))
                                      [0..<k])) w0 \<and>
    (index_finish st = None \<longleftrightarrow> (\<forall>c \<in> set (processed evs). chunk_num c < int k))"
proof -
  from index_run_account [OF assms, of w0] obtain es st outs where
    run: "index_run wr evs (new_index w0) = Ret (es, st)"
    and acc: "index_account wr w0 evs es outs st" by blast
  note written = account_written [OF acc]
  have "iw st = put_lines wr (concat (map (\<lambda>i. hash_lines (reported evs es) (the (hash_at evs (int i))))
      [0..<length outs])) w0"
    unfolding written(3) by (subst written(2)) (simp add: comp_def)
  moreover have "index_finish st = None \<longleftrightarrow> (\<forall>c \<in> set (processed evs). chunk_num c < int (length outs))"
    using written(4) by (force simp: hash_at_dom not_le)
  ultimately show ?thesis
    using run written(1) by (intro exI [of _ es] exI [of _ st] exI [of _ "length outs"]) simp
qed

definition text_writer :: "string writer" where
  "text_writer l w = (None, w @ l)"

definition two_calls :: "index_event list" where
  "two_calls = [EProcess (set_hash [7] (new_chunk 1 None)), EProcess (set_hash [7] (new_chunk 0 None)),
     EFinal (set_hash [7] (new_chunk 1 None)) (set_target_size 12 (set_hash [31] (new_chunk 5 None))),
     EEnd (set_hash [7] (new_chunk 0 None)), EEnd (set_hash [7] (new_chunk 1 None))]"

lemma text_writer_ok: "writer_ok text_writer"
  by (simp add: writer_ok_def text_writer_def)

lemma two_calls_ok: "index_nums_ok two_calls"
  by (simp add: index_nums_ok_def processed_def two_calls_def pos_limit_def)

theorem index_run_written_witness:
  "\<exists>es st k. index_run text_writer two_calls (new_index []) = Ret (es, st) \<and>
    (\<forall>i < k. hash_at two_calls (int i) \<noteq> None) \<and>
    iw st = put_lines text_writer (concat (map (\<lambda>i.
        hash_lines (reported two_calls es) (the (hash_at two_calls (int i)))) [0..<k])) [] \<and>
    (index_finish st = None \<longleftrightarrow> (\<forall>c \<in> set (processed two_calls). chunk_num c < int k))"
  using text_writer_ok two_calls_ok by (rule index_run_written)

text \<open>
  C8: when the positions 0 to n-1 were processed, the end of each was signalled and taken
  without error, and the last call is such an end, nothing is left behind: all n positions are
  in the index and \<open>Finish\<close> returns no error.
\<close>

theorem index_run_drained:
  assumes "writer_ok wr" and "index_nums_ok evs"
    and "index_run wr evs (new_index w0) = Ret (es, st)"
    and "chunk_num ` set (processed evs) = {0..<int n}"
    and "\<forall>c \<in> set (processed evs). (EEnd c, None) \<in> set (zip evs es)"
    and "evs \<noteq> []" and "last evs = EEnd c" and "last es = None"
  shows "index_finish st = None \<and>
    iw st = put_lines wr (concat (map (\<lambda>i. hash_lines (reported evs es) (the (hash_at evs (int i))))
                                      [0..<n])) w0"
  using assms by (rule drained)

lemma two_calls_run:
  "\<exists>st. index_run text_writer two_calls (new_index []) = Ret (replicate 5 None, st) \<and>
     iw st = ''1f 12'' @ [CHR 0x0A] @ ''1f 12'' @ [CHR 0x0A]"
proof -
  have "bind_outcome (index_run text_writer two_calls (new_index [])) (\<lambda>(es, st). Ret (es, iw st)) =
      Ret (replicate 5 None, ''1f 12'' @ [CHR 0x0A] @ ''1f 12'' @ [CHR 0x0A])"
    by code_simp
  then show ?thesis
    by (auto simp: bind_outcome_Ret_iff)
qed

theorem index_run_drained_witness:
  "\<exists>st. index_run text_writer two_calls (new_index []) = Ret (replicate 5 None, st) \<and>
    index_finish st = None \<and>
    iw st = put_lines text_writer (concat (map (\<lambda>i.
        hash_lines (reported two_calls (replicate 5 None)) (the (hash_at two_calls (int i)))) [0..<2])) []"
proof -
  obtain st where run: "index_run text_writer two_calls (new_index []) = Ret (replicate 5 None, st)"
    using two_calls_run by blast
  have nums: "chunk_num ` set (processed two_calls) = {0..<int 2}"
    by (auto simp: processed_def two_calls_def)
  have ends: "\<forall>c \<in> set (processed two_calls).
      (EEnd c, None) \<in> set (zip two_calls (replicate 5 None))"
    by (simp add: processed_def two_calls_def numeral_eq_Suc)
  have last: "two_calls \<noteq> []" "last two_calls = EEnd (set_hash [7] (new_chunk 1 None))"
    "last (replicate 5 None) = (None :: err option)"
    by (simp_all add: two_calls_def)
  show ?thesis
    using run index_run_drained [OF text_writer_ok two_calls_ok run nums ends last] by blast
qed

end
