(* ===== verification/Scanning.thy ===== *)
theory Scanning
  imports Index_Format
begin

text \<open>
  The part of \<open>fmt.Sscanf\<close> and \<open>fmt.Fscanf\<close> the program uses: the verbs \<open>%x\<close> for bytes and
  \<open>%d\<close>, a space and a newline in the format. Each function takes the input left and returns how
  the scan stops, or a value and the input left. White space is that of ASCII.
\<close>

section \<open>Verbs and spaces\<close>

datatype scan_stop = ScanEOF | ScanErr string

definition is_space :: "char \<Rightarrow> bool" where
  "is_space c \<longleftrightarrow> c = CHR '' '' \<or> c = CHR 0x09 \<or> c = CHR 0x0A \<or> c = CHR 0x0B \<or> c = CHR 0x0C \<or> c = CHR 0x0D"

fun skip_space :: "string \<Rightarrow> scan_stop + string" where
  "skip_space [] = Inr []"
| "skip_space (c # cs) =
     (if c = CHR 0x0A then Inl (ScanErr ''unexpected newline'')
      else if is_space c then skip_space cs
      else Inr (c # cs))"

definition hex_val :: "char \<Rightarrow> nat option" where
  "hex_val c = (let n = of_char c :: nat in
     if 48 \<le> n \<and> n \<le> 57 then Some (n - 48)
     else if 97 \<le> n \<and> n \<le> 102 then Some (n - 87)
     else if 65 \<le> n \<and> n \<le> 70 then Some (n - 55)
     else None)"

text \<open>\<open>hexString\<close>: pairs of hex digits as far as they go.\<close>

fun hex_run :: "string \<Rightarrow> scan_stop + bytes \<times> string" where
  "hex_run [] = Inr ([], [])"
| "hex_run [c] =
     (if hex_val c = None then Inr ([], [c]) else Inl (ScanErr ''unexpected EOF''))"
| "hex_run (c # d # cs) =
     (case hex_val c of
        None \<Rightarrow> Inr ([], c # d # cs)
      | Some m \<Rightarrow>
          (case hex_val d of
             None \<Rightarrow> Inl (ScanErr ''illegal hex digit'')
           | Some n \<Rightarrow>
               (case hex_run cs of
                  Inl e \<Rightarrow> Inl e
                | Inr (bs, rest) \<Rightarrow> Inr (word_of_nat (16 * m + n) # bs, rest))))"

definition scan_hex :: "string \<Rightarrow> scan_stop + bytes \<times> string" where
  "scan_hex s =
     (case skip_space s of
        Inl e \<Rightarrow> Inl e
      | Inr [] \<Rightarrow> Inl ScanEOF
      | Inr s' \<Rightarrow>
          (case hex_run s' of
             Inl e \<Rightarrow> Inl e
           | Inr (bs, rest) \<Rightarrow>
               if bs = [] then Inl (ScanErr ''no hex data for %x string'') else Inr (bs, rest)))"

definition dec_val :: "char \<Rightarrow> nat option" where
  "dec_val c = (let n = of_char c :: nat in if 48 \<le> n \<and> n \<le> 57 then Some (n - 48) else None)"

fun dec_run :: "nat \<Rightarrow> string \<Rightarrow> nat \<times> string" where
  "dec_run acc [] = (acc, [])"
| "dec_run acc (c # cs) =
     (case dec_val c of None \<Rightarrow> (acc, c # cs) | Some d \<Rightarrow> dec_run (10 * acc + d) cs)"

text \<open>\<open>scanInt\<close>: an optional sign, digits, and \<open>strconv.ParseInt\<close> at 64 bits.\<close>

definition scan_digits :: "bool \<Rightarrow> string \<Rightarrow> scan_stop + int \<times> string" where
  "scan_digits neg s =
     (case s of
        [] \<Rightarrow> Inl ScanEOF
      | c # cs \<Rightarrow>
          if dec_val c = None then Inl (ScanErr ''expected integer'')
          else (case dec_run 0 s of (n, rest) \<Rightarrow>
            let i = (if neg then - int n else int n) in
            if i < - (2 ^ 63) \<or> 2 ^ 63 \<le> i then Inl (ScanErr ''value out of range'')
            else Inr (i, rest)))"

definition scan_dec :: "string \<Rightarrow> scan_stop + int \<times> string" where
  "scan_dec s =
     (case skip_space s of
        Inl e \<Rightarrow> Inl e
      | Inr [] \<Rightarrow> Inl ScanEOF
      | Inr (c # cs) \<Rightarrow>
          if c = CHR ''-'' then scan_digits True cs
          else if c = CHR ''+'' then scan_digits False cs
          else scan_digits False (c # cs))"

fun drop_blanks :: "string \<Rightarrow> string" where
  "drop_blanks [] = []"
| "drop_blanks (c # cs) = (if is_space c \<and> c \<noteq> CHR 0x0A then drop_blanks cs else c # cs)"

text \<open>A space that stands alone in the format, and a newline.\<close>

definition advance_space :: "string \<Rightarrow> scan_stop + string" where
  "advance_space s =
     (case s of
        [] \<Rightarrow> Inr []
      | c # cs \<Rightarrow>
          if \<not> is_space c then Inl (ScanErr ''expected space in input to match format'')
          else if c = CHR 0x0A then Inl (ScanErr ''newline in input does not match format'')
          else Inr (drop_blanks cs))"

definition advance_newline :: "string \<Rightarrow> scan_stop + string" where
  "advance_newline s =
     (case drop_blanks s of
        [] \<Rightarrow> Inr []
      | c # cs \<Rightarrow>
          if c = CHR 0x0A then Inr cs
          else Inl (ScanErr ''newline in format does not match input''))"

section \<open>Reading back what was printed\<close>

lemma hex_val_digit: "n < 16 \<Longrightarrow> hex_val (hex_digit n) = Some n"
proof -
  have "\<forall>n \<in> set [0..<16]. hex_val (hex_digit n) = Some n"
    by code_simp
  then show "n < 16 \<Longrightarrow> hex_val (hex_digit n) = Some n"
    by simp
qed

lemma hex_digit_not_space: "n < 16 \<Longrightarrow> \<not> is_space (hex_digit n)"
proof -
  have "\<forall>n \<in> set [0..<16]. \<not> is_space (hex_digit n)"
    by code_simp
  then show "n < 16 \<Longrightarrow> \<not> is_space (hex_digit n)"
    by simp
qed

lemma dec_val_digit: "n < 10 \<Longrightarrow> dec_val (hex_digit n) = Some n"
proof -
  have "\<forall>n \<in> set [0..<10]. dec_val (hex_digit n) = Some n"
    by code_simp
  then show "n < 10 \<Longrightarrow> dec_val (hex_digit n) = Some n"
    by simp
qed

lemma byte_digits: "unat (b :: byte) div 16 < 16" "unat b mod 16 < 16"
  "word_of_nat (16 * (unat b div 16) + unat b mod 16) = b"
proof -
  have "unat b < 2 ^ LENGTH(8)"
    by (rule unsigned_less)
  then show "unat b div 16 < 16" by simp
  have "16 * (unat b div 16) + unat b mod 16 = unat b"
    by simp
  then show "word_of_nat (16 * (unat b div 16) + unat b mod 16) = b"
    by simp
qed simp

lemma hex_run_hex_string:
  assumes "rest = [] \<or> hex_val (hd rest) = None"
  shows "hex_run (hex_string bs @ rest) = Inr (bs, rest)"
proof (induction bs)
  case Nil
  show ?case
  proof (cases rest rule: hex_run.cases)
    case (3 c d cs)
    with assms show ?thesis by (simp add: hex_string_def)
  qed (use assms in \<open>simp_all add: hex_string_def\<close>)
next
  case (Cons b bs)
  then show ?case
    by (simp add: hex_string_def hex_byte_def hex_val_digit byte_digits)
qed

lemma skip_space_digit: "n < 16 \<Longrightarrow> skip_space (hex_digit n # s) = Inr (hex_digit n # s)"
  using hex_digit_not_space [of n] by (auto simp: is_space_def)

lemma scan_hex_string:
  assumes "bs \<noteq> []" and "rest = [] \<or> hex_val (hd rest) = None"
  shows "scan_hex (hex_string bs @ rest) = Inr (bs, rest)"
proof -
  obtain b bs' where bs: "bs = b # bs'"
    using assms(1) by (cases bs) auto
  have start: "hex_string bs @ rest = hex_digit (unat b div 16) # hex_digit (unat b mod 16) # hex_string bs' @ rest"
    by (simp add: bs hex_string_def hex_byte_def)
  have "skip_space (hex_string bs @ rest) = Inr (hex_string bs @ rest)"
    unfolding start by (rule skip_space_digit) (rule byte_digits)
  moreover have "hex_string bs @ rest \<noteq> []"
    by (simp add: start)
  ultimately show ?thesis
    using hex_run_hex_string [OF assms(2), of bs] assms(1)
    by (cases "hex_string bs @ rest") (simp_all add: scan_hex_def)
qed

lemma dec_run_append: "dec_run acc (dec_nat n @ s) = dec_run (acc * 10 ^ length (dec_nat n) + n) s"
proof (induction n arbitrary: acc s rule: dec_nat.induct)
  case (1 n)
  show ?case
  proof (cases "n < 10")
    case True
    then show ?thesis
      by (simp add: dec_nat.simps [of n] dec_val_digit mult.commute)
  next
    case False
    have "dec_run acc (dec_nat n @ s) =
        dec_run (acc * 10 ^ length (dec_nat (n div 10)) + n div 10) (hex_digit (n mod 10) # s)"
      using 1 False by (subst dec_nat.simps) simp
    also have "\<dots> = dec_run (10 * (acc * 10 ^ length (dec_nat (n div 10)) + n div 10) + n mod 10) s"
      by (simp add: dec_val_digit)
    also have "10 * (acc * 10 ^ length (dec_nat (n div 10)) + n div 10) + n mod 10 =
        acc * 10 ^ Suc (length (dec_nat (n div 10))) + n"
      by (simp add: algebra_simps)
    also have "Suc (length (dec_nat (n div 10))) = length (dec_nat n)"
      using False by (subst (2) dec_nat.simps) simp
    finally show ?thesis .
  qed
qed

lemma dec_nat_Cons: "\<exists>d cs. d < 10 \<and> dec_nat n = hex_digit d # cs"
proof (induction n rule: dec_nat.induct)
  case (1 n)
  show ?case
  proof (cases "n < 10")
    case True
    then show ?thesis
      by (auto simp: dec_nat.simps [of n])
  next
    case False
    with 1 obtain d cs where "d < 10" "dec_nat (n div 10) = hex_digit d # cs" by blast
    then show ?thesis
      using False by (subst dec_nat.simps) auto
  qed
qed

lemma scan_digits_dec_nat:
  assumes "rest = [] \<or> dec_val (hd rest) = None" and "- (2 ^ 63) \<le> i" and "i < 2 ^ 63"
    and "i = (if neg then - int n else int n)"
  shows "scan_digits neg (dec_nat n @ rest) = Inr (i, rest)"
proof -
  obtain d cs where d: "d < 10" "dec_nat n = hex_digit d # cs"
    using dec_nat_Cons by blast
  have "dec_run 0 (dec_nat n @ rest) = (n, rest)"
    using assms(1) dec_run_append [of 0 n rest] by (cases rest) simp_all
  then show ?thesis
    using assms(2-4) d by (simp add: scan_digits_def dec_val_digit Let_def)
qed

lemma scan_dec_int:
  assumes "rest = [] \<or> dec_val (hd rest) = None" and "- (2 ^ 63) \<le> i" and "i < 2 ^ 63"
  shows "scan_dec (dec_int i @ rest) = Inr (i, rest)"
proof (cases "i < 0")
  case True
  then have "scan_digits True (dec_nat (nat (- i)) @ rest) = Inr (i, rest)"
    using assms by (intro scan_digits_dec_nat) simp_all
  with True show ?thesis
    by (simp add: dec_int_def scan_dec_def is_space_def)
next
  case False
  obtain d cs where d: "d < 10" "dec_nat (nat i) = hex_digit d # cs"
    using dec_nat_Cons by blast
  have "\<forall>d \<in> set [0..<10]. hex_digit d \<noteq> CHR ''-'' \<and> hex_digit d \<noteq> CHR ''+''"
    by code_simp
  then have "hex_digit d \<noteq> CHR ''-''" "hex_digit d \<noteq> CHR ''+''"
    using d(1) by simp_all
  moreover have "scan_digits False (dec_nat (nat i) @ rest) = Inr (i, rest)"
    using assms False by (intro scan_digits_dec_nat) simp_all
  moreover have "skip_space (hex_digit d # cs @ rest) = Inr (hex_digit d # cs @ rest)"
    using d(1) by (intro skip_space_digit) simp
  ultimately show ?thesis
    using False d(2) by (simp add: dec_int_def scan_dec_def del: skip_space.simps)
qed

lemma drop_blanks_dec_int: "drop_blanks (dec_int i @ s) = dec_int i @ s"
proof -
  have "\<exists>c cs. dec_int i = c # cs \<and> \<not> is_space c"
  proof (cases "i < 0")
    case False
    obtain d cs where "d < 10" "dec_nat (nat i) = hex_digit d # cs"
      using dec_nat_Cons by blast
    with False hex_digit_not_space [of d] show ?thesis
      by (simp add: dec_int_def)
  qed (simp add: dec_int_def is_space_def)
  then show ?thesis by auto
qed

section \<open>Text that is cut off\<close>

lemma take_dec_nat:
  "1 \<le> j \<Longrightarrow> j \<le> length (dec_nat n) \<Longrightarrow>
    take j (dec_nat n) = dec_nat (n div 10 ^ (length (dec_nat n) - j))"
proof (induction n rule: dec_nat.induct)
  case (1 n)
  show ?case
  proof (cases "n < 10")
    case True
    then have "dec_nat n = [hex_digit n]"
      by (simp add: dec_nat.simps)
    then show ?thesis
      using 1(2,3) by simp
  next
    case False
    then have n: "dec_nat n = dec_nat (n div 10) @ [hex_digit (n mod 10)]"
      by (simp add: dec_nat.simps [of n])
    show ?thesis
    proof (cases "j \<le> length (dec_nat (n div 10))")
      case True
      then have "take j (dec_nat n) = dec_nat (n div 10 div 10 ^ (length (dec_nat (n div 10)) - j))"
        using 1(1) [OF False 1(2)] by (simp add: n)
      moreover have "length (dec_nat n) - j = Suc (length (dec_nat (n div 10)) - j)"
        using True by (simp add: n)
      ultimately show ?thesis
        by (simp add: div_mult2_eq)
    next
      case over: False
      then have "j = length (dec_nat n)"
        using 1(3) by (simp add: n)
      then show ?thesis
        by simp
    qed
  qed
qed

text \<open>The first hex digits of bytes: whole bytes, and half of one more when their number is odd.\<close>

lemma take_hex_string:
  assumes "k \<le> 2 * length bs"
  shows "take k (hex_string bs) = hex_string (take (k div 2) bs) @
    (if even k then [] else [hex_digit (unat (bs ! (k div 2)) div 16)])"
  using assms
proof (induction bs arbitrary: k)
  case Nil
  then show ?case
    by (simp add: hex_string_def)
next
  case (Cons b bs)
  consider "k = 0" | "k = 1" | k' where "k = Suc (Suc k')"
    by (cases k; cases "k - 1") auto
  then show ?case
  proof cases
    case 3
    then show ?thesis
      using Cons by (simp add: hex_string_def hex_byte_def)
  qed (simp_all add: hex_string_def hex_byte_def)
qed

lemma hex_run_odd:
  "hex_run (hex_string bs @ [hex_digit (unat (b :: byte) div 16)]) = Inl (ScanErr ''unexpected EOF'')"
proof (induction bs)
  case Nil
  show ?case
    by (simp add: hex_string_def hex_val_digit byte_digits)
next
  case (Cons a bs)
  then show ?case
    by (simp add: hex_string_def hex_byte_def hex_val_digit byte_digits)
qed

lemma scan_hex_odd:
  "scan_hex (hex_string bs @ [hex_digit (unat (b :: byte) div 16)]) = Inl (ScanErr ''unexpected EOF'')"
proof -
  obtain n s where n: "n < 16" "hex_string bs @ [hex_digit (unat b div 16)] = hex_digit n # s"
    using byte_digits(1) by (cases bs) (force simp: hex_string_def hex_byte_def)+
  then have "skip_space (hex_string bs @ [hex_digit (unat b div 16)]) = Inr (hex_digit n # s)"
    by (simp add: skip_space_digit del: skip_space.simps)
  then show ?thesis
    using hex_run_odd [of bs b] by (simp add: scan_hex_def n(2))
qed

end
