(* ===== verification/Index_Scanner.thy ===== *)
theory Index_Scanner
  imports Scanning Chunk
begin

text \<open>
  \<^verbatim>\<open>index/scanner.go\<close>: reading an index back as chunks without data. The reader is its remaining
  content.
\<close>

section \<open>State and operations\<close>

record scanner =
  sc_r :: string
  sc_num :: int
  sc_chunk :: "chunk option"
  sc_err :: "err option"

definition new_scanner :: "int \<Rightarrow> string \<Rightarrow> scanner" where
  "new_scanner num r = \<lparr>sc_r = r, sc_num = num, sc_chunk = None, sc_err = None\<rparr>"

text \<open>\<open>fmt.Fscanf(s.r, "%x %d\n", ...)\<close>\<close>

definition scan_line :: "string \<Rightarrow> scan_stop + (bytes \<times> int) \<times> string" where
  "scan_line s =
     (case scan_hex s of
        Inl e \<Rightarrow> Inl e
      | Inr (bs, s1) \<Rightarrow>
          (case advance_space s1 of
             Inl e \<Rightarrow> Inl e
           | Inr s2 \<Rightarrow>
               (case scan_dec s2 of
                  Inl e \<Rightarrow> Inl e
                | Inr (i, s3) \<Rightarrow>
                    (case advance_newline s3 of
                       Inl e \<Rightarrow> Inl e
                     | Inr s4 \<Rightarrow> Inr ((bs, i), s4)))))"

text \<open>
  \<open>scan\<close>: \<open>Inl\<close> holds the error it returns. After an error the reader is not used again; its
  position is then left as it was.
\<close>

definition scanner_scan :: "scanner \<Rightarrow> (scan_stop + unit) \<times> scanner" where
  "scanner_scan s =
     (case scan_line (sc_r s) of
        Inl e \<Rightarrow> (Inl e, s)
      | Inr ((bs, sz), rest) \<Rightarrow>
          (let c = set_target_size sz (new_chunk (sc_num s) None)
           in case load_slice bs of
                Inl e \<Rightarrow> (Inl (ScanErr ''invalid hash length''), s\<lparr>sc_r := rest\<rparr>)
              | Inr h \<Rightarrow> (Inr (), s\<lparr>sc_r := rest, sc_chunk := Some (set_hash h c),
                                  sc_num := wrap_int (sc_num s + 1)\<rparr>)))"

definition scanner_next :: "scanner \<Rightarrow> bool \<times> scanner" where
  "scanner_next s =
     (case scanner_scan s of
        (Inl ScanEOF, s') \<Rightarrow> (False, s'\<lparr>sc_err := None\<rparr>)
      | (Inl (ScanErr e), s') \<Rightarrow> (False, s'\<lparr>sc_err := Some (ErrText e)\<rparr>)
      | (Inr _, s') \<Rightarrow> (True, s'))"

text \<open>
  The loop of \<open>ChunkIterFunc\<close>: the chunks until \<open>Next\<close> is false, and \<open>Err\<close>. A line takes at
  least one character, so the length of the input bounds the number of turns.
\<close>

fun scan_all :: "nat \<Rightarrow> scanner \<Rightarrow> chunk list \<times> err option" where
  "scan_all 0 s = ([], sc_err s)"
| "scan_all (Suc fuel) s =
     (case scanner_next s of
        (False, s') \<Rightarrow> ([], sc_err s')
      | (True, s') \<Rightarrow>
          (case (sc_chunk s', scan_all fuel s') of
             (Some c, cs, e) \<Rightarrow> (c # cs, e)
           | (None, cs, e) \<Rightarrow> (cs, e)))"

definition index_scan :: "int \<Rightarrow> string \<Rightarrow> chunk list \<times> err option" where
  "index_scan num text = scan_all (Suc (length text)) (new_scanner num text)"

section \<open>Lines\<close>

lemma scan_line_index_line:
  assumes "length h = 32" and "- (2 ^ 63) \<le> sz" and "sz < 2 ^ 63"
  shows "scan_line (index_line h sz @ rest) = Inr ((h, sz), rest)"
proof -
  have "h \<noteq> []"
    using assms(1) by auto
  then have "scan_hex (hex_string h @ ('' '' @ dec_int sz @ [CHR 0x0A] @ rest)) =
      Inr (h, '' '' @ dec_int sz @ [CHR 0x0A] @ rest)"
    by (intro scan_hex_string) (simp_all add: hex_val_def)
  moreover have "drop_blanks (dec_int sz @ [CHR 0x0A] @ rest) = dec_int sz @ [CHR 0x0A] @ rest"
    by (rule drop_blanks_dec_int)
  moreover have "scan_dec (dec_int sz @ [CHR 0x0A] @ rest) = Inr (sz, [CHR 0x0A] @ rest)"
    using assms(2,3) by (intro scan_dec_int) (simp_all add: dec_val_def)
  ultimately show ?thesis
    by (simp add: scan_line_def index_line_def advance_space_def advance_newline_def is_space_def)
qed

definition index_text :: "(hash \<times> int) list \<Rightarrow> string" where
  "index_text es = concat (map (\<lambda>(h, sz). index_line h sz) es)"

definition index_chunk :: "int \<Rightarrow> hash \<times> int \<Rightarrow> chunk" where
  "index_chunk n e = (case e of (h, sz) \<Rightarrow> set_hash h (set_target_size sz (new_chunk n None)))"

fun index_chunks :: "int \<Rightarrow> (hash \<times> int) list \<Rightarrow> chunk list" where
  "index_chunks n [] = []"
| "index_chunks n (e # es) = index_chunk n e # index_chunks (n + 1) es"

definition entry_ok :: "hash \<times> int \<Rightarrow> bool" where
  "entry_ok e \<longleftrightarrow> length (fst e) = 32 \<and> - (2 ^ 63) \<le> snd e \<and> snd e < 2 ^ 63"

lemma scanner_next_line:
  assumes "sc_r s = index_line h sz @ rest" and "entry_ok (h, sz)"
    and "- (2 ^ 63) \<le> sc_num s" and "sc_num s + 1 < 2 ^ 63"
  shows "scanner_next s = (True, s\<lparr>sc_r := rest, sc_chunk := Some (index_chunk (sc_num s) (h, sz)),
    sc_num := sc_num s + 1\<rparr>)"
proof -
  have "scan_line (sc_r s) = Inr ((h, sz), rest)"
    using assms(1,2) by (simp add: scan_line_index_line entry_ok_def)
  moreover have "wrap_int (sc_num s + 1) = sc_num s + 1"
    using assms(3,4) by (intro wrap_int_id) simp_all
  ultimately show ?thesis
    using assms(2) by (simp add: scanner_next_def scanner_scan_def load_slice_def entry_ok_def
        index_chunk_def Let_def)
qed

text \<open>Whole lines are read one by one; what follows them decides the rest.\<close>

lemma scan_all_lines:
  assumes "sc_r s = index_text es @ rest" and "\<forall>e \<in> set es. entry_ok e"
    and "- (2 ^ 63) \<le> sc_num s" and "sc_num s + int (length es) < 2 ^ 63"
  shows "\<exists>s'. sc_r s' = rest \<and> sc_num s' = sc_num s + int (length es) \<and>
    scan_all (length es + fuel) s =
      (index_chunks (sc_num s) es @ fst (scan_all fuel s'), snd (scan_all fuel s'))"
  using assms
proof (induction es arbitrary: s)
  case Nil
  then show ?case
    by (intro exI [of _ s]) (simp add: index_text_def)
next
  case (Cons e es)
  obtain h sz where e: "e = (h, sz)" by fastforce
  let ?s = "s\<lparr>sc_r := index_text es @ rest, sc_chunk := Some (index_chunk (sc_num s) (h, sz)),
    sc_num := sc_num s + 1\<rparr>"
  have nx: "scanner_next s = (True, ?s)"
    using Cons.prems by (intro scanner_next_line) (simp_all add: e index_text_def)
  have "\<exists>s'. sc_r s' = rest \<and> sc_num s' = sc_num ?s + int (length es) \<and>
    scan_all (length es + fuel) ?s =
      (index_chunks (sc_num ?s) es @ fst (scan_all fuel s'), snd (scan_all fuel s'))"
    using Cons.prems by (intro Cons.IH) simp_all
  then show ?case
    using nx by (auto simp: e split: prod.splits)
qed

lemma length_index_text: "length es \<le> length (index_text es)"
  by (induction es) (auto simp: index_text_def index_line_def)

lemma index_scan_lines:
  assumes "\<forall>e \<in> set es. entry_ok e" and "- (2 ^ 63) \<le> num" and "num + int (length es) < 2 ^ 63"
  obtains k s' where "sc_r s' = rest" "sc_num s' = num + int (length es)" "length rest \<le> k"
    "index_scan num (index_text es @ rest) =
      (index_chunks num es @ fst (scan_all (Suc k) s'), snd (scan_all (Suc k) s'))"
proof -
  let ?text = "index_text es @ rest"
  obtain k where k: "length (index_text es) + length rest = length es + k" "length rest \<le> k"
    using length_index_text [of es] by (intro that [of "length (index_text es) + length rest - length es"]) simp_all
  have "\<exists>s'. sc_r s' = rest \<and> sc_num s' = sc_num (new_scanner num ?text) + int (length es) \<and>
    scan_all (length es + Suc k) (new_scanner num ?text) =
      (index_chunks (sc_num (new_scanner num ?text)) es @ fst (scan_all (Suc k) s'),
       snd (scan_all (Suc k) s'))"
    using assms by (intro scan_all_lines) (simp_all add: new_scanner_def)
  then obtain s' where s': "sc_r s' = rest" "sc_num s' = num + int (length es)"
      "scan_all (length es + Suc k) (new_scanner num ?text) =
        (index_chunks num es @ fst (scan_all (Suc k) s'), snd (scan_all (Suc k) s'))"
    by (auto simp: new_scanner_def)
  have "Suc (length ?text) = length es + Suc k"
    using k(1) by simp
  then have "index_scan num ?text =
      (index_chunks num es @ fst (scan_all (Suc k) s'), snd (scan_all (Suc k) s'))"
    unfolding index_scan_def using s'(3) by (simp only:)
  with s'(1,2) k(2) show ?thesis
    by (rule that)
qed

lemma scan_index_text:
  assumes "\<forall>e \<in> set es. entry_ok e" and "- (2 ^ 63) \<le> num" and "num + int (length es) < 2 ^ 63"
  shows "index_scan num (index_text es) = (index_chunks num es, None)"
proof -
  obtain k s' where s': "sc_r s' = []" "index_scan num (index_text es @ []) =
    (index_chunks num es @ fst (scan_all (Suc k) s'), snd (scan_all (Suc k) s'))"
    by (rule index_scan_lines [OF assms, of "[]"])
  then show ?thesis
    by (simp add: scanner_next_def scanner_scan_def scan_line_def scan_hex_def)
qed

section \<open>A line that is cut off\<close>

text \<open>Before its 66th character there is no size, and from there on one of fewer digits.\<close>

definition cut_size :: "hash \<Rightarrow> int \<Rightarrow> nat \<Rightarrow> int" where
  "cut_size h sz k = sz div 10 ^ (length (index_line h sz) - 1 - k)"

lemma take_line_hash:
  assumes "length h = 32" and "k \<le> 65"
  shows "take k (index_line h sz) = take k (hex_string h) @ (if k = 65 then '' '' else [])"
  using assms by (auto simp: index_line_def length_hex_string)

lemma scan_line_cut_hash:
  assumes "length h = 32" and "k < 66"
  shows "scan_line (take k (index_line h sz)) =
    Inl (if even k \<or> 64 < k then ScanEOF else ScanErr ''unexpected EOF'')"
proof (cases "k = 65")
  case True
  have "scan_hex (hex_string h @ '' '') = Inr (h, '' '')"
    using assms(1) by (intro scan_hex_string) (auto simp: hex_val_def)
  then show ?thesis
    using assms(1) True by (simp add: take_line_hash length_hex_string scan_line_def advance_space_def is_space_def scan_dec_def)
next
  case False
  then have k: "k \<le> 2 * length h"
    using assms by simp
  note cut = take_line_hash [OF assms(1), of k sz] take_hex_string [OF k]
  show ?thesis
  proof (cases "even k")
    case True
    show ?thesis
    proof (cases "k = 0")
      case True
      then show ?thesis
        by (simp add: scan_line_def scan_hex_def)
    next
      case False
      have "take (k div 2) h \<noteq> []"
        using False \<open>even k\<close> assms(1) by (auto elim!: evenE)
      from scan_hex_string [OF this, of "[]"] show ?thesis
        using cut \<open>k \<noteq> 65\<close> \<open>even k\<close> assms(2)
        by (simp add: scan_line_def advance_space_def scan_dec_def)
    qed
  next
    case odd: False
    then show ?thesis
      using cut False assms(2) by (simp add: scan_line_def scan_hex_odd)
  qed
qed

lemma scan_line_cut_size:
  assumes "length h = 32" and "0 \<le> sz" and "sz < 2 ^ 63" and "66 \<le> k" and "k < length (index_line h sz)"
  shows "scan_line (take k (index_line h sz)) = Inr ((h, cut_size h sz k), [])"
proof -
  let ?d = "dec_nat (nat sz)"
  define j where "j = k - 65"
  have line: "index_line h sz = hex_string h @ '' '' @ ?d @ [CHR 0x0A]" and len: "length (index_line h sz) = 66 + length ?d"
    using assms(1,2) by (simp_all add: index_line_def dec_int_def length_hex_string)
  have j: "k = 65 + j" "1 \<le> j" "j \<le> length ?d"
    using assms(4,5) len by (simp_all add: j_def)
  have "length (index_line h sz) - 1 - k = length ?d - j"
    using j len by simp
  then have "int (nat sz div 10 ^ (length ?d - j)) = cut_size h sz k"
    using assms(2) by (simp add: cut_size_def zdiv_int)
  moreover have "dec_int (int n) = dec_nat n" for n
    by (simp add: dec_int_def)
  ultimately have "take j ?d = dec_int (cut_size h sz k)"
    using take_dec_nat [OF j(2,3)] by metis
  then have cut: "take k (index_line h sz) = hex_string h @ '' '' @ dec_int (cut_size h sz k)"
    using assms(1) j by (simp add: line length_hex_string)
  have "0 \<le> cut_size h sz k" and "cut_size h sz k \<le> sz"
    using assms(2) zdiv_mono2 [of sz 1 "10 ^ (length (index_line h sz) - 1 - k)"]
    by (simp_all add: cut_size_def pos_imp_zdiv_nonneg_iff)
  then have "scan_dec (dec_int (cut_size h sz k) @ []) = Inr (cut_size h sz k, [])"
    using assms(3) by (intro scan_dec_int) simp_all
  moreover have "scan_hex (hex_string h @ ('' '' @ dec_int (cut_size h sz k))) = Inr (h, '' '' @ dec_int (cut_size h sz k))"
    using assms(1) by (intro scan_hex_string) (auto simp: hex_val_def)
  moreover have "drop_blanks (dec_int (cut_size h sz k)) = dec_int (cut_size h sz k)"
    using drop_blanks_dec_int [of _ "[]"] by simp
  ultimately show ?thesis
    by (simp add: cut scan_line_def advance_space_def advance_newline_def is_space_def)
qed

lemma index_chunks_snoc:
  "index_chunks num (es @ [e]) = index_chunks num es @ [index_chunk (num + int (length es)) e]"
  by (induction es arbitrary: num) (simp_all add: add.assoc)

section \<open>Properties\<close>

text \<open>
  C19: scanning the lines written for any entries, with hashes of 32 bytes and sizes of 64 bits,
  gives back one chunk per entry, in order, numbered from the first number, with the hash and
  the size of the entry, and no error.
\<close>

theorem index_scan_roundtrip:
  assumes "\<forall>e \<in> set es. entry_ok e" and "- (2 ^ 63) \<le> num" and "num + int (length es) < 2 ^ 63"
  shows "index_scan num (index_text es) = (index_chunks num es, None)"
  using assms by (rule scan_index_text)

theorem index_scan_roundtrip_witness:
  "index_scan 4 (index_text [(replicate 32 7, 12), (replicate 32 255, -3)]) =
    (index_chunks 4 [(replicate 32 7, 12), (replicate 32 255, -3)], None)"
  by (rule index_scan_roundtrip) (simp_all add: entry_ok_def)

text \<open>
  C20: an index that is cut off within its last line is read up to that line, and mostly without an
  error. A cut in the hash is noticed only behind an odd number of its digits; a cut behind an even
  number of them, or before the size, passes for the end; and of a cut behind a digit of the size
  comes a chunk with the size those digits make.
\<close>

theorem index_scan_truncated:
  assumes "\<forall>e \<in> set es. entry_ok e" and "- (2 ^ 63) \<le> num" and "num + int (length es) + 1 < 2 ^ 63"
    and "length h = 32" and "0 \<le> sz" and "sz < 2 ^ 63" and "k < length (index_line h sz)"
  shows "index_scan num (index_text es @ take k (index_line h sz)) =
    (if k < 66 then
       (index_chunks num es,
        if even k \<or> 64 < k then None else Some (ErrText ''unexpected EOF''))
     else
       (index_chunks num (es @ [(h, sz div 10 ^ (length (index_line h sz) - 1 - k))]), None))"
proof -
  have num: "num + int (length es) < 2 ^ 63"
    using assms(3) by simp
  obtain f s' where s': "sc_r s' = take k (index_line h sz)" "sc_num s' = num + int (length es)"
      "length (take k (index_line h sz)) \<le> f"
      "index_scan num (index_text es @ take k (index_line h sz)) =
        (index_chunks num es @ fst (scan_all (Suc f) s'), snd (scan_all (Suc f) s'))"
    by (rule index_scan_lines [OF assms(1,2) num, of "take k (index_line h sz)"])
  show ?thesis
  proof (cases "k < 66")
    case True
    then show ?thesis
      using scan_line_cut_hash [OF assms(4) True, of sz] s'
      by (simp add: scanner_next_def scanner_scan_def)
  next
    case False
    have line: "scan_line (sc_r s') = Inr ((h, cut_size h sz k), [])"
      unfolding s'(1) by (rule scan_line_cut_size [OF assms(4-6) _ assms(7)]) (use False in simp)
    obtain f' where f: "f = Suc f'"
      using s'(3) False assms(7) by (cases f) auto
    have "wrap_int (sc_num s' + 1) = sc_num s' + 1"
      using assms(2,3) s'(2) by (intro wrap_int_id) simp_all
    then have nx: "scanner_next s' = (True, s'\<lparr>sc_r := [], sc_num := sc_num s' + 1,
        sc_chunk := Some (index_chunk (sc_num s') (h, cut_size h sz k))\<rparr>)"
      using line assms(4) by (simp add: scanner_next_def scanner_scan_def load_slice_def index_chunk_def Let_def)
    have "scan_all (Suc f) s' = ([index_chunk (sc_num s') (h, cut_size h sz k)], None)"
      by (simp add: f nx) (simp add: scanner_next_def scanner_scan_def scan_line_def scan_hex_def)
    with s'(2,4) False show ?thesis
      by (simp add: index_chunks_snoc cut_size_def)
  qed
qed

text \<open>The line of a size of 123 is cut off behind the 2.\<close>

theorem index_scan_truncated_witness:
  "index_scan 0 (index_text [(replicate 32 7, 5)] @ take 67 (index_line (replicate 32 9) 123)) =
    (index_chunks 0 [(replicate 32 7, 5), (replicate 32 9, 12)], None)"
  using index_scan_truncated [of "[(replicate 32 7, 5)]" 0 "replicate 32 9" 123 67]
  by (simp add: entry_ok_def index_line_def length_hex_string dec_int_def dec_nat.simps)

end
