(* ===== verification/Codecs.thy ===== *)
theory Codecs
  imports Chain Sorter
begin

text \<open>
  \<^verbatim>\<open>procs/checksum.go\<close>, \<^verbatim>\<open>procs/gzip.go\<close>, \<^verbatim>\<open>procs/writerto.go\<close> and \<^verbatim>\<open>procs/join.go\<close>: the procs
  that set and verify the hash of a chunk, compress its data, and write chunks out in order.
  SHA-256, gzip and the writer are parameters.
\<close>

section \<open>Checksums\<close>

definition checksum_process :: "(bytes \<Rightarrow> hash) \<Rightarrow> 'st chunk_fn" where
  "checksum_process sha c st =
     bind_outcome (data_reader (chunk_data c)) (\<lambda>(rd, d).
       case checksum_sum sha rd of
         Inl e \<Rightarrow> Ret ((Some e, mark_read d c), st)
       | Inr h \<Rightarrow> Ret ((None, set_hash h (mark_read d c)), st))"

definition checksum_unprocess :: "(bytes \<Rightarrow> hash) \<Rightarrow> 'st chunk_fn" where
  "checksum_unprocess sha c st =
     bind_outcome (data_reader (chunk_data c)) (\<lambda>(rd, d).
       case checksum_sum sha rd of
         Inl e \<Rightarrow> Ret ((Some e, mark_read d c), st)
       | Inr h \<Rightarrow>
           Ret ((if h \<noteq> chunk_hash c then Some ErrIntegrityCheckFailed else None, mark_read d c), st))"

section \<open>Compression\<close>

text \<open>
  \<open>gz\<close> is what a gzip writer puts out for its input, \<open>gunz\<close> what a gzip reader over a reader
  delivers: the content or an error. \<open>ChunkFunc\<close> drops the new chunk when there is an error.
\<close>

definition gzip_process :: "(bytes \<Rightarrow> bytes) \<Rightarrow> 'st chunk_fn" where
  "gzip_process gz c st =
     bind_outcome (data_reader (chunk_data c)) (\<lambda>((b, e), d).
       case e of
         Some e \<Rightarrow> Ret ((Some e, mark_read d c), st)
       | None \<Rightarrow> Ret ((None, with_data (BytesData (gz b)) c), st))"

definition gzip_unprocess :: "(bytes \<times> err option \<Rightarrow> err + bytes) \<Rightarrow> 'st chunk_fn" where
  "gzip_unprocess gunz c st =
     bind_outcome (data_reader (chunk_data c)) (\<lambda>(rd, d).
       case gunz rd of
         Inl e \<Rightarrow> Ret ((Some e, mark_read d c), st)
       | Inr b \<Rightarrow> Ret ((None, with_data (BytesData b) c), st))"

section \<open>Writing and joining\<close>

text \<open>
  \<open>io.Copy\<close> to the writer: what the reader delivers is written, and the first error is the
  writer's, else the reader's.
\<close>

definition writer_to :: "(bytes \<Rightarrow> 'w \<Rightarrow> err option \<times> 'w) \<Rightarrow> 'w chunk_fn" where
  "writer_to write c w =
     bind_outcome (data_reader (chunk_data c)) (\<lambda>((b, re), d).
       case write b w of (we, w') \<Rightarrow>
         Ret ((case we of Some e \<Rightarrow> Some e | None \<Rightarrow> re, mark_read d c), w'))"

text \<open>The procs of the chain inside \<open>NewJoin\<close>, over the series of \<open>Sort\<close> and the writer.\<close>

definition sort_obj :: "(chunk series \<times> 'w) proc" where
  "sort_obj = \<lparr>
     pr_process = (\<lambda>c (s, w).
       bind_outcome (sort_process c s) (\<lambda>(out, s). Ret (map (\<lambda>c. Res (Some c) None) out, (s, w)))),
     pr_err = None, pr_ender = None, pr_finish = (\<lambda>(s, w). (sort_finish s, (s, w))),
     pr_inplace = False\<rparr>"

definition writer_obj :: "(bytes \<Rightarrow> 'w \<Rightarrow> err option \<times> 'w) \<Rightarrow> (chunk series \<times> 'w) proc" where
  "writer_obj write = simple_proc True (func_proc (\<lambda>c (s, w).
     bind_outcome (writer_to write c w) (\<lambda>(r, w). Ret (r, (s, w)))))"

definition join_obj ::
  "(res list list \<Rightarrow> res list) \<Rightarrow> (err option list \<Rightarrow> err option list) \<Rightarrow>
   (bytes \<Rightarrow> 'w \<Rightarrow> err option \<times> 'w) \<Rightarrow> (chunk series \<times> 'w) proc" where
  "join_obj mg order write = chain mg order [sort_obj, writer_obj write]"

text \<open>
  The backlog around it has one slot, so the calls come one after the other: a proc called for
  each chunk in turn.
\<close>

fun proc_run :: "'st proc \<Rightarrow> chunk list \<Rightarrow> 'st \<Rightarrow> (res list \<times> 'st) outcome" where
  "proc_run p [] st = Ret ([], st)"
| "proc_run p (c # cs) st =
     bind_outcome (pr_process p c st) (\<lambda>(rs, st).
     bind_outcome (proc_run p cs st) (\<lambda>(rss, st). Ret (rs @ rss, st)))"

section \<open>Laws of the codecs\<close>

text \<open>
  What the procs that change data promise each other: the \<open>Unproc\<close> side gives back the data,
  and neither side touches the number.
\<close>

locale codec =
  fixes enc :: "unit chunk_fn" and dec :: "unit chunk_fn"
  assumes encodes: "chunk_data c = BytesData b \<Longrightarrow>
      \<exists>c' b'. enc c () = Ret ((None, c'), ()) \<and> chunk_data c' = BytesData b' \<and> chunk_num c' = chunk_num c"
    and decodes: "chunk_data c = BytesData b \<Longrightarrow> enc c () = Ret ((None, c'), ()) \<Longrightarrow>
      chunk_data d = chunk_data c' \<Longrightarrow> chunk_hash d = chunk_hash c' \<Longrightarrow>
      \<exists>d'. dec d () = Ret ((None, d'), ()) \<and> chunk_data d' = BytesData b \<and>
        chunk_num d' = chunk_num d \<and> chunk_hash d' = chunk_hash d"
begin

lemma roundtrip:
  assumes "chunk_data c = BytesData b"
  shows "\<exists>c' d'. enc c () = Ret ((None, c'), ()) \<and> dec c' () = Ret ((None, d'), ()) \<and>
    chunk_data d' = BytesData b \<and> chunk_num d' = chunk_num c"
proof -
  obtain c' b' where c': "enc c () = Ret ((None, c'), ())" "chunk_num c' = chunk_num c"
    using encodes [OF assms] by blast
  then show ?thesis
    using decodes [OF assms c'(1), of c'] by auto
qed

end

interpretation checksum: codec "checksum_process sha" "checksum_unprocess sha"
proof
  fix c :: chunk and b assume b: "chunk_data c = BytesData b"
  show "\<exists>c' b'. checksum_process sha c () = Ret ((None, c'), ()) \<and> chunk_data c' = BytesData b' \<and>
      chunk_num c' = chunk_num c"
    using b by (simp add: checksum_process_def data_reader_def checksum_sum_def)
next
  fix c c' d :: chunk and b assume b: "chunk_data c = BytesData b"
    and "checksum_process sha c () = Ret ((None, c'), ())"
    and "chunk_data d = chunk_data c'" and "chunk_hash d = chunk_hash c'"
  then have "chunk_data d = BytesData b" "chunk_hash d = sha b"
    by (auto simp: checksum_process_def data_reader_def checksum_sum_def)
  then show "\<exists>d'. checksum_unprocess sha d () = Ret ((None, d'), ()) \<and> chunk_data d' = BytesData b \<and>
      chunk_num d' = chunk_num d \<and> chunk_hash d' = chunk_hash d"
    by (simp add: checksum_unprocess_def data_reader_def checksum_sum_def)
qed

text \<open>A codec that does not look at the hash.\<close>

locale blind_codec =
  fixes enc :: "unit chunk_fn" and dec :: "unit chunk_fn"
  assumes blind_encodes: "chunk_data c = BytesData b \<Longrightarrow>
      \<exists>c' b'. enc c () = Ret ((None, c'), ()) \<and> chunk_data c' = BytesData b' \<and> chunk_num c' = chunk_num c"
    and blind_decodes: "chunk_data c = BytesData b \<Longrightarrow> enc c () = Ret ((None, c'), ()) \<Longrightarrow>
      chunk_data d = chunk_data c' \<Longrightarrow>
      \<exists>d'. dec d () = Ret ((None, d'), ()) \<and> chunk_data d' = BytesData b \<and>
        chunk_num d' = chunk_num d \<and> chunk_hash d' = chunk_hash d"

sublocale blind_codec \<subseteq> codec
proof
  fix c b assume "chunk_data c = BytesData b"
  then show "\<exists>c' b'. enc c () = Ret ((None, c'), ()) \<and> chunk_data c' = BytesData b' \<and>
      chunk_num c' = chunk_num c"
    by (rule blind_encodes)
next
  fix c b c' d
  assume "chunk_data c = BytesData b" "enc c () = Ret ((None, c'), ())" "chunk_data d = chunk_data c'"
  then show "\<exists>d'. dec d () = Ret ((None, d'), ()) \<and> chunk_data d' = BytesData b \<and>
      chunk_num d' = chunk_num d \<and> chunk_hash d' = chunk_hash d"
    by (rule blind_decodes)
qed

text \<open>One after the other, as a chain does it.\<close>

definition then_fn :: "'st chunk_fn \<Rightarrow> 'st chunk_fn \<Rightarrow> 'st chunk_fn" where
  "then_fn f g c st =
     bind_outcome (f c st) (\<lambda>((e, c'), st).
       case e of Some e \<Rightarrow> Ret ((Some e, c'), st) | None \<Rightarrow> g c' st)"

lemma func_chain_two:
  "func_chain [f, g] c st = bind_outcome (then_fn f g c st) (\<lambda>((e, c'), st). Ret (Res (Some c') e, st))"
proof (cases "f c st")
  case (Ret x)
  obtain e c' st' where x: "x = ((e, c'), st')"
    by (cases x) auto
  show ?thesis
  proof (cases e)
    case None
    show ?thesis
      using Ret x None
      by (cases "g c' st'") (auto simp: then_fn_def split: option.split prod.split)
  qed (simp add: Ret x then_fn_def)
qed (simp add: then_fn_def)

lemma chain_two:
  assumes "merges mg"
  shows "chain_process mg (func_objs [(i, f), (j, g)]) c st =
    bind_outcome (then_fn f g c st) (\<lambda>((e, c'), st). Ret ([Res (Some c') e], st))"
  using chain_func_chain [OF assms, of "[(i, f), (j, g)]" c st]
  by (cases "then_fn f g c st") (auto simp: func_chain_two simp del: func_chain.simps)

context blind_codec
begin

text \<open>A blind codec inside any other: what is decoded last has to bear another hash.\<close>

lemma inside:
  assumes "codec enc2 dec2"
  shows "codec (then_fn enc enc2) (then_fn dec2 dec)"
proof
  fix c b assume b: "chunk_data c = BytesData b"
  obtain c1 b1 where c1: "enc c () = Ret ((None, c1), ())" "chunk_data c1 = BytesData b1"
    "chunk_num c1 = chunk_num c"
    using blind_encodes [OF b] by blast
  then show "\<exists>c' b'. then_fn enc enc2 c () = Ret ((None, c'), ()) \<and> chunk_data c' = BytesData b' \<and>
      chunk_num c' = chunk_num c"
    using codec.encodes [OF assms c1(2)] by (simp add: then_fn_def)
next
  fix c b c2 d assume b: "chunk_data c = BytesData b" and enc2: "then_fn enc enc2 c () = Ret ((None, c2), ())"
    and d: "chunk_data d = chunk_data c2" "chunk_hash d = chunk_hash c2"
  obtain c1 b1 where c1: "enc c () = Ret ((None, c1), ())" "chunk_data c1 = BytesData b1"
    using blind_encodes [OF b] by blast
  have "enc2 c1 () = Ret ((None, c2), ())"
    using enc2 by (simp add: then_fn_def c1)
  from codec.decodes [OF assms c1(2) this d] obtain d1 where
    d1: "dec2 d () = Ret ((None, d1), ())" "chunk_data d1 = BytesData b1" "chunk_num d1 = chunk_num d"
      "chunk_hash d1 = chunk_hash d"
    by blast
  have "chunk_data d1 = chunk_data c1"
    by (simp add: d1 c1)
  from blind_decodes [OF b c1(1) this] d1
  show "\<exists>d'. then_fn dec2 dec d () = Ret ((None, d'), ()) \<and> chunk_data d' = BytesData b \<and>
      chunk_num d' = chunk_num d \<and> chunk_hash d' = chunk_hash d"
    by (auto simp: then_fn_def)
qed

end

text \<open>gzip, when reading what was written gives the content back.\<close>

lemma gzip_codec:
  assumes "\<And>b. gunz (gz b, None) = Inr b"
  shows "blind_codec (gzip_process gz) (gzip_unprocess gunz)"
proof
  fix c :: chunk and b assume b: "chunk_data c = BytesData b"
  show "\<exists>c' b'. gzip_process gz c () = Ret ((None, c'), ()) \<and> chunk_data c' = BytesData b' \<and>
      chunk_num c' = chunk_num c"
    using b by (simp add: gzip_process_def data_reader_def)
next
  fix c c' d :: chunk and b assume b: "chunk_data c = BytesData b"
    and "gzip_process gz c () = Ret ((None, c'), ())" and "chunk_data d = chunk_data c'"
  then have "chunk_data d = BytesData (gz b)"
    by (auto simp: gzip_process_def data_reader_def)
  then show "\<exists>d'. gzip_unprocess gunz d () = Ret ((None, d'), ()) \<and> chunk_data d' = BytesData b \<and>
      chunk_num d' = chunk_num d \<and> chunk_hash d' = chunk_hash d"
    by (simp add: gzip_unprocess_def data_reader_def assms)
qed

interpretation plain_gzip: blind_codec "gzip_process (\<lambda>b. 0x1F # b)"
    "gzip_unprocess (\<lambda>(b, e). case e of Some e \<Rightarrow> Inl e | None \<Rightarrow>
       (case b of [] \<Rightarrow> Inl (ErrText ''EOF'') | _ # b \<Rightarrow> Inr b))"
  by (rule gzip_codec) simp

section \<open>Writing in order\<close>

definition append_writer :: "bytes \<Rightarrow> bytes \<Rightarrow> err option \<times> bytes" where
  "append_writer b w = (None, w @ b)"

text \<open>The data of chunks that hold bytes.\<close>

definition data_of :: "chunk \<Rightarrow> bytes" where
  "data_of c = (case chunk_data c of BytesData b \<Rightarrow> b | ReaderData b _ _ \<Rightarrow> b)"

lemma data_of_Bytes: "chunk_data c = BytesData b \<Longrightarrow> data_of c = b"
  by (simp add: data_of_def)

definition in_memory :: "chunk \<Rightarrow> bool" where
  "in_memory c \<longleftrightarrow> (\<exists>b. chunk_data c = BytesData b)"

lemma writer_calls:
  assumes "\<forall>c \<in> set cs. in_memory c"
  shows "\<exists>outs. stage_calls (writer_obj append_writer) (map (\<lambda>c. Res (Some c) None) cs) (s, w) =
    Ret (outs, (s, w @ concat (map data_of cs))) \<and> stream_err (concat outs) = None"
  using assms
proof (induction cs arbitrary: w)
  case (Cons c cs)
  obtain b where b: "chunk_data c = BytesData b"
    using Cons.prems by (auto simp: in_memory_def)
  have "\<exists>outs. stage_calls (writer_obj append_writer) (map (\<lambda>c. Res (Some c) None) cs) (s, w @ b) =
      Ret (outs, (s, (w @ b) @ concat (map data_of cs))) \<and> stream_err (concat outs) = None"
    by (rule Cons.IH) (use Cons.prems in simp)
  then show ?case
    by (auto simp: writer_obj_def func_proc_def writer_to_def data_reader_def append_writer_def data_of_Bytes [OF b] b)
qed simp

lemma join_step:
  assumes "sort_process c s = Ret (out, s')" and "\<forall>c \<in> set out. in_memory c" and "merges mg"
  shows "\<exists>rs. pr_process (join_obj mg order append_writer) c (s, w) =
    Ret (rs, (s', w @ concat (map data_of out))) \<and> stream_err rs = None"
proof -
  obtain outs where outs:
    "stage_calls (writer_obj append_writer) (map (\<lambda>c. Res (Some c) None) out) (s', w) =
       Ret (outs, (s', w @ concat (map data_of out)))" "stream_err (concat outs) = None"
    using writer_calls [OF assms(2)] by blast
  have "end_procs [sort_obj, writer_obj append_writer] = []"
    by (simp add: end_procs_def sort_obj_def writer_obj_def)
  then show ?thesis
    using assms(1)
    by (simp add: join_obj_def chain_def chain_without_end single_res_def stage_def sort_obj_def
        merges_one [OF assms(3)] outs(1) merges_no_error [OF assms(3) outs(2)]
        del: stream_err_None_iff)
qed

lemma join_run:
  assumes "sort_run cs s = Ret (outs, s')" and "\<forall>c \<in> set outs. in_memory c" and "merges mg"
  shows "\<exists>rs. proc_run (join_obj mg order append_writer) cs (s, w) =
    Ret (rs, (s', w @ concat (map data_of outs))) \<and> stream_err rs = None"
  using assms(1,2)
proof (induction cs arbitrary: s outs w)
  case (Cons c cs)
  obtain out s1 outs1 where run: "sort_process c s = Ret (out, s1)" "sort_run cs s1 = Ret (outs1, s')"
    and outs: "outs = out @ outs1"
    using Cons.prems(1) by (auto simp: bind_outcome_Ret_iff)
  obtain rs where rs: "pr_process (join_obj mg order append_writer) c (s, w) =
      Ret (rs, (s1, w @ concat (map data_of out)))" "stream_err rs = None"
    using join_step [OF run(1) _ assms(3), of order w] Cons.prems(2) outs by auto
  obtain rs' where "proc_run (join_obj mg order append_writer) cs (s1, w @ concat (map data_of out)) =
      Ret (rs', (s', (w @ concat (map data_of out)) @ concat (map data_of outs1)))" "stream_err rs' = None"
    using Cons.IH [OF run(2), of "w @ concat (map data_of out)"] Cons.prems(2) outs by auto
  with rs show ?case
    by (auto simp: outs)
qed simp

section \<open>Properties\<close>

text \<open>The chains of a backup, compression before the checksum, and of its restore.\<close>

definition backup_chain :: "(bytes \<Rightarrow> hash) \<Rightarrow> (bytes \<Rightarrow> bytes) \<Rightarrow> unit proc list" where
  "backup_chain sha gz =
     func_objs [(False, gzip_process gz), (True, checksum_process sha)]"

definition restore_chain ::
  "(bytes \<Rightarrow> hash) \<Rightarrow> (bytes \<times> err option \<Rightarrow> err + bytes) \<Rightarrow> unit proc list" where
  "restore_chain sha gunz =
     func_objs [(True, checksum_unprocess sha), (False, gzip_unprocess gunz)]"

text \<open>
  C26: what the chain of gzip and checksum puts out, the chain of their other sides turns
  back into the data of the chunk; and data that came back with another hash stops there
  with an integrity error.
\<close>

theorem chain_roundtrip:
  fixes sha gz and b :: bytes and c :: chunk
  defines "c' \<equiv> set_hash (sha (gz b)) (with_data (BytesData (gz b)) c)"
  assumes "merges mg" and gz: "\<And>b. gunz (gz b, None) = Inr b" and c: "chunk_data c = BytesData b"
    and x: "sha x \<noteq> sha (gz b)"
  shows "chain_process mg (backup_chain sha gz) c () = Ret ([Res (Some c') None], ()) \<and>
    (\<exists>d. chain_process mg (restore_chain sha gunz) c' () = Ret ([Res (Some d) None], ()) \<and>
       chunk_data d = BytesData b \<and> chunk_num d = chunk_num c) \<and>
    chain_process mg (restore_chain sha gunz) (with_data (BytesData x) c') () =
      Ret ([Res (Some (with_data (BytesData x) c')) (Some ErrIntegrityCheckFailed)], ())"
proof -
  have codec: "codec (then_fn (gzip_process gz) (checksum_process sha))
      (then_fn (checksum_unprocess sha) (gzip_unprocess gunz))"
    by (rule blind_codec.inside [OF gzip_codec [OF gz] checksum.codec_axioms])
  have mark: "mark_read (BytesData y) (with_data (BytesData y) e) = with_data (BytesData y) e" for y e
    by (cases e) simp
  have enc: "then_fn (gzip_process gz) (checksum_process sha) c () = Ret ((None, c'), ())"
    by (simp add: then_fn_def gzip_process_def checksum_process_def data_reader_def checksum_sum_def c
        c'_def mark)
  obtain d where
    dec: "then_fn (checksum_unprocess sha) (gzip_unprocess gunz) c' () = Ret ((None, d), ())" and
    d: "chunk_data d = BytesData b" "chunk_num d = chunk_num c"
    using codec.roundtrip [OF codec c] enc by auto
  have "chain_process mg (backup_chain sha gz) c () = Ret ([Res (Some c') None], ())"
    unfolding backup_chain_def chain_two [OF assms(2)] enc by simp
  moreover have "chain_process mg (restore_chain sha gunz) c' () = Ret ([Res (Some d) None], ())"
    unfolding restore_chain_def chain_two [OF assms(2)] dec by simp
  moreover have "chain_process mg (restore_chain sha gunz) (with_data (BytesData x) c') () =
      Ret ([Res (Some (with_data (BytesData x) c')) (Some ErrIntegrityCheckFailed)], ())"
    using x unfolding restore_chain_def chain_two [OF assms(2)]
    by (simp add: then_fn_def checksum_unprocess_def data_reader_def checksum_sum_def mark c'_def)
  ultimately show ?thesis
    using d by blast
qed

lemma chain_roundtrip_witness:
  "chain_process concat (backup_chain id (\<lambda>b. 7 # b)) (new_chunk 4 (Some (BytesData [1, 2]))) () =
      Ret ([Res (Some (set_hash [7, 1, 2] (with_data (BytesData [7, 1, 2]) (new_chunk 4 (Some (BytesData [1, 2])))))) None], ()) \<and>
    (\<exists>d. chain_process concat (restore_chain id (\<lambda>(b, e). Inr (tl b)))
          (set_hash [7, 1, 2] (with_data (BytesData [7, 1, 2]) (new_chunk 4 (Some (BytesData [1, 2]))))) () =
        Ret ([Res (Some d) None], ()) \<and>
       chunk_data d = BytesData [1, 2] \<and> chunk_num d = 4) \<and>
    chain_process concat (restore_chain id (\<lambda>(b, e). Inr (tl b)))
        (with_data (BytesData [7, 1]) (set_hash [7, 1, 2] (with_data (BytesData [7, 1, 2]) (new_chunk 4 (Some (BytesData [1, 2])))))) () =
      Ret ([Res (Some (with_data (BytesData [7, 1])
          (set_hash [7, 1, 2] (with_data (BytesData [7, 1, 2]) (new_chunk 4 (Some (BytesData [1, 2])))))))
        (Some ErrIntegrityCheckFailed)], ())"
  using chain_roundtrip [OF merges_concat, of "\<lambda>(b, e). Inr (tl b)" "\<lambda>b. 7 # b"
      "new_chunk 4 (Some (BytesData [1, 2]))" "[1, 2]" id "[7, 1]"] by simp

end
