(* ===== verification/Splitting.thy ===== *)
theory Splitting
  imports Codecs
begin

text \<open>
  \<^verbatim>\<open>split/splitter.go\<close>, \<^verbatim>\<open>procs/split.go\<close> and the loop of \<open>ChunkIterFunc\<close>: a reader cut into
  numbered chunks. Where the content is cut is the business of the chunker, a parameter.
\<close>

section \<open>The splitter\<close>

text \<open>
  \<open>cuts min max r\<close> are the pieces \<open>chunker.Next\<close> delivers for the reader \<open>r\<close>; after them it
  fails with the error of the reader, or with \<open>io.EOF\<close>.
\<close>

type_synonym chunker = "nat \<Rightarrow> nat \<Rightarrow> bytes \<times> err option \<Rightarrow> bytes list"

record splitter =
  sp_cuts :: "bytes list"
  sp_end :: "err option"
  sp_num :: int
  sp_chunk :: "chunk option"
  sp_err :: "err option"

definition min_min :: nat where
  "min_min = 512 * 1024"

definition new_splitter_size ::
  "chunker \<Rightarrow> int \<Rightarrow> bytes \<times> err option \<Rightarrow> nat \<Rightarrow> nat \<Rightarrow> splitter outcome" where
  "new_splitter_size cuts num r mn mx =
     (if mn < min_min then Panic ''min size must be >= 524288 bytes''
      else Ret \<lparr>sp_cuts = cuts mn mx r, sp_end = snd r, sp_num = num, sp_chunk = None, sp_err = None\<rparr>)"

text \<open>The default sizes are constants of the chunker.\<close>

definition new_splitter :: "chunker \<Rightarrow> nat \<times> nat \<Rightarrow> int \<Rightarrow> bytes \<times> err option \<Rightarrow> splitter outcome" where
  "new_splitter cuts defaults num r = new_splitter_size cuts num r (fst defaults) (snd defaults)"

definition splitter_next :: "splitter \<Rightarrow> (bool \<times> splitter) outcome" where
  "splitter_next s =
     (case sp_cuts s of
        [] \<Rightarrow> Ret (False, s\<lparr>sp_err := sp_end s\<rparr>)
      | b # bs \<Rightarrow>
          (let c = set_target_size (int (length b)) (new_chunk (sp_num s) (Some (BytesData b)));
               num = wrap_int (sp_num s + 1)
           in if num \<le> 0 then Panic ''overflow''
              else Ret (True, s\<lparr>sp_cuts := bs, sp_chunk := Some c, sp_num := num\<rparr>)))"

section \<open>The loop over an iterator\<close>

text \<open>
  \<open>ChunkIterFunc\<close>: the chunks while \<open>Next\<close> is true, then \<open>Err\<close> with the chunk it was given.
  \<open>fuel\<close> bounds the turns.
\<close>

fun iter_loop ::
  "('i \<Rightarrow> (bool \<times> 'i) outcome) \<Rightarrow> ('i \<Rightarrow> chunk option) \<Rightarrow> ('i \<Rightarrow> err option) \<Rightarrow> nat \<Rightarrow> chunk \<Rightarrow> 'i \<Rightarrow>
   res list outcome option" where
  "iter_loop next chunk er 0 c i = None"
| "iter_loop next chunk er (Suc fuel) c i =
     (case next i of
        Panic m \<Rightarrow> Some (Panic m)
      | Ret (False, i') \<Rightarrow>
          Some (Ret (case er i' of None \<Rightarrow> [] | Some e \<Rightarrow> [Res (Some c) (Some e)]))
      | Ret (True, i') \<Rightarrow>
          map_option (\<lambda>m. bind_outcome m (\<lambda>rs. Ret (Res (chunk i') None # rs)))
            (iter_loop next chunk er fuel c i'))"

text \<open>A splitter has one turn per piece, and a last one.\<close>

definition split_iter :: "chunk \<Rightarrow> splitter \<Rightarrow> res list outcome option" where
  "split_iter c i = iter_loop splitter_next sp_chunk sp_err (Suc (length (sp_cuts i))) c i"

text \<open>The procs; \<open>c.Data().Reader()\<close> is taken once.\<close>

definition split_with ::
  "(int \<Rightarrow> bytes \<times> err option \<Rightarrow> splitter outcome) \<Rightarrow> chunk \<Rightarrow> res list outcome option" where
  "split_with new c =
     (case data_reader (chunk_data c) of
        Panic m \<Rightarrow> Some (Panic m)
      | Ret (r, d) \<Rightarrow>
          (case new (chunk_num c) r of
             Panic m \<Rightarrow> Some (Panic m)
           | Ret i \<Rightarrow> split_iter (mark_read d c) i))"

definition split_proc :: "chunker \<Rightarrow> nat \<times> nat \<Rightarrow> chunk \<Rightarrow> res list outcome option" where
  "split_proc cuts defaults = split_with (new_splitter cuts defaults)"

definition new_split_size :: "chunker \<Rightarrow> nat \<Rightarrow> nat \<Rightarrow> chunk \<Rightarrow> res list outcome option" where
  "new_split_size cuts mn mx = split_with (\<lambda>num r. new_splitter_size cuts num r mn mx)"

section \<open>What a splitter delivers\<close>

definition piece :: "int \<Rightarrow> bytes \<Rightarrow> chunk" where
  "piece n b = set_target_size (int (length b)) (new_chunk n (Some (BytesData b)))"

fun pieces :: "int \<Rightarrow> bytes list \<Rightarrow> chunk list" where
  "pieces n [] = []"
| "pieces n (b # bs) = piece n b # pieces (n + 1) bs"

lemma pieces_nth: "pieces n bs = map (\<lambda>(i, b). piece (n + int i) b) (enumerate 0 bs)"
proof -
  have "pieces (n + int k) bs = map (\<lambda>(i, b). piece (n + int i) b) (enumerate k bs)" for k
  proof (induction bs arbitrary: k)
    case (Cons b bs)
    from Cons [of "Suc k"] show ?case
      by (simp add: algebra_simps)
  qed simp
  from this [of 0] show ?thesis
    by simp
qed

lemma map_data_pieces: "map data_of (pieces n bs) = bs"
  by (induction n bs rule: pieces.induct) (simp_all add: piece_def data_of_def)

lemma map_num_pieces: "map chunk_num (pieces n bs) = map (\<lambda>i. n + int i) [0..<length bs]"
proof (induction bs arbitrary: n)
  case (Cons b bs)
  then show ?case
    by (simp add: piece_def upt_conv_Cons map_Suc_upt [symmetric] comp_def algebra_simps del: upt_Suc)
qed simp

lemma iter_loop_splitter:
  assumes "0 \<le> sp_num i" and "sp_num i + int (length (sp_cuts i)) < 2 ^ 63"
    and "length (sp_cuts i) < fuel"
  shows "iter_loop splitter_next sp_chunk sp_err fuel c i =
    Some (Ret (map (\<lambda>c. Res (Some c) None) (pieces (sp_num i) (sp_cuts i)) @
      (case sp_end i of None \<Rightarrow> [] | Some e \<Rightarrow> [Res (Some c) (Some e)])))"
  using assms
proof (induction "sp_cuts i" arbitrary: i fuel)
  case Nil
  then show ?case
    by (cases fuel) (auto simp: splitter_next_def split: option.split)
next
  case (Cons b bs)
  define i' where "i' = i\<lparr>sp_cuts := bs, sp_chunk := Some (piece (sp_num i) b), sp_num := sp_num i + 1\<rparr>"
  obtain k where fuel: "fuel = Suc k"
    using Cons.prems(3) by (cases fuel) auto
  have i: "sp_cuts i = b # bs"
    using Cons.hyps(2) by simp
  have num: "wrap_int (sp_num i + 1) = sp_num i + 1"
    using Cons.prems(1,2) by (intro wrap_int_id) (simp_all add: i)
  have "splitter_next i = Ret (True, i')"
    using Cons.prems(1) num by (simp add: splitter_next_def i Let_def i'_def piece_def)
  moreover have "iter_loop splitter_next sp_chunk sp_err k c i' =
      Some (Ret (map (\<lambda>c. Res (Some c) None) (pieces (sp_num i') (sp_cuts i')) @
        (case sp_end i' of None \<Rightarrow> [] | Some e \<Rightarrow> [Res (Some c) (Some e)])))"
    by (rule Cons.hyps(1)) (use Cons.prems in \<open>simp_all add: i'_def i fuel\<close>)
  ultimately show ?case
    by (simp add: fuel i) (simp add: i'_def)
qed

lemma split_proc_pieces:
  assumes "data_reader (chunk_data c) = Ret ((b, None), d)" and "0 \<le> chunk_num c" and "min_min \<le> mn"
    and "chunk_num c + int (length (cuts mn mx (b, None))) < 2 ^ 63"
  shows "split_proc cuts (mn, mx) c =
    Some (Ret (map (\<lambda>c. Res (Some c) None) (pieces (chunk_num c) (cuts mn mx (b, None)))))"
  using assms
  by (simp add: split_proc_def split_with_def new_splitter_def new_splitter_size_def
      split_iter_def iter_loop_splitter del: iter_loop.simps)

lemma nums_of_perm:
  assumes "mset cs = mset ds" and "map chunk_num ds = map int [0..<n]"
  shows "distinct (map chunk_num cs)" and "chunk_num ` set cs = int ` {..<n}"
proof -
  have "mset (map chunk_num cs) = mset (map int [0..<n])"
    using arg_cong [OF assms(1), of "image_mset chunk_num"] by (simp flip: assms(2))
  then show "distinct (map chunk_num cs)" "chunk_num ` set cs = int ` {..<n}"
    using mset_eq_imp_distinct_iff [of "map chunk_num cs" "map int [0..<n]"]
      mset_eq_setD [of "map chunk_num cs" "map int [0..<n]"]
    by (auto simp: distinct_map atLeast0LessThan)
qed

text \<open>A join writes the data of chunks that arrive in any order in the order of their numbers.\<close>

lemma join_any_order:
  assumes "merges mg" and order: "\<And>es. mset (order es) = mset es"
    and perm: "mset cs = mset ds" and nums: "map chunk_num ds = map int [0..<n]"
    and len: "int n \<le> pos_limit" and mem: "\<forall>c \<in> set ds. in_memory c"
  shows "\<exists>rs s. proc_run (join_obj mg order append_writer) cs (new_series, []) =
      Ret (rs, (s, concat (map data_of ds))) \<and> stream_err rs = None \<and>
    fst (pr_finish (join_obj mg order append_writer) (s, w)) = None"
proof -
  note cs = nums_of_perm [OF perm nums]
  from sort_run_sorts [OF cs len] obtain s where
    run: "sort_run cs new_series = Ret (sort_key chunk_num cs, s)" and fin: "sort_finish s = None"
    by blast
  have sorted: "sort_key chunk_num cs = ds"
  proof (rule sort_key_inj_key_eq [OF perm])
    show "inj_on chunk_num (set cs)"
      using cs(1) by (simp add: distinct_map)
    show "sorted (map chunk_num ds)"
      unfolding nums by (simp add: sorted_map)
  qed
  from join_run [OF run [unfolded sorted] mem assms(1), of order "[]"] obtain rs where
    "proc_run (join_obj mg order append_writer) cs (new_series, []) =
       Ret (rs, (s, concat (map data_of ds)))" "stream_err rs = None"
    by auto
  moreover have "concur_first_err (order [None, None]) = None"
    using concur_first_err_order [OF order, of "[None, None]"]
    by (simp add: concur_first_err_def)
  ultimately show ?thesis
    using fin by (auto simp: join_obj_def chain_def chain_finish_def sort_obj_def writer_obj_def)
qed

section \<open>Properties\<close>

end
