(* ===== verification/Chain_Index.thy ===== *)
theory Chain_Index
  imports Index_Writer Index_Scanner Splitting
begin

text \<open>
  The index in a chain: \<^verbatim>\<open>procs/index.go\<close> behind \<^verbatim>\<open>procs/checksum.go\<close>, and what it has written
  once every chunk of a stream has been through the chain, from whatever final chunks the
  procs behind it make of a chunk. A backup to one store and one to a stripe of stores rest on
  it.
\<close>

section \<open>The index as a proc of a chain\<close>

definition index_obj :: "'w writer \<Rightarrow> 'w index_st proc" where
  "index_obj wr =
     \<lparr>pr_process = index_process, pr_err = None,
      pr_ender = Some \<lparr>en_final = index_process_final, en_end = index_process_end wr\<rparr>,
      pr_finish = (\<lambda>st. (index_finish st, st)), pr_inplace = True\<rparr>"

lemma index_over_fst:
  "en_final (the (pr_ender (over_fst (index_obj wr)))) c final (ix, m) =
     apsnd (\<lambda>ix. (ix, m)) (index_process_final c final ix)"
  "en_end (the (pr_ender (over_fst (index_obj wr)))) c (ix, m) =
     apsnd (\<lambda>ix. (ix, m)) (index_process_end wr c ix)"
  "pr_process (index_obj wr) = index_process" "pr_err (index_obj wr) = None" "pr_inplace (index_obj wr)"
  by (simp_all add: index_obj_def over_fst_def)

text \<open>The chunk as it enters the index.\<close>

definition hashed :: "(bytes \<Rightarrow> hash) \<Rightarrow> chunk \<Rightarrow> chunk" where
  "hashed sha c = set_hash (sha (data_of c)) c"

lemma hashed_sel [simp]:
  "chunk_hash (hashed sha c) = sha (data_of c)" "chunk_num (hashed sha c) = chunk_num c"
  "chunk_data (hashed sha c) = chunk_data c" "chunk_target_size (hashed sha c) = chunk_target_size c"
  by (simp_all add: hashed_def)

lemma checksum_in_memory:
  assumes "in_memory c"
  shows "checksum_process sha c st = Ret ((None, hashed sha c), st)"
  using assms by (auto simp: in_memory_def checksum_process_def data_reader_def checksum_sum_def
      mark_read_same hashed_def data_of_def)

lemma hashed_in_memory [simp]: "in_memory (hashed sha c) \<longleftrightarrow> in_memory c"
  by (simp add: in_memory_def)

lemma data_of_hashed [simp]: "data_of (hashed sha c) = data_of c"
  by (simp add: data_of_def)

lemma index_process_result:
  assumes "index_process c ix = Ret (rs, ix1)"
  shows "rs = (if ifinals ix (chunk_hash c) = None then [Res (Some c) None] else [])"
    and "ifinals ix1 = (if ifinals ix (chunk_hash c) = None
      then (ifinals ix)(chunk_hash c \<mapsto> \<lparr>fnum = chunk_num c, entries = [], complete = False\<rparr>)
      else ifinals ix)"
  using assms by (auto simp: index_process_def index_set_order_def bind_outcome_Ret_iff split: if_splits)

text \<open>The last stage of a chain reports each final chunk to the index.\<close>

lemma finals_reported:
  assumes "index_run wr (map (EFinal c) fs) ix = Ret (replicate (length fs) None, ix')"
  shows "stage_calls (end_call_proc c [the (pr_ender (over_fst (index_obj wr)))])
      (map (\<lambda>f. Res (Some f) None) fs) (ix, x) =
    Ret (map (\<lambda>f. [Res (Some f) None]) fs, (ix', x))"
  using assms
proof (induction fs arbitrary: ix)
  case (Cons f fs)
  then obtain ix1 where "index_process_final c f ix = (None, ix1)"
    "index_run wr (map (EFinal c) fs) ix1 = Ret (replicate (length fs) None, ix')"
    by (cases "index_process_final c f ix") (auto simp: index_step_def bind_outcome_Ret_iff)
  with Cons.IH [of ix1] show ?case
    by (simp add: end_call_proc_def ret_process_def inplace_func_def index_over_fst)
qed simp

text \<open>They are taken as long as the chunk that made them known is being processed.\<close>

lemma finals_taken:
  assumes "ifinals ix (chunk_hash c) = Some \<lparr>fnum = chunk_num c, entries = es, complete = False\<rparr>"
  shows "\<exists>ix' es'. index_run wr (map (EFinal c) fs) ix = Ret (replicate (length fs) None, ix') \<and>
    ifinals ix' = (ifinals ix)(chunk_hash c \<mapsto> \<lparr>fnum = chunk_num c, entries = es', complete = False\<rparr>)"
  using assms
proof (induction fs arbitrary: ix es)
  case (Cons f fs)
  then obtain ix1 es1 where ix1: "index_process_final c f ix = (None, ix1)"
    "ifinals ix1 = (ifinals ix)(chunk_hash c \<mapsto> \<lparr>fnum = chunk_num c, entries = es1, complete = False\<rparr>)"
    by (simp add: index_process_final_def)
  have "ifinals ix1 (chunk_hash c) = Some \<lparr>fnum = chunk_num c, entries = es1, complete = False\<rparr>"
    by (simp add: ix1(2))
  from Cons.IH [OF this] obtain ix' es' where
    "index_run wr (map (EFinal c) fs) ix1 = Ret (replicate (length fs) None, ix')"
    "ifinals ix' = (ifinals ix)(chunk_hash c \<mapsto> \<lparr>fnum = chunk_num c, entries = es', complete = False\<rparr>)"
    unfolding ix1(2) fun_upd_upd by blast
  with ix1(1) show ?case
    by (intro exI conjI) (auto simp: index_step_def)
qed (auto intro!: exI simp: fun_upd_idem)

section \<open>The calls of the index in a run\<close>

text \<open>
  \<open>S\<close> holds the hashes the index knows; \<open>fins\<close> are the final chunks made of a chunk that is new.
\<close>

fun chain_events ::
  "(bytes \<Rightarrow> hash) \<Rightarrow> (chunk \<Rightarrow> chunk list) \<Rightarrow> hash set \<Rightarrow> chunk list \<Rightarrow> index_event list" where
  "chain_events sha fins S [] = []"
| "chain_events sha fins S (c # cs) =
     EProcess (hashed sha c) #
     (if sha (data_of c) \<in> S then [] else map (EFinal (hashed sha c)) (fins c)) @
     EEnd (hashed sha c) # chain_events sha fins (insert (sha (data_of c)) S) cs"

lemma processed_events: "processed (chain_events sha fins S cs) = map (hashed sha) cs"
  by (induction cs arbitrary: S) (simp_all add: processed_def)

lemma reported_Nil: "reported [] es h = []"
  by (simp add: reported_def)

lemma reported_Cons:
  "reported (ev # evs) (e # es) h =
     (case ev of EFinal c final \<Rightarrow> if e = None \<and> chunk_hash c = h then [entry_of final] else [] | _ \<Rightarrow> []) @
     reported evs es h"
  by (simp add: reported_def)

text \<open>Without errors, what is reported can be read off the calls.\<close>

lemma reported_all:
  "reported evs (replicate (length evs) None) h =
     concat (map (\<lambda>ev. case ev of EFinal c f \<Rightarrow> if chunk_hash c = h then [entry_of f] else [] | _ \<Rightarrow> []) evs)"
  by (induction evs) (auto simp: reported_Nil reported_Cons split: index_event.split)

lemma reported_events:
  "reported (chain_events sha fins S cs) (replicate (length (chain_events sha fins S cs)) None) h =
     (if h \<in> S then []
      else case find (\<lambda>c. sha (data_of c) = h) cs of
             None \<Rightarrow> [] | Some c \<Rightarrow> map entry_of (fins c))"
  unfolding reported_all
  by (induction cs arbitrary: S) (auto simp: comp_def concat_map_singleton split: option.split)

lemma last_chain_events:
  assumes "cs \<noteq> []"
  shows "last (chain_events sha fins S cs) = EEnd (hashed sha (last cs))"
proof -
  have "cs \<noteq> [] \<longrightarrow> last (chain_events sha fins S cs) = EEnd (hashed sha (last cs)) \<and>
      chain_events sha fins S cs \<noteq> []"
    by (induction cs arbitrary: S) auto
  with assms show ?thesis by blast
qed

lemma ends_in_events:
  "c \<in> set cs \<Longrightarrow> EEnd (hashed sha c) \<in> set (chain_events sha fins S cs)"
  by (induction cs arbitrary: S) auto

text \<open>A flush to a writer that accepts everything has no error, and forgets no hash.\<close>

lemma flush_loop_known:
  assumes "writer_ok wr" and "flush_loop wr hs st = ((e, i), st')"
  shows "e = None \<and> (\<forall>h. ifinals st' h = None \<longleftrightarrow> ifinals st h = None)"
  using assms(2)
proof (induction hs arbitrary: st e i st')
  case (Cons h hs)
  show ?case
  proof (cases "ifinals st h")
    case (Some f)
    let ?es = "sort_key en_num (entries f)"
    let ?st = "st\<lparr>ifinals := (ifinals st)(h \<mapsto> f\<lparr>entries := ?es\<rparr>),
      iw := put_lines wr (map entry_line ?es) (iw st)\<rparr>"
    show ?thesis
    proof (cases "complete f")
      case True
      obtain e1 i1 st1 where loop: "flush_loop wr hs ?st = ((e1, i1), st1)"
        by (metis prod.exhaust)
      with Cons.prems Some True have "e1 = e" "st1 = st'"
        by (simp_all add: write_entries_ok [OF assms(1)] Let_def)
      with Cons.IH [OF loop] Some show ?thesis
        by auto
    qed (use Cons.prems Some in auto)
  qed (use Cons.prems in auto)
qed simp

lemma index_end_known:
  assumes "writer_ok wr" and "ifinals st (chunk_hash c) \<noteq> None"
    and "index_process_end wr c st = (e, st')"
  shows "e = None" and "ifinals st' h = None \<longleftrightarrow> ifinals st h = None"
proof -
  obtain st1 where st1: "index_set_complete c st = (None, st1)"
    and same: "ifinals st1 h = None \<longleftrightarrow> ifinals st h = None" for h
    using assms(2) by (cases "fnum (the (ifinals st (chunk_hash c))) = chunk_num c")
      (auto simp: index_set_complete_def)
  obtain e1 i st2 where loop: "flush_loop wr (series_sorted (iorder st1)) st1 = ((e1, i), st2)"
    by (metis prod.exhaust)
  have "e = e1" "ifinals st' = ifinals st2"
    using assms(3) st1 loop by (auto simp: index_process_end_def index_flush_def)
  with flush_loop_known [OF assms(1) loop] same
  show "e = None" "ifinals st' h = None \<longleftrightarrow> ifinals st h = None"
    by simp_all
qed

section \<open>The index of a backup\<close>

lemma piece_sel [simp]:
  "chunk_num (piece n x) = n" "data_of (piece n x) = x" "in_memory (piece n x)"
  "chunk_target_size (piece n x) = int (length x)"
  by (simp_all add: piece_def data_of_def in_memory_def)

lemma set_pieces: "set (pieces n bs) = {piece (n + int i) (bs ! i) | i. i < length bs}"
  by (auto simp: pieces_nth in_set_enumerate_eq image_iff)

lemma data_of_pieces: "data_of ` set (pieces n bs) = set bs"
  using map_data_pieces [of n bs] by (metis list.set_map)

lemma put_lines_text: "put_lines text_writer ls w = w @ concat ls"
  by (induction ls arbitrary: w) (simp_all add: put_lines_def text_writer_def)

lemma hash_at_events:
  assumes "mset cs = mset (pieces 0 bs)" and "i < length bs"
  shows "hash_at (chain_events sha fins S cs) (int i) = Some (sha (bs ! i))"
proof -
  have "map chunk_num (pieces 0 bs) = map int [0..<length bs]"
    by (simp add: map_num_pieces)
  note nums = nums_of_perm [OF assms(1) this]
  have "piece (int i) (bs ! i) \<in> set cs"
    using assms(2) by (auto simp: mset_eq_setD [OF assms(1)] set_pieces)
  then have "(int i, sha (bs ! i)) \<in> set (map (\<lambda>c. (chunk_num c, chunk_hash c)) (map (hashed sha) cs))"
    by (force simp: image_iff)
  then show ?thesis
    using nums(1) by (simp add: hash_at_def processed_events map_of_is_SomeI comp_def)
qed

lemma sort_key_map: "sort_key f (map g xs) = map g (sort_key (\<lambda>x. f (g x)) xs)"
proof -
  have "insort_key f (g x) (map g xs) = map g (insort_key (\<lambda>x. f (g x)) x xs)" for x xs
    by (induction xs) simp_all
  then show ?thesis
    by (induction xs) simp_all
qed

text \<open>
  Once every chunk of a stream has been processed, the index is the text of their entries, in the
  order of the stream: \<open>ents x\<close> are those of the final chunks made of a chunk with the data \<open>x\<close>.
\<close>

definition finals_entries :: "chunk list \<Rightarrow> (hash \<times> int) list" where
  "finals_entries fs = map (\<lambda>f. (chunk_hash f, chunk_target_size f)) (sort_key chunk_num fs)"

lemma hash_lines_finals:
  "hash_lines (\<lambda>h. map entry_of fs) h = map (\<lambda>(h, sz). index_line h sz) (finals_entries fs)"
proof -
  have "sort_key en_num (map entry_of fs) = map entry_of (sort_key chunk_num fs)"
    by (simp add: sort_key_map entry_of_def)
  then show ?thesis
    by (simp add: hash_lines_def finals_entries_def entry_line_def entry_of_def)
qed

lemma hash_lines_events:
  assumes perm: "mset cs = mset (pieces 0 bs)" and "inj_on sha (set bs)" and "x \<in> set bs"
    and ents: "\<forall>c \<in> set (pieces 0 bs). finals_entries (fins c) = ents (data_of c)"
  shows "hash_lines (reported (chain_events sha fins {} cs)
      (replicate (length (chain_events sha fins {} cs)) None)) (sha x) =
    map (\<lambda>(h, sz). index_line h sz) (ents x)"
proof -
  have cs: "set cs = set (pieces 0 bs)"
    by (rule mset_eq_setD [OF perm])
  then obtain d where "d \<in> set cs" "data_of d = x"
    using assms(3) data_of_pieces [of 0 bs] by (metis imageE)
  then have "find (\<lambda>c. sha (data_of c) = sha x) cs \<noteq> None"
    by (auto simp: find_None_iff)
  then obtain c where c: "find (\<lambda>c. sha (data_of c) = sha x) cs = Some c"
    by blast
  then have piece: "c \<in> set (pieces 0 bs)" and "sha (data_of c) = sha x"
    using cs by (auto simp: find_Some_iff)
  moreover from this have "data_of c = x"
    using inj_onD [OF assms(2), of "data_of c" x] assms(3) data_of_pieces [of 0 bs] by blast
  ultimately have "map (\<lambda>(h, sz). index_line h sz) (finals_entries (fins c)) = map (\<lambda>(h, sz). index_line h sz) (ents x)"
    using ents by simp
  moreover have "hash_lines (reported (chain_events sha fins {} cs)
      (replicate (length (chain_events sha fins {} cs)) None)) (sha x) = hash_lines (\<lambda>h. map entry_of (fins c)) (sha x)"
    by (simp add: hash_lines_def reported_events c)
  ultimately show ?thesis
    by (simp only: hash_lines_finals)
qed

lemma index_text_concat: "concat (map (\<lambda>(h, sz). index_line h sz) es) = index_text es"
  by (simp add: index_text_def)

lemma chain_index:
  assumes perm: "mset cs = mset (pieces 0 bs)" and "inj_on sha (set bs)" and "int (length bs) \<le> pos_limit"
    and ents: "\<forall>c \<in> set (pieces 0 bs). finals_entries (fins c) = ents (data_of c)"
    and run: "index_run text_writer (chain_events sha fins {} cs) (new_index []) =
      Ret (replicate (length (chain_events sha fins {} cs)) None, st)"
  shows "index_finish st = None \<and> iw st = index_text (concat (map ents bs))"
proof (cases "cs = []")
  case True
  then show ?thesis
    using perm run by (cases bs) (auto simp: new_index_def index_finish_def index_text_def series_len_def new_series_def)
next
  case False
  let ?evs = "chain_events sha fins {} cs"
  let ?es = "replicate (length ?evs) (None :: err option)"
  have "map chunk_num (pieces 0 bs) = map int [0..<length bs]"
    by (simp add: map_num_pieces)
  note nums = nums_of_perm [OF perm this]
  have range: "chunk_num ` set (processed ?evs) = {0..<int (length bs)}"
    using nums(2) by (simp add: processed_events image_image image_int_atLeastLessThan lessThan_atLeast0)
  then have "chunk_num c \<in> {0..<int (length bs)}" if "c \<in> set (processed ?evs)" for c
    using that by blast
  then have ok: "index_nums_ok ?evs"
    using nums(1) assms(3) by (fastforce simp: index_nums_ok_def processed_events comp_def)
  have ends: "\<forall>c \<in> set (processed ?evs). (EEnd c, None) \<in> set (zip ?evs ?es)"
    using ends_in_events [where sha = sha and fins = fins and S = "{}" and cs = cs]
    by (force simp: processed_events zip_replicate2 in_set_conv_nth)
  have last: "?evs \<noteq> []" "last ?evs = EEnd (hashed sha (last cs))" "last ?es = None"
    using False last_chain_events [OF False] by (cases cs; simp)+
  note all = drained [OF text_writer_ok ok run range ends last]
  have lines: "map (\<lambda>i. hash_lines (reported ?evs ?es) (the (hash_at ?evs (int i)))) [0..<length bs] =
      map (\<lambda>x. map (\<lambda>(h, sz). index_line h sz) (ents x)) bs"
    by (rule nth_equalityI)
      (simp_all add: hash_at_events [OF perm] hash_lines_events [OF perm assms(2) _ ents])
  have "concat (concat (map (\<lambda>x. map (\<lambda>(h, sz). index_line h sz) (ents x)) bs)) = index_text (concat (map ents bs))"
    by (simp add: index_text_def map_concat comp_def)
  with all show ?thesis
    unfolding lines by (simp add: put_lines_text)
qed

text \<open>The chunks of an index, by their position.\<close>

lemma length_index_chunks [simp]: "length (index_chunks n es) = length es"
  by (induction n es rule: index_chunks.induct) simp_all

lemma nth_index_chunks: "i < length es \<Longrightarrow> index_chunks n es ! i = index_chunk (n + int i) (es ! i)"
  by (induction n es arbitrary: i rule: index_chunks.induct) (auto simp: nth_Cons algebra_simps split: nat.split)

lemma index_chunks_nums: "map chunk_num (index_chunks 0 es) = map int [0..<length es]"
  by (rule nth_equalityI) (auto simp: nth_index_chunks index_chunk_def split: prod.split)

text \<open>A hash for examples: it tells short data apart.\<close>

definition ex_sha :: "bytes \<Rightarrow> hash" where
  "ex_sha x = take 32 (x @ replicate 32 0)"

end
