(* ===== verification/Copies.thy ===== *)
theory Copies
  imports Scat_Prelude
begin

text \<open>
  \<^verbatim>\<open>stores/copies/copies.go\<close>: which owners hold a copy of which hash. \<open>List\<close> returns a pointer
  into the registry, creating the list on first use, and no list is ever removed: a list is
  named by its hash, and the operations of \<open>List\<close> take the hash and the registry. Owners are
  any type \<open>'o\<close> with its \<open>Id\<close>. Maps are association lists in Go's order of iteration.
\<close>

section \<open>The registry\<close>

type_synonym ('id, 'o) owners = "('id \<times> 'o) list"
type_synonym ('id, 'o) copies_reg = "(hash \<times> ('id, 'o) owners) list"

definition new_reg :: "('id, 'o) copies_reg" where
  "new_reg = []"

definition reg_list :: "hash \<Rightarrow> ('id, 'o) copies_reg \<Rightarrow> ('id, 'o) copies_reg" where
  "reg_list h reg = (if map_of reg h = None then AList.update h [] reg else reg)"

definition list_add :: "('o \<Rightarrow> 'id) \<Rightarrow> hash \<Rightarrow> 'o \<Rightarrow> ('id, 'o) copies_reg \<Rightarrow> ('id, 'o) copies_reg" where
  "list_add oid h owner reg = AList.map_entry h (AList.update (oid owner) owner) reg"

definition list_remove :: "('o \<Rightarrow> 'id) \<Rightarrow> hash \<Rightarrow> 'o \<Rightarrow> ('id, 'o) copies_reg \<Rightarrow> ('id, 'o) copies_reg" where
  "list_remove oid h owner reg = AList.map_entry h (AList.delete (oid owner)) reg"

definition list_of :: "hash \<Rightarrow> ('id, 'o) copies_reg \<Rightarrow> ('id, 'o) owners" where
  "list_of h reg = (case map_of reg h of None \<Rightarrow> [] | Some l \<Rightarrow> l)"

definition list_contains :: "('o \<Rightarrow> 'id) \<Rightarrow> hash \<Rightarrow> 'o \<Rightarrow> ('id, 'o) copies_reg \<Rightarrow> bool" where
  "list_contains oid h owner reg \<longleftrightarrow> map_of (list_of h reg) (oid owner) \<noteq> None"

definition list_owners :: "hash \<Rightarrow> ('id, 'o) copies_reg \<Rightarrow> 'o list" where
  "list_owners h reg = map snd (list_of h reg)"

definition list_len :: "hash \<Rightarrow> ('id, 'o) copies_reg \<Rightarrow> nat" where
  "list_len h reg = length (list_of h reg)"

fun remove_from :: "('o \<Rightarrow> 'id) \<Rightarrow> 'o \<Rightarrow> hash list \<Rightarrow> ('id, 'o) copies_reg \<Rightarrow> ('id, 'o) copies_reg" where
  "remove_from oid owner [] reg = reg"
| "remove_from oid owner (h # hs) reg = remove_from oid owner hs (list_remove oid h owner reg)"

definition reg_remove_owner :: "('o \<Rightarrow> 'id) \<Rightarrow> 'o \<Rightarrow> ('id, 'o) copies_reg \<Rightarrow> ('id, 'o) copies_reg" where
  "reg_remove_owner oid owner reg = remove_from oid owner (map fst reg) reg"

section \<open>The interface of a registry\<close>

text \<open>
  What the clients rely on: \<open>track\<close> makes the list of a hash, which \<open>add\<close> needs, and an
  owner is known by its id.
\<close>

locale registry =
  fixes track :: "hash \<Rightarrow> 'g \<Rightarrow> 'g"
    and add :: "hash \<Rightarrow> 'o \<Rightarrow> 'g \<Rightarrow> 'g"
    and remove_owner :: "'o \<Rightarrow> 'g \<Rightarrow> 'g"
    and owners :: "hash \<Rightarrow> 'g \<Rightarrow> 'o list"
    and tracked :: "hash \<Rightarrow> 'g \<Rightarrow> bool"
    and ok :: "'g \<Rightarrow> bool"
    and oid :: "'o \<Rightarrow> 'id"
  assumes track_ok: "ok g \<Longrightarrow> ok (track h g)"
    and track_tracked: "tracked h' (track h g) \<longleftrightarrow> h' = h \<or> tracked h' g"
    and track_owners: "owners h' (track h g) = owners h' g"
    and add_ok: "ok g \<Longrightarrow> ok (add h ow g)"
    and add_tracked: "tracked h' (add h ow g) \<longleftrightarrow> tracked h' g"
    and add_owners: "ok g \<Longrightarrow> tracked h g \<Longrightarrow> oid ` set (owners h' (add h ow g)) =
        (if h' = h then insert (oid ow) (oid ` set (owners h' g)) else oid ` set (owners h' g))"
    and remove_ok: "ok g \<Longrightarrow> ok (remove_owner ow g)"
    and remove_owners: "ok g \<Longrightarrow>
        oid ` set (owners h (remove_owner ow g)) = oid ` set (owners h g) - {oid ow}"
    and owners_distinct: "ok g \<Longrightarrow> distinct (map oid (owners h g))"
begin

definition holders :: "hash \<Rightarrow> 'g \<Rightarrow> 'id set" where
  "holders h g = oid ` set (owners h g)"

definition record_copies :: "(hash \<times> 'o) list \<Rightarrow> 'g \<Rightarrow> 'g" where
  "record_copies cs g = fold (\<lambda>(h, ow) g. add h ow (track h g)) cs g"

text \<open>Recording copies adds exactly their owners.\<close>

lemma record_copies_holders:
  assumes "ok g"
  shows "ok (record_copies cs g) \<and>
    holders h (record_copies cs g) = holders h g \<union> {oid ow | ow. (h, ow) \<in> set cs}"
  using assms
proof (induction cs arbitrary: g)
  case Nil
  then show ?case by (simp add: record_copies_def)
next
  case (Cons x cs)
  obtain h1 ow where x: "x = (h1, ow)" by fastforce
  have "ok (add h1 ow (track h1 g))"
    using Cons.prems by (intro add_ok track_ok)
  moreover have "holders h (add h1 ow (track h1 g)) =
      (if h = h1 then insert (oid ow) (holders h g) else holders h g)"
    using Cons.prems by (simp add: holders_def add_owners track_ok track_tracked track_owners)
  ultimately show ?case
    using Cons.IH [of "add h1 ow (track h1 g)"] by (auto simp: x record_copies_def)
qed

lemma holders_card: "ok g \<Longrightarrow> card (holders h g) = length (owners h g)"
  using owners_distinct [of g h] distinct_card [of "map oid (owners h g)"] by (simp add: holders_def)

end

section \<open>The model is one\<close>

definition reg_ok :: "('o \<Rightarrow> 'id) \<Rightarrow> ('id, 'o) copies_reg \<Rightarrow> bool" where
  "reg_ok oid reg \<longleftrightarrow> distinct (map fst reg) \<and>
     (\<forall>h. distinct (map fst (list_of h reg)) \<and> (\<forall>(i, ow) \<in> set (list_of h reg). oid ow = i))"

lemma reg_ok_new [simp]: "reg_ok oid new_reg"
  by (simp add: reg_ok_def new_reg_def list_of_def)

lemma list_of_reg_list [simp]: "list_of h' (reg_list h reg) = list_of h' reg"
  by (auto simp: list_of_def reg_list_def update_conv')

lemma list_of_add: "list_of h' (list_add oid h ow reg) =
    (if h' = h \<and> map_of reg h \<noteq> None then AList.update (oid ow) ow (list_of h reg) else list_of h' reg)"
  by (auto simp: list_of_def list_add_def map_of_map_entry split: option.split)

lemma list_of_remove: "list_of h' (list_remove oid h ow reg) =
    (if h' = h then AList.delete (oid ow) (list_of h reg) else list_of h' reg)"
  by (auto simp: list_of_def list_remove_def map_of_map_entry split: option.split)

lemma list_of_remove_from:
  "list_of h (remove_from oid ow hs reg) =
     (if h \<in> set hs then AList.delete (oid ow) (list_of h reg) else list_of h reg)"
  by (induction hs arbitrary: reg) (auto simp: list_of_remove AList.delete_idem)

lemma list_of_remove_owner:
  "list_of h (reg_remove_owner oid ow reg) = AList.delete (oid ow) (list_of h reg)"
proof (cases "h \<in> fst ` set reg")
  case False
  then have "list_of h reg = []"
    using map_of_eq_None_iff [of reg h] by (simp add: list_of_def)
  with False show ?thesis
    by (simp add: reg_remove_owner_def list_of_remove_from)
qed (simp add: reg_remove_owner_def list_of_remove_from)

lemma owner_ids:
  assumes "reg_ok oid reg"
  shows "map oid (list_owners h reg) = map fst (list_of h reg)"
proof -
  have "\<forall>(i, ow) \<in> set (list_of h reg). oid ow = i"
    using assms by (simp add: reg_ok_def)
  then show ?thesis
    by (auto simp: list_owners_def)
qed

lemma reg_ok_entries:
  assumes "distinct (map fst reg')" and "\<And>h. list_of h reg' = list_of h reg \<or>
      (\<exists>ow. list_of h reg' = AList.update (oid ow) ow (list_of h reg)) \<or>
      (\<exists>i. list_of h reg' = AList.delete i (list_of h reg))"
    and "reg_ok oid reg"
  shows "reg_ok oid reg'"
proof -
  have "distinct (map fst (list_of h reg')) \<and> (\<forall>(i, ow) \<in> set (list_of h reg'). oid ow = i)" for h
  proof -
    have old: "distinct (map fst (list_of h reg))" "\<forall>(i, ow) \<in> set (list_of h reg). oid ow = i"
      using assms(3) by (auto simp: reg_ok_def)
    have "set (AList.update (oid ow) ow al) \<subseteq> insert (oid ow, ow) (set al)"
      "set (AList.delete i al) \<subseteq> set al" for ow i al
      by (induction al) auto
    with old assms(2) [of h] show ?thesis
      by (elim disjE exE) (simp_all add: distinct_update distinct_delete, blast+)
  qed
  with assms(1) show ?thesis
    by (simp add: reg_ok_def)
qed

lemma remove_from_keys: "map fst (remove_from oid ow hs reg) = map fst reg"
proof (induction hs arbitrary: reg)
  case (Cons h hs)
  have "map fst (AList.map_entry h f reg) = map fst reg" for f and reg :: "('a, 'b) copies_reg"
    by (induction reg) auto
  with Cons show ?case by (simp add: list_remove_def)
qed simp

interpretation reg: registry reg_list "list_add oid" "reg_remove_owner oid" list_owners
    "\<lambda>h reg. map_of reg h \<noteq> None" "reg_ok oid" oid
  for oid :: "'o \<Rightarrow> 'id"
proof
  fix g :: "('id, 'o) copies_reg" and h h' :: hash and ow :: 'o
  show "(map_of (reg_list h g) h' \<noteq> None) = (h' = h \<or> map_of g h' \<noteq> None)"
    by (auto simp: reg_list_def update_conv')
  show "list_owners h' (reg_list h g) = list_owners h' g"
    by (simp add: list_owners_def)
  show "(map_of (list_add oid h ow g) h' \<noteq> None) = (map_of g h' \<noteq> None)"
    by (simp add: list_add_def map_of_map_entry split: option.split)
  assume ok: "reg_ok oid g"
  then show "reg_ok oid (reg_list h g)"
    by (simp add: reg_ok_def) (simp add: reg_list_def distinct_update)
  have "distinct (map fst (list_add oid h ow g))" "distinct (map fst (reg_remove_owner oid ow g))"
    using ok by (simp_all add: list_add_def distinct_map_entry reg_ok_def reg_remove_owner_def
        remove_from_keys)
  note keys = this
  show add: "reg_ok oid (list_add oid h ow g)"
    by (rule reg_ok_entries [OF keys(1) _ ok]) (auto simp: list_of_add)
  show remove: "reg_ok oid (reg_remove_owner oid ow g)"
    by (rule reg_ok_entries [OF keys(2) _ ok]) (auto simp: list_of_remove_owner)
  have ids: "oid ` set (list_owners h reg) = fst ` set (list_of h reg)" if "reg_ok oid reg" for h reg
    using arg_cong [OF owner_ids [OF that], of set] by simp
  show "oid ` set (list_owners h (reg_remove_owner oid ow g)) = oid ` set (list_owners h g) - {oid ow}"
    using arg_cong [OF delete_keys [of "oid ow" "list_of h g"], of set]
    by (simp add: ids ok remove list_of_remove_owner)
  show "distinct (map oid (list_owners h g))"
    using ok by (simp add: owner_ids) (simp add: reg_ok_def)
  assume "map_of g h \<noteq> None"
  then show "oid ` set (list_owners h' (list_add oid h ow g)) =
      (if h' = h then insert (oid ow) (oid ` set (list_owners h' g)) else oid ` set (list_owners h' g))"
    using arg_cong [OF update_keys [of "oid ow" ow "list_of h g"], of set]
    by (auto simp: ids ok add list_of_add)
qed

end
