(* ===== verification/Stores.thy ===== *)
theory Stores
  imports Quota Copies Procs
begin

text \<open>
  \<^verbatim>\<open>stores/stores.go\<close>: copiers, the entries they list, and how the listings of several copiers
  fill a quota manager and a registry of copies. The world a copier reads and writes is \<open>'w\<close>;
  its \<open>Lister\<close> and \<open>Proc\<close> are functions of it.
\<close>

section \<open>Copiers and listings\<close>

text \<open>\<open>Size\<close> is an \<open>int64\<close>: its 64 bits, which \<open>uint64(e.Size)\<close> reads as unsigned.\<close>

record ls_entry =
  le_hash :: hash
  le_size :: "64 word"

record ('id, 'w) copier =
  cp_id :: 'id
  cp_ls :: "'w \<Rightarrow> err + ls_entry list"
  cp_process :: "'w process"
  cp_finish :: "'w \<Rightarrow> err option"

definition slice_ls :: "ls_entry list \<Rightarrow> 'w \<Rightarrow> err + ls_entry list" where
  "slice_ls es w = Inr es"

type_synonym ('id, 'w) copier_man = "('id, ('id, 'w) copier) quota_man"
type_synonym ('id, 'w) copier_reg = "('id, ('id, 'w) copier) copies_reg"

datatype ls_adder = QuotaEntryAdder | CopiesEntryAdder

definition add_ls_entry ::
  "ls_adder \<Rightarrow> ('id, 'w) copier \<Rightarrow> ls_entry \<Rightarrow> ('id, 'w) copier_man \<times> ('id, 'w) copier_reg \<Rightarrow>
   ('id, 'w) copier_man \<times> ('id, 'w) copier_reg" where
  "add_ls_entry a lser e st =
     (case st of (man, reg) \<Rightarrow>
        (case a of
           QuotaEntryAdder \<Rightarrow> (snd (man_count_use cp_id lser (le_size e) man), reg)
         | CopiesEntryAdder \<Rightarrow> (man, list_add cp_id (le_hash e) lser (reg_list (le_hash e) reg))))"

definition lister_func ::
  "ls_adder list \<Rightarrow> 'w \<Rightarrow> ('id, 'w) copier \<Rightarrow> ('id, 'w) copier_man \<times> ('id, 'w) copier_reg \<Rightarrow>
   err option \<times> ('id, 'w) copier_man \<times> ('id, 'w) copier_reg" where
  "lister_func adders w lser st =
     (case cp_ls lser w of
        Inl e \<Rightarrow> (Some e, st)
      | Inr ls \<Rightarrow> (None, fold (\<lambda>a st. fold (\<lambda>e st. add_ls_entry a lser e st) ls st) adders st))"

text \<open>
  \<open>MultiLister.AddEntriesTo\<close> runs a function per lister, each in a goroutine of its own;
  here they run one after the other, in the order given, which is any order.
\<close>

fun lister_funcs ::
  "ls_adder list \<Rightarrow> 'w \<Rightarrow> ('id, 'w) copier list \<Rightarrow> ('id, 'w) copier_man \<times> ('id, 'w) copier_reg \<Rightarrow>
   err option list \<times> ('id, 'w) copier_man \<times> ('id, 'w) copier_reg" where
  "lister_funcs adders w [] st = ([], st)"
| "lister_funcs adders w (lser # ml) st =
     (case lister_func adders w lser st of
        (e, st') \<Rightarrow> (case lister_funcs adders w ml st' of (es, st'') \<Rightarrow> (e # es, st'')))"

definition add_entries_to ::
  "ls_adder list \<Rightarrow> 'w \<Rightarrow> ('id, 'w) copier list \<Rightarrow> ('id, 'w) copier_man \<times> ('id, 'w) copier_reg \<Rightarrow>
   err option \<times> ('id, 'w) copier_man \<times> ('id, 'w) copier_reg" where
  "add_entries_to adders w ml st =
     (case lister_funcs adders w ml st of (es, st') \<Rightarrow> (concur_first_err es, st'))"

text \<open>\<open>rand.Perm\<close> gives the permutation.\<close>

definition shuffle_copiers :: "nat list \<Rightarrow> ('id, 'w) copier list \<Rightarrow> ('id, 'w) copier list" where
  "shuffle_copiers perm cps = map (\<lambda>i. cps ! i) perm"

lemma set_shuffle: "set perm = {..<length cps} \<Longrightarrow> set (shuffle_copiers perm cps) = set cps"
  using nth_image [of "length cps" cps] by (simp add: shuffle_copiers_def atLeast0LessThan)

section \<open>What the listings add up to\<close>

definition listed :: "'w \<Rightarrow> ('id, 'w) copier list \<Rightarrow> (hash \<times> ('id, 'w) copier) list" where
  "listed w ml = concat (map (\<lambda>cp. case cp_ls cp w of
     Inl _ \<Rightarrow> [] | Inr ls \<Rightarrow> map (\<lambda>e. (le_hash e, cp)) ls) ml)"

lemma fold_quota_adder: "snd (fold (\<lambda>e st. add_ls_entry QuotaEntryAdder cp e st) ls st) = snd st"
  by (induction ls arbitrary: st) (auto simp: add_ls_entry_def split: prod.splits)

lemma fold_copies_adder:
  "fold (\<lambda>e st. add_ls_entry CopiesEntryAdder cp e st) ls st =
     (fst st, reg.record_copies cp_id (map (\<lambda>e. (le_hash e, cp)) ls) (snd st))"
  by (induction ls arbitrary: st) (auto simp: add_ls_entry_def reg.record_copies_def split: prod.splits)

lemma record_copies_append:
  "reg.record_copies oid (cs @ ds) g = reg.record_copies oid ds (reg.record_copies oid cs g)"
  by (simp add: reg.record_copies_def)

text \<open>Whether the quotas are counted first, as \<open>New\<close> has it, or not at all.\<close>

lemma lister_func_reg:
  assumes "adders = [CopiesEntryAdder] \<or> adders = [QuotaEntryAdder, CopiesEntryAdder]"
  shows "snd (snd (lister_func adders w cp st)) = reg.record_copies cp_id (listed w [cp]) (snd st)"
  using assms
  by (auto simp: lister_func_def listed_def fold_copies_adder fold_quota_adder reg.record_copies_def
      split: sum.splits)

lemma lister_funcs_reg:
  assumes "adders = [CopiesEntryAdder] \<or> adders = [QuotaEntryAdder, CopiesEntryAdder]"
  shows "snd (snd (lister_funcs adders w ml st)) = reg.record_copies cp_id (listed w ml) (snd st)"
proof (induction ml arbitrary: st)
  case Nil
  then show ?case by (simp add: listed_def reg.record_copies_def)
next
  case (Cons cp ml)
  have "listed w (cp # ml) = listed w [cp] @ listed w ml"
    by (simp add: listed_def)
  with Cons show ?case
    using lister_func_reg [OF assms, of w cp st]
    by (auto simp: record_copies_append split: prod.splits) (metis snd_conv)+
qed

lemma lister_func_err:
  "fst (lister_func adders w cp st) = (case cp_ls cp w of Inl e \<Rightarrow> Some e | Inr _ \<Rightarrow> None)"
  by (auto simp: lister_func_def split: sum.splits)

lemma lister_funcs_errs:
  "fst (lister_funcs adders w ml st) =
     map (\<lambda>cp. case cp_ls cp w of Inl e \<Rightarrow> Some e | Inr _ \<Rightarrow> None) ml"
proof (induction ml arbitrary: st)
  case (Cons cp ml)
  show ?case
    using lister_func_err [of adders w cp st] Cons [of "snd (lister_func adders w cp st)"]
    by (auto split: prod.splits)
qed simp

definition lists_hash :: "'w \<Rightarrow> hash \<Rightarrow> ('id, 'w) copier \<Rightarrow> bool" where
  "lists_hash w h cp \<longleftrightarrow>
     (case cp_ls cp w of Inl _ \<Rightarrow> False | Inr ls \<Rightarrow> h \<in> le_hash ` set ls)"

definition ls_ok :: "'w \<Rightarrow> ('id, 'w) copier \<Rightarrow> bool" where
  "ls_ok w cp \<longleftrightarrow> (case cp_ls cp w of Inl _ \<Rightarrow> False | Inr _ \<Rightarrow> True)"

lemma in_listed: "(h, cp) \<in> set (listed w ml) \<longleftrightarrow> cp \<in> set ml \<and> lists_hash w h cp"
proof -
  have "(h, cp) \<in> set (case cp_ls cp' w of Inl _ \<Rightarrow> [] | Inr ls \<Rightarrow> map (\<lambda>e. (le_hash e, cp')) ls) \<longleftrightarrow>
      cp' = cp \<and> lists_hash w h cp" for cp'
    by (auto simp: lists_hash_def split: sum.splits)
  then show ?thesis
    by (auto simp: listed_def)
qed

text \<open>
  After the listings are taken in, a hash is held by exactly the copiers whose listing has
  it, and an error is returned iff a listing failed.
\<close>

lemma add_entries_holders:
  fixes ml :: "('id, 'w) copier list"
  assumes "add_entries_to [QuotaEntryAdder, CopiesEntryAdder] w ml (man, new_reg) = (e, man', reg')"
  shows "reg.holders cp_id h reg' = cp_id ` set (filter (lists_hash w h) ml) \<and>
    (e = None \<longleftrightarrow> (\<forall>cp \<in> set ml. ls_ok w cp))"
proof
  let ?r = "lister_funcs [QuotaEntryAdder, CopiesEntryAdder] w ml (man, new_reg)"
  have e: "e = concur_first_err (fst ?r)" and reg': "reg' = snd (snd ?r)"
    using assms by (auto simp: add_entries_to_def split: prod.splits)
  have "reg' = reg.record_copies cp_id (listed w ml) new_reg"
    using lister_funcs_reg [of "[QuotaEntryAdder, CopiesEntryAdder]" w ml "(man, new_reg)"] reg' by simp
  then have "reg.holders cp_id h reg' =
      reg.holders cp_id h (new_reg :: ('id, 'w) copier_reg) \<union> {cp_id cp | cp. (h, cp) \<in> set (listed w ml)}"
    using reg.record_copies_holders [where oid = cp_id and g = new_reg and cs = "listed w ml" and h = h]
    by simp
  also have "reg.holders cp_id h (new_reg :: ('id, 'w) copier_reg) = {}"
    by (simp add: reg.holders_def list_owners_def list_of_def new_reg_def)
  also have "{} \<union> {cp_id cp | cp. (h, cp) \<in> set (listed w ml)} =
      cp_id ` set (filter (lists_hash w h) ml)"
    by (auto simp: in_listed)
  finally show "reg.holders cp_id h reg' = cp_id ` set (filter (lists_hash w h) ml)" .
  show "e = None \<longleftrightarrow> (\<forall>cp \<in> set ml. ls_ok w cp)"
    by (auto simp: e concur_first_err_def lister_funcs_errs first_err_None_iff ls_ok_def split: sum.splits)
qed

definition list_copier :: "nat \<Rightarrow> hash list \<Rightarrow> (nat, unit) copier" where
  "list_copier i hs = \<lparr>cp_id = i, cp_ls = slice_ls (map (\<lambda>h. \<lparr>le_hash = h, le_size = 1\<rparr>) hs),
     cp_process = (\<lambda>c w. ([], w)), cp_finish = (\<lambda>_. None)\<rparr>"

theorem add_entries_holders_witness:
  "\<exists>e man' reg'. add_entries_to [QuotaEntryAdder, CopiesEntryAdder] ()
      [list_copier 3 [[1]], list_copier 4 [[1], [2]], list_copier 5 [[2]]] (new_man, new_reg) =
      (e, man', reg') \<and>
    reg.holders cp_id [1] reg' = {3, 4} \<and> e = None"
proof -
  obtain e man' reg' where run: "add_entries_to [QuotaEntryAdder, CopiesEntryAdder] ()
      [list_copier 3 [[1]], list_copier 4 [[1], [2]], list_copier 5 [[2]]] (new_man, new_reg) =
      (e, man', reg')"
    using prod_cases3 by blast
  have "e = None" and "reg.holders cp_id [1] reg' = {3, 4}"
    using add_entries_holders [OF run]
    by (auto simp: list_copier_def slice_ls_def lists_hash_def ls_ok_def)
  with run show ?thesis
    by auto
qed

section \<open>Stores of chunks\<close>

text \<open>
  What a backup relies on of a store, its \<open>Proc\<close> and its \<open>Unproc\<close>: what is saved under a hash,
  unless the store holds something else there, is held, under that hash only, and what is held is
  loaded.
  \<open>named\<close> says which hashes the store can name.
\<close>

definition or_given :: "chunk \<Rightarrow> err + chunk \<Rightarrow> err option \<times> chunk" where
  "or_given c r = (case r of Inl e \<Rightarrow> (Some e, c) | Inr new \<Rightarrow> (None, new))"

locale chunk_store =
  fixes save :: "chunk \<Rightarrow> 'm \<Rightarrow> ((err option \<times> chunk) \<times> 'm) outcome"
    and load :: "chunk \<Rightarrow> 'm \<Rightarrow> ((err option \<times> chunk) \<times> 'm) outcome"
    and held :: "'m \<Rightarrow> hash \<Rightarrow> bytes option"
    and named :: "hash \<Rightarrow> bool"
  assumes saves: "chunk_data c = BytesData b \<Longrightarrow> named (chunk_hash c) \<Longrightarrow> held m (chunk_hash c) \<in> {None, Some b} \<Longrightarrow>
      \<exists>m'. save c m = Ret ((None, c), m') \<and>
        (\<forall>h. named h \<longrightarrow> held m' h = (if h = chunk_hash c then Some b else held m h))"
    and loads: "held m (chunk_hash c) = Some b \<Longrightarrow>
      load c m = Ret ((None, with_data (BytesData b) c), m)"

text \<open>With a \<open>Lister\<close> that lists what is held.\<close>

locale listed_store = chunk_store save load held named
  for save :: "chunk \<Rightarrow> 'm \<Rightarrow> ((err option \<times> chunk) \<times> 'm) outcome"
    and load :: "chunk \<Rightarrow> 'm \<Rightarrow> ((err option \<times> chunk) \<times> 'm) outcome"
    and held :: "'m \<Rightarrow> hash \<Rightarrow> bytes option"
    and named :: "hash \<Rightarrow> bool" +
  fixes ls :: "'m \<Rightarrow> err + ls_entry list"
  assumes lists: "\<exists>es. ls m = Inr es \<and>
      (\<forall>h. named h \<longrightarrow> (h \<in> le_hash ` set es \<longleftrightarrow> held m h \<noteq> None))"

end
