(* ===== verification/Mem_Store.thy ===== *)
theory Mem_Store
  imports Stores
begin

text \<open>
  \<^verbatim>\<open>stores/mem.go\<close>: a store that keeps the data in a map, and the interface of a store of
  blobs it implements. A read-once data that is read a second time panics.
\<close>

section \<open>The interface of a blob store\<close>

locale blob_store =
  fixes put :: "hash \<Rightarrow> bytes \<Rightarrow> 'm \<Rightarrow> 'm"
    and del :: "hash \<Rightarrow> 'm \<Rightarrow> 'm"
    and lookup :: "hash \<Rightarrow> 'm \<Rightarrow> bytes option"
    and listing :: "'m \<Rightarrow> ls_entry list"
    and ok :: "'m \<Rightarrow> bool"
  assumes put_ok: "ok m \<Longrightarrow> ok (put h b m)"
    and del_ok: "ok m \<Longrightarrow> ok (del h m)"
    and lookup_put: "ok m \<Longrightarrow> lookup h' (put h b m) = (if h' = h then Some b else lookup h' m)"
    and lookup_del: "ok m \<Longrightarrow> lookup h' (del h m) = (if h' = h then None else lookup h' m)"
    and listing_iff: "ok m \<Longrightarrow> e \<in> set (listing m) \<longleftrightarrow>
        (\<exists>b. lookup (le_hash e) m = Some b \<and> le_size e = word_of_nat (length b))"
begin

definition puts :: "(hash \<times> bytes) list \<Rightarrow> 'm \<Rightarrow> 'm" where
  "puts kvs m = fold (\<lambda>(h, b). put h b) kvs m"

lemma puts_ok: "ok m \<Longrightarrow> ok (puts kvs m)"
  unfolding puts_def by (induction kvs arbitrary: m) (auto simp: put_ok)

text \<open>The last blob put under a hash is the one found.\<close>

lemma lookup_puts: "ok m \<Longrightarrow> lookup h (puts kvs m) =
    (case map_of (rev kvs) h of None \<Rightarrow> lookup h m | Some b \<Rightarrow> Some b)"
  unfolding puts_def
proof (induction kvs arbitrary: m)
  case (Cons kv kvs)
  obtain k v where kv: "kv = (k, v)" by fastforce
  show ?case
    using Cons.IH [of "put k v m"] Cons.prems
    by (auto simp: kv put_ok lookup_put map_add_def split: option.split)
qed simp

lemma listing_puts:
  assumes "ok m" and "distinct (map fst kvs)" and "listing m = []"
  shows "le_hash ` set (listing (puts kvs m)) = fst ` set kvs"
proof -
  have empty: "lookup h m = None" for h
  proof (cases "lookup h m")
    case (Some b)
    then have "\<lparr>le_hash = h, le_size = word_of_nat (length b)\<rparr> \<in> set (listing m)"
      using listing_iff [OF assms(1)] by simp
    with assms(3) show ?thesis by simp
  qed
  have dom: "lookup h (puts kvs m) \<noteq> None \<longleftrightarrow> h \<in> fst ` set kvs" for h
    using lookup_puts [OF assms(1), of h kvs] empty map_of_eq_None_iff [of "rev kvs" h]
    by (auto split: option.splits)
  have listed: "h \<in> le_hash ` set (listing (puts kvs m)) \<longleftrightarrow> lookup h (puts kvs m) \<noteq> None" for h
  proof
    assume "lookup h (puts kvs m) \<noteq> None"
    then obtain b where "lookup h (puts kvs m) = Some b" by auto
    then have "\<lparr>le_hash = h, le_size = word_of_nat (length b)\<rparr> \<in> set (listing (puts kvs m))"
      by (simp add: listing_iff puts_ok assms(1))
    then show "h \<in> le_hash ` set (listing (puts kvs m))" by force
  qed (auto simp: listing_iff puts_ok assms(1))
  show ?thesis
    by (rule set_eqI) (simp only: listed dom)
qed

end

section \<open>The memory store\<close>

type_synonym mem = "(hash \<times> bytes) list"

definition new_mem :: mem where
  "new_mem = []"

definition mem_set :: "hash \<Rightarrow> bytes \<Rightarrow> mem \<Rightarrow> mem" where
  "mem_set h b m = AList.update h b m"

definition mem_get :: "hash \<Rightarrow> mem \<Rightarrow> bytes option" where
  "mem_get h m = map_of m h"

definition mem_delete :: "hash \<Rightarrow> mem \<Rightarrow> mem" where
  "mem_delete h m = AList.delete h m"

definition mem_hashes :: "mem \<Rightarrow> hash list" where
  "mem_hashes m = map fst m"

definition mem_ls :: "mem \<Rightarrow> err + ls_entry list" where
  "mem_ls m = Inr (map (\<lambda>(h, b). \<lparr>le_hash = h, le_size = word_of_nat (length b)\<rparr>) m)"

definition mem_process :: "chunk \<Rightarrow> mem \<Rightarrow> ((err option \<times> chunk) \<times> mem) outcome" where
  "mem_process c m =
     bind_outcome (data_bytes (chunk_data c)) (\<lambda>((b, e), d).
       case e of
         Some e \<Rightarrow> Ret ((Some e, mark_read d c), m)
       | None \<Rightarrow> Ret ((None, mark_read d c), mem_set (chunk_hash c) b m))"

definition mem_proc :: "chunk \<Rightarrow> mem \<Rightarrow> (res list \<times> mem) outcome" where
  "mem_proc c m = bind_outcome (mem_process c m) (\<lambda>r. Ret (inplace_func (\<lambda>_ _. r) c m))"

definition mem_unprocess :: "chunk \<Rightarrow> mem \<Rightarrow> (err + chunk) \<times> mem" where
  "mem_unprocess c m =
     (case map_of m (chunk_hash c) of
        None \<Rightarrow> (Inl (MissingDataError (ErrText ''no stored data'')), m)
      | Some b \<Rightarrow> (Inr (with_data (BytesData b) c), m))"

definition mem_unproc :: "mem process" where
  "mem_unproc = chunk_func mem_unprocess"

definition mem_ok :: "mem \<Rightarrow> bool" where
  "mem_ok m \<longleftrightarrow> distinct (map fst m)"

definition mem_listing :: "mem \<Rightarrow> ls_entry list" where
  "mem_listing m = (case mem_ls m of Inl _ \<Rightarrow> [] | Inr es \<Rightarrow> es)"

interpretation mem: blob_store mem_set mem_delete mem_get mem_listing mem_ok
proof
  fix m :: mem and h h' :: hash and b :: bytes and e :: ls_entry
  assume ok: "mem_ok m"
  show "mem_ok (mem_set h b m)" "mem_ok (mem_delete h m)"
    using ok by (simp_all add: mem_ok_def mem_set_def mem_delete_def distinct_update distinct_delete)
  show "mem_get h' (mem_set h b m) = (if h' = h then Some b else mem_get h' m)"
    by (simp add: mem_get_def mem_set_def update_conv')
  show "mem_get h' (mem_delete h m) = (if h' = h then None else mem_get h' m)"
    by (simp add: mem_get_def mem_delete_def AList.delete_conv')
  show "e \<in> set (mem_listing m) \<longleftrightarrow>
      (\<exists>b. mem_get (le_hash e) m = Some b \<and> le_size e = word_of_nat (length b))"
    using ok by (cases e) (auto simp: mem_ok_def mem_listing_def mem_ls_def mem_get_def)
qed

definition mem_load :: "chunk \<Rightarrow> mem \<Rightarrow> ((err option \<times> chunk) \<times> mem) outcome" where
  "mem_load c m = (case mem_unprocess c m of (r, m) \<Rightarrow> Ret (or_given c r, m))"

interpretation mem: listed_store mem_process mem_load "\<lambda>m h. mem_get h m" "\<lambda>_. True" mem_ls
proof
  fix c :: chunk and b and m :: mem
  show "\<exists>m'. mem_process c m = Ret ((None, c), m') \<and>
      (\<forall>h. True \<longrightarrow> mem_get h m' = (if h = chunk_hash c then Some b else mem_get h m))"
    if "chunk_data c = BytesData b"
    using that by (simp add: mem_process_def data_bytes_def mark_read_same mem_get_def mem_set_def update_conv')
  show "mem_load c m = Ret ((None, with_data (BytesData b) c), m)" if "mem_get (chunk_hash c) m = Some b"
    using that by (simp add: mem_load_def mem_unprocess_def mem_get_def or_given_def)
  have "h \<in> fst ` set m \<longleftrightarrow> map_of m h \<noteq> None" for h
    by (simp add: map_of_eq_None_iff)
  then show "\<exists>es. mem_ls m = Inr es \<and>
      (\<forall>h. True \<longrightarrow> (h \<in> le_hash ` set es \<longleftrightarrow> mem_get h m \<noteq> None))"
    by (simp add: mem_ls_def mem_get_def image_image split_beta)
qed

section \<open>Properties\<close>

end
