(* ===== verification/Dir_Store.thy ===== *)
theory Dir_Store
  imports Scanning Stores
begin

text \<open>
  \<^verbatim>\<open>stores/strpart.go\<close>, \<^verbatim>\<open>stores/dir.go\<close> and \<^verbatim>\<open>stores/cp.go\<close>: where a store of files keeps the
  data of a hash, how it reads its listing back, and the store of local files.
\<close>

section \<open>Paths\<close>

text \<open>\<open>StrPart.Split\<close>; a negative part slices out of range.\<close>

fun str_part_split :: "int list \<Rightarrow> string \<Rightarrow> nat \<Rightarrow> string list outcome" where
  "str_part_split [] str offset = Ret []"
| "str_part_split (n # part) str offset =
     (let left = int (length str - offset);
          n' = (if n > left then left else n)
      in if n' < 0 then Panic ''slice bounds out of range''
         else bind_outcome (str_part_split part str (offset + nat n'))
                (\<lambda>parts. Ret (take (nat n') (drop offset str) # parts)))"

text \<open>\<open>path/filepath.Clean\<close> on a Unix system, over the elements between the slashes.\<close>

fun split_slash :: "string \<Rightarrow> string list" where
  "split_slash [] = [[]]"
| "split_slash (c # cs) =
     (if c = CHR ''/'' then [] # split_slash cs
      else (case split_slash cs of [] \<Rightarrow> [[c]] | e # es \<Rightarrow> (c # e) # es))"

fun join_slash :: "string list \<Rightarrow> string" where
  "join_slash [] = []"
| "join_slash [e] = e"
| "join_slash (e # es) = e @ CHR ''/'' # join_slash es"

fun clean_elems :: "bool \<Rightarrow> string list \<Rightarrow> string list \<Rightarrow> string list" where
  "clean_elems rooted out [] = out"
| "clean_elems rooted out (e # es) =
     (if e = [] \<or> e = ''.'' then clean_elems rooted out es
      else if e = ''..'' then
        (if out \<noteq> [] \<and> last out \<noteq> ''..'' then clean_elems rooted (butlast out) es
         else if rooted then clean_elems rooted out es
         else clean_elems rooted (out @ [e]) es)
      else clean_elems rooted (out @ [e]) es)"

definition path_clean :: "string \<Rightarrow> string" where
  "path_clean p =
     (if p = [] then ''.''
      else (let rooted = (hd p = CHR ''/''); es = clean_elems rooted [] (split_slash p)
            in if rooted then CHR ''/'' # join_slash es
               else if es = [] then ''.'' else join_slash es))"

text \<open>\<open>filepath.Join\<close>: leading empty elements are left out.\<close>

definition path_join :: "string list \<Rightarrow> string" where
  "path_join es =
     (case dropWhile (\<lambda>e. e = []) es of [] \<Rightarrow> [] | es' \<Rightarrow> path_clean (join_slash es'))"

record dir =
  dir_path :: string
  dir_part :: "int list"

definition full_path :: "dir \<Rightarrow> hash \<Rightarrow> string outcome" where
  "full_path d hash =
     (let filename = hex_string hash in
      bind_outcome (str_part_split (dir_part d) filename 0)
        (\<lambda>parts. Ret (path_join (([dir_path d] @ parts) @ [filename]))))"

section \<open>Listings\<close>

record dir_ls_res =
  dl_name :: string
  dl_size :: "64 word"
  dl_err :: "err option"

text \<open>\<open>collect\<close>: names that do not scan as a hash are left out; an error ends it.\<close>

fun dir_collect :: "dir_ls_res list \<Rightarrow> ls_entry list \<times> err option" where
  "dir_collect [] = ([], None)"
| "dir_collect (r # rs) =
     (case dl_err r of
        Some e \<Rightarrow> ([], Some e)
      | None \<Rightarrow>
          (case scan_hex (dl_name r) of
             Inl _ \<Rightarrow> dir_collect rs
           | Inr (buf, _) \<Rightarrow>
               (case load_slice buf of
                  Inl _ \<Rightarrow> dir_collect rs
                | Inr h \<Rightarrow>
                    (case dir_collect rs of
                       (es, e) \<Rightarrow> (\<lparr>le_hash = h, le_size = dl_size r\<rparr> # es, e)))))"

definition dir_ls :: "(string \<Rightarrow> nat \<Rightarrow> dir_ls_res list) \<Rightarrow> dir \<Rightarrow> ls_entry list \<times> err option" where
  "dir_ls lser d = dir_collect (lser (dir_path d) (length (dir_part d) + 1))"

section \<open>Local files\<close>

text \<open>
  A file system as far as \<open>Cp\<close> sees it: files by path, and the directories that exist. Opening
  with \<open>O_WRONLY|O_CREATE\<close> creates a missing file if its directory exists, and leaves the content of
  an existing one: writing replaces its first bytes.
\<close>

record fs =
  fs_files :: "(string \<times> bytes) list"
  fs_dirs :: "string list"

datatype open_err = NotExist

definition path_dir :: "string \<Rightarrow> string" where
  "path_dir p = path_clean (concat (map (\<lambda>e. e @ ''/'') (butlast (split_slash p))))"

definition open_create :: "string \<Rightarrow> fs \<Rightarrow> open_err option \<times> fs" where
  "open_create p f =
     (if map_of (fs_files f) p \<noteq> None then (None, f)
      else if path_dir p \<in> set (fs_dirs f) then (None, f\<lparr>fs_files := AList.update p [] (fs_files f)\<rparr>)
      else (Some NotExist, f))"

definition mkdir_all :: "string \<Rightarrow> fs \<Rightarrow> fs" where
  "mkdir_all p f = f\<lparr>fs_dirs := List.insert p (fs_dirs f)\<rparr>"

definition fs_write :: "string \<Rightarrow> bytes \<Rightarrow> fs \<Rightarrow> fs" where
  "fs_write p b f =
     (case map_of (fs_files f) p of
        None \<Rightarrow> f
      | Some old \<Rightarrow> f\<lparr>fs_files := AList.update p (b @ drop (length b) old) (fs_files f)\<rparr>)"

definition cp_proc :: "dir \<Rightarrow> chunk \<Rightarrow> fs \<Rightarrow> ((err option \<times> chunk) \<times> fs) outcome" where
  "cp_proc d c f =
     bind_outcome (full_path d (chunk_hash c)) (\<lambda>path.
       let (e, f1) = (case open_create path f of
                        (Some NotExist, f1) \<Rightarrow> open_create path (mkdir_all (path_dir path) f1)
                      | r \<Rightarrow> r)
       in case e of
            Some _ \<Rightarrow> Ret ((Some (ErrText ''file does not exist''), c), f1)
          | None \<Rightarrow>
              bind_outcome (data_reader (chunk_data c)) (\<lambda>((b, e), dat).
                Ret ((e, mark_read dat c), fs_write path b f1)))"

definition cp_unprocess :: "dir \<Rightarrow> chunk \<Rightarrow> fs \<Rightarrow> (err + chunk) outcome" where
  "cp_unprocess d c f =
     bind_outcome (full_path d (chunk_hash c)) (\<lambda>path.
       Ret (case map_of (fs_files f) path of
              None \<Rightarrow> Inl (MissingDataError (ErrText ''file does not exist''))
            | Some b \<Rightarrow> Inr (with_data (BytesData b) c)))"

text \<open>
  \<open>localLister\<close>: the files at a depth below a directory. \<open>filepath.Glob\<close> and \<open>os.Stat\<close> are
  parameters; the latter tells a directory from a file and gives the size.
\<close>

definition depth_pattern :: "string \<Rightarrow> nat \<Rightarrow> string" where
  "depth_pattern path depth = path_join (path # replicate depth ''*'')"

fun local_entries :: "(string \<Rightarrow> err + bool \<times> 64 word) \<Rightarrow> string list \<Rightarrow> dir_ls_res list" where
  "local_entries stat [] = []"
| "local_entries stat (path # files) =
     (case stat path of
        Inl e \<Rightarrow> [\<lparr>dl_name = [], dl_size = 0, dl_err = Some e\<rparr>]
      | Inr (is_dir, sz) \<Rightarrow>
          if is_dir then local_entries stat files
          else \<lparr>dl_name = last (split_slash path), dl_size = sz, dl_err = None\<rparr> # local_entries stat files)"

definition local_lister ::
  "(string \<Rightarrow> err + bool \<times> 64 word) \<Rightarrow> (string \<Rightarrow> err + string list) \<Rightarrow> string \<Rightarrow> nat \<Rightarrow> dir_ls_res list" where
  "local_lister stat glob dir depth =
     (case stat dir of
        Inl e \<Rightarrow> [\<lparr>dl_name = [], dl_size = 0, dl_err = Some e\<rparr>]
      | Inr _ \<Rightarrow>
          (case glob (depth_pattern dir depth) of
             Inl e \<Rightarrow> [\<lparr>dl_name = [], dl_size = 0, dl_err = Some e\<rparr>]
           | Inr files \<Rightarrow> local_entries stat files))"

definition cp_store_ls ::
  "(string \<Rightarrow> err + bool \<times> 64 word) \<Rightarrow> (string \<Rightarrow> err + string list) \<Rightarrow> dir \<Rightarrow> ls_entry list \<times> err option" where
  "cp_store_ls stat glob d = dir_ls (local_lister stat glob) d"

section \<open>Where a path ends\<close>

lemma split_slash_ne: "split_slash s \<noteq> []"
  by (induction s) (auto split: list.splits)

lemma split_slash_plain: "CHR ''/'' \<notin> set s \<Longrightarrow> split_slash s = [s]"
  by (induction s) auto

lemma split_slash_append: "split_slash (a @ CHR ''/'' # b) = split_slash a @ split_slash b"
proof (induction a)
  case (Cons c a)
  then show ?case
    using split_slash_ne [of a] by (auto split: list.splits)
qed simp

lemma join_slash_snoc: "join_slash (es @ [e]) = (if es = [] then e else join_slash es @ CHR ''/'' # e)"
  by (induction es rule: join_slash.induct) auto

lemma clean_elems_snoc:
  "f \<noteq> [] \<Longrightarrow> f \<noteq> ''.'' \<Longrightarrow> f \<noteq> ''..'' \<Longrightarrow>
     clean_elems r out (es @ [f]) = clean_elems r out es @ [f]"
  by (induction es arbitrary: out) auto

definition plain_name :: "string \<Rightarrow> bool" where
  "plain_name f \<longleftrightarrow> f \<noteq> [] \<and> f \<noteq> ''.'' \<and> f \<noteq> ''..'' \<and> CHR ''/'' \<notin> set f"

lemma path_join_last:
  assumes "plain_name f"
  shows "path_join (es @ [f]) = f \<or> (\<exists>pre. path_join (es @ [f]) = pre @ CHR ''/'' # f)"
proof -
  have f: "f \<noteq> []" "f \<noteq> ''.''" "f \<noteq> ''..''" "CHR ''/'' \<notin> set f"
    using assms by (simp_all add: plain_name_def)
  define ds where "ds = dropWhile (\<lambda>e. e = []) es"
  have drop: "dropWhile (\<lambda>e. e = []) (es @ [f]) = ds @ [f]"
    using f(1) dropWhile_append3 [of "\<lambda>e. e = []" f es "[]"] by (simp add: ds_def)
  let ?p = "join_slash (ds @ [f])"
  have "\<exists>xs. split_slash ?p = xs @ [f]"
    using f(4) by (auto simp: join_slash_snoc split_slash_append split_slash_plain)
  then obtain xs where "split_slash ?p = xs @ [f]" ..
  then have "clean_elems r [] (split_slash ?p) = clean_elems r [] xs @ [f]" for r
    using f(1-3) by (simp add: clean_elems_snoc)
  moreover have "?p \<noteq> []"
    using f(1) by (simp add: join_slash_snoc)
  ultimately have "\<exists>ys. path_clean ?p = (if hd ?p = CHR ''/'' then CHR ''/'' # join_slash (ys @ [f])
      else join_slash (ys @ [f]))"
    by (auto simp: path_clean_def Let_def)
  moreover have "join_slash (ys @ [f]) = f \<or> (\<exists>pre. join_slash (ys @ [f]) = pre @ CHR ''/'' # f)" for ys
    by (auto simp: join_slash_snoc)
  ultimately have "path_clean ?p = f \<or> (\<exists>pre. path_clean ?p = pre @ CHR ''/'' # f)"
    by (metis append_Cons append_Nil)
  then show ?thesis
    by (cases "ds @ [f]") (simp_all add: path_join_def drop)
qed

lemma path_join_ends:
  assumes "plain_name f"
  shows "\<exists>pre. path_join (es @ [f]) = pre @ f"
  using path_join_last [OF assms, of es] by (metis append.left_neutral append.assoc append_Cons)

lemma hex_string_plain:
  assumes "bs \<noteq> []"
  shows "plain_name (hex_string bs)"
proof -
  have "\<forall>n \<in> set [0..<16]. hex_digit n \<noteq> CHR ''/'' \<and> hex_digit n \<noteq> CHR ''.''"
    by code_simp
  then have digit: "hex_digit n \<noteq> CHR ''/''" "hex_digit n \<noteq> CHR ''.''" if "n < 16" for n
    using that by simp_all
  have "set (hex_byte b) \<inter> {CHR ''/'', CHR ''.''} = {}" for b
    using digit byte_digits [of b] by (auto simp: hex_byte_def)
  then have "set (hex_string bs) \<inter> {CHR ''/'', CHR ''.''} = {}"
    unfolding hex_string_def by fastforce
  moreover have "hex_string bs \<noteq> []"
    using assms length_hex_string [of bs] by auto
  ultimately show ?thesis
    by (auto simp: plain_name_def)
qed

lemma full_path_ends:
  assumes "full_path d h = Ret p" and "h \<noteq> []"
  shows "\<exists>pre. p = pre @ hex_string h"
  using assms(1) path_join_ends [OF hex_string_plain [OF assms(2)]]
  by (auto simp: full_path_def Let_def bind_outcome_Ret_iff simp flip: append_Cons append_assoc)

lemma full_path_hash:
  assumes "full_path d h = Ret p" and "full_path d h' = Ret p" and "length h = 32" and "length h' = 32"
  shows "h = h'"
proof -
  have "h \<noteq> []" "h' \<noteq> []"
    using assms(3,4) by auto
  with full_path_ends [OF assms(1)] full_path_ends [OF assms(2)] obtain pre pre' where
    "pre @ hex_string h = pre' @ hex_string h'" by auto
  then have "hex_string h = hex_string h'"
    using assms(3,4) by (simp add: append_eq_append_conv length_hex_string)
  then show ?thesis
    by (rule hex_string_inj)
qed

section \<open>What a local file holds\<close>

lemma open_create_file:
  "open_create p f = (None, f1) \<Longrightarrow>
     map_of (fs_files f1) = (map_of (fs_files f))(p \<mapsto> (case map_of (fs_files f) p of None \<Rightarrow> [] | Some b \<Rightarrow> b))"
  by (auto simp: open_create_def update_conv' split: if_splits)

lemma mkdir_all_open: "\<exists>f1. open_create p (mkdir_all (path_dir p) f) = (None, f1)"
  by (simp add: open_create_def mkdir_all_def)

lemma cp_proc_ok:
  assumes "chunk_data c = BytesData b" and "full_path d (chunk_hash c) = Ret p"
  shows "\<exists>f'. cp_proc d c f = Ret ((None, c), f')"
proof -
  have c: "mark_read (BytesData b) c = c"
    using assms(1) by (cases c) simp
  obtain f1 where f1: "open_create p (mkdir_all (path_dir p) (snd (open_create p f))) = (None, f1)"
    using mkdir_all_open by blast
  show ?thesis
    using assms c f1 by (cases "open_create p f"; cases "fst (open_create p f)")
      (simp_all add: cp_proc_def data_reader_def Let_def split: open_err.split)
qed

lemma cp_proc_files:
  assumes "cp_proc d c f = Ret ((e, c'), f')"
  obtains p b dat where "full_path d (chunk_hash c) = Ret p" "data_reader (chunk_data c) = Ret ((b, e), dat)"
    "map_of (fs_files f') = (map_of (fs_files f))(p \<mapsto>
       b @ drop (length b) (case map_of (fs_files f) p of None \<Rightarrow> [] | Some old \<Rightarrow> old))"
proof -
  from assms obtain p where p: "full_path d (chunk_hash c) = Ret p"
    by (auto simp: cp_proc_def bind_outcome_Ret_iff)
  obtain f1 where opened: "(case open_create p f of
      (Some NotExist, f1) \<Rightarrow> open_create p (mkdir_all (path_dir p) f1) | r \<Rightarrow> r) = (None, f1)"
    and files: "map_of (fs_files f1) = (map_of (fs_files f))(p \<mapsto>
      (case map_of (fs_files f) p of None \<Rightarrow> [] | Some b \<Rightarrow> b))"
  proof (cases "open_create p f")
    case (Pair e f1)
    show ?thesis
    proof (cases e)
      case None
      with Pair open_create_file [of p f f1] show ?thesis
        by (intro that [of f1]) simp_all
    next
      case (Some x)
      then have same: "f1 = f"
        using Pair by (auto simp: open_create_def split: if_splits)
      obtain f2 where f2: "open_create p (mkdir_all (path_dir p) f) = (None, f2)"
        using mkdir_all_open by blast
      have "fs_files (mkdir_all (path_dir p) f) = fs_files f"
        by (simp add: mkdir_all_def)
      with open_create_file [OF f2] Pair Some same f2 show ?thesis
        by (intro that [of f2]) (cases x; simp)+
    qed
  qed
  from assms obtain b dat where b: "data_reader (chunk_data c) = Ret ((b, e), dat)"
    and f': "f' = fs_write p b f1"
    by (auto simp: cp_proc_def bind_outcome_Ret_iff p opened)
  have "map_of (fs_files f1) p = Some (case map_of (fs_files f) p of None \<Rightarrow> [] | Some b \<Rightarrow> b)"
    by (simp add: files)
  then have "map_of (fs_files f') = (map_of (fs_files f))(p \<mapsto>
      b @ drop (length b) (case map_of (fs_files f) p of None \<Rightarrow> [] | Some old \<Rightarrow> old))"
    by (simp add: f' fs_write_def update_conv' files)
  with p b show ?thesis
    by (rule that)
qed

text \<open>As a store of chunks: a hash is named if the parts of its name can be cut.\<close>

definition cp_load :: "dir \<Rightarrow> chunk \<Rightarrow> fs \<Rightarrow> ((err option \<times> chunk) \<times> fs) outcome" where
  "cp_load d c f = bind_outcome (cp_unprocess d c f) (\<lambda>r. Ret (or_given c r, f))"

definition cp_held :: "dir \<Rightarrow> fs \<Rightarrow> hash \<Rightarrow> bytes option" where
  "cp_held d f h = (case full_path d h of Ret p \<Rightarrow> map_of (fs_files f) p | Panic _ \<Rightarrow> None)"

definition cp_named :: "dir \<Rightarrow> hash \<Rightarrow> bool" where
  "cp_named d h \<longleftrightarrow> length h = 32 \<and> returns (full_path d h)"

lemma cp_named_parts:
  assumes "\<forall>n \<in> set (dir_part d). 0 \<le> n" and "length h = 32"
  shows "cp_named d h"
proof -
  have "returns (str_part_split part str offset)"
    if "\<forall>n \<in> set part. 0 \<le> n" "offset \<le> length str" for part str offset
    using that
  proof (induction part arbitrary: offset)
    case (Cons n part)
    let ?n = "if int (length str - offset) < n then int (length str - offset) else n"
    have n: "0 \<le> ?n" "nat ?n \<le> length str - offset"
      using Cons.prems(1) by (auto simp: nat_le_iff)
    have "returns (str_part_split part str (offset + nat ?n))"
      using Cons.prems n(2) by (intro Cons.IH) (simp, linarith)
    then obtain parts where "str_part_split part str (offset + nat ?n) = Ret parts"
      by (cases "str_part_split part str (offset + nat ?n)") simp_all
    moreover have "\<not> ?n < 0"
      using n(1) by linarith
    ultimately show ?case
      by (simp only: str_part_split.simps Let_def if_False bind_outcome.simps returns.simps)
  qed simp
  from this [OF assms(1), of 0 "hex_string h"] assms(2) show ?thesis
    by (cases "str_part_split (dir_part d) (hex_string h) 0")
      (simp_all add: cp_named_def full_path_def Let_def)
qed

interpretation cp: chunk_store "cp_proc d" "cp_load d" "cp_held d" "cp_named d"
proof
  fix c :: chunk and b and f :: fs
  show "\<exists>f'. cp_proc d c f = Ret ((None, c), f') \<and>
      (\<forall>h. cp_named d h \<longrightarrow> cp_held d f' h = (if h = chunk_hash c then Some b else cp_held d f h))"
    if b: "chunk_data c = BytesData b" and c: "cp_named d (chunk_hash c)"
      and free: "cp_held d f (chunk_hash c) \<in> {None, Some b}"
  proof -
    obtain p where p: "full_path d (chunk_hash c) = Ret p"
      using c by (cases "full_path d (chunk_hash c)") (simp_all add: cp_named_def)
    obtain f' where run: "cp_proc d c f = Ret ((None, c), f')"
      using cp_proc_ok [OF b p, of f] by blast
    have none: "map_of (fs_files f) p \<in> {None, Some b}"
      using free p by (simp add: cp_held_def)
    obtain p2 b2 dat where p2: "full_path d (chunk_hash c) = Ret p2"
      "data_reader (chunk_data c) = Ret ((b2, None), dat)"
      "map_of (fs_files f') = (map_of (fs_files f))(p2 \<mapsto>
         b2 @ drop (length b2) (case map_of (fs_files f) p2 of None \<Rightarrow> [] | Some old \<Rightarrow> old))"
      by (rule cp_proc_files [OF run])
    have "p2 = p" "b2 = b"
      using p p2(1,2) b by (simp_all add: data_reader_def)
    then have files: "map_of (fs_files f') = (map_of (fs_files f))(p \<mapsto> b)"
      using p2(3) none by auto
    have "cp_held d f' h = (if h = chunk_hash c then Some b else cp_held d f h)" if "cp_named d h" for h
    proof (cases "h = chunk_hash c")
      case False
      obtain q where "full_path d h = Ret q"
        using \<open>cp_named d h\<close> by (cases "full_path d h") (simp_all add: cp_named_def)
      moreover from this have "q \<noteq> p"
        using full_path_hash [OF _ p] \<open>cp_named d h\<close> c False by (auto simp: cp_named_def)
      ultimately show ?thesis
        using False by (simp add: cp_held_def files)
    qed (simp add: cp_held_def files p)
    with run show ?thesis by blast
  qed
  show "cp_load d c f = Ret ((None, with_data (BytesData b) c), f)" if "cp_held d f (chunk_hash c) = Some b"
    using that by (auto simp: cp_load_def cp_unprocess_def cp_held_def or_given_def split: outcome.splits)
qed

section \<open>Properties\<close>

text \<open>
  C21: storing a chunk replaces the first bytes of the file of its hash and keeps what an older,
  longer file had after them, so that the chunk comes back as stored only if the file was no
  longer than the data; the chunks of other hashes come back as before.
\<close>

theorem cp_store_overwrites:
  assumes "cp_proc d c f = Ret ((None, c'), f')" and "length (chunk_hash c) = 32"
  shows "\<exists>b dat p. data_reader (chunk_data c) = Ret ((b, None), dat) \<and>
    full_path d (chunk_hash c) = Ret p \<and>
    (\<forall>c2. chunk_hash c2 = chunk_hash c \<longrightarrow>
       cp_unprocess d c2 f' = Ret (Inr (with_data (BytesData (b @ drop (length b)
         (case map_of (fs_files f) p of None \<Rightarrow> [] | Some old \<Rightarrow> old))) c2))) \<and>
    (\<forall>c2. chunk_hash c2 \<noteq> chunk_hash c \<longrightarrow> length (chunk_hash c2) = 32 \<longrightarrow>
       cp_unprocess d c2 f' = cp_unprocess d c2 f)"
proof -
  from assms(1) obtain p b dat where p: "full_path d (chunk_hash c) = Ret p"
    and b: "data_reader (chunk_data c) = Ret ((b, None), dat)"
    and files: "map_of (fs_files f') = (map_of (fs_files f))(p \<mapsto>
       b @ drop (length b) (case map_of (fs_files f) p of None \<Rightarrow> [] | Some old \<Rightarrow> old))"
    by (rule cp_proc_files)
  have "cp_unprocess d c2 f' = cp_unprocess d c2 f"
    if "chunk_hash c2 \<noteq> chunk_hash c" "length (chunk_hash c2) = 32" for c2
  proof (cases "full_path d (chunk_hash c2)")
    case (Ret p2)
    with full_path_hash [OF _ p] that assms(2) have "p2 \<noteq> p" by blast
    with Ret show ?thesis
      by (simp add: cp_unprocess_def files)
  qed (simp add: cp_unprocess_def)
  then show ?thesis
    using p b by (intro exI [of _ b] exI [of _ dat] exI [of _ p]) (simp add: cp_unprocess_def files)
qed

definition ex_fs :: fs where
  "ex_fs = \<lparr>fs_files = [], fs_dirs = [''d'']\<rparr>"

theorem cp_store_overwrites_witness:
  "\<exists>c' f'. cp_proc \<lparr>dir_path = ''d'', dir_part = []\<rparr> (new_chunk 0 (Some (BytesData [1, 2]))) ex_fs =
      Ret ((None, c'), f') \<and>
    cp_unprocess \<lparr>dir_path = ''d'', dir_part = []\<rparr> (new_chunk 3 None) f' =
      Ret (Inr (with_data (BytesData [1, 2]) (new_chunk 3 None)))"
proof -
  let ?d = "\<lparr>dir_path = ''d'', dir_part = []\<rparr>" and ?c = "new_chunk 0 (Some (BytesData [1, 2]))"
  obtain p where p: "full_path ?d (chunk_hash ?c) = Ret p"
    by (simp add: full_path_def)
  have "\<exists>c' f'. cp_proc ?d ?c ex_fs = Ret ((None, c'), f')"
    using mkdir_all_open [of p ex_fs]
    by (auto simp: cp_proc_def p [simplified] data_reader_def open_create_def mkdir_all_def ex_fs_def)
  then obtain c' f' where run: "cp_proc ?d ?c ex_fs = Ret ((None, c'), f')" by blast
  have "length (chunk_hash ?c) = 32"
    by (simp add: zero_hash_def)
  from cp_store_overwrites [OF run this] run show ?thesis
    by (auto simp: data_reader_def ex_fs_def)
qed

end
