(* ===== verification/Backup.thy ===== *)
theory Backup
  imports Chain_Index Mem_Store Dir_Store
begin

text \<open>
  Procs put together as a backup and its restore: a stream is split; each chunk goes through the
  chain \<^verbatim>\<open>checksum | index | gzip | checksum | store\<close>; the index, read back, drives the chain
  \<^verbatim>\<open>store | checksum | gzip | join\<close> of the other sides. The calls of a chain come one after the
  other, in any order of the chunks, as the backlog around it lets them in.
\<close>

section \<open>The two chains\<close>

definition backup_stages ::
  "(bytes \<Rightarrow> hash) \<Rightarrow> (bytes \<Rightarrow> bytes) \<Rightarrow> 'm chunk_fn \<Rightarrow> (string index_st \<times> 'm) proc list" where
  "backup_stages sha gz save =
     [simple_proc True (func_proc (checksum_process sha)),
      over_fst (index_obj text_writer),
      simple_proc False (func_proc (gzip_process gz)),
      simple_proc True (func_proc (checksum_process sha)),
      over_snd (simple_proc True (func_proc save))]"

definition restore_stages ::
  "(res list list \<Rightarrow> res list) \<Rightarrow> (err option list \<Rightarrow> err option list) \<Rightarrow> (bytes \<Rightarrow> hash) \<Rightarrow>
   (bytes \<times> err option \<Rightarrow> err + bytes) \<Rightarrow> 'm chunk_fn \<Rightarrow> ('m \<times> (chunk series \<times> bytes)) proc list" where
  "restore_stages mg order sha gunz load =
     [over_fst (simple_proc False (func_proc load)),
      simple_proc True (func_proc (checksum_unprocess sha)),
      simple_proc False (func_proc (gzip_unprocess gunz)),
      over_snd (join_obj mg order append_writer)]"

definition backup_obj ::
  "(res list list \<Rightarrow> res list) \<Rightarrow> (err option list \<Rightarrow> err option list) \<Rightarrow> (bytes \<Rightarrow> hash) \<Rightarrow>
   (bytes \<Rightarrow> bytes) \<Rightarrow> 'm chunk_fn \<Rightarrow> (string index_st \<times> 'm) proc" where
  "backup_obj mg order sha gz save = chain mg order (backup_stages sha gz save)"

definition restore_obj ::
  "(res list list \<Rightarrow> res list) \<Rightarrow> (err option list \<Rightarrow> err option list) \<Rightarrow> (bytes \<Rightarrow> hash) \<Rightarrow>
   (bytes \<times> err option \<Rightarrow> err + bytes) \<Rightarrow> 'm chunk_fn \<Rightarrow> ('m \<times> (chunk series \<times> bytes)) proc" where
  "restore_obj mg order sha gunz load = chain mg order (restore_stages mg order sha gunz load)"

section \<open>One call of the backup chain\<close>

text \<open>The chunk as it enters the index, and as it is stored.\<close>

definition packed :: "(bytes \<Rightarrow> hash) \<Rightarrow> (bytes \<Rightarrow> bytes) \<Rightarrow> chunk \<Rightarrow> chunk" where
  "packed sha gz c =
     set_hash (sha (gz (data_of c))) (with_data (BytesData (gz (data_of c))) (hashed sha c))"

lemma packed_sel [simp]:
  "chunk_hash (packed sha gz c) = sha (gz (data_of c))" "chunk_num (packed sha gz c) = chunk_num c"
  "chunk_data (packed sha gz c) = BytesData (gz (data_of c))"
  "chunk_target_size (packed sha gz c) = chunk_target_size c"
  by (simp_all add: packed_def)

lemma gzip_in_memory:
  assumes "in_memory c"
  shows "gzip_process gz c st = Ret ((None, with_data (BytesData (gz (data_of c))) c), st)"
  using assms by (auto simp: in_memory_def gzip_process_def data_reader_def data_of_def)

lemma checksum_packs:
  "checksum_process sha (with_data (BytesData (gz (data_of c))) (hashed sha c)) st =
     Ret ((None, packed sha gz c), st)"
  by (simp add: checksum_process_def data_reader_def checksum_sum_def mark_read_same packed_def)

lemma backup_end_procs:
  "end_procs (backup_stages sha gz save) = [the (pr_ender (over_fst (index_obj text_writer)))]"
  by (simp add: end_procs_def backup_stages_def index_obj_def over_fst_def over_snd_def)

text \<open>A chunk whose hash is known ends at the index.\<close>

lemma backup_known:
  assumes "merges mg" and "in_memory c"
    and "index_process (hashed sha c) ix = Ret ([], ix1)"
    and "index_process_end text_writer (hashed sha c) ix1 = (None, ix2)"
  shows "chain_process mg (backup_stages sha gz save) c (ix, m) = Ret ([], (ix2, m))"
proof -
  have "stages_seen mg (backup_stages sha gz save) c (single_res c None) (ix, m) =
      Ret ((hashed sha c, []), (ix1, m))"
    using assms(2,3)
    by (simp add: backup_stages_def single_res_def stage_def merges_one [OF assms(1)]
        merges_empty [OF assms(1)] checksum_in_memory index_over_fst seen_after_def)
  then show ?thesis
    using assms(4)
    by (simp add: chain_process_def backup_end_procs stage_def merges_empty [OF assms(1)]
        process_end_def index_over_fst)
qed

text \<open>A new chunk is compressed, hashed and stored, and reported to the index.\<close>

lemma backup_new:
  assumes "merges mg" and "in_memory c"
    and "index_process (hashed sha c) ix = Ret ([Res (Some (hashed sha c)) None], ix1)"
    and "save (packed sha gz c) m = Ret ((None, packed sha gz c), m')"
    and "index_process_final (hashed sha c) (packed sha gz c) ix1 = (None, ix2)"
    and "index_process_end text_writer (hashed sha c) ix2 = (None, ix3)"
  shows "chain_process mg (backup_stages sha gz save) c (ix, m) =
    Ret ([Res (Some (packed sha gz c)) None], (ix3, m'))"
proof -
  have "stages_seen mg (backup_stages sha gz save) c (single_res c None) (ix, m) =
      Ret ((hashed sha c, [Res (Some (packed sha gz c)) None]), (ix1, m'))"
    using assms(2-4)
    by (simp add: backup_stages_def single_res_def stage_def merges_one [OF assms(1)]
        checksum_in_memory gzip_in_memory checksum_packs index_over_fst seen_after_def)
  then show ?thesis
    using assms(5,6)
    by (simp add: chain_process_def backup_end_procs stage_def merges_one [OF assms(1)]
        process_end_def index_over_fst end_call_proc_def ret_process_def inplace_func_def)
qed

section \<open>A run of the backup chain\<close>

abbreviation backup_events ::
  "(bytes \<Rightarrow> hash) \<Rightarrow> (bytes \<Rightarrow> bytes) \<Rightarrow> hash set \<Rightarrow> chunk list \<Rightarrow> index_event list" where
  "backup_events sha gz \<equiv> chain_events sha (\<lambda>c. [packed sha gz c])"

text \<open>The chunks that get stored.\<close>

definition fresh :: "(bytes \<Rightarrow> hash) \<Rightarrow> hash set \<Rightarrow> chunk list \<Rightarrow> bytes set" where
  "fresh sha S cs = {data_of c | c. c \<in> set cs \<and> sha (data_of c) \<notin> S}"

lemma fresh_simps [simp]:
  "fresh sha S [] = {}"
  "sha (data_of c) \<in> S \<Longrightarrow> fresh sha S (c # cs) = fresh sha S cs"
  by (auto simp: fresh_def)

lemma fresh_subset: "fresh sha S cs \<subseteq> data_of ` set cs"
  by (auto simp: fresh_def)

lemma fresh_new:
  assumes "sha (data_of c) \<notin> S" and "inj_on sha (data_of ` set (c # cs))"
  shows "fresh sha S (c # cs) = insert (data_of c) (fresh sha (insert (sha (data_of c)) S) cs)"
    and "data_of c \<notin> fresh sha (insert (sha (data_of c)) S) cs"
proof -
  have "sha (data_of d) = sha (data_of c) \<longleftrightarrow> data_of d = data_of c" if "d \<in> set cs" for d
    using inj_on_eq_iff [OF assms(2), of "data_of d" "data_of c"] that by simp
  then show "fresh sha S (c # cs) = insert (data_of c) (fresh sha (insert (sha (data_of c)) S) cs)"
    "data_of c \<notin> fresh sha (insert (sha (data_of c)) S) cs"
    using assms(1) by (fastforce simp: fresh_def)+
qed

context chunk_store
begin

lemma backup_run:
  assumes "merges mg" and "index_run text_writer (backup_events sha gz S cs) ix = Ret (es, ix')"
    and "\<forall>h. ifinals ix h \<noteq> None \<longleftrightarrow> h \<in> S" and "\<forall>c \<in> set cs. in_memory c"
    and "\<And>x. named (sha x)"
    and "inj_on sha (data_of ` set cs)" and "inj_on (\<lambda>x. sha (gz x)) (data_of ` set cs)"
    and "\<forall>x \<in> fresh sha S cs. held m (sha (gz x)) = None"
  shows "\<exists>rs m'. proc_run (backup_obj mg order sha gz save) cs (ix, m) = Ret (rs, (ix', m')) \<and>
    stream_err rs = None \<and> es = replicate (length (backup_events sha gz S cs)) None \<and>
    (\<forall>x \<in> fresh sha S cs. held m' (sha (gz x)) = Some (gz x)) \<and>
    (\<forall>h. named h \<longrightarrow> h \<notin> (\<lambda>x. sha (gz x)) ` fresh sha S cs \<longrightarrow> held m' h = held m h)"
  using assms(2-4) assms(6-8)
proof (induction cs arbitrary: S ix es m)
  case Nil
  then show ?case by simp
next
  case (Cons c cs)
  let ?x = "data_of c" and ?p = "\<lambda>x. sha (gz x)"
  let ?S = "insert (sha ?x) S"
  have c: "in_memory c"
    using Cons.prems(3) by simp
  have inj: "inj_on sha (data_of ` set cs)" "inj_on ?p (data_of ` set cs)"
    using Cons.prems(4,5) by (auto intro: inj_on_subset)
  obtain rs1 ix1 where p: "index_process (hashed sha c) ix = Ret (rs1, ix1)"
    using Cons.prems(1) by (auto simp: index_step_def bind_outcome_Ret_iff)
  note result = index_process_result [OF p]
  have at: "ifinals ix (sha ?x) = None \<longleftrightarrow> sha ?x \<notin> S"
    using Cons.prems(2) by blast
  have known: "ifinals ix1 h \<noteq> None \<longleftrightarrow> h \<in> ?S" for h
    using spec [OF Cons.prems(2), of h] at result(2) by auto
  show ?case
  proof (cases "sha ?x \<in> S")
    case True
    then have rs1: "rs1 = []"
      using result(1) at by simp
    obtain e ix2 es2 where e: "index_process_end text_writer (hashed sha c) ix1 = (e, ix2)"
      "index_run text_writer (backup_events sha gz ?S cs) ix2 = Ret (es2, ix')" "es = None # e # es2"
      using Cons.prems(1) p True by (cases "index_process_end text_writer (hashed sha c) ix1")
        (auto simp: index_step_def bind_outcome_Ret_iff)
    note final = index_end_known [OF text_writer_ok _ e(1)]
    have "e = None" and known2: "\<forall>h. ifinals ix2 h \<noteq> None \<longleftrightarrow> h \<in> ?S"
      using final known by simp_all
    moreover have "?S = S"
      using True by auto
    ultimately obtain rs m' where IH: "proc_run (backup_obj mg order sha gz save) cs (ix2, m) = Ret (rs, (ix', m'))"
      "stream_err rs = None" "es2 = replicate (length (backup_events sha gz ?S cs)) None"
      "\<forall>x \<in> fresh sha S cs. held m' (?p x) = Some (gz x)"
      "\<forall>h. named h \<longrightarrow> h \<notin> ?p ` fresh sha S cs \<longrightarrow> held m' h = held m h"
      using Cons.IH [OF e(2) known2 _ inj, of m] Cons.prems(3,6) True by auto
    moreover have "pr_process (backup_obj mg order sha gz save) c (ix, m) = Ret ([], (ix2, m))"
      using backup_known [OF assms(1) c] p e(1) by (simp add: backup_obj_def chain_def rs1 \<open>e = None\<close>)
    ultimately show ?thesis
      using True e(3) \<open>e = None\<close> by simp
  next
    case False
    note fresh = fresh_new [OF False Cons.prems(4)]
    have rs1: "rs1 = [Res (Some (hashed sha c)) None]"
      and entry: "ifinals ix1 (sha ?x) = Some \<lparr>fnum = chunk_num c, entries = [], complete = False\<rparr>"
      using result at False by simp_all
    obtain ix2 where f: "index_process_final (hashed sha c) (packed sha gz c) ix1 = (None, ix2)"
      and same: "ifinals ix2 h = None \<longleftrightarrow> ifinals ix1 h = None" for h
      using entry by (auto simp: index_process_final_def)
    obtain e ix3 es2 where e: "index_process_end text_writer (hashed sha c) ix2 = (e, ix3)"
      "index_run text_writer (backup_events sha gz ?S cs) ix3 = Ret (es2, ix')" "es = None # None # e # es2"
      using Cons.prems(1) p f False by (cases "index_process_end text_writer (hashed sha c) ix2")
        (auto simp: index_step_def bind_outcome_Ret_iff)
    note final = index_end_known [OF text_writer_ok _ e(1)]
    have "e = None" and known2: "\<forall>h. ifinals ix3 h \<noteq> None \<longleftrightarrow> h \<in> ?S"
      using final known same by simp_all
    have "held m (?p ?x) = None"
      using Cons.prems(6) fresh by simp
    then obtain m1 where m1: "save (packed sha gz c) m = Ret ((None, packed sha gz c), m1)"
      "\<forall>h. named h \<longrightarrow> held m1 h = (if h = ?p ?x then Some (gz ?x) else held m h)"
      using saves [of "packed sha gz c" "gz ?x" m] assms(5) by auto
    have other: "?p y \<noteq> ?p ?x" if "y \<in> fresh sha ?S cs" for y
      using inj_on_eq_iff [OF Cons.prems(5), of y ?x] that fresh(2) fresh_subset [of sha ?S cs] by auto
    have "\<forall>y \<in> fresh sha ?S cs. held m1 (?p y) = None"
      using Cons.prems(6) m1(2) assms(5) other by (simp add: fresh(1))
    with Cons.IH [OF e(2) known2 _ inj, of m1] Cons.prems(3) obtain rs m' where
      IH: "proc_run (backup_obj mg order sha gz save) cs (ix3, m1) = Ret (rs, (ix', m'))"
      "stream_err rs = None" "es2 = replicate (length (backup_events sha gz ?S cs)) None"
      "\<forall>x \<in> fresh sha ?S cs. held m' (?p x) = Some (gz x)"
      "\<forall>h. named h \<longrightarrow> h \<notin> ?p ` fresh sha ?S cs \<longrightarrow> held m' h = held m1 h"
      by auto
    have "pr_process (backup_obj mg order sha gz save) c (ix, m) =
        Ret ([Res (Some (packed sha gz c)) None], (ix3, m1))"
      using backup_new [where save = save, OF assms(1) c p [unfolded rs1] m1(1) f] e(1)
      by (simp add: backup_obj_def chain_def \<open>e = None\<close>)
    moreover have "?p ?x \<notin> ?p ` fresh sha ?S cs"
      using other by (auto simp: eq_commute)
    then have "held m' (?p ?x) = Some (gz ?x)"
      using IH(5) m1(2) assms(5) by simp
    moreover have "\<forall>h. named h \<longrightarrow> h \<notin> ?p ` fresh sha S (c # cs) \<longrightarrow> held m' h = held m h"
      using IH(5) m1(2) by (simp add: fresh(1))
    ultimately show ?thesis
      using False e(3) \<open>e = None\<close> IH(1-4) by (simp add: fresh(1))
  qed
qed

end

section \<open>The index of a backup\<close>

definition index_entries :: "(bytes \<Rightarrow> hash) \<Rightarrow> (bytes \<Rightarrow> bytes) \<Rightarrow> bytes list \<Rightarrow> (hash \<times> int) list" where
  "index_entries sha gz bs = map (\<lambda>x. (sha (gz x), int (length x))) bs"

lemma backup_index:
  assumes "mset cs = mset (pieces 0 bs)" and "inj_on sha (set bs)" and "int (length bs) \<le> pos_limit"
    and "index_run text_writer (backup_events sha gz {} cs) (new_index []) =
      Ret (replicate (length (backup_events sha gz {} cs)) None, st)"
  shows "index_finish st = None \<and> iw st = index_text (index_entries sha gz bs)"
proof -
  have "\<forall>c \<in> set (pieces 0 bs). finals_entries [packed sha gz c] = [(sha (gz (data_of c)), int (length (data_of c)))]"
    by (auto simp: finals_entries_def set_pieces)
  from chain_index [OF assms(1-3) this assms(4)] show ?thesis
    by (simp add: index_entries_def concat_map_singleton)
qed

section \<open>A run of the restore chain\<close>

text \<open>The data at a position, and the chunk that reaches the join there.\<close>

definition unpacked :: "(bytes \<Rightarrow> bytes) \<Rightarrow> bytes list \<Rightarrow> chunk \<Rightarrow> chunk" where
  "unpacked gz bs d =
     (let x = bs ! nat (chunk_num d)
      in with_data (BytesData x) (with_data (BytesData (gz x)) d))"

definition index_position :: "(bytes \<Rightarrow> hash) \<Rightarrow> (bytes \<Rightarrow> bytes) \<Rightarrow> bytes list \<Rightarrow> chunk \<Rightarrow> bool" where
  "index_position sha gz bs d \<longleftrightarrow>
     0 \<le> chunk_num d \<and> chunk_num d < int (length bs) \<and> chunk_hash d = sha (gz (bs ! nat (chunk_num d)))"

lemma index_chunks_position:
  assumes "d \<in> set (index_chunks 0 (index_entries sha gz bs))"
  shows "index_position sha gz bs d"
proof -
  from assms obtain i where i: "i < length bs" "d = index_chunk (int i) (index_entries sha gz bs ! i)"
    by (auto simp: in_set_conv_nth nth_index_chunks index_entries_def)
  then show ?thesis
    by (simp add: index_position_def index_chunk_def index_entries_def)
qed

lemma unpacked_sel [simp]:
  "chunk_num (unpacked gz bs d) = chunk_num d" "data_of (unpacked gz bs d) = bs ! nat (chunk_num d)"
  "in_memory (unpacked gz bs d)"
  by (simp_all add: unpacked_def Let_def data_of_def in_memory_def)

lemma unpacked_data: "map (\<lambda>d. bs ! nat (chunk_num d)) (index_chunks 0 (index_entries sha gz bs)) = bs"
  by (rule nth_equalityI) (simp_all add: index_entries_def nth_index_chunks index_chunk_def)

lemma checksum_unpacks:
  assumes "index_position sha gz bs d"
  shows "checksum_unprocess sha (with_data (BytesData (gz (bs ! nat (chunk_num d)))) d) st =
    Ret ((None, with_data (BytesData (gz (bs ! nat (chunk_num d)))) d), st)"
  using assms by (simp add: checksum_unprocess_def data_reader_def checksum_sum_def mark_read_same index_position_def)

lemma gzip_unpacks:
  assumes "\<And>x. gunz (gz x, None) = Inr x"
  shows "gzip_unprocess gunz (with_data (BytesData (gz (bs ! nat (chunk_num d)))) d) st =
    Ret ((None, unpacked gz bs d), st)"
  by (simp add: gzip_unprocess_def data_reader_def assms unpacked_def Let_def)

context chunk_store
begin

lemma restore_call:
  assumes "merges mg" and "index_position sha gz bs d" and "\<And>x. gunz (gz x, None) = Inr x"
    and "held m (chunk_hash d) = Some (gz (bs ! nat (chunk_num d)))"
  shows "pr_process (restore_obj mg order sha gunz load) d (m, st) =
    bind_outcome (pr_process (join_obj mg order append_writer) (unpacked gz bs d) st)
      (\<lambda>(rs, st). Ret (rs, (m, st)))"
proof -
  have "end_procs (restore_stages mg order sha gunz load) = []"
    by (simp add: end_procs_def restore_stages_def join_obj_def chain_def)
  then show ?thesis
    using loads [OF assms(4)]
    by (cases "pr_process (join_obj mg order append_writer) (unpacked gz bs d) st")
      (simp_all add: restore_obj_def chain_def chain_without_end restore_stages_def single_res_def stage_def
        merges_one [OF assms(1)] checksum_unpacks [OF assms(2)] gzip_unpacks [where gunz = gunz, OF assms(3)]
        case_prod_unfold)
qed

lemma restore_run:
  assumes "merges mg" and "\<And>x. gunz (gz x, None) = Inr x"
    and "\<forall>d \<in> set ds. index_position sha gz bs d \<and>
      held m (chunk_hash d) = Some (gz (bs ! nat (chunk_num d)))"
  shows "proc_run (restore_obj mg order sha gunz load) ds (m, st) =
    bind_outcome (proc_run (join_obj mg order append_writer) (map (unpacked gz bs) ds) st)
      (\<lambda>(rs, st). Ret (rs, (m, st)))"
  using assms(3)
proof (induction ds arbitrary: st)
  case (Cons d ds)
  note call = restore_call [OF assms(1) _ assms(2), of sha bs d m order st]
  show ?case
  proof (cases "pr_process (join_obj mg order append_writer) (unpacked gz bs d) st")
    case (Ret r)
    with Cons show ?thesis
      by (cases "proc_run (join_obj mg order append_writer) (map (unpacked gz bs) ds) (snd r)")
        (auto simp: call case_prod_unfold)
  qed (use Cons.prems in \<open>simp add: call\<close>)
qed simp

text \<open>There and back, over the pieces of a stream.\<close>

lemma backup_restore:
  assumes mg: "merges mg" and order: "\<And>es. mset (order es) = mset es"
    and cs: "mset cs = mset (pieces 0 bs)" and perm: "\<And>ds. mset (perm ds) = mset ds"
    and len: "int (length bs) \<le> pos_limit" and size: "\<forall>x \<in> set bs. int (length x) < 2 ^ 63"
    and sha: "\<And>x. named (sha x)" "\<And>x. length (sha x) = 32"
    and inj: "inj_on sha (set bs)" "inj_on (\<lambda>x. sha (gz x)) (set bs)"
    and gz: "\<And>x. gunz (gz x, None) = Inr x"
    and free: "\<forall>x \<in> set bs. held m (sha (gz x)) = None"
  shows "\<exists>rs ix m' ds rs' s.
    proc_run (backup_obj mg order sha gz save) cs (new_index [], m) = Ret (rs, (ix, m')) \<and>
    stream_err rs = None \<and> fst (pr_finish (backup_obj mg order sha gz save) (ix, m')) = None \<and>
    index_scan 0 (iw ix) = (ds, None) \<and>
    proc_run (restore_obj mg order sha gunz load) (perm ds) (m', (new_series, [])) =
      Ret (rs', (m', (s, concat bs))) \<and>
    stream_err rs' = None \<and> fst (pr_finish (restore_obj mg order sha gunz load) (m', (s, concat bs))) = None"
proof -
  let ?evs = "backup_events sha gz {} cs" and ?ds = "index_chunks 0 (index_entries sha gz bs)"
  have data: "data_of ` set cs = set bs"
    using mset_eq_setD [OF cs] data_of_pieces [of 0 bs] by simp
  have nums: "map chunk_num (pieces 0 bs) = map int [0..<length bs]"
    by (simp add: map_num_pieces)
  have range: "chunk_num ` set cs \<subseteq> int ` {..<length bs}"
    using nums_of_perm(2) [OF cs nums] by simp
  have "index_nums_ok ?evs"
    using nums_of_perm(1) [OF cs nums] range len by (fastforce simp: index_nums_ok_def processed_events comp_def)
  then obtain es ix where run: "index_run text_writer ?evs (new_index []) = Ret (es, ix)"
    using index_run_account [OF text_writer_ok] by blast
  have "\<forall>c \<in> set cs. in_memory c"
    using mset_eq_setD [OF cs] by (auto simp: set_pieces)
  moreover have "\<forall>h. ifinals (new_index []) h \<noteq> None \<longleftrightarrow> h \<in> {}"
    by (simp add: new_index_def)
  moreover have fresh: "fresh sha {} cs = set bs"
    using data by (auto simp: fresh_def)
  ultimately obtain rs m' where saved: "proc_run (backup_obj mg order sha gz save) cs (new_index [], m) = Ret (rs, (ix, m'))"
    "stream_err rs = None" "es = replicate (length ?evs) None"
    "\<forall>x \<in> set bs. held m' (sha (gz x)) = Some (gz x)"
    using backup_run [OF mg run, of m order] sha(1) inj free by (auto simp: data)
  from backup_index [OF cs inj(1) len run [unfolded saved(3)]] have
    ix: "index_finish ix = None" "iw ix = index_text (index_entries sha gz bs)"
    by simp_all
  have "\<forall>e \<in> set (index_entries sha gz bs). entry_ok e"
    using size sha(2) by (auto simp: index_entries_def entry_ok_def)
  from scan_index_text [OF this, of 0] len have scan: "index_scan 0 (iw ix) = (?ds, None)"
    by (simp add: ix(2) index_entries_def pos_limit_def)
  have perm_ds: "mset (map (unpacked gz bs) (perm ?ds)) = mset (map (unpacked gz bs) ?ds)"
    using perm [of ?ds] by simp
  have "index_position sha gz bs d \<and> held m' (chunk_hash d) = Some (gz (bs ! nat (chunk_num d)))"
    if "d \<in> set (perm ?ds)" for d
  proof -
    have d: "index_position sha gz bs d"
      using that mset_eq_setD [OF perm [of ?ds]] index_chunks_position by metis
    then have "bs ! nat (chunk_num d) \<in> set bs"
      by (intro nth_mem) (auto simp: index_position_def)
    with d saved(4) show ?thesis
      by (simp add: index_position_def)
  qed
  then have "\<forall>d \<in> set (perm ?ds). index_position sha gz bs d \<and>
      held m' (chunk_hash d) = Some (gz (bs ! nat (chunk_num d)))"
    by blast
  note restore = restore_run [OF mg gz this, of order]
  have "map chunk_num (map (unpacked gz bs) ?ds) = map int [0..<length bs]"
    using index_chunks_nums [of "index_entries sha gz bs"] by (simp add: comp_def index_entries_def)
  from join_any_order [OF mg order perm_ds this len, of "concat bs"] obtain rs' s where
    join: "proc_run (join_obj mg order append_writer) (map (unpacked gz bs) (perm ?ds)) (new_series, []) =
      Ret (rs', (s, concat bs))" "stream_err rs' = None"
      "fst (pr_finish (join_obj mg order append_writer) (s, concat bs)) = None"
    by (auto simp: comp_def unpacked_data)
  have none: "concur_first_err (order (replicate n None)) = None" for n
    using concur_first_err_order [OF order, of "replicate n None"]
    by (simp add: concur_first_err_def first_err_None_iff)
  have "fst (pr_finish (backup_obj mg order sha gz save) (ix, m')) = None"
    using ix(1) none [of 5] by (simp add: backup_obj_def chain_def chain_finish_def backup_stages_def
        index_obj_def numeral_eq_Suc)
  moreover have "fst (pr_finish (restore_obj mg order sha gunz load) (m', (s, concat bs))) = None"
    using join(3) none [of 4] by (cases "pr_finish (join_obj mg order append_writer) (s, concat bs)")
      (simp add: restore_obj_def chain_def chain_finish_def restore_stages_def numeral_eq_Suc)
  ultimately show ?thesis
    using saved(1,2) scan restore [of "(new_series, [])"] join(1,2) by (intro exI conjI; simp)
qed

end

section \<open>Properties\<close>

text \<open>
  C1: a stream is backed up and restored. It is split into chunks; whatever the order in which the
  backup chain processes them, each is hashed, looked up in the index, and, the first time it is
  seen, compressed and stored in the directory under the hash of the compressed data; the chain
  finishes without an error. Reading the index back and sending its chunks, in any order, through
  the restore chain writes the stream byte for byte, without an error either. This is for a hash
  that tells the pieces apart, and a directory that does not hold files of the backup yet.
\<close>

theorem backup_restores:
  assumes cuts: "bs = cuts mn mx (b, None)" "concat bs = b" and mn: "min_min \<le> mn"
    and len: "int (length bs) \<le> pos_limit" and size: "\<forall>x \<in> set bs. int (length x) < 2 ^ 63"
    and seed: "chunk_num c = 0" "data_reader (chunk_data c) = Ret ((b, None), dat)"
    and mg: "merges mg" and order: "\<And>es. mset (order es) = mset es"
    and perm: "\<And>cs. mset (perm cs) = mset cs" "\<And>cs. mset (perm' cs) = mset cs"
    and sha: "\<And>x. length (sha x) = 32" "inj_on sha (set bs)" "inj_on (\<lambda>x. sha (gz x)) (set bs)"
    and gz: "\<And>x. gunz (gz x, None) = Inr x"
    and parts: "\<forall>n \<in> set (dir_part d). 0 \<le> n" and free: "\<forall>x \<in> set bs. cp_held d f (sha (gz x)) = None"
  shows "\<exists>cs rs ix f' ds rs' s.
    split_proc cuts (mn, mx) c = Some (Ret (map (\<lambda>c. Res (Some c) None) cs)) \<and>
    proc_run (backup_obj mg order sha gz (cp_proc d)) (perm cs) (new_index [], f) = Ret (rs, (ix, f')) \<and>
    stream_err rs = None \<and> fst (pr_finish (backup_obj mg order sha gz (cp_proc d)) (ix, f')) = None \<and>
    index_scan 0 (iw ix) = (ds, None) \<and>
    proc_run (restore_obj mg order sha gunz (cp_load d)) (perm' ds) (f', (new_series, [])) =
      Ret (rs', (f', (s, b))) \<and>
    stream_err rs' = None \<and> fst (pr_finish (restore_obj mg order sha gunz (cp_load d)) (f', (s, b))) = None"
proof -
  have "split_proc cuts (mn, mx) c = Some (Ret (map (\<lambda>c. Res (Some c) None) (pieces 0 bs)))"
    using split_proc_pieces [of c b dat mn cuts mx] seed mn len by (simp add: pos_limit_def cuts(1))
  moreover have "cp_named d (sha x)" for x
    by (rule cp_named_parts [OF parts sha(1)])
  from cp.backup_restore [OF mg order perm(1) perm(2) len size this sha gz free] obtain rs ix f' ds rs' s where
    "proc_run (backup_obj mg order sha gz (cp_proc d)) (perm (pieces 0 bs)) (new_index [], f) = Ret (rs, (ix, f'))"
    "stream_err rs = None" "fst (pr_finish (backup_obj mg order sha gz (cp_proc d)) (ix, f')) = None"
    "index_scan 0 (iw ix) = (ds, None)"
    "proc_run (restore_obj mg order sha gunz (cp_load d)) (perm' ds) (f', (new_series, [])) = Ret (rs', (f', (s, b)))"
    "stream_err rs' = None" "fst (pr_finish (restore_obj mg order sha gunz (cp_load d)) (f', (s, b))) = None"
    unfolding cuts(2) by blast
  ultimately show ?thesis
    by blast
qed

text \<open>Three pieces, the last of them the first again.\<close>

definition ex_cuts :: chunker where
  "ex_cuts mn mx r = [[1], [2, 3], [1]]"

definition ex_seed :: chunk where
  "ex_seed = new_chunk 0 (Some (ReaderData [1, 2, 3, 1] None False))"

lemma backup_restores_witness:
  "\<exists>cs rs ix f' ds rs' s.
    split_proc ex_cuts (min_min, min_min) ex_seed = Some (Ret (map (\<lambda>c. Res (Some c) None) cs)) \<and>
    proc_run (backup_obj concat id ex_sha (\<lambda>b. 7 # b) (cp_proc \<lparr>dir_path = ''d'', dir_part = [2]\<rparr>))
      (rev cs) (new_index [], ex_fs) = Ret (rs, (ix, f')) \<and>
    stream_err rs = None \<and>
    fst (pr_finish (backup_obj concat id ex_sha (\<lambda>b. 7 # b) (cp_proc \<lparr>dir_path = ''d'', dir_part = [2]\<rparr>))
      (ix, f')) = None \<and>
    index_scan 0 (iw ix) = (ds, None) \<and>
    proc_run (restore_obj concat id ex_sha (\<lambda>(b, e). Inr (tl b)) (cp_load \<lparr>dir_path = ''d'', dir_part = [2]\<rparr>))
      (rev ds) (f', (new_series, [])) = Ret (rs', (f', (s, [1, 2, 3, 1]))) \<and>
    stream_err rs' = None \<and>
    fst (pr_finish (restore_obj concat id ex_sha (\<lambda>(b, e). Inr (tl b)) (cp_load \<lparr>dir_path = ''d'', dir_part = [2]\<rparr>))
      (f', (s, [1, 2, 3, 1]))) = None"
proof (rule backup_restores [where bs = "[[1], [2, 3], [1]]"])
  show "data_reader (chunk_data ex_seed) = Ret (([1, 2, 3, 1], None), ReaderData [1, 2, 3, 1] None True)"
    by (simp add: ex_seed_def data_reader_def data_once_def)
  show "\<forall>x \<in> set [[1], [2, 3], [1]]. cp_held \<lparr>dir_path = ''d'', dir_part = [2]\<rparr> ex_fs (ex_sha (7 # x)) = None"
    by (simp add: cp_held_def ex_fs_def split: outcome.split)
  show "inj_on ex_sha (set [[1], [2, 3], [1]])" "inj_on (\<lambda>x. ex_sha (7 # x)) (set [[1], [2, 3], [1]])"
    by (auto simp: inj_on_def ex_sha_def)
qed (simp_all add: ex_cuts_def ex_sha_def ex_seed_def pos_limit_def merges_concat)

end
