(* ===== verification/Striper.thy ===== *)
theory Striper
  imports Scat_Prelude
begin

text \<open>
  \<^verbatim>\<open>stripe/stripe.go\<close> and \<^verbatim>\<open>stripe/rr.go\<close>: choosing where the chunks of a group go. A
  striper is given the locations that already hold each item, the locations that can take
  a copy and a sequence of locations; it returns the locations each item must still be
  copied to, so that it has \<open>min\<close> of them and at least \<open>excl\<close> items share their set of
  locations with no other.

  A \<open>Locs\<close> is a list without duplicates and an \<open>S\<close> an association list. Their order stands
  for the order in which Go yields the keys of the map, which is arbitrary: it is the
  parameter \<open>ord\<close> for the copy made of the old locations of an item at a pass, and the order
  of the argument itself for the items. \<open>nil\<close>, which a sequence yields when it is empty, is
  \<open>None\<close>.
\<close>

section \<open>The round robin sequence\<close>

record 'l rr =
  rr_items :: "'l list"
  rr_cur :: int

definition new_rr :: "'l list \<Rightarrow> 'l rr" where
  "new_rr items = \<lparr>rr_items = items, rr_cur = 0\<rparr>"

definition rr_next :: "'l rr \<Rightarrow> 'l option \<times> 'l rr" where
  "rr_next rr =
     (let n = int (length (rr_items rr)) in
      if rr_cur rr > n - 1 then (None, rr)
      else (Some (rr_items rr ! nat (rr_cur rr)), rr\<lparr>rr_cur := (rr_cur rr + 1) mod n\<rparr>))"

definition rr_reset :: "'l rr \<Rightarrow> 'l rr" where
  "rr_reset rr = rr\<lparr>rr_cur := 0\<rparr>"

section \<open>Stripes\<close>

type_synonym 'l locs = "'l list"
type_synonym ('i, 'l) stripe = "('i \<times> 'l locs) list"

definition equal_locs :: "'l locs \<Rightarrow> 'l locs \<Rightarrow> bool" where
  "equal_locs a b \<longleftrightarrow> length a = length b \<and> (\<forall>l \<in> set a. l \<in> set b)"

definition exclusives :: "('i, 'l) stripe \<Rightarrow> nat" where
  "exclusives s =
     length (filter (\<lambda>(a, al). \<not> (\<exists>(b, bl) \<in> set s. a \<noteq> b \<and> equal_locs al bl)) s)"

definition locs_of :: "('i, 'l) stripe \<Rightarrow> 'i \<Rightarrow> 'l locs" where
  "locs_of s it = (case map_of s it of None \<Rightarrow> [] | Some ls \<Rightarrow> ls)"

text \<open>How many items each destination already holds.\<close>

definition bump :: "'l \<Rightarrow> ('l \<times> nat) list \<Rightarrow> ('l \<times> nat) list" where
  "bump l prios = AList.update l (case map_of prios l of None \<Rightarrow> 1 | Some n \<Rightarrow> n + 1) prios"

definition stripe_prios :: "'l locs \<Rightarrow> ('i, 'l) stripe \<Rightarrow> ('l \<times> nat) list" where
  "stripe_prios dests s =
     fold (\<lambda>(it, got) prios. fold (\<lambda>l prios. if l \<in> set dests then bump l prios else prios) got prios)
       s []"

text \<open>The variables of the loop: \<open>old\<close> and \<open>seen\<close> are those of the current item.\<close>

record ('i, 'l, 'q) stripe_st =
  sp_old :: "'l locs"
  sp_seen :: "'l option list"
  sp_prios :: "('l \<times> nat) list"
  sp_seq :: 'q
  sp_res :: "('i, 'l) stripe"

definition stripe_next ::
  "('q \<Rightarrow> 'l option \<times> 'q) \<Rightarrow> ('i, 'l, 'q) stripe_st \<Rightarrow> (err + 'l option) \<times> ('i, 'l, 'q) stripe_st" where
  "stripe_next nxt st =
     (case sp_old st of
        l # ls \<Rightarrow> (Inr (Some l), st\<lparr>sp_old := ls\<rparr>)
      | [] \<Rightarrow>
          (let (new, q) = nxt (sp_seq st) in
           if new \<in> set (sp_seen st) then
             (let prios = (case new of None \<Rightarrow> sp_prios st | Some l \<Rightarrow> AList.delete l (sp_prios st));
                  st' = st\<lparr>sp_seq := q, sp_prios := prios\<rparr>
              in if 0 < length prios then (Inr None, st') else (Inl ErrStripeShort, st'))
           else (Inr new, st\<lparr>sp_seq := q, sp_seen := new # sp_seen st\<rparr>)))"

text \<open>The rest of the body for a location that was not put off.\<close>

definition stripe_place ::
  "'l locs \<Rightarrow> int \<Rightarrow> nat \<Rightarrow> 'i \<Rightarrow> 'l \<Rightarrow> ('i, 'l, 'q) stripe_st \<Rightarrow> (err \<times> 'q, ('i, 'l, 'q) stripe_st) ctl" where
  "stripe_place dests excl pass it new st =
     (if new \<in> set (locs_of (sp_res st) it) then Next st
      else if new \<notin> set dests then Next st
      else
        (let nexcl = (if excl > int (length (sp_res st)) then int (length (sp_res st)) else excl);
             res = AList.update it (locs_of (sp_res st) it @ [new]) (sp_res st)
         in if int (exclusives res) < nexcl then (if pass = 0 then Break st else Next st)
            else Next (st\<lparr>sp_res := res\<rparr>)))"

definition stripe_body ::
  "('q \<Rightarrow> 'l option \<times> 'q) \<Rightarrow> 'l locs \<Rightarrow> int \<Rightarrow> nat \<Rightarrow> 'i \<Rightarrow> 'l locs \<Rightarrow>
   ('i, 'l, 'q) stripe_st \<Rightarrow> (err \<times> 'q, ('i, 'l, 'q) stripe_st) ctl" where
  "stripe_body nxt dests excl pass it got st =
     (case stripe_next nxt st of
        (Inl e, st') \<Rightarrow> Fail (e, sp_seq st')
      | (Inr None, st') \<Rightarrow> Next st'
      | (Inr (Some new), st') \<Rightarrow>
          (case (if new \<notin> set got then map_of (sp_prios st') new else None) of
             Some prio \<Rightarrow>
               if prio > 0 then
                 Next (st'\<lparr>sp_prios := AList.update new (prio - 1) (sp_prios st'),
                           sp_seen := removeAll (Some new) (sp_seen st')\<rparr>)
               else stripe_place dests excl pass it new
                      (st'\<lparr>sp_prios := AList.delete new (sp_prios st')\<rparr>)
           | None \<Rightarrow> stripe_place dests excl pass it new st'))"

definition with_item :: "'i \<Rightarrow> ('i, 'l) stripe \<Rightarrow> ('i, 'l) stripe" where
  "with_item it res = (if map_of res it = None then AList.update it [] res else res)"

definition stripe_item ::
  "('q \<Rightarrow> 'l option \<times> 'q) \<Rightarrow> (nat \<Rightarrow> 'i \<Rightarrow> 'l locs \<Rightarrow> 'l locs) \<Rightarrow> 'l locs \<Rightarrow> int \<Rightarrow> int \<Rightarrow> nat \<Rightarrow>
   'i \<Rightarrow> 'l locs \<Rightarrow> ('i, 'l, 'q) stripe_st \<Rightarrow> (err \<times> 'q + ('i, 'l, 'q) stripe_st) option" where
  "stripe_item nxt ord dests mn excl pass it got st =
     go_loop (\<lambda>st. int (length (locs_of (sp_res st) it)) < mn)
       (stripe_body nxt dests excl pass it got)
       (st\<lparr>sp_old := ord pass it got, sp_seen := [],
           sp_res := with_item it (sp_res st)\<rparr>)"

fun stripe_items ::
  "('q \<Rightarrow> 'l option \<times> 'q) \<Rightarrow> (nat \<Rightarrow> 'i \<Rightarrow> 'l locs \<Rightarrow> 'l locs) \<Rightarrow> 'l locs \<Rightarrow> int \<Rightarrow> int \<Rightarrow> nat \<Rightarrow>
   ('i, 'l) stripe \<Rightarrow> ('i, 'l, 'q) stripe_st \<Rightarrow> (err \<times> 'q + ('i, 'l, 'q) stripe_st) option" where
  "stripe_items nxt ord dests mn excl pass [] st = Some (Inr st)"
| "stripe_items nxt ord dests mn excl pass ((it, got) # s) st =
     (case stripe_item nxt ord dests mn excl pass it got st of
        None \<Rightarrow> None
      | Some (Inl e) \<Rightarrow> Some (Inl e)
      | Some (Inr st') \<Rightarrow> stripe_items nxt ord dests mn excl pass s st')"

text \<open>What is left of the result once the locations an item already has are removed.\<close>

definition stripe_new :: "('i, 'l) stripe \<Rightarrow> ('i, 'l) stripe \<Rightarrow> ('i, 'l) stripe" where
  "stripe_new s res = map (\<lambda>(it, ls). (it, filter (\<lambda>l. l \<notin> set (locs_of s it)) ls)) res"

text \<open>
  \<open>S.Stripe\<close>: its result and the sequence afterwards; \<open>None\<close> is a call that never returns.
\<close>

definition stripe_start :: "'l locs \<Rightarrow> 'q \<Rightarrow> ('i, 'l) stripe \<Rightarrow> ('i, 'l, 'q) stripe_st" where
  "stripe_start dests q s =
     \<lparr>sp_old = [], sp_seen = [], sp_prios = stripe_prios dests s, sp_seq = q, sp_res = []\<rparr>"

definition stripe ::
  "('q \<Rightarrow> 'l option \<times> 'q) \<Rightarrow> (nat \<Rightarrow> 'i \<Rightarrow> 'l locs \<Rightarrow> 'l locs) \<Rightarrow> 'l locs \<Rightarrow> 'q \<Rightarrow> int \<Rightarrow> int \<Rightarrow>
   ('i, 'l) stripe \<Rightarrow> ((err + ('i, 'l) stripe) \<times> 'q) option" where
  "stripe nxt ord dests q mn excl s =
     (case stripe_items nxt ord dests mn excl 0 s (stripe_start dests q s) of
        None \<Rightarrow> None
      | Some (Inl (e, q')) \<Rightarrow> Some (Inl e, q')
      | Some (Inr st) \<Rightarrow>
          (case stripe_items nxt ord dests mn excl 1 s st of
             None \<Rightarrow> None
           | Some (Inl (e, q')) \<Rightarrow> Some (Inl e, q')
           | Some (Inr st') \<Rightarrow> Some (Inr (stripe_new s (sp_res st')), sp_seq st')))"

record stripe_config =
  cfg_min :: int
  cfg_excl :: int

definition config_stripe ::
  "stripe_config \<Rightarrow> ('q \<Rightarrow> 'l option \<times> 'q) \<Rightarrow> (nat \<Rightarrow> 'i \<Rightarrow> 'l locs \<Rightarrow> 'l locs) \<Rightarrow> ('i, 'l) stripe \<Rightarrow>
   'l locs \<Rightarrow> 'q \<Rightarrow> ((err + ('i, 'l) stripe) \<times> 'q) option" where
  "config_stripe cfg nxt ord s dests q = stripe nxt ord dests q (cfg_min cfg) (cfg_excl cfg) s"

section \<open>The result\<close>

lemma locs_of_update [simp]:
  "locs_of (AList.update it ls s) it' = (if it' = it then ls else locs_of s it')"
  by (simp add: locs_of_def update_conv')

lemma locs_of_Nil [simp]: "locs_of [] it = []"
  by (simp add: locs_of_def)

lemma locs_of_absent: "it \<notin> fst ` set s \<Longrightarrow> locs_of s it = []"
  using map_of_eq_None_iff [of s it] by (simp add: locs_of_def)

text \<open>The exclusivity the loop checks, and what every intermediate result satisfies.\<close>

definition excl_ok :: "int \<Rightarrow> ('i, 'l) stripe \<Rightarrow> bool" where
  "excl_ok excl res \<longleftrightarrow> min excl (int (length res)) \<le> int (exclusives res)"

definition res_ok :: "'l locs \<Rightarrow> int \<Rightarrow> ('i, 'l) stripe \<Rightarrow> bool" where
  "res_ok dests mn res \<longleftrightarrow> distinct (map fst res) \<and>
     (\<forall>it. distinct (locs_of res it) \<and> set (locs_of res it) \<subseteq> set dests \<and>
           int (length (locs_of res it)) \<le> max 0 mn)"

lemma stripe_next_res: "stripe_next nxt st = (r, st') \<Longrightarrow> sp_res st' = sp_res st"
  by (auto simp: stripe_next_def Let_def split: list.splits prod.splits if_splits)

definition added :: "'l locs \<Rightarrow> int \<Rightarrow> 'i \<Rightarrow> ('i, 'l) stripe \<Rightarrow> ('i, 'l) stripe \<Rightarrow> bool" where
  "added dests excl it res res' \<longleftrightarrow> excl_ok excl res' \<and>
     (\<exists>new. new \<in> set dests \<and> new \<notin> set (locs_of res it) \<and>
        res' = AList.update it (locs_of res it @ [new]) res)"

lemma stripe_place_cases:
  "stripe_place dests excl pass it new st = Next st \<or>
   (pass = 0 \<and> stripe_place dests excl pass it new st = Break st) \<or>
   (\<exists>res. stripe_place dests excl pass it new st = Next (st\<lparr>sp_res := res\<rparr>) \<and>
      added dests excl it (sp_res st) res \<and>
      new \<in> set dests \<and> res = AList.update it (locs_of (sp_res st) it @ [new]) (sp_res st))"
  if "it \<in> fst ` set (sp_res st)"
proof -
  have "length (AList.update it ls (sp_res st)) = length (sp_res st)" for ls
    using that by (metis length_map update_keys list.set_map)
  then show ?thesis
    by (auto simp: stripe_place_def added_def excl_ok_def Let_def min_def)
qed

lemma stripe_body_cases:
  assumes "it \<in> fst ` set (sp_res st)"
  shows "case stripe_body nxt dests excl pass it got st of
      Fail e \<Rightarrow> True
    | Break st' \<Rightarrow> pass = 0 \<and> sp_res st' = sp_res st
    | Next st' \<Rightarrow> sp_res st' = sp_res st \<or> added dests excl it (sp_res st) (sp_res st')"
proof -
  obtain r st1 where nx: "stripe_next nxt st = (r, st1)" by fastforce
  have res: "sp_res st1 = sp_res st"
    using nx by (rule stripe_next_res)
  have place: "case stripe_place dests excl pass it new st2 of
      Fail e \<Rightarrow> True
    | Break st' \<Rightarrow> pass = 0 \<and> sp_res st' = sp_res st
    | Next st' \<Rightarrow> sp_res st' = sp_res st \<or> added dests excl it (sp_res st) (sp_res st')"
    if "sp_res st2 = sp_res st" for new and st2 :: "('a, 'b, 'c) stripe_st"
    using stripe_place_cases [of it st2 dests excl pass new] assms that by auto
  show ?thesis
    unfolding stripe_body_def nx
    using res by (auto split: sum.split option.split intro!: place)
qed

lemma with_item_simps:
  "locs_of (with_item it res) = locs_of res"
  "map fst (with_item it res) = (if it \<in> fst ` set res then map fst res else map fst res @ [it])"
  "it \<in> fst ` set (with_item it res)"
proof -
  show "locs_of (with_item it res) = locs_of res"
    by (auto simp: with_item_def locs_of_def update_conv' fun_eq_iff)
  show keys: "map fst (with_item it res) = (if it \<in> fst ` set res then map fst res else map fst res @ [it])"
    by (auto simp: with_item_def update_keys map_of_eq_None_iff)
  show "it \<in> fst ` set (with_item it res)"
    using arg_cong [OF keys, of set] by auto
qed

declare with_item_simps(1,3) [simp]

lemma update_keys_same: "it \<in> fst ` set res \<Longrightarrow> map fst (AList.update it ls res) = map fst res"
  by (simp add: update_keys)

lemma added_simps:
  assumes "added dests excl it res res'" and "it \<in> fst ` set res"
  shows "map fst res' = map fst res" and "length (locs_of res' it) = Suc (length (locs_of res it))"
    and "j \<noteq> it \<Longrightarrow> locs_of res' j = locs_of res j" and "excl_ok excl res'"
proof -
  from assms(1) obtain new where "res' = AList.update it (locs_of res it @ [new]) res" "excl_ok excl res'"
    by (auto simp: added_def)
  with assms(2) show "map fst res' = map fst res" "length (locs_of res' it) = Suc (length (locs_of res it))"
    "j \<noteq> it \<Longrightarrow> locs_of res' j = locs_of res j" "excl_ok excl res'"
    by (simp_all add: update_keys_same)
qed

lemma res_ok_added:
  assumes "added dests excl it res res'" and "it \<in> fst ` set res" and "res_ok dests mn res"
    and "int (length (locs_of res it)) < mn"
  shows "res_ok dests mn res'"
proof -
  from assms(1) obtain new where "res' = AList.update it (locs_of res it @ [new]) res"
    "new \<in> set dests" "new \<notin> set (locs_of res it)"
    by (auto simp: added_def)
  with assms(2-4) show ?thesis
    by (simp add: res_ok_def update_keys_same)
qed

lemma stripe_item_ok:
  fixes st :: "('i, 'l, 'q) stripe_st"
  assumes ret: "stripe_item nxt ord dests mn excl pass it got st = Some (Inr st')"
    and ok: "res_ok dests mn (sp_res st)"
  shows "res_ok dests mn (sp_res st') \<and>
    map fst (sp_res st') = map fst (with_item it (sp_res st)) \<and>
    (\<forall>j. j \<noteq> it \<longrightarrow> locs_of (sp_res st') j = locs_of (sp_res st) j) \<and>
    (sp_res st' = with_item it (sp_res st) \<or> excl_ok excl (sp_res st')) \<and>
    (pass \<noteq> 0 \<longrightarrow> mn \<le> int (length (locs_of (sp_res st') it)))"
    (is "?P st'")
proof -
  let ?res = "with_item it (sp_res st)"
  define I where "I st2 \<longleftrightarrow> res_ok dests mn (sp_res st2) \<and> map fst (sp_res st2) = map fst ?res \<and>
    (\<forall>j. j \<noteq> it \<longrightarrow> locs_of (sp_res st2) j = locs_of (sp_res st) j) \<and>
    (sp_res st2 = ?res \<or> excl_ok excl (sp_res st2))" for st2 :: "('i, 'l, 'q) stripe_st"
  have keys: "it \<in> fst ` set (sp_res st2)" if "I st2" for st2
  proof -
    have "set (map fst (sp_res st2)) = set (map fst ?res)"
      using that by (simp add: I_def)
    with with_item_simps(3) [of it "sp_res st"] show ?thesis by simp
  qed
  let ?b = "\<lambda>st. int (length (locs_of (sp_res st) it)) < mn"
  have body: "case stripe_body nxt dests excl pass it got st2 of
      Fail e \<Rightarrow> True | Break st3 \<Rightarrow> pass = 0 \<and> I st3 | Next st3 \<Rightarrow> I st3" if inv: "I st2" and b: "?b st2" for st2
  proof -
    note same = stripe_body_cases [OF keys [OF inv], where nxt = nxt and dests = dests and
        excl = excl and pass = pass and got = got]
    show ?thesis
    proof (cases "stripe_body nxt dests excl pass it got st2")
      case (Next st3)
      then consider "sp_res st3 = sp_res st2" | "added dests excl it (sp_res st2) (sp_res st3)"
        using same by auto
      then have "I st3"
      proof cases
        case 2
        note add = added_simps [OF 2 keys [OF inv]] res_ok_added [OF 2 keys [OF inv]]
        show ?thesis
          using inv add b by (simp add: I_def)
      qed (use inv in \<open>simp add: I_def\<close>)
      with Next show ?thesis by simp
    qed (use same inv in \<open>simp_all add: I_def\<close>)
  qed
  have start: "I (st\<lparr>sp_old := ord pass it got, sp_seen := [], sp_res := ?res\<rparr>)"
    using ok by (cases "it \<in> fst ` set (sp_res st)") (simp_all add: I_def res_ok_def with_item_simps(2))
  have "\<forall>st'. r = Inr st' \<longrightarrow> ?P st'"
    if run: "go_loop ?b (stripe_body nxt dests excl pass it got)
      (st\<lparr>sp_old := ord pass it got, sp_seen := [], sp_res := ?res\<rparr>) = Some r" for r
  proof (rule go_loop_rule [OF run, where I = I])
    show "I (st\<lparr>sp_old := ord pass it got, sp_seen := [], sp_res := ?res\<rparr>)"
      by (rule start)
  next
    fix st1 st2
    assume "I st1" "?b st1" "stripe_body nxt dests excl pass it got st1 = Break st2"
    with body [of st1] show "\<forall>st'. Inr st2 = Inr st' \<longrightarrow> ?P st'"
      by (auto simp: I_def)
  next
    fix st1 st2
    assume "I st1" "?b st1" "stripe_body nxt dests excl pass it got st1 = Next st2"
    with body [of st1] show "I st2" by simp
  qed (auto simp: I_def)
  with ret show ?thesis
    by (simp add: stripe_item_def)
qed

text \<open>A pass over items of which none, or every one, is in the result already.\<close>

lemma stripe_items_ok:
  assumes "stripe_items nxt ord dests mn excl pass s st = Some (Inr st')"
    and "res_ok dests mn (sp_res st)" and "distinct (map fst s)"
  shows "res_ok dests mn (sp_res st') \<and>
    map fst (sp_res st') = map fst (sp_res st) @ filter (\<lambda>it. it \<notin> fst ` set (sp_res st)) (map fst s) \<and>
    (\<forall>j. j \<notin> fst ` set s \<longrightarrow> locs_of (sp_res st') j = locs_of (sp_res st) j) \<and>
    (pass \<noteq> 0 \<longrightarrow> (\<forall>j \<in> fst ` set s. mn \<le> int (length (locs_of (sp_res st') j))))"
  using assms
proof (induction s arbitrary: st)
  case Nil
  then show ?case by simp
next
  case (Cons x s)
  obtain it got where x: "x = (it, got)" by fastforce
  with Cons.prems(1) obtain st1 where item: "stripe_item nxt ord dests mn excl pass it got st = Some (Inr st1)"
    and rest: "stripe_items nxt ord dests mn excl pass s st1 = Some (Inr st')"
    by (auto split: option.splits sum.splits)
  note ok = stripe_item_ok [OF item Cons.prems(2)]
  have IH: "res_ok dests mn (sp_res st') \<and>
    map fst (sp_res st') = map fst (sp_res st1) @ filter (\<lambda>it. it \<notin> fst ` set (sp_res st1)) (map fst s) \<and>
    (\<forall>j. j \<notin> fst ` set s \<longrightarrow> locs_of (sp_res st') j = locs_of (sp_res st1) j) \<and>
    (pass \<noteq> 0 \<longrightarrow> (\<forall>j \<in> fst ` set s. mn \<le> int (length (locs_of (sp_res st') j))))"
    using Cons.IH [OF rest] ok Cons.prems(3) by simp
  have keys: "fst ` set (sp_res st1) = insert it (fst ` set (sp_res st))"
    using arg_cong [where f = set, OF conjunct1 [OF conjunct2 [OF ok]]]
      with_item_simps(2) [of it "sp_res st"] by auto
  have notin: "it \<notin> fst ` set s"
    using Cons.prems(3) x by simp
  then have "filter (\<lambda>j. j \<notin> fst ` set (sp_res st1)) (map fst s) =
      filter (\<lambda>j. j \<notin> fst ` set (sp_res st)) (map fst s)"
    by (intro filter_cong) (auto simp: keys)
  then show ?case
    using IH ok notin by (auto simp: x with_item_simps(2))
qed

text \<open>Whether the result is exclusive enough after the first pass, and through the second.\<close>

lemma stripe_items_excl_first:
  assumes "stripe_items nxt ord dests mn excl pass s st = Some (Inr st')"
    and "res_ok dests mn (sp_res st)" and "distinct (map fst s)"
    and "fst ` set s \<inter> fst ` set (sp_res st) = {}" and "s \<noteq> []" and "1 \<le> mn"
  shows "excl_ok excl (sp_res st') \<or> int (length (locs_of (sp_res st') (fst (last s)))) < mn"
  using assms
proof (induction s arbitrary: st)
  case (Cons x s)
  obtain it got where x: "x = (it, got)" by fastforce
  with Cons.prems(1) obtain st1 where item: "stripe_item nxt ord dests mn excl pass it got st = Some (Inr st1)"
    and rest: "stripe_items nxt ord dests mn excl pass s st1 = Some (Inr st')"
    by (auto split: option.splits sum.splits)
  note ok = stripe_item_ok [OF item Cons.prems(2)]
  show ?case
  proof (cases "s = []")
    case True
    have "it \<notin> fst ` set (sp_res st)"
      using Cons.prems(4) x by auto
    then have "locs_of (sp_res st1) it = []" if "sp_res st1 = with_item it (sp_res st)"
      using that by (simp add: locs_of_absent)
    with ok True rest x Cons.prems(6) show ?thesis by auto
  next
    case False
    have "fst ` set (sp_res st1) = insert it (fst ` set (sp_res st))"
      using arg_cong [where f = set, OF conjunct1 [OF conjunct2 [OF ok]]]
        with_item_simps(2) [of it "sp_res st"] by auto
    then have "fst ` set s \<inter> fst ` set (sp_res st1) = {}"
      using Cons.prems(3,4) x by auto
    with Cons.IH [OF rest] ok False Cons.prems(3,6) show ?thesis by simp
  qed
qed simp

lemma stripe_items_excl_second:
  assumes "stripe_items nxt ord dests mn excl pass s st = Some (Inr st')"
    and "res_ok dests mn (sp_res st)" and "fst ` set s \<subseteq> fst ` set (sp_res st)"
  shows "sp_res st' = sp_res st \<or> excl_ok excl (sp_res st')"
  using assms
proof (induction s arbitrary: st)
  case (Cons x s)
  obtain it got where x: "x = (it, got)" by fastforce
  with Cons.prems(1) obtain st1 where item: "stripe_item nxt ord dests mn excl pass it got st = Some (Inr st1)"
    and rest: "stripe_items nxt ord dests mn excl pass s st1 = Some (Inr st')"
    by (auto split: option.splits sum.splits)
  note ok = stripe_item_ok [OF item Cons.prems(2)]
  have same: "with_item it (sp_res st) = sp_res st"
    using Cons.prems(3) x by (force simp: with_item_def map_of_eq_None_iff)
  then have "map fst (sp_res st1) = map fst (sp_res st)"
    using ok by simp
  then have "fst ` set (sp_res st1) = fst ` set (sp_res st)"
    by (metis list.set_map)
  with Cons.IH [OF rest] ok Cons.prems(3) have "sp_res st' = sp_res st1 \<or> excl_ok excl (sp_res st')"
    by simp
  with ok same show ?case by auto
qed simp

text \<open>What \<open>exclusives\<close> counts.\<close>

definition apart :: "('i, 'l) stripe \<Rightarrow> 'i set" where
  "apart s = {it \<in> fst ` set s. \<forall>it' \<in> fst ` set s.
     it' \<noteq> it \<longrightarrow> set (locs_of s it') \<noteq> set (locs_of s it)}"

lemma equal_locs_iff: "distinct a \<Longrightarrow> distinct b \<Longrightarrow> equal_locs a b \<longleftrightarrow> set a = set b"
  unfolding equal_locs_def
  by (metis card_subset_eq distinct_card finite_set subset_code(1))

lemma exclusives_card:
  assumes "distinct (map fst s)" and "\<And>it. distinct (locs_of s it)"
  shows "exclusives s = card (apart s)"
proof -
  let ?P = "\<lambda>(a, al). \<not> (\<exists>(b, bl) \<in> set s. a \<noteq> b \<and> equal_locs al bl)"
  have at: "locs_of s a = al" if "(a, al) \<in> set s" for a al
    using that assms(1) by (simp add: locs_of_def)
  have eq: "equal_locs al bl \<longleftrightarrow> set al = set bl" if "(a, al) \<in> set s" "(b, bl) \<in> set s" for a al b bl
    using at [OF that(1)] at [OF that(2)] assms(2) equal_locs_iff by metis
  have "fst ` set (filter ?P s) = apart s"
  proof (intro equalityI subsetI)
    fix a assume "a \<in> fst ` set (filter ?P s)"
    then obtain al where al: "(a, al) \<in> set s" "?P (a, al)" by auto
    have "set (locs_of s b) \<noteq> set (locs_of s a)" if "b \<noteq> a" "(b, bl) \<in> set s" for b bl
      using al that eq [OF al(1) that(2)] at [OF al(1)] at [OF that(2)] by auto
    with al(1) show "a \<in> apart s"
      by (force simp: apart_def)
  next
    fix a assume "a \<in> apart s"
    then have "a \<in> fst ` set s" and other: "\<And>b. b \<in> fst ` set s \<Longrightarrow> b \<noteq> a \<Longrightarrow> set (locs_of s b) \<noteq> set (locs_of s a)"
      unfolding apart_def by blast+
    then obtain al where al: "(a, al) \<in> set s" by auto
    have "\<not> equal_locs al bl" if "(b, bl) \<in> set s" "a \<noteq> b" for b bl
      using other [of b] that eq [OF al that(1)] at [OF al] at [OF that(1)] by force
    with al show "a \<in> fst ` set (filter ?P s)"
      by (force intro: image_eqI [of _ _ "(a, al)"])
  qed
  moreover have "card (fst ` set (filter ?P s)) = length (filter ?P s)"
    using assms(1) distinct_card [of "map fst (filter ?P s)"] by (simp add: distinct_map_filter)
  ultimately show ?thesis
    by (simp add: exclusives_def)
qed

lemma stripe_full:
  assumes ret: "stripe nxt ord dests q mn excl s = Some (Inr new, q')" and keys: "distinct (map fst s)"
  shows "\<exists>full. new = stripe_new s full \<and> map fst full = map fst s \<and>
    (\<forall>it \<in> fst ` set s. distinct (locs_of full it) \<and> set (locs_of full it) \<subseteq> set dests \<and>
       int (length (locs_of full it)) = max 0 mn) \<and>
    (1 \<le> mn \<longrightarrow> min excl (int (length s)) \<le> int (card (apart full)))"
proof -
  obtain st1 st2 where first: "stripe_items nxt ord dests mn excl 0 s (stripe_start dests q s) = Some (Inr st1)"
    and second: "stripe_items nxt ord dests mn excl 1 s st1 = Some (Inr st2)"
    and new: "new = stripe_new s (sp_res st2)"
    using ret by (auto simp: stripe_def split: option.splits sum.splits)
  have start: "res_ok dests mn (sp_res (stripe_start dests q s))"
    by (simp add: res_ok_def stripe_start_def)
  note ok1 = stripe_items_ok [OF first start keys]
  then have keys1: "map fst (sp_res st1) = map fst s" and res1: "res_ok dests mn (sp_res st1)"
    by (simp_all add: stripe_start_def)
  then have dom1: "fst ` set (sp_res st1) = fst ` set s"
    by (metis list.set_map)
  note ok2 = stripe_items_ok [OF second res1 keys]
  then have keys2: "map fst (sp_res st2) = map fst s" and res2: "res_ok dests mn (sp_res st2)"
    and full: "\<forall>it \<in> fst ` set s. mn \<le> int (length (locs_of (sp_res st2) it))"
    by (simp_all add: dom1 keys1 filter_empty_conv)
  have "excl_ok excl (sp_res st2)" if mn: "1 \<le> mn"
  proof (cases "s = []")
    case False
    have "excl_ok excl (sp_res st1) \<or> int (length (locs_of (sp_res st1) (fst (last s)))) < mn"
      using stripe_items_excl_first [OF first start keys _ False mn] by (simp add: stripe_start_def)
    moreover have "sp_res st2 = sp_res st1 \<or> excl_ok excl (sp_res st2)"
      using stripe_items_excl_second [OF second res1] dom1 by simp
    moreover have "mn \<le> int (length (locs_of (sp_res st2) (fst (last s))))"
      using full False by simp
    ultimately show ?thesis by auto
  qed (use keys2 in \<open>simp add: excl_ok_def\<close>)
  moreover have "length (sp_res st2) = length s"
    using arg_cong [OF keys2, of length] by simp
  moreover have "exclusives (sp_res st2) = card (apart (sp_res st2))"
    using res2 by (intro exclusives_card) (simp_all add: res_ok_def)
  ultimately have "1 \<le> mn \<longrightarrow> min excl (int (length s)) \<le> int (card (apart (sp_res st2)))"
    by (simp add: excl_ok_def)
  moreover have "\<forall>it \<in> fst ` set s. int (length (locs_of (sp_res st2) it)) = max 0 mn"
    using full res2 by (auto simp: res_ok_def intro!: order_antisym)
  ultimately show ?thesis
    using new keys2 res2 by (intro exI [of _ "sp_res st2"]) (simp add: res_ok_def)
qed

text \<open>
  C9: when \<open>Stripe\<close> returns a result, it completes a full assignment: every item of the
  argument has exactly \<open>min\<close> distinct locations, all of them destinations, of which the
  result lists those the item did not have; and if \<open>min\<close> is at least 1, at least \<open>excl\<close> of the items (or
  all of them) have a set of locations no other item has. Nothing is assumed of the sequence.
\<close>

theorem stripe_sound:
  assumes ret: "stripe nxt ord dests q mn excl s = Some (Inr new, q')" and keys: "distinct (map fst s)"
  shows "\<exists>full. new = stripe_new s full \<and> map fst full = map fst s \<and>
    (\<forall>it \<in> fst ` set s. distinct (locs_of full it) \<and> set (locs_of full it) \<subseteq> set dests \<and>
       int (length (locs_of full it)) = max 0 mn) \<and>
    (1 \<le> mn \<longrightarrow> min excl (int (length s)) \<le> int (card (apart full)))"
  using assms by (rule stripe_full)


definition keep_order :: "nat \<Rightarrow> nat \<Rightarrow> nat locs \<Rightarrow> nat locs" where
  "keep_order p it ls = ls"

lemma stripe_example:
  "stripe rr_next keep_order [0, 1, 2] (new_rr [0, 1, 2]) 2 1 [(7, []), (8, [1]), (9, [])] =
     Some (Inr [(7, [0, 2]), (8, [0]), (9, [1, 2])], new_rr [0, 1, 2])"
  by code_simp

theorem stripe_sound_witness:
  "\<exists>full. [(7 :: nat, [0, 2]), (8, [0]), (9, [1, 2 :: nat])] = stripe_new [(7, []), (8, [1]), (9, [])] full \<and>
    map fst full = map fst [(7 :: nat, []), (8, [1 :: nat]), (9, [])] \<and>
    (\<forall>it \<in> fst ` set [(7, []), (8, [1 :: nat]), (9, [])]. distinct (locs_of full it) \<and>
       set (locs_of full it) \<subseteq> set [0, 1, 2] \<and> int (length (locs_of full it)) = max 0 2) \<and>
    (1 \<le> (2 :: int) \<longrightarrow>
       min 1 (int (length [(7 :: nat, []), (8, [1 :: nat]), (9, [])])) \<le> int (card (apart full)))"
  by (rule stripe_sound [OF stripe_example]) simp

section \<open>Priorities\<close>

definition prio_sum :: "('l \<times> nat) list \<Rightarrow> nat" where
  "prio_sum prios = sum_list (map (\<lambda>(_, n). n + 1) prios)"

lemma prio_sum_delete_le: "prio_sum (AList.delete l prios) \<le> prio_sum prios"
  by (induction prios) (auto simp: prio_sum_def)

lemma prio_sum_delete: "l \<in> fst ` set prios \<Longrightarrow> prio_sum (AList.delete l prios) < prio_sum prios"
proof (induction prios)
  case (Cons x prios)
  then show ?case
    using prio_sum_delete_le [of l prios] by (cases x) (auto simp: prio_sum_def)
qed simp

lemma prio_sum_update:
  "map_of prios l = Some p \<Longrightarrow> n < p \<Longrightarrow> prio_sum (AList.update l n prios) < prio_sum prios"
  by (induction prios) (auto simp: prio_sum_def split: if_splits)

lemma delete_keys_set: "fst ` set (AList.delete l prios) = fst ` set prios - {l}"
  by (metis delete_keys list.set_map set_removeAll)

lemma bump_keys: "fst ` set (bump l prios) = insert l (fst ` set prios)"
proof -
  have "set (map fst (AList.update l n prios)) = insert l (set (map fst prios))" for n
    unfolding update_keys by auto
  then show ?thesis by (simp add: bump_def)
qed

text \<open>Placing a location changes nothing but the result.\<close>

definition same_book :: "('i, 'l, 'q) stripe_st \<Rightarrow> ('i, 'l, 'q) stripe_st \<Rightarrow> bool" where
  "same_book st st' \<longleftrightarrow> sp_old st' = sp_old st \<and> sp_seen st' = sp_seen st \<and>
     sp_prios st' = sp_prios st \<and> sp_seq st' = sp_seq st"

lemma same_book_refl [simp]: "same_book st st" "same_book st (st\<lparr>sp_res := res\<rparr>)"
  by (simp_all add: same_book_def)

lemma stripe_place_book:
  "case stripe_place dests excl pass it new st of
     Fail _ \<Rightarrow> False | Break st' \<Rightarrow> st' = st | Next st' \<Rightarrow> same_book st st'"
  by (auto simp: stripe_place_def Let_def)

lemma stripe_place_free:
  assumes "excl \<le> 0"
  shows "\<exists>st'. stripe_place dests excl pass it new st = Next st' \<and> same_book st st' \<and>
    (new \<in> set dests \<longrightarrow> new \<in> set (locs_of (sp_res st') it)) \<and>
    set (locs_of (sp_res st) it) \<subseteq> set (locs_of (sp_res st') it)"
  using assms by (auto simp: stripe_place_def Let_def)

section \<open>What the striper needs of a sequence\<close>

text \<open>
  \<open>Seq\<close>: a sequence that yields its upcoming locations in turn and for ever, and \<open>nil\<close> when
  it has none.
\<close>

locale cyclic_seq =
  fixes nxt :: "'q \<Rightarrow> 'l option \<times> 'q"
    and ok :: "'q \<Rightarrow> bool"
    and upcoming :: "'q \<Rightarrow> 'l list"
  assumes next_some: "ok q \<Longrightarrow> upcoming q = x # xs \<Longrightarrow>
      fst (nxt q) = Some x \<and> ok (snd (nxt q)) \<and> upcoming (snd (nxt q)) = xs @ [x]"
    and next_none: "ok q \<Longrightarrow> upcoming q = [] \<Longrightarrow>
      fst (nxt q) = None \<and> ok (snd (nxt q)) \<and> upcoming (snd (nxt q)) = []"

begin

text \<open>The book the striper keeps, apart from the result.\<close>

definition book :: "'l multiset \<Rightarrow> 'l locs \<Rightarrow> ('i, 'l, 'q) stripe_st \<Rightarrow> bool" where
  "book M got st \<longleftrightarrow> ok (sp_seq st) \<and> mset (upcoming (sp_seq st)) = M \<and>
     distinct (map fst (sp_prios st)) \<and> fst ` set (sp_prios st) \<subseteq> set_mset M \<and>
     set (sp_old st) \<subseteq> set got"

lemma book_update:
  assumes "book M got st" and "upcoming (sp_seq st) = x # xs" and "ok q" and "upcoming q = xs @ [x]"
    and "distinct (map fst prios)" and "fst ` set prios \<subseteq> fst ` set (sp_prios st)"
    and "sp_old st' = sp_old st" "sp_seq st' = q" "sp_prios st' = prios"
  shows "book M got st'"
  using assms subset_trans [OF assms(6)] by (simp add: book_def)

lemma book_delete:
  assumes "book M got st"
  shows "distinct (map fst (AList.delete x (sp_prios st)))"
    and "fst ` set (AList.delete x (sp_prios st)) \<subseteq> fst ` set (sp_prios st)"
  using assms by (auto simp: book_def distinct_delete delete_keys_set)

text \<open>The ways a turn of the loop goes, by where its location comes from.\<close>

lemma stripe_next_cases:
  assumes "book M got st"
  obtains (old) l ls where "sp_old st = l # ls" "l \<in> set got"
      "stripe_next nxt st = (Inr (Some l), st\<lparr>sp_old := ls\<rparr>)"
  | (again) x xs q where "sp_old st = []" "upcoming (sp_seq st) = x # xs" "Some x \<in> set (sp_seen st)"
      "ok q" "upcoming q = xs @ [x]"
      "stripe_next nxt st = (if AList.delete x (sp_prios st) \<noteq> [] then Inr None else Inl ErrStripeShort,
         st\<lparr>sp_seq := q, sp_prios := AList.delete x (sp_prios st)\<rparr>)"
  | (fresh) x xs q where "sp_old st = []" "upcoming (sp_seq st) = x # xs" "Some x \<notin> set (sp_seen st)"
      "ok q" "upcoming q = xs @ [x]"
      "stripe_next nxt st = (Inr (Some x), st\<lparr>sp_seq := q, sp_seen := Some x # sp_seen st\<rparr>)"
  | (empty) q where "sp_old st = []" "upcoming (sp_seq st) = []" "sp_prios st = []"
      "ok q" "upcoming q = []"
      "stripe_next nxt st = (if None \<in> set (sp_seen st) then (Inl ErrStripeShort, st\<lparr>sp_seq := q\<rparr>)
         else (Inr None, st\<lparr>sp_seq := q, sp_seen := None # sp_seen st\<rparr>))"
proof (cases "sp_old st")
  case (Cons l ls)
  then show ?thesis
    using assms by (intro old) (auto simp: stripe_next_def book_def)
next
  case Nil
  note none = this
  obtain r q where r: "nxt (sp_seq st) = (r, q)" by fastforce
  show ?thesis
  proof (cases "upcoming (sp_seq st)")
    case up: (Cons x xs)
    have "r = Some x" "ok q" "upcoming q = xs @ [x]"
      using next_some [OF _ up] assms r by (auto simp: book_def)
    with up none r show ?thesis
      by (cases "Some x \<in> set (sp_seen st)") (auto simp: stripe_next_def intro: again fresh)
  next
    case up: Nil
    have "r = None" "ok q" "upcoming q = []"
      using next_none [OF _ up] assms r by (auto simp: book_def)
    moreover have "sp_prios st = []"
      using assms up by (auto simp: book_def)
    ultimately show ?thesis
      using up none r by (intro empty) (auto simp: stripe_next_def)
  qed
qed

lemma stripe_body_cases':
  assumes "book M got st"
  obtains (old) l ls where "sp_old st = l # ls"
      "stripe_body nxt dests excl pass it got st = stripe_place dests excl pass it l (st\<lparr>sp_old := ls\<rparr>)"
  | (again) x xs q where "sp_old st = []" "upcoming (sp_seq st) = x # xs" "Some x \<in> set (sp_seen st)"
      "ok q" "upcoming q = xs @ [x]"
      "stripe_body nxt dests excl pass it got st =
         (if AList.delete x (sp_prios st) \<noteq> []
          then Next (st\<lparr>sp_seq := q, sp_prios := AList.delete x (sp_prios st)\<rparr>)
          else Fail (ErrStripeShort, q))"
  | (put_off) x xs q p where "sp_old st = []" "upcoming (sp_seq st) = x # xs" "Some x \<notin> set (sp_seen st)"
      "ok q" "upcoming q = xs @ [x]" "map_of (sp_prios st) x = Some p" "0 < p"
      "stripe_body nxt dests excl pass it got st =
         Next (st\<lparr>sp_seq := q, sp_prios := AList.update x (p - 1) (sp_prios st),
                  sp_seen := removeAll (Some x) (sp_seen st)\<rparr>)"
  | (fresh) x xs q prios where "sp_old st = []" "upcoming (sp_seq st) = x # xs" "Some x \<notin> set (sp_seen st)"
      "ok q" "upcoming q = xs @ [x]"
      "prios = sp_prios st \<or> x \<in> fst ` set (sp_prios st) \<and> prios = AList.delete x (sp_prios st)"
      "stripe_body nxt dests excl pass it got st =
         stripe_place dests excl pass it x
           (st\<lparr>sp_seq := q, sp_seen := Some x # sp_seen st, sp_prios := prios\<rparr>)"
  | (empty) q where "sp_old st = []" "upcoming (sp_seq st) = []" "ok q" "upcoming q = []"
      "stripe_body nxt dests excl pass it got st =
         (if None \<in> set (sp_seen st) then Fail (ErrStripeShort, q)
          else Next (st\<lparr>sp_seq := q, sp_seen := None # sp_seen st\<rparr>))"
  using assms
proof (cases rule: stripe_next_cases)
  case (old l ls)
  then show ?thesis
    by (intro that(1)) (simp_all add: stripe_body_def)
next
  case (again x xs q)
  show ?thesis
    by (rule that(2) [OF again(1-5)]) (simp add: stripe_body_def again(6))
next
  case (fresh x xs q)
  let ?p = "if x \<notin> set got then map_of (sp_prios st) x else None"
  show ?thesis
  proof (cases ?p)
    case None
    show ?thesis
      using None
      by (intro that(4) [OF fresh(1-5), of "sp_prios st"])
        (cases "x \<in> set got"; simp add: stripe_body_def fresh(6))+
  next
    case (Some p)
    then have p: "map_of (sp_prios st) x = Some p" "x \<notin> set got"
      by (auto split: if_splits)
    show ?thesis
    proof (cases "0 < p")
      case True
      show ?thesis
        by (rule that(3) [OF fresh(1-5) p(1) True]) (simp add: stripe_body_def fresh(6) p True)
    next
      case False
      have "x \<in> fst ` set (sp_prios st)"
        using p(1) by (force dest: map_of_SomeD)
      with False show ?thesis
        by (intro that(4) [OF fresh(1-5), of "AList.delete x (sp_prios st)"])
          (simp_all add: stripe_body_def fresh(6) p)
    qed
  qed
next
  case (empty q)
  show ?thesis
    by (rule that(5) [OF empty(1,2,4,5)]) (simp add: stripe_body_def empty(6))
qed

definition unseen :: "('i, 'l, 'q) stripe_st \<Rightarrow> nat" where
  "unseen st = length (filter (\<lambda>l. Some l \<notin> set (sp_seen st)) (upcoming (sp_seq st))) +
     (if None \<in> set (sp_seen st) then 0 else 1)"

definition wait :: "('i, 'l, 'q) stripe_st \<Rightarrow> nat" where
  "wait st = length (takeWhile (\<lambda>l. l \<notin> fst ` set (sp_prios st)) (upcoming (sp_seq st)))"

definition turn :: "(('i, 'l, 'q) stripe_st \<times> ('i, 'l, 'q) stripe_st) set" where
  "turn = inv_image (less_than <*lex*> less_than <*lex*> less_than <*lex*> less_than)
     (\<lambda>st. (prio_sum (sp_prios st), length (sp_old st), unseen st, wait st))"

lemma wf_turn: "wf turn"
  unfolding turn_def by (intro wf_inv_image wf_lex_prod wf_less_than)

lemma turn_same_book: "same_book st st' \<Longrightarrow> (st', st'') \<in> turn \<longleftrightarrow> (st, st'') \<in> turn"
  by (simp add: same_book_def turn_def unseen_def wait_def)

lemma book_same_book: "same_book st st' \<Longrightarrow> book M got st' \<longleftrightarrow> book M got st"
  by (simp add: same_book_def book_def)

text \<open>A turn that goes on keeps the book and gets nearer to the end of the loop.\<close>

lemma turn_intros:
  "prio_sum (sp_prios st') < prio_sum (sp_prios st) \<Longrightarrow> (st', st) \<in> turn"
  "sp_prios st' = sp_prios st \<Longrightarrow> length (sp_old st') < length (sp_old st) \<Longrightarrow> (st', st) \<in> turn"
  "sp_prios st' = sp_prios st \<Longrightarrow> sp_old st' = sp_old st \<Longrightarrow> unseen st' < unseen st \<Longrightarrow> (st', st) \<in> turn"
  "sp_prios st' = sp_prios st \<Longrightarrow> sp_old st' = sp_old st \<Longrightarrow> unseen st' = unseen st \<Longrightarrow>
     wait st' < wait st \<Longrightarrow> (st', st) \<in> turn"
  by (simp_all add: turn_def)

lemma delete_absent: "x \<notin> fst ` set prios \<Longrightarrow> AList.delete x prios = prios"
  by (induction prios) auto

lemma stripe_body_next:
  assumes b: "book M got st" and step: "stripe_body nxt dests excl pass it got st = Next st'"
  shows "book M got st' \<and> (st', st) \<in> turn"
  using b
proof (cases rule: stripe_body_cases' [where dests = dests and excl = excl and pass = pass and it = it])
  case (old l ls)
  have "same_book (st\<lparr>sp_old := ls\<rparr>) st'"
    using stripe_place_book [where st = "st\<lparr>sp_old := ls\<rparr>" and dests = dests and excl = excl and pass = pass and it = it and new = l] step old(2) by simp
  then show ?thesis
    using b old(1) by (auto simp: same_book_def book_def intro: turn_intros(2))
next
  case (again x xs q)
  then have st': "st' = st\<lparr>sp_seq := q, sp_prios := AList.delete x (sp_prios st)\<rparr>"
    and ne: "AList.delete x (sp_prios st) \<noteq> []"
    using step by (simp_all split: if_splits)
  have "book M got st'"
    by (rule book_update [OF b again(2,4,5) book_delete [OF b, of x]]) (simp_all add: st')
  moreover have "(st', st) \<in> turn"
  proof (cases "x \<in> fst ` set (sp_prios st)")
    case True
    then show ?thesis
      by (intro turn_intros(1)) (simp add: st' prio_sum_delete)
  next
    case False
    then have same: "AList.delete x (sp_prios st) = sp_prios st"
      by (rule delete_absent)
    with ne obtain y where y: "y \<in> fst ` set (sp_prios st)"
      by (cases "sp_prios st") auto
    then have "y \<in> set (upcoming (sp_seq st))"
      using b by (auto simp: book_def)
    with y False again(2) have "y \<in> set xs" by auto
    with y have "takeWhile (\<lambda>l. l \<notin> fst ` set (sp_prios st)) (xs @ [x]) =
        takeWhile (\<lambda>l. l \<notin> fst ` set (sp_prios st)) xs"
      by (intro takeWhile_append1 [of y]) auto
    with False same show ?thesis
      by (intro turn_intros(4)) (simp_all add: st' unseen_def wait_def again(2,3,5))
  qed
  ultimately show ?thesis ..
next
  case (put_off x xs q p)
  have "x \<in> fst ` set (sp_prios st)"
    using put_off(6) by (force dest: map_of_SomeD)
  then have "fst ` set (AList.update x (p - 1) (sp_prios st)) = fst ` set (sp_prios st)"
    by (metis list.set_map update_keys_same)
  moreover have "prio_sum (AList.update x (p - 1) (sp_prios st)) < prio_sum (sp_prios st)"
    using diff_less [OF zero_less_one put_off(7)] by (intro prio_sum_update [OF put_off(6)])
  moreover have "distinct (map fst (AList.update x (p - 1) (sp_prios st)))"
    using b by (simp add: book_def distinct_update)
  moreover have "st' = st\<lparr>sp_seq := q, sp_prios := AList.update x (p - 1) (sp_prios st),
      sp_seen := removeAll (Some x) (sp_seen st)\<rparr>"
    using step put_off(8) by simp
  ultimately show ?thesis
    using book_update [OF b put_off(2,4,5), of "AList.update x (p - 1) (sp_prios st)" st']
    by (simp add: turn_intros(1))
next
  case (fresh x xs q prios)
  let ?st = "st\<lparr>sp_seq := q, sp_seen := Some x # sp_seen st, sp_prios := prios\<rparr>"
  have same: "same_book ?st st'"
    using stripe_place_book [where st = ?st and dests = dests and excl = excl and pass = pass and it = it and new = x] step fresh(7) by simp
  have "book M got ?st"
    using fresh(6) b book_delete [OF b, of x]
    by (intro book_update [OF b fresh(2,4,5), of prios]) (auto simp: book_def)
  moreover have "(?st, st) \<in> turn"
    using fresh(6)
  proof
    assume "prios = sp_prios st"
    moreover have "length (filter (\<lambda>l. l \<noteq> x \<and> Some l \<notin> set (sp_seen st)) xs) \<le>
        length (filter (\<lambda>l. Some l \<notin> set (sp_seen st)) xs)"
      by (induction xs) auto
    ultimately show ?thesis
      using fresh(2,3,5) by (intro turn_intros(3)) (auto simp: unseen_def)
  next
    assume "x \<in> fst ` set (sp_prios st) \<and> prios = AList.delete x (sp_prios st)"
    then show ?thesis
      by (intro turn_intros(1)) (simp add: prio_sum_delete)
  qed
  ultimately show ?thesis
    using same by (simp add: turn_same_book [OF same] book_same_book [OF same])
next
  case (empty q)
  then have st': "st' = st\<lparr>sp_seq := q, sp_seen := None # sp_seen st\<rparr>" and "None \<notin> set (sp_seen st)"
    using step by (simp_all split: if_splits)
  then have "(st', st) \<in> turn"
    by (intro turn_intros(3)) (simp_all add: st' unseen_def empty)
  then show ?thesis
    using b empty by (auto simp: book_def st')
qed

lemma stripe_body_exit:
  assumes b: "book M got st"
  shows "case stripe_body nxt dests excl pass it got st of
      Fail (e, q) \<Rightarrow> ok q \<and> mset (upcoming q) = M
    | Break st' \<Rightarrow> book M got st'
    | Next st' \<Rightarrow> book M got st'"
proof -
  have place: "case stripe_place dests excl pass it x st2 of
      Fail (e, q) \<Rightarrow> ok q \<and> mset (upcoming q) = M
    | Break st' \<Rightarrow> book M got st'
    | Next st' \<Rightarrow> book M got st'" if "book M got st2" for x st2
    using that stripe_place_book [where st = st2 and dests = dests and excl = excl and pass = pass
        and it = it and new = x]
    by (cases "stripe_place dests excl pass it x st2") (simp_all add: book_same_book)
  show ?thesis
    using b
  proof (cases rule: stripe_body_cases' [where dests = dests and excl = excl and pass = pass and it = it])
    case (old l ls)
    then show ?thesis
      using b by (auto simp: book_def intro!: place)
  next
    case (again x xs q)
    have "book M got (st\<lparr>sp_seq := q, sp_prios := AList.delete x (sp_prios st)\<rparr>)"
      by (rule book_update [OF b again(2,4,5) book_delete [OF b, of x]]) simp_all
    then show ?thesis
      using b again by (simp add: book_def)
  next
    case (put_off x xs q p)
    with stripe_body_next [OF b put_off(8)] show ?thesis by simp
  next
    case (fresh x xs q prios)
    have "book M got (st\<lparr>sp_seq := q, sp_seen := Some x # sp_seen st, sp_prios := prios\<rparr>)"
      using fresh(6) b book_delete [OF b, of x]
      by (intro book_update [OF b fresh(2,4,5), of prios]) (auto simp: book_def)
    then show ?thesis
      unfolding fresh(7) by (rule place)
  next
    case (empty q)
    then show ?thesis
      using b by (auto simp: book_def)
  qed
qed

text \<open>What a pass needs at the start of each item, and keeps.\<close>

definition ledger :: "'l multiset \<Rightarrow> ('i, 'l, 'q) stripe_st \<Rightarrow> bool" where
  "ledger M st \<longleftrightarrow> ok (sp_seq st) \<and> mset (upcoming (sp_seq st)) = M \<and>
     distinct (map fst (sp_prios st)) \<and> fst ` set (sp_prios st) \<subseteq> set_mset M"

lemma stripe_item_returns:
  fixes st :: "('i, 'l, 'q) stripe_st"
  assumes "ledger M st" and "\<forall>p i ls. set (ord p i ls) \<subseteq> set ls"
  shows "\<exists>r. stripe_item nxt ord dests mn excl pass it got st = Some r \<and>
    (case r of Inl (e, q) \<Rightarrow> ok q \<and> mset (upcoming q) = M | Inr st' \<Rightarrow> ledger M st')"
proof -
  let ?st = "st\<lparr>sp_old := ord pass it got, sp_seen := [], sp_res := with_item it (sp_res st)\<rparr>"
  let ?b = "\<lambda>st. int (length (locs_of (sp_res st) it)) < mn"
  let ?Q = "\<lambda>r. case r of Inl (e, q) \<Rightarrow> ok q \<and> mset (upcoming q) = M | Inr st' \<Rightarrow> ledger M st'"
  have start: "book M got ?st"
    using assms by (auto simp: ledger_def book_def)
  have "\<exists>r. go_loop ?b (stripe_body nxt dests excl pass it got) ?st = Some r"
    by (rule go_loop_terminates [where I = "book M got", OF wf_turn start])
      (rule stripe_body_next, assumption+)
  then obtain r where r: "go_loop ?b (stripe_body nxt dests excl pass it got) ?st = Some r" ..
  have "?Q r"
  proof (rule go_loop_rule [OF r, where I = "book M got", OF start])
    fix st1 e
    assume "book M got st1" "stripe_body nxt dests excl pass it got st1 = Fail e"
    with stripe_body_exit [of M got st1 dests excl pass it] show "?Q (Inl e)" by auto
  next
    fix st1 st2
    assume "book M got st1" "stripe_body nxt dests excl pass it got st1 = Break st2"
    with stripe_body_exit [of M got st1 dests excl pass it] show "?Q (Inr st2)"
      by (simp add: book_def ledger_def)
  next
    fix st1 st2
    assume "book M got st1" and step: "stripe_body nxt dests excl pass it got st1 = Next st2"
    from stripe_body_next [OF this] show "book M got st2" ..
  qed (simp add: book_def ledger_def)
  with r show ?thesis
    by (simp add: stripe_item_def)
qed

lemma stripe_items_returns:
  assumes "ledger M st" and "\<forall>p i ls. set (ord p i ls) \<subseteq> set ls"
  shows "\<exists>r. stripe_items nxt ord dests mn excl pass s st = Some r \<and>
    (case r of Inl (e, q) \<Rightarrow> ok q \<and> mset (upcoming q) = M | Inr st' \<Rightarrow> ledger M st')"
  using assms(1)
proof (induction s arbitrary: st)
  case (Cons x s)
  obtain it got where x: "x = (it, got)" by fastforce
  obtain r where "stripe_item nxt ord dests mn excl pass it got st = Some r"
    "case r of Inl (e, q) \<Rightarrow> ok q \<and> mset (upcoming q) = M | Inr st' \<Rightarrow> ledger M st'"
    using stripe_item_returns [OF Cons.prems assms(2)] by blast
  with Cons.IH show ?case
    by (cases r) (auto simp: x)
qed simp

end

lemma stripe_prios_keys:
  "distinct (map fst (stripe_prios dests s)) \<and> fst ` set (stripe_prios dests s) \<subseteq> set dests"
proof -
  let ?P = "\<lambda>prios. distinct (map fst prios) \<and> fst ` set prios \<subseteq> set dests"
  have one: "?P (fold (\<lambda>l prios. if l \<in> set dests then bump l prios else prios) got prios)"
    if "?P prios" for got and prios :: "('a \<times> nat) list"
    using that
  proof (induction got arbitrary: prios)
    case (Cons l got)
    have "?P (bump l prios)" if "l \<in> set dests"
      using Cons.prems that bump_keys [of l prios] by (simp add: bump_def distinct_update)
    with Cons show ?case by simp
  qed simp
  have "?P (fold (\<lambda>(it, got) prios.
      fold (\<lambda>l prios. if l \<in> set dests then bump l prios else prios) got prios) s prios)"
    if "?P prios" for prios
    using that
  proof (induction s arbitrary: prios)
    case (Cons x s)
    show ?case
      using Cons.IH [OF one [OF Cons.prems, of "snd x"]] by (simp add: split_beta)
  qed simp
  then show ?thesis
    by (simp add: stripe_prios_def)
qed

context cyclic_seq
begin

text \<open>\<open>Stripe\<close> always returns, whatever it is asked for.\<close>

lemma stripe_returns:
  assumes "ok q" and "set dests \<subseteq> set (upcoming q)" and "\<forall>p i ls. set (ord p i ls) \<subseteq> set ls"
  shows "\<exists>r q'. stripe nxt ord dests q mn excl s = Some (r, q') \<and> ok q' \<and>
    mset (upcoming q') = mset (upcoming q)"
proof -
  let ?M = "mset (upcoming q)"
  have "ledger ?M (stripe_start dests q s)"
    using assms(1,2) stripe_prios_keys [of dests s] by (auto simp: ledger_def stripe_start_def)
  from stripe_items_returns [OF this assms(3)] obtain r1 where
    r1: "stripe_items nxt ord dests mn excl 0 s (stripe_start dests q s) = Some r1"
    "case r1 of Inl (e, q) \<Rightarrow> ok q \<and> mset (upcoming q) = ?M | Inr st' \<Rightarrow> ledger ?M st'" by blast
  show ?thesis
  proof (cases r1)
    case (Inr st1)
    with r1(2) have "ledger ?M st1" by simp
    from stripe_items_returns [OF this assms(3)] obtain r2 where
      "stripe_items nxt ord dests mn excl 1 s st1 = Some r2"
      "case r2 of Inl (e, q) \<Rightarrow> ok q \<and> mset (upcoming q) = ?M | Inr st' \<Rightarrow> ledger ?M st'" by blast
    with r1(1) Inr show ?thesis
      by (cases r2) (auto simp: stripe_def ledger_def)
  qed (use r1 in \<open>auto simp: stripe_def\<close>)
qed

text \<open>
  Without exclusivity a location that was seen is one the item has. One that was seen and comes
  up again is followed only by locations that were seen or still have a priority.
\<close>

definition fair :: "'l locs \<Rightarrow> 'i \<Rightarrow> ('i, 'l, 'q) stripe_st \<Rightarrow> bool" where
  "fair dests it st \<longleftrightarrow>
     sorted_wrt (\<lambda>x y. Some x \<in> set (sp_seen st) \<longrightarrow>
        Some y \<in> set (sp_seen st) \<or> y \<in> fst ` set (sp_prios st)) (upcoming (sp_seq st)) \<and>
     (\<forall>l \<in> set dests. Some l \<in> set (sp_seen st) \<longrightarrow> l \<in> set (locs_of (sp_res st) it))"

lemma fair_same_book:
  assumes "fair dests it st" and "same_book st st'"
    and "set (locs_of (sp_res st) it) \<subseteq> set (locs_of (sp_res st') it)"
  shows "fair dests it st'"
  using assms by (auto simp: fair_def same_book_def)

lemma fair_next:
  assumes b: "book M got st" and f: "fair dests it st" and "excl \<le> 0"
    and step: "stripe_body nxt dests excl pass it got st = Next st'"
    and d: "distinct (upcoming (sp_seq st))"
  shows "fair dests it st'"
  using b
proof (cases rule: stripe_body_cases' [where dests = dests and excl = excl and pass = pass and it = it])
  case (old l ls)
  from stripe_place_free [OF assms(3), where st = "st\<lparr>sp_old := ls\<rparr>" and dests = dests and
      pass = pass and it = it and new = l] step old(2)
  have "same_book (st\<lparr>sp_old := ls\<rparr>) st'"
    "set (locs_of (sp_res (st\<lparr>sp_old := ls\<rparr>)) it) \<subseteq> set (locs_of (sp_res st') it)" by auto
  then show ?thesis
    using f by (intro fair_same_book [of dests it "st\<lparr>sp_old := ls\<rparr>" st']) (simp_all add: fair_def)
next
  case (again x xs q)
  then have st': "st' = st\<lparr>sp_seq := q, sp_prios := AList.delete x (sp_prios st)\<rparr>"
    using step by (simp split: if_splits)
  have "sorted_wrt (\<lambda>x y. Some x \<in> set (sp_seen st) \<longrightarrow>
      Some y \<in> set (sp_seen st) \<or> y \<in> fst ` set (sp_prios st) - {x'}) xs" if "x' \<notin> set xs" for x'
    using f again(2) that by (auto simp: fair_def elim!: sorted_wrt_mono_rel [rotated])
  then show ?thesis
    using f d again(2,3,5) by (auto simp: st' fair_def sorted_wrt_append delete_keys_set)
next
  case (put_off x xs q p)
  have "x \<in> fst ` set (sp_prios st)"
    using put_off(6) by (force dest: map_of_SomeD)
  then have "fst ` set (AList.update x (p - 1) (sp_prios st)) = fst ` set (sp_prios st)"
    by (metis list.set_map update_keys_same)
  moreover have "st' = st\<lparr>sp_seq := q, sp_prios := AList.update x (p - 1) (sp_prios st),
      sp_seen := removeAll (Some x) (sp_seen st)\<rparr>"
    using step put_off(8) by simp
  ultimately show ?thesis
    using f put_off(2,3,5) \<open>x \<in> fst ` set (sp_prios st)\<close>
    by (auto simp: fair_def sorted_wrt_append)
next
  case (fresh x xs q prios)
  let ?st = "st\<lparr>sp_seq := q, sp_seen := Some x # sp_seen st, sp_prios := prios\<rparr>"
  from stripe_place_free [OF assms(3), where st = ?st and dests = dests and
      pass = pass and it = it and new = x] step fresh(7)
  have same: "same_book ?st st'" "x \<in> set dests \<longrightarrow> x \<in> set (locs_of (sp_res st') it)"
    "set (locs_of (sp_res st) it) \<subseteq> set (locs_of (sp_res st') it)" by auto
  have "fst ` set prios = fst ` set (sp_prios st) \<or> fst ` set prios = fst ` set (sp_prios st) - {x}"
    using fresh(6) delete_keys_set [of x "sp_prios st"] by auto
  then have keys: "y \<in> fst ` set prios" if "y \<in> fst ` set (sp_prios st)" "y \<noteq> x" for y
    using that by auto
  have xs: "sorted_wrt (\<lambda>l y. Some l \<in> set (sp_seen st) \<longrightarrow>
      Some y \<in> set (sp_seen st) \<or> y \<in> fst ` set (sp_prios st)) xs"
    using f fresh(2) by (simp add: fair_def)
  have "x \<notin> set xs"
    using d fresh(2) by simp
  then have "sorted_wrt (\<lambda>l y. Some l \<in> set (Some x # sp_seen st) \<longrightarrow>
      Some y \<in> set (Some x # sp_seen st) \<or> y \<in> fst ` set prios) xs"
    by (intro sorted_wrt_mono_rel [OF _ xs]) (metis keys list.set_intros(2) option.inject set_ConsD)
  then have "sorted_wrt (\<lambda>l y. Some l \<in> set (Some x # sp_seen st) \<longrightarrow>
      Some y \<in> set (Some x # sp_seen st) \<or> y \<in> fst ` set prios) (xs @ [x])"
    by (simp add: sorted_wrt_append)
  then show ?thesis
    using f same fresh(5) by (auto simp: fair_def same_book_def)
next
  case (empty q)
  then have "st' = st\<lparr>sp_seq := q, sp_seen := None # sp_seen st\<rparr>"
    using step by (simp split: if_splits)
  then show ?thesis
    using f empty by (simp add: fair_def)
qed

text \<open>Running short means that every destination was used.\<close>

lemma fair_no_fail:
  assumes b: "book M got st" and f: "fair dests it st" and d: "distinct (upcoming (sp_seq st))"
    and excl: "excl \<le> 0" and dests: "set dests \<subseteq> set_mset M"
    and room: "int (length (locs_of (sp_res st) it)) < int (card (set dests))"
    and step: "stripe_body nxt dests excl pass it got st = Fail e"
  shows False
  using b
proof (cases rule: stripe_body_cases' [where dests = dests and excl = excl and pass = pass and it = it])
  case (old l ls)
  with stripe_place_free [OF excl, where st = "st\<lparr>sp_old := ls\<rparr>" and dests = dests and
      pass = pass and it = it and new = l] step show ?thesis by auto
next
  case (again x xs q)
  then have none: "AList.delete x (sp_prios st) = []"
    using step by (simp split: if_splits)
  then have "fst ` set (sp_prios st) \<subseteq> {x}"
    using delete_keys_set [of x "sp_prios st"] by auto
  moreover have "Some y \<in> set (sp_seen st) \<or> y \<in> fst ` set (sp_prios st)" if "y \<in> set xs" for y
    using f again(2,3) that by (simp add: fair_def)
  moreover have "x \<notin> set xs"
    using d again(2) by simp
  ultimately have "Some y \<in> set (sp_seen st)" if "y \<in> set xs" for y
    using that by blast
  then have "Some y \<in> set (sp_seen st)" if "y \<in> set (upcoming (sp_seq st))" for y
    using that again(2,3) by auto
  moreover have "set (upcoming (sp_seq st)) = set_mset M"
    using b by (auto simp: book_def)
  ultimately have "set dests \<subseteq> set (locs_of (sp_res st) it)"
    using f dests by (auto simp: fair_def)
  then have "card (set dests) \<le> length (locs_of (sp_res st) it)"
    by (meson card_length card_mono finite_set order_trans)
  with room show ?thesis by simp
next
  case (fresh x xs q prios)
  with stripe_place_free [OF excl, where st = "st\<lparr>sp_seq := q, sp_seen := Some x # sp_seen st,
      sp_prios := prios\<rparr>" and dests = dests and pass = pass and it = it and new = x] step
  show ?thesis by auto
next
  case (empty q)
  then have "set_mset M = {}"
    using b by (auto simp: book_def)
  with dests room show ?thesis by simp
qed (use step in simp)

lemma stripe_item_succeeds:
  fixes st :: "('i, 'l, 'q) stripe_st"
  assumes led: "ledger M st" and ords: "\<forall>p i ls. set (ord p i ls) \<subseteq> set ls"
    and d: "\<And>xs. mset xs = M \<Longrightarrow> distinct xs" and excl: "excl \<le> 0"
    and dests: "set dests \<subseteq> set_mset M" and enough: "mn \<le> int (card (set dests))"
  shows "\<exists>st'. stripe_item nxt ord dests mn excl pass it got st = Some (Inr st') \<and> ledger M st'"
proof -
  let ?st = "st\<lparr>sp_old := ord pass it got, sp_seen := [], sp_res := with_item it (sp_res st)\<rparr>"
  let ?b = "\<lambda>st. int (length (locs_of (sp_res st) it)) < mn"
  from stripe_item_returns [OF led ords] obtain r where
    r: "stripe_item nxt ord dests mn excl pass it got st = Some r"
      "case r of Inl (e, q) \<Rightarrow> ok q \<and> mset (upcoming q) = M | Inr st' \<Rightarrow> ledger M st'" by blast
  then have run: "go_loop ?b (stripe_body nxt dests excl pass it got) ?st = Some r"
    by (simp add: stripe_item_def)
  have dist: "distinct (upcoming (sp_seq st1))" if "book M got st1" for st1 :: "('i, 'l, 'q) stripe_st"
    using that d by (simp add: book_def)
  have "\<forall>e. r \<noteq> Inl e"
  proof (rule go_loop_rule [OF run, where I = "\<lambda>st. book M got st \<and> fair dests it st"])
    have "book M got ?st"
      using led ords by (auto simp: book_def ledger_def)
    moreover have "fair dests it ?st"
      by (simp add: fair_def sorted_wrt_iff_nth_less)
    ultimately show "book M got ?st \<and> fair dests it ?st" ..
  next
    fix st1 e
    assume inv: "book M got st1 \<and> fair dests it st1" and "?b st1"
      and step: "stripe_body nxt dests excl pass it got st1 = Fail e"
    then have "int (length (locs_of (sp_res st1) it)) < int (card (set dests))"
      using enough by simp
    with fair_no_fail [OF _ _ dist excl dests _ step] inv
    show "\<forall>e'. (Inl e :: err \<times> 'q + ('i, 'l, 'q) stripe_st) \<noteq> Inl e'" by blast
  next
    fix st1 st2
    assume inv: "book M got st1 \<and> fair dests it st1"
      and step: "stripe_body nxt dests excl pass it got st1 = Next st2"
    have "book M got st2"
      using stripe_body_next [OF _ step] inv by blast
    with fair_next [OF _ _ excl step dist] inv show "book M got st2 \<and> fair dests it st2" by blast
  qed simp_all
  with r show ?thesis
    by (cases r) auto
qed

lemma stripe_items_succeeds:
  assumes "ledger M st" and "\<forall>p i ls. set (ord p i ls) \<subseteq> set ls"
    and "\<And>xs. mset xs = M \<Longrightarrow> distinct xs" and "excl \<le> 0"
    and "set dests \<subseteq> set_mset M" and "mn \<le> int (card (set dests))"
  shows "\<exists>st'. stripe_items nxt ord dests mn excl pass s st = Some (Inr st') \<and> ledger M st'"
  using assms(1)
proof (induction s arbitrary: st)
  case (Cons x s)
  obtain it got where x: "x = (it, got)" by fastforce
  obtain st1 where "stripe_item nxt ord dests mn excl pass it got st = Some (Inr st1)" "ledger M st1"
    using stripe_item_succeeds [OF Cons.prems assms(2-6)] by blast
  with Cons.IH show ?case by (auto simp: x)
qed simp

lemma stripe_succeeds:
  assumes "ok q" and "distinct (upcoming q)" and "set dests \<subseteq> set (upcoming q)"
    and "\<forall>p i ls. set (ord p i ls) \<subseteq> set ls"
    and "excl \<le> 0" and "mn \<le> int (card (set dests))"
  shows "\<exists>new q'. stripe nxt ord dests q mn excl s = Some (Inr new, q')"
proof -
  let ?M = "mset (upcoming q)"
  have start: "ledger ?M (stripe_start dests q s)"
    using assms(1,3) stripe_prios_keys [of dests s] by (auto simp: ledger_def stripe_start_def)
  have d: "distinct xs" if "mset xs = ?M" for xs
    using that assms(2) mset_eq_imp_distinct_iff by blast
  have dests: "set dests \<subseteq> set_mset ?M"
    using assms(3) by simp
  note items = stripe_items_succeeds [OF _ assms(4) d assms(5) dests assms(6)]
  from items [OF start] obtain st1 where st1:
    "stripe_items nxt ord dests mn excl 0 s (stripe_start dests q s) = Some (Inr st1)" "ledger ?M st1"
    by blast
  from items [OF st1(2)] obtain st2 where
    "stripe_items nxt ord dests mn excl 1 s st1 = Some (Inr st2)" by blast
  with st1(1) show ?thesis
    by (simp add: stripe_def)
qed

end

section \<open>The round robin is such a sequence\<close>

definition rr_ok :: "'l rr \<Rightarrow> bool" where
  "rr_ok rr \<longleftrightarrow> 0 \<le> rr_cur rr \<and> (rr_items rr \<noteq> [] \<longrightarrow> rr_cur rr < int (length (rr_items rr)))"

definition rr_upcoming :: "'l rr \<Rightarrow> 'l list" where
  "rr_upcoming rr = rotate (nat (rr_cur rr)) (rr_items rr)"

lemma rr_upcoming_new [simp]: "rr_ok (new_rr items)" "rr_upcoming (new_rr items) = items"
  by (simp_all add: rr_ok_def rr_upcoming_def new_rr_def)

lemma rr_next_upcoming:
  assumes "rr_ok rr" and "rr_upcoming rr = x # xs"
  shows "fst (rr_next rr) = Some x" and "rr_ok (snd (rr_next rr))"
    and "rr_upcoming (snd (rr_next rr)) = xs @ [x]"
proof -
  obtain k where k: "rr_cur rr = int k"
    using assms(1) by (metis rr_ok_def nonneg_int_cases)
  have ne: "rr_items rr \<noteq> []"
    using assms(2) by (auto simp: rr_upcoming_def)
  then have lt: "k < length (rr_items rr)"
    using assms(1) k by (simp add: rr_ok_def)
  have "hd (rotate k (rr_items rr)) = rr_items rr ! k"
    using hd_rotate_conv_nth [OF ne, of k] lt by simp
  then show "fst (rr_next rr) = Some x"
    using assms(2) k lt by (simp add: rr_next_def rr_upcoming_def)
  have cur: "rr_cur (snd (rr_next rr)) = int (Suc k mod length (rr_items rr))"
    "rr_items (snd (rr_next rr)) = rr_items rr"
    using k lt by (simp_all add: rr_next_def Let_def zmod_int add.commute)
  then show "rr_ok (snd (rr_next rr))"
    using ne by (simp add: rr_ok_def)
  have "rr_upcoming (snd (rr_next rr)) = rotate1 (rotate k (rr_items rr))"
    using cur by (simp add: rr_upcoming_def rotate_conv_mod [of "Suc k", symmetric])
  then show "rr_upcoming (snd (rr_next rr)) = xs @ [x]"
    using assms(2) k by (simp add: rr_upcoming_def)
qed

interpretation rr: cyclic_seq rr_next rr_ok rr_upcoming
proof
  fix q :: "'l rr" and x xs
  assume "rr_ok q" "rr_upcoming q = x # xs"
  then show "fst (rr_next q) = Some x \<and> rr_ok (snd (rr_next q)) \<and>
      rr_upcoming (snd (rr_next q)) = xs @ [x]"
    by (simp add: rr_next_upcoming)
next
  fix q :: "'l rr"
  assume "rr_ok q" "rr_upcoming q = []"
  then show "fst (rr_next q) = None \<and> rr_ok (snd (rr_next q)) \<and> rr_upcoming (snd (rr_next q)) = []"
    by (auto simp: rr_next_def rr_upcoming_def rr_ok_def)
qed

section \<open>Properties of the striper with its round robin\<close>

text \<open>
  C10: with a round robin over locations that include every destination, \<open>Stripe\<close> returns:
  a result or \<open>ErrShort\<close>. The sequence goes on from where it was left, over the same locations.
\<close>

theorem stripe_terminates:
  assumes "rr_ok q" and "set dests \<subseteq> set (rr_upcoming q)" and "\<forall>p i ls. set (ord p i ls) \<subseteq> set ls"
  shows "\<exists>r q'. stripe rr_next ord dests q mn excl s = Some (r, q') \<and> rr_ok q' \<and>
    mset (rr_upcoming q') = mset (rr_upcoming q)"
  using assms by (rule rr.stripe_returns)

theorem stripe_terminates_witness:
  "\<exists>r q'. stripe rr_next keep_order [2] (new_rr [2, 1]) 2 0 [(8, [1])] = Some (r, q') \<and> rr_ok q' \<and>
    mset (rr_upcoming q') = {#2, 1#}"
  using stripe_terminates [of "new_rr [2, 1]" "[2]" keep_order] by (simp add: keep_order_def)

text \<open>
  And it fails only for want of destinations: with no exclusivity asked for and at least
  \<open>min\<close> destinations in the sequence, it returns a result.
\<close>

lemma stripe_enough_dests:
  assumes "rr_ok q" and "distinct (rr_upcoming q)" and "set dests \<subseteq> set (rr_upcoming q)"
    and "\<forall>p i ls. set (ord p i ls) \<subseteq> set ls"
    and "excl \<le> 0" and "mn \<le> int (card (set dests))"
  shows "\<exists>new q'. stripe rr_next ord dests q mn excl s = Some (Inr new, q')"
  using assms by (rule rr.stripe_succeeds)

theorem stripe_enough_dests_witness:
  "\<exists>new q'. stripe rr_next keep_order [2, 1] (new_rr [2, 1, 0]) 2 0 [(8, [1]), (9, [])] = Some (Inr new, q')"
  by (rule stripe_enough_dests) (simp_all add: keep_order_def)

section \<open>Items that have enough copies\<close>

lemma locs_of_map: "locs_of (map (\<lambda>(it, ls). (it, f it ls)) s) it =
    (if it \<in> fst ` set s then f it (locs_of s it) else [])"
  by (induction s) (auto simp: locs_of_def)

section \<open>An empty sequence\<close>

text \<open>
  With an empty sequence nothing is taken but the locations the items already have, and no priority
  is used up: while there is one, the loop cannot fail.
\<close>

definition held :: "'l locs \<Rightarrow> ('i, 'l) stripe \<Rightarrow> ('i, 'l, 'l rr) stripe_st \<Rightarrow> bool" where
  "held dests s st \<longleftrightarrow> sp_seq st = new_rr [] \<and> sp_prios st \<noteq> [] \<and>
     (\<forall>(it, got) \<in> set s. distinct (locs_of (sp_res st) it) \<and>
        set (locs_of (sp_res st) it) \<subseteq> set got \<inter> set dests)"

lemma held_place:
  assumes "held dests s st" and "(it, got) \<in> set s" and "distinct (map fst s)" and "new \<in> set got"
  shows "case stripe_place dests excl pass it new st of
      Fail e \<Rightarrow> False
    | Break st' \<Rightarrow> pass = 0 \<and> held dests s st'
    | Next st' \<Rightarrow> held dests s st' \<and> sp_old st' = sp_old st"
proof -
  have "held dests s (st\<lparr>sp_res := AList.update it (locs_of (sp_res st) it @ [new]) (sp_res st)\<rparr>)"
    if new: "new \<notin> set (locs_of (sp_res st) it)" "new \<in> set dests"
    unfolding held_def
  proof (intro conjI ballI)
    fix x
    assume x: "x \<in> set s"
    obtain i g where ig: "x = (i, g)"
      by fastforce
    have "distinct (locs_of (sp_res st) i) \<and> set (locs_of (sp_res st) i) \<subseteq> set g \<inter> set dests"
      using assms(1) x ig by (auto simp: held_def)
    moreover have "g = got" if "i = it"
      using assms(2,3) x ig that by (simp add: eq_key_imp_eq_value)
    ultimately show "case x of (it', got) \<Rightarrow>
        distinct (locs_of (sp_res (st\<lparr>sp_res := AList.update it (locs_of (sp_res st) it @ [new]) (sp_res st)\<rparr>)) it') \<and>
        set (locs_of (sp_res (st\<lparr>sp_res := AList.update it (locs_of (sp_res st) it @ [new]) (sp_res st)\<rparr>)) it')
          \<subseteq> set got \<inter> set dests"
      using assms(4) new by (cases "i = it") (simp_all add: ig)
  qed (use assms(1) in \<open>simp_all add: held_def\<close>)
  then show ?thesis
    using assms(1) by (simp add: stripe_place_def Let_def)
qed

lemma held_body:
  assumes "held dests s st" and "(it, got) \<in> set s" and "distinct (map fst s)" and "set (sp_old st) \<subseteq> set got"
  shows "case stripe_body rr_next dests excl pass it got st of
      Fail e \<Rightarrow> False
    | Break st' \<Rightarrow> pass = 0 \<and> held dests s st'
    | Next st' \<Rightarrow> held dests s st' \<and> set (sp_old st') \<subseteq> set got"
proof (cases "sp_old st")
  case Nil
  have "rr_next (sp_seq st) = (None, new_rr [])"
    using assms(1) by (simp add: held_def rr_next_def new_rr_def)
  then show ?thesis
    using assms Nil by (auto simp: stripe_body_def stripe_next_def Let_def held_def)
next
  case (Cons l ls)
  have "held dests s (st\<lparr>sp_old := ls\<rparr>)"
    using assms(1) by (simp add: held_def)
  from held_place [OF this assms(2,3), where new = l and excl = excl and pass = pass] show ?thesis
    using assms(4) by (simp add: stripe_body_def stripe_next_def Cons split: ctl.splits)
qed

lemma held_item:
  assumes "held dests s st" and "(it, got) \<in> set s" and "distinct (map fst s)"
    and "set (ord pass it got) = set got"
    and "stripe_item rr_next ord dests mn excl pass it got st = Some r"
  shows "\<exists>st'. r = Inr st' \<and> held dests s st'"
  using assms(5) unfolding stripe_item_def
proof (rule go_loop_rule [where I = "\<lambda>st. held dests s st \<and> set (sp_old st) \<subseteq> set got"])
  show "held dests s (st\<lparr>sp_old := ord pass it got, sp_seen := [], sp_res := with_item it (sp_res st)\<rparr>) \<and>
      set (sp_old (st\<lparr>sp_old := ord pass it got, sp_seen := [], sp_res := with_item it (sp_res st)\<rparr>)) \<subseteq> set got"
    using assms(1,4) by (simp add: held_def)
next
  fix st e
  assume "held dests s st \<and> set (sp_old st) \<subseteq> set got" "stripe_body rr_next dests excl pass it got st = Fail e"
  then show "\<exists>st'. Inl e = Inr st' \<and> held dests s st'"
    using held_body [of dests s st, OF _ assms(2,3), where excl = excl and pass = pass] by simp
next
  fix st st'
  assume "held dests s st \<and> set (sp_old st) \<subseteq> set got" "stripe_body rr_next dests excl pass it got st = Break st'"
  then show "\<exists>st''. Inr st' = Inr st'' \<and> held dests s st''"
    using held_body [of dests s st, OF _ assms(2,3), where excl = excl and pass = pass] by simp
next
  fix st st'
  assume "held dests s st \<and> set (sp_old st) \<subseteq> set got" "stripe_body rr_next dests excl pass it got st = Next st'"
  then show "held dests s st' \<and> set (sp_old st') \<subseteq> set got"
    using held_body [of dests s st, OF _ assms(2,3), where excl = excl and pass = pass] by simp
qed simp

lemma held_item_short:
  assumes "held dests s st" and "(it, got) \<in> set s" and "distinct (map fst s)"
    and "set (ord 1 it got) = set got" and "int (card (set got \<inter> set dests)) < mn"
  shows "stripe_item rr_next ord dests mn excl 1 it got st = None"
  unfolding stripe_item_def
proof (rule go_loop_diverges [where I = "\<lambda>st. held dests s st \<and> set (sp_old st) \<subseteq> set got"])
  fix st
  assume st: "held dests s st \<and> set (sp_old st) \<subseteq> set got"
  then have "distinct (locs_of (sp_res st) it)" "set (locs_of (sp_res st) it) \<subseteq> set got \<inter> set dests"
    using assms(2) by (auto simp: held_def)
  then have "length (locs_of (sp_res st) it) \<le> card (set got \<inter> set dests)"
    using card_mono [of "set got \<inter> set dests" "set (locs_of (sp_res st) it)"] by (simp add: distinct_card)
  then show "int (length (locs_of (sp_res st) it)) < mn \<and>
      (\<exists>st'. stripe_body rr_next dests excl 1 it got st = Next st' \<and> held dests s st' \<and> set (sp_old st') \<subseteq> set got)"
    using held_body [of dests s st, OF _ assms(2,3), where excl = excl and pass = 1] st assms(5)
    by (simp split: ctl.splits)
qed (use assms(1,4) in \<open>simp add: held_def\<close>)

lemma held_items:
  assumes "held dests s st" and "set s' \<subseteq> set s" and "distinct (map fst s)"
    and "\<And>it got. set (ord pass it got) = set got"
    and "stripe_items rr_next ord dests mn excl pass s' st = Some r"
  shows "\<exists>st'. r = Inr st' \<and> held dests s st'"
  using assms(1,2,5)
proof (induction s' arbitrary: st)
  case (Cons x s')
  obtain it got where x: "x = (it, got)"
    by fastforce
  then obtain r1 where r1: "stripe_item rr_next ord dests mn excl pass it got st = Some r1"
    using Cons.prems(3) by (auto split: option.splits)
  then obtain st1 where "r1 = Inr st1" "held dests s st1"
    using held_item [OF Cons.prems(1) _ assms(3,4) r1] Cons.prems(2) x by fastforce
  then show ?case
    using Cons.IH [of st1] Cons.prems(2,3) r1 x by simp
qed auto

lemma held_items_short:
  assumes "held dests s st" and "set s' \<subseteq> set s" and "distinct (map fst s)"
    and "\<And>it got. set (ord 1 it got) = set got"
    and "(it, got) \<in> set s'" and "int (card (set got \<inter> set dests)) < mn"
  shows "stripe_items rr_next ord dests mn excl 1 s' st = None"
proof (rule ccontr)
  assume "stripe_items rr_next ord dests mn excl 1 s' st \<noteq> None"
  then obtain r where "stripe_items rr_next ord dests mn excl 1 s' st = Some r"
    by blast
  with assms(1,2,5) show False
  proof (induction s' arbitrary: st)
    case (Cons x s')
    obtain it' got' where x: "x = (it', got')"
      by fastforce
    then obtain r1 where r1: "stripe_item rr_next ord dests mn excl 1 it' got' st = Some r1"
      using Cons.prems(4) by (auto split: option.splits)
    then obtain st1 where "r1 = Inr st1" "held dests s st1"
      using held_item [OF Cons.prems(1) _ assms(3,4) r1] Cons.prems(2) x by fastforce
    moreover have "(it, got) \<noteq> x"
      using held_item_short [where it = it and got = got and ord = ord, OF Cons.prems(1) _ assms(3,4,6)]
        Cons.prems(2) r1 x by auto
    ultimately show False
      using Cons.IH [of st1] Cons.prems(2-4) r1 x by auto
  qed simp
qed

lemma bump_nonempty: "bump l prios \<noteq> []"
  by (cases prios) (auto simp: bump_def split: option.split)

lemma stripe_prios_nonempty:
  fixes s :: "('i, 'l) stripe"
  assumes "(it, got) \<in> set s" and "l \<in> set got" and "l \<in> set dests"
  shows "stripe_prios dests s \<noteq> []"
proof -
  let ?f = "\<lambda>l prios. if l \<in> set dests then bump l prios else prios"
  have keep: "fold ?f ls prios \<noteq> []" if "prios \<noteq> []" for ls prios
    by (rule fold_invariant [where Q = "\<lambda>_. True" and P = "\<lambda>p. p \<noteq> []"]) (simp_all add: that bump_nonempty)
  have keeps: "fold (\<lambda>(it, got). fold ?f got) s prios \<noteq> []" if "prios \<noteq> []" for s :: "('i, 'l) stripe" and prios
    by (rule fold_invariant [where Q = "\<lambda>_. True" and P = "\<lambda>p. p \<noteq> []"]) (simp_all add: that keep case_prod_beta')
  obtain us vs where us: "got = us @ l # vs"
    using split_list [OF assms(2)] by blast
  have hit: "fold ?f got prios \<noteq> []" for prios
    unfolding us using assms(3) by (simp add: keep bump_nonempty)
  obtain s1 s2 where s: "s = s1 @ (it, got) # s2"
    using split_list [OF assms(1)] by blast
  show ?thesis
    unfolding stripe_prios_def s by (simp add: keeps hit)
qed

text \<open>
  C11: with an empty sequence Stripe never returns when some item holds fewer than \<open>min\<close> of the
  destinations and some item, that one or another, holds one: its priority is never used up, so that
  there is no \<open>ErrShort\<close>.
\<close>

theorem stripe_empty_seq_diverges:
  assumes "distinct (map fst s)" and "\<And>pass it got. set (ord pass it got) = set got"
    and "(it, got) \<in> set s" and "int (card (set got \<inter> set dests)) < mn"
    and "(it', got') \<in> set s" and "l \<in> set got'" and "l \<in> set dests"
  shows "stripe rr_next ord dests (new_rr []) mn excl s = None"
proof (cases "stripe_items rr_next ord dests mn excl 0 s (stripe_start dests (new_rr []) s)")
  case (Some r)
  have "held dests s (stripe_start dests (new_rr []) s)"
    using stripe_prios_nonempty [OF assms(5-7)] by (auto simp: held_def stripe_start_def)
  from held_items [OF this order_refl assms(1,2) Some] obtain st where "r = Inr st" "held dests s st"
    by blast
  then show ?thesis
    using held_items_short [OF _ order_refl assms(1-4)] by (simp add: stripe_def Some)
qed (simp add: stripe_def)

theorem stripe_empty_seq_diverges_witness:
  "stripe rr_next keep_order [4, 5] (new_rr []) 1 1 [(8, [4]), (9, [6])] = None"
  by (rule stripe_empty_seq_diverges [where it = 9 and got = "[6]" and it' = 8 and got' = "[4]" and l = 4])
    (simp_all add: keep_order_def)

end
