(* ===== verification/Store_Stripe.thy ===== *)
theory Store_Stripe
  imports Striper Stores Grouping
begin

text \<open>
  \<^verbatim>\<open>stores/stripe/stripe.go\<close>: for each group of chunks, which copiers get a copy of which
  chunk, and what the end of each copy changes: the registry of copies, the quotas and the
  lock of the hash.

  The lock \<open>Mu\<close> of the copies of a hash is held from \<open>Procs\<close> until the last copy of the hash has
  ended. A hash in \<open>ss_locks\<close> is locked: by a call of \<open>Procs\<close> (\<open>None\<close>), or by the goroutine that
  waits for so many copies (\<open>Some n\<close>). A call that would wait for a lock is \<open>None\<close>.
\<close>

section \<open>State\<close>

record ('id, 'w, 'q) stripe_store =
  ss_man :: "('id, 'w) copier_man"
  ss_reg :: "('id, 'w) copier_reg"
  ss_seq :: 'q
  ss_locks :: "(hash \<times> nat option) list"
  ss_world :: 'w

type_synonym ('id, 'q) striper =
  "(hash, 'id) stripe \<Rightarrow> 'id locs \<Rightarrow> 'q \<Rightarrow> ((err + (hash, 'id) stripe) \<times> 'q) option"

definition new_stripe_store ::
  "('id, 'w) copier_man \<Rightarrow> 'w \<Rightarrow> err option \<times> ('id, 'w, 'id rr) stripe_store" where
  "new_stripe_store man w =
     (let ress = man_resources 0 man;
          seq = new_rr (map cp_id ress)
      in case add_entries_to [QuotaEntryAdder, CopiesEntryAdder] w ress (man, new_reg) of
           (e, man', reg) \<Rightarrow>
             (e, \<lparr>ss_man = man', ss_reg = reg, ss_seq = seq, ss_locks = [], ss_world = w\<rparr>))"

definition calc_quota_use :: "data \<Rightarrow> err + uint64" where
  "calc_quota_use d =
     (case data_size d of
        None \<Rightarrow> Inl (ErrText ''sized-data required for calculating data use'')
      | Some sz \<Rightarrow> Inr (word_of_int sz))"

section \<open>The copies of a group\<close>

record chunk_info =
  ci_chunk :: chunk
  ci_use :: uint64

fun collect_chunks ::
  "chunk list \<Rightarrow> (hash \<times> chunk_info) list \<Rightarrow> uint64 \<Rightarrow> err + (hash \<times> chunk_info) list \<times> uint64" where
  "collect_chunks [] chunks qu = Inr (chunks, qu)"
| "collect_chunks (c # cs) chunks qu =
     (case get_group_err c of
        Some e \<Rightarrow> Inl e
      | None \<Rightarrow>
          (case calc_quota_use (chunk_data c) of
             Inl e \<Rightarrow> Inl e
           | Inr q \<Rightarrow> collect_chunks cs
                        (AList.update (chunk_hash c) \<lparr>ci_chunk = c, ci_use = q\<rparr> chunks) (qu + q)))"

fun lock_hashes ::
  "hash list \<Rightarrow> ('id, 'w, 'q) stripe_store \<Rightarrow> ((hash, 'id) stripe \<times> ('id, 'w, 'q) stripe_store) option" where
  "lock_hashes [] st = Some ([], st)"
| "lock_hashes (h # hs) st =
     (if map_of (ss_locks st) h \<noteq> None then None
      else
        (let st1 = st\<lparr>ss_reg := reg_list h (ss_reg st), ss_locks := AList.update h None (ss_locks st)\<rparr>;
             locs = map cp_id (list_owners h (ss_reg st1))
         in case lock_hashes hs st1 of
              None \<Rightarrow> None
            | Some (cur, st2) \<Rightarrow> Some ((h, locs) # cur, st2)))"

text \<open>A copy that \<open>Procs\<close> asks for.\<close>

record ('id, 'w) copy_job =
  cj_hash :: hash
  cj_copier :: "('id, 'w) copier"
  cj_info :: chunk_info

fun copier_jobs ::
  "('id \<times> ('id, 'w) copier) list \<Rightarrow> hash \<Rightarrow> chunk_info \<Rightarrow> 'id locs \<Rightarrow> ('id, 'w) copy_job list outcome" where
  "copier_jobs all h ci [] = Ret []"
| "copier_jobs all h ci (i # ids) =
     (case map_of all i of
        None \<Rightarrow> Panic ''unknown copier ID''
      | Some cp \<Rightarrow>
          bind_outcome (copier_jobs all h ci ids) (\<lambda>jobs.
            Ret (\<lparr>cj_hash = h, cj_copier = cp, cj_info = ci\<rparr> # jobs)))"

text \<open>\<open>go func() { defer copies.Mu.Unlock(); wg.Wait() }()\<close>\<close>

definition wait_copies :: "hash \<Rightarrow> nat \<Rightarrow> (hash \<times> nat option) list \<Rightarrow> (hash \<times> nat option) list" where
  "wait_copies h n locks =
     (if n = 0 then AList.delete h locks else AList.update h (Some n) locks)"

definition wg_done :: "hash \<Rightarrow> (hash \<times> nat option) list \<Rightarrow> (hash \<times> nat option) list" where
  "wg_done h locks =
     (case map_of locks h of
        Some (Some n) \<Rightarrow> wait_copies h (n - 1) locks
      | _ \<Rightarrow> locks)"

fun plan_copies ::
  "('id \<times> ('id, 'w) copier) list \<Rightarrow> (hash \<times> chunk_info) list \<Rightarrow> (hash, 'id) stripe \<Rightarrow>
   ('id, 'w, 'q) stripe_store \<Rightarrow> (('id, 'w) copy_job list \<times> ('id, 'w, 'q) stripe_store) outcome" where
  "plan_copies all chunks [] st = Ret ([], st)"
| "plan_copies all chunks ((h, locs) # new) st =
     (case map_of chunks h of
        None \<Rightarrow> Panic ''unknown chunk hash''
      | Some ci \<Rightarrow>
          (let st1 = st\<lparr>ss_reg := reg_list h (ss_reg st),
                        ss_locks := wait_copies h (length locs) (ss_locks st)\<rparr>
           in bind_outcome (copier_jobs all h ci locs) (\<lambda>jobs.
              bind_outcome (plan_copies all chunks new st1) (\<lambda>(jobs', st2).
                Ret (jobs @ jobs', st2)))))"

definition group_of :: "chunk \<Rightarrow> chunk list" where
  "group_of c = (case get_group c of None \<Rightarrow> [c] | Some grp \<Rightarrow> grp)"

text \<open>\<open>Procs\<close>: the chunks it passes on and the copies to make, or an error.\<close>

definition stripe_procs ::
  "('id, 'q) striper \<Rightarrow> chunk \<Rightarrow> ('id, 'w, 'q) stripe_store \<Rightarrow>
   ((err + chunk list \<times> ('id, 'w) copy_job list) \<times> ('id, 'w, 'q) stripe_store) outcome option" where
  "stripe_procs striper c st =
     (case collect_chunks (group_of c) [] 0 of
        Inl e \<Rightarrow> Some (Ret (Inl e, st))
      | Inr (chunks, qu) \<Rightarrow>
          (case lock_hashes (map fst chunks) st of
             None \<Rightarrow> None
           | Some (cur, st1) \<Rightarrow>
               (let all = map (\<lambda>cp. (cp_id cp, cp)) (man_resources qu (ss_man st1))
                in case striper cur (map fst all) (ss_seq st1) of
                     None \<Rightarrow> None
                   | Some (Inl e, q) \<Rightarrow> Some (Ret (Inl e, st1\<lparr>ss_seq := q\<rparr>))
                   | Some (Inr new, q) \<Rightarrow>
                       Some (bind_outcome (plan_copies all chunks new (st1\<lparr>ss_seq := q\<rparr>))
                         (\<lambda>(jobs, st2). Ret (Inr (map (ci_chunk \<circ> snd) chunks, jobs), st2))))))"

definition slice_proc :: "chunk list \<Rightarrow> 'st process" where
  "slice_proc cs c st = (map (\<lambda>c. Res (Some c) None) cs, st)"

definition chunk_arg_proc :: "'st process \<Rightarrow> chunk \<Rightarrow> 'st process" where
  "chunk_arg_proc p chunk c st = p chunk st"

definition copier_proc :: "('id, 'w) copier \<Rightarrow> ('id, 'w, 'q) stripe_store process" where
  "copier_proc cp c st = (case cp_process cp c (ss_world st) of (rs, w) \<Rightarrow> (rs, st\<lparr>ss_world := w\<rparr>))"

text \<open>The callback of \<open>OnEnd\<close>, and the proc of a copy.\<close>

definition copy_end ::
  "('id, 'w) copy_job \<Rightarrow> err option \<Rightarrow> ('id, 'w, 'q) stripe_store \<Rightarrow> ('id, 'w, 'q) stripe_store" where
  "copy_end job err st =
     (let st' = (case err of
          Some _ \<Rightarrow> st\<lparr>ss_man := man_delete cp_id (cj_copier job) (ss_man st)\<rparr>
        | None \<Rightarrow> st\<lparr>ss_reg := list_add cp_id (cj_hash job) (cj_copier job) (ss_reg st),
                     ss_man := snd (man_count_use cp_id (cj_copier job) (ci_use (cj_info job)) (ss_man st))\<rparr>)
      in st'\<lparr>ss_locks := wg_done (cj_hash job) (ss_locks st')\<rparr>)"

definition copy_proc :: "('id, 'w) copy_job \<Rightarrow> ('id, 'w, 'q) stripe_store process" where
  "copy_proc job =
     on_end (copy_end job)
       (discard_chunks (chunk_arg_proc (copier_proc (cj_copier job)) (ci_chunk (cj_info job))))"

definition all_procs :: "chunk list \<Rightarrow> ('id, 'w) copy_job list \<Rightarrow> ('id, 'w, 'q) stripe_store process list" where
  "all_procs cs jobs = slice_proc cs # map copy_proc jobs"

definition stripe_store_finish :: "('id, 'w) copier list \<Rightarrow> 'w \<Rightarrow> err option" where
  "stripe_store_finish ress w = concur_first_err (map (\<lambda>cp. cp_finish cp w) ress)"

text \<open>The copies run one after the other, in any order, each on the chunk of the call.\<close>

fun run_copies ::
  "('id, 'w) copy_job list \<Rightarrow> chunk \<Rightarrow> ('id, 'w, 'q) stripe_store \<Rightarrow>
   err option list \<times> ('id, 'w, 'q) stripe_store" where
  "run_copies [] c st = ([], st)"
| "run_copies (job # jobs) c st =
     (case copy_proc job c st of
        (rs, st') \<Rightarrow> (case run_copies jobs c st' of (es, st'') \<Rightarrow> (stream_err rs # es, st'')))"

section \<open>What the copies change\<close>

definition jobs_of :: "hash \<Rightarrow> ('id, 'w) copy_job list \<Rightarrow> nat" where
  "jobs_of h jobs = length (filter (\<lambda>j. cj_hash j = h) jobs)"

definition succeeded :: "('id, 'w) copy_job list \<Rightarrow> err option list \<Rightarrow> (hash \<times> ('id, 'w) copier) list" where
  "succeeded jobs es =
     map (\<lambda>(j, e). (cj_hash j, cj_copier j)) (filter (\<lambda>(j, e). e = None) (zip jobs es))"

lemma jobs_of_mset: "mset jobs = mset jobs' \<Longrightarrow> jobs_of h jobs = jobs_of h jobs'"
  unfolding jobs_of_def by (metis mset_filter size_mset)

lemma jobs_of_append [simp]: "jobs_of h (jobs @ jobs') = jobs_of h jobs + jobs_of h jobs'"
  by (simp add: jobs_of_def)

lemma map_of_wait_copies [simp]:
  "map_of (wait_copies h n locks) =
     (if n = 0 then (map_of locks)(h := None) else (map_of locks)(h \<mapsto> Some n))"
  by (simp add: wait_copies_def update_conv' AList.delete_conv')

lemma map_of_wg_done:
  "map_of (wg_done h locks) h' =
     (if h' = h then (case map_of locks h of
          Some (Some n) \<Rightarrow> if n - 1 = 0 then None else Some (Some (n - 1))
        | l \<Rightarrow> l)
      else map_of locks h')"
  by (auto simp: wg_done_def split: option.split)

text \<open>The end of one copy.\<close>

lemma copy_end_simps [simp]:
  "ss_reg (copy_end job e st) = (case e of Some _ \<Rightarrow> ss_reg st
     | None \<Rightarrow> list_add cp_id (cj_hash job) (cj_copier job) (ss_reg st))"
  "ss_locks (copy_end job e st) = wg_done (cj_hash job) (ss_locks st)"
  "ss_seq (copy_end job e st) = ss_seq st"
  by (simp_all add: copy_end_def Let_def split: option.split)

lemma run_copies_Cons:
  obtains e st1 where
    "run_copies (job # jobs) c st = (e # fst (run_copies jobs c st1), snd (run_copies jobs c st1))"
    "ss_reg st1 = (if e = None then list_add cp_id (cj_hash job) (cj_copier job) (ss_reg st) else ss_reg st)"
    "ss_locks st1 = wg_done (cj_hash job) (ss_locks st)"
proof -
  obtain rs w where rs: "cp_process (cj_copier job) (ci_chunk (cj_info job)) (ss_world st) = (rs, w)"
    by fastforce
  define e where "e = stream_err (filter (\<lambda>r. res_err r \<noteq> None) rs)"
  let ?st1 = "copy_end job e (st\<lparr>ss_world := w\<rparr>)"
  have "run_copies (job # jobs) c st = (e # fst (run_copies jobs c ?st1), snd (run_copies jobs c ?st1))"
    using rs by (simp add: copy_proc_def on_end_def discard_chunks_def chunk_arg_proc_def
        copier_proc_def e_def split_beta)
  then show ?thesis
    by (rule that) (simp_all split: option.split)
qed

declare run_copies.simps(2) [simp del]

lemma run_copies_holders:
  assumes "reg_ok cp_id (ss_reg st)" and "\<forall>j \<in> set jobs. map_of (ss_reg st) (cj_hash j) \<noteq> None"
    and "run_copies jobs c st = (es, st')"
  shows "reg.holders cp_id h (ss_reg st') =
      reg.holders cp_id h (ss_reg st) \<union> cp_id ` {cp. (h, cp) \<in> set (succeeded jobs es)}"
  using assms
proof (induction jobs arbitrary: st es)
  case Nil
  then show ?case by (simp add: succeeded_def)
next
  case (Cons job jobs)
  obtain e st1 where e: "run_copies (job # jobs) c st =
      (e # fst (run_copies jobs c st1), snd (run_copies jobs c st1))"
    and reg: "ss_reg st1 = (if e = None
       then list_add cp_id (cj_hash job) (cj_copier job) (ss_reg st) else ss_reg st)"
    by (rule run_copies_Cons)
  obtain es' where run: "run_copies jobs c st1 = (es', st')" and es: "es = e # es'"
    using e Cons.prems(3) by (cases "run_copies jobs c st1") auto
  have ok: "reg_ok cp_id (ss_reg st1)"
    using Cons.prems(1) by (simp add: reg reg.add_ok)
  have "\<forall>j \<in> set jobs. map_of (ss_reg st1) (cj_hash j) \<noteq> None"
    using Cons.prems(2) by (simp add: reg reg.add_tracked [where oid = cp_id, simplified])
  from Cons.IH [OF ok this run]
  have IH: "reg.holders cp_id h (ss_reg st') =
      reg.holders cp_id h (ss_reg st1) \<union> cp_id ` {cp. (h, cp) \<in> set (succeeded jobs es')}" .
  have "reg.holders cp_id h (ss_reg st1) = reg.holders cp_id h (ss_reg st) \<union>
      (if e = None \<and> h = cj_hash job then {cp_id (cj_copier job)} else {})"
    using Cons.prems(1,2) reg.add_owners [where oid = cp_id and g = "ss_reg st" and h = "cj_hash job"
        and ow = "cj_copier job" and h' = h]
    by (auto simp: reg reg.holders_def)
  moreover have "succeeded (job # jobs) es =
      (if e = None then [(cj_hash job, cj_copier job)] else []) @ succeeded jobs es'"
    by (simp add: succeeded_def es)
  ultimately show ?case
    using IH by auto
qed

lemma run_copies_locks:
  assumes "run_copies jobs c st = (es, st')"
  shows "(jobs_of h jobs = 0 \<longrightarrow> map_of (ss_locks st') h = map_of (ss_locks st) h) \<and>
    (0 < jobs_of h jobs \<longrightarrow> map_of (ss_locks st) h = Some (Some (jobs_of h jobs)) \<longrightarrow>
      map_of (ss_locks st') h = None)"
  using assms
proof (induction jobs arbitrary: st es)
  case Nil
  then show ?case by (simp add: jobs_of_def)
next
  case (Cons job jobs)
  obtain e st1 where e: "run_copies (job # jobs) c st =
      (e # fst (run_copies jobs c st1), snd (run_copies jobs c st1))"
    and locks: "ss_locks st1 = wg_done (cj_hash job) (ss_locks st)"
    by (rule run_copies_Cons)
  have run: "run_copies jobs c st1 = (fst (run_copies jobs c st1), st')"
    using e Cons.prems by (simp add: prod_eq_iff)
  show ?case
    using Cons.IH [OF run] locks
    by (cases "jobs_of h jobs") (auto simp: jobs_of_def map_of_wg_done split: if_splits)
qed

section \<open>What \<open>Procs\<close> asks for\<close>

lemma collect_chunks_keys:
  "collect_chunks cs chunks qu = Inr (chunks', qu') \<Longrightarrow>
     fst ` set chunks' = fst ` set chunks \<union> chunk_hash ` set cs \<and>
     (distinct (map fst chunks) \<longrightarrow> distinct (map fst chunks'))"
proof (induction cs arbitrary: chunks qu)
  case (Cons c cs)
  have "fst ` set (AList.update k v al) = insert k (fst ` set al)" for k v and al :: "(hash \<times> chunk_info) list"
    by (induction al) auto
  with Cons show ?case
    by (auto simp: distinct_update split: option.splits sum.splits)
qed simp

lemma lock_hashes_state:
  assumes "lock_hashes hs st = Some (cur, st')"
  shows "cur = map (\<lambda>h. (h, map cp_id (list_owners h (ss_reg st)))) hs \<and>
    ss_man st' = ss_man st \<and> ss_seq st' = ss_seq st \<and>
    (reg_ok cp_id (ss_reg st) \<longrightarrow> reg_ok cp_id (ss_reg st')) \<and>
    (\<forall>h. list_owners h (ss_reg st') = list_owners h (ss_reg st)) \<and>
    (\<forall>h. map_of (ss_locks st') h = (if h \<in> set hs then Some None else map_of (ss_locks st) h)) \<and>
    (\<forall>h. map_of (ss_reg st') h \<noteq> None \<longleftrightarrow> h \<in> set hs \<or> map_of (ss_reg st) h \<noteq> None)"
  using assms
proof (induction hs arbitrary: st cur)
  case (Cons h hs)
  let ?st = "st\<lparr>ss_reg := reg_list h (ss_reg st), ss_locks := AList.update h None (ss_locks st)\<rparr>"
  from Cons.prems obtain cur' where free: "map_of (ss_locks st) h = None"
    and rest: "lock_hashes hs ?st = Some (cur', st')"
    and cur: "cur = (h, map cp_id (list_owners h (ss_reg ?st))) # cur'"
    by (auto simp: Let_def split: if_splits option.splits)
  have "list_owners h' (reg_list h (ss_reg st)) = list_owners h' (ss_reg st)" for h'
    by (simp add: list_owners_def)
  moreover have "map_of (reg_list h (ss_reg st)) h' \<noteq> None \<longleftrightarrow> h' = h \<or> map_of (ss_reg st) h' \<noteq> None" for h'
    by (auto simp: reg_list_def update_conv')
  ultimately show ?case
    using Cons.IH [OF rest] by (auto simp: cur update_conv' reg.track_ok)
qed simp

lemma copier_jobs_result:
  assumes "copier_jobs all h ci ids = Ret jobs" and "\<forall>(i, cp) \<in> set all. cp_id cp = i"
  shows "map (\<lambda>j. cp_id (cj_copier j)) jobs = ids \<and> (\<forall>j \<in> set jobs. cj_hash j = h)"
  using assms(1)
proof (induction ids arbitrary: jobs)
  case (Cons i ids)
  then obtain cp js where "map_of all i = Some cp" "copier_jobs all h ci ids = Ret js"
    "jobs = \<lparr>cj_hash = h, cj_copier = cp, cj_info = ci\<rparr> # js"
    by (auto simp: bind_outcome_Ret_iff split: option.splits)
  moreover from this have "cp_id cp = i"
    using assms(2) by (auto dest: map_of_SomeD)
  ultimately show ?case
    using Cons.IH by simp
qed simp

lemma plan_copies_state:
  assumes "plan_copies all chunks new st = Ret (jobs, st')" and "distinct (map fst new)"
    and "\<forall>(i, cp) \<in> set all. cp_id cp = i"
  shows "ss_man st' = ss_man st \<and> ss_seq st' = ss_seq st \<and>
    (reg_ok cp_id (ss_reg st) \<longrightarrow> reg_ok cp_id (ss_reg st')) \<and>
    (\<forall>h. list_owners h (ss_reg st') = list_owners h (ss_reg st)) \<and>
    (\<forall>h. map_of (ss_reg st') h \<noteq> None \<longleftrightarrow> h \<in> fst ` set new \<or> map_of (ss_reg st) h \<noteq> None) \<and>
    (\<forall>h. map_of (ss_locks st') h =
       (if h \<in> fst ` set new then (if locs_of new h = [] then None else Some (Some (length (locs_of new h))))
        else map_of (ss_locks st) h)) \<and>
    (\<forall>h. map (\<lambda>j. cp_id (cj_copier j)) (filter (\<lambda>j. cj_hash j = h) jobs) = locs_of new h) \<and>
    cj_hash ` set jobs \<subseteq> fst ` set new"
  using assms(1,2)
proof (induction new arbitrary: st jobs)
  case (Cons x new)
  obtain h locs where x: "x = (h, locs)" by fastforce
  let ?st = "st\<lparr>ss_reg := reg_list h (ss_reg st), ss_locks := wait_copies h (length locs) (ss_locks st)\<rparr>"
  from Cons.prems(1) obtain ci js js' where js: "copier_jobs all h ci locs = Ret js"
    and rest: "plan_copies all chunks new ?st = Ret (js', st')" and jobs: "jobs = js @ js'"
    by (auto simp: x bind_outcome_Ret_iff Let_def split: option.splits)
  note job = copier_jobs_result [OF js assms(3)]
  note IH = Cons.IH [OF rest]
  have "list_owners h' (reg_list h (ss_reg st)) = list_owners h' (ss_reg st)" for h'
    by (simp add: list_owners_def)
  moreover have "map_of (reg_list h (ss_reg st)) h' \<noteq> None \<longleftrightarrow> h' = h \<or> map_of (ss_reg st) h' \<noteq> None" for h'
    by (auto simp: reg_list_def update_conv')
  moreover have "h \<notin> fst ` set new" "distinct (map fst new)"
    using Cons.prems(2) x by auto
  moreover have "filter (\<lambda>j. cj_hash j = h') js = (if h' = h then js else [])" for h'
    using job by (auto simp: filter_empty_conv filter_id_conv)
  moreover have "locs_of ((h, locs) # new) h' = (if h' = h then locs else locs_of new h')" for h'
    by (simp add: locs_of_def)
  moreover have "locs_of new h = []"
    using Cons.prems(2) x by (simp add: locs_of_absent)
  ultimately show ?case
    using IH job by (auto simp: x jobs reg.track_ok)
qed (simp add: locs_of_def)

text \<open>The copiers \<open>Procs\<close> chooses from, by id.\<close>

definition copiers_by_id :: "('id, 'w) copier list \<Rightarrow> ('id \<times> ('id, 'w) copier) list" where
  "copiers_by_id ress = map (\<lambda>cp. (cp_id cp, cp)) ress"

lemma copiers_by_id_simps [simp]:
  "\<forall>(i, cp) \<in> set (copiers_by_id ress). cp_id cp = i"
  "map fst (copiers_by_id ress) = map cp_id ress"
  "fst ` set (copiers_by_id ress) = cp_id ` set ress"
  by (auto simp: copiers_by_id_def image_image)

lemma locs_of_pairs: "h \<in> set hs \<Longrightarrow> locs_of (map (\<lambda>h. (h, f h)) hs) h = f h"
  by (simp add: locs_of_def map_of_map_restrict)

lemma locs_of_stripe_new: "locs_of (stripe_new s full) it = filter (\<lambda>l. l \<notin> set (locs_of s it)) (locs_of full it)"
proof (cases "it \<in> fst ` set full")
  case False
  then show ?thesis
    by (simp add: stripe_new_def locs_of_map locs_of_absent)
qed (simp add: stripe_new_def locs_of_map)

text \<open>What a call that returns jobs has done.\<close>

lemma stripe_procs_jobs:
  assumes call: "stripe_procs (\<lambda>s d q. config_stripe cfg nxt ord s d q) c st =
      Some (Ret (Inr (cs, jobs), st1))"
    and ok: "reg_ok cp_id (ss_reg st)"
  obtains full new qu where
    "fst ` set full = chunk_hash ` set (group_of c)" "distinct (map fst full)"
    "1 \<le> cfg_min cfg \<longrightarrow> min (cfg_excl cfg) (int (length full)) \<le> int (card (apart full))"
    "\<forall>h \<in> chunk_hash ` set (group_of c). distinct (locs_of full h) \<and>
       int (length (locs_of full h)) = max 0 (cfg_min cfg) \<and>
       set (locs_of full h) \<subseteq> reg.holders cp_id h (ss_reg st) \<union> set (locs_of new h) \<and>
       set (locs_of full h) \<subseteq> cp_id ` set (man_resources qu (ss_man st))"
    "\<forall>h. map (\<lambda>j. cp_id (cj_copier j)) (filter (\<lambda>j. cj_hash j = h) jobs) = locs_of new h"
    "\<forall>h \<in> chunk_hash ` set (group_of c). map_of (ss_locks st1) h =
       (if jobs_of h jobs = 0 then None else Some (Some (jobs_of h jobs)))"
    "\<forall>j \<in> set jobs. map_of (ss_reg st1) (cj_hash j) \<noteq> None"
    "\<forall>h. reg.holders cp_id h (ss_reg st1) = reg.holders cp_id h (ss_reg st)"
    "reg_ok cp_id (ss_reg st1)"
proof -
  from call obtain chunks qu cur st2 new q where
    chunks: "collect_chunks (group_of c) [] 0 = Inr (chunks, qu)"
    and lock: "lock_hashes (map fst chunks) st = Some (cur, st2)"
    and str: "config_stripe cfg nxt ord cur (map cp_id (man_resources qu (ss_man st2))) (ss_seq st2) =
      Some (Inr new, q)"
    and plan: "plan_copies (copiers_by_id (man_resources qu (ss_man st2))) chunks new (st2\<lparr>ss_seq := q\<rparr>) =
      Ret (jobs, st1)"
    by (auto simp: stripe_procs_def Let_def bind_outcome_Ret_iff copiers_by_id_def [symmetric] comp_def
        copiers_by_id_simps(2) [unfolded copiers_by_id_def, simplified, unfolded comp_def]
        split: sum.splits option.splits prod.splits)
  have keys: "fst ` set chunks = chunk_hash ` set (group_of c)" "distinct (map fst chunks)"
    using collect_chunks_keys [OF chunks] by auto
  note locked = lock_hashes_state [OF lock]
  have cur: "cur = map (\<lambda>h. (h, map cp_id (list_owners h (ss_reg st)))) (map fst chunks)"
    using locked by (elim conjE)
  have man: "ss_man st2 = ss_man st"
    using locked by (elim conjE)
  have cur_keys: "map fst cur = map fst chunks"
    unfolding cur by (simp add: comp_def)
  have cur_locs: "set (locs_of cur h) = reg.holders cp_id h (ss_reg st)" if "h \<in> fst ` set chunks" for h
    unfolding cur using that by (subst locs_of_pairs) (simp_all add: reg.holders_def)
  have "distinct (map fst cur)"
    using cur_keys keys(2) by simp
  from stripe_full [OF str [unfolded config_stripe_def] this] obtain full where
    new: "new = stripe_new cur full" and full_keys: "map fst full = map fst cur"
    and full: "\<forall>h \<in> fst ` set cur. distinct (locs_of full h) \<and>
      set (locs_of full h) \<subseteq> set (map cp_id (man_resources qu (ss_man st2))) \<and>
      int (length (locs_of full h)) = max 0 (cfg_min cfg)"
    and apart: "1 \<le> cfg_min cfg \<longrightarrow> min (cfg_excl cfg) (int (length cur)) \<le> int (card (apart full))"
    by (elim exE conjE) (rule that)
  have dom: "fst ` set cur = chunk_hash ` set (group_of c)" "fst ` set new = chunk_hash ` set (group_of c)"
    using arg_cong [OF cur_keys, of set] arg_cong [OF full_keys, of set] keys(1)
    by (simp_all add: new stripe_new_def image_image split_beta)
  have "map fst new = map fst cur"
    using full_keys by (simp add: new stripe_new_def comp_def split_beta)
  then have "distinct (map fst new)"
    using cur_keys keys(2) by simp
  note planned = plan_copies_state [OF plan this copiers_by_id_simps(1)]
  have jobs: "\<forall>h. map (\<lambda>j. cp_id (cj_copier j)) (filter (\<lambda>j. cj_hash j = h) jobs) = locs_of new h"
    using planned by (elim conjE)
  then have len: "length (locs_of new h) = jobs_of h jobs" for h
    unfolding jobs_of_def by (metis length_map)
  show ?thesis
  proof (rule that [of full new qu, OF _ _ _ _ jobs])
    show "fst ` set full = chunk_hash ` set (group_of c)"
      using dom(1) by (metis full_keys set_map)
    show "distinct (map fst full)"
      using full_keys cur_keys keys(2) by simp
    show "1 \<le> cfg_min cfg \<longrightarrow> min (cfg_excl cfg) (int (length full)) \<le> int (card (apart full))"
      using apart arg_cong [OF full_keys, of length] by simp
    show "\<forall>h \<in> chunk_hash ` set (group_of c). distinct (locs_of full h) \<and>
       int (length (locs_of full h)) = max 0 (cfg_min cfg) \<and>
       set (locs_of full h) \<subseteq> reg.holders cp_id h (ss_reg st) \<union> set (locs_of new h) \<and>
       set (locs_of full h) \<subseteq> cp_id ` set (man_resources qu (ss_man st))"
      using full [unfolded dom(1) man] cur_locs keys(1) by (auto simp: new locs_of_stripe_new)
    show "\<forall>h \<in> chunk_hash ` set (group_of c). map_of (ss_locks st1) h =
       (if jobs_of h jobs = 0 then None else Some (Some (jobs_of h jobs)))"
      using planned dom(2) by (simp flip: len)
    show "\<forall>j \<in> set jobs. map_of (ss_reg st1) (cj_hash j) \<noteq> None"
      using planned by auto
    show "\<forall>h. reg.holders cp_id h (ss_reg st1) = reg.holders cp_id h (ss_reg st)"
      using planned locked by (simp add: reg.holders_def)
    show "reg_ok cp_id (ss_reg st1)"
      using planned locked ok by simp
  qed
qed

text \<open>The same for one hash of the group.\<close>

lemma stripe_procs_hash:
  assumes call: "stripe_procs (\<lambda>s d q. config_stripe cfg nxt ord s d q) c st =
      Some (Ret (Inr (cs, jobs), st1))"
    and ok: "reg_ok cp_id (ss_reg st)" and h: "h \<in> chunk_hash ` set (group_of c)"
  obtains locs where "distinct locs" "int (length locs) = max 0 (cfg_min cfg)"
    "set locs \<subseteq> reg.holders cp_id h (ss_reg st) \<union> (\<lambda>j. cp_id (cj_copier j)) ` {j \<in> set jobs. cj_hash j = h}"
    "map_of (ss_locks st1) h = (if jobs_of h jobs = 0 then None else Some (Some (jobs_of h jobs)))"
    "\<forall>j \<in> set jobs. map_of (ss_reg st1) (cj_hash j) \<noteq> None"
    "reg.holders cp_id h (ss_reg st1) = reg.holders cp_id h (ss_reg st)"
    "reg_ok cp_id (ss_reg st1)"
proof -
  obtain full new qu where
    full: "\<forall>h \<in> chunk_hash ` set (group_of c). distinct (locs_of full h) \<and>
       int (length (locs_of full h)) = max 0 (cfg_min cfg) \<and>
       set (locs_of full h) \<subseteq> reg.holders cp_id h (ss_reg st) \<union> set (locs_of new h) \<and>
       set (locs_of full h) \<subseteq> cp_id ` set (man_resources qu (ss_man st))"
    and jobs: "\<forall>h. map (\<lambda>j. cp_id (cj_copier j)) (filter (\<lambda>j. cj_hash j = h) jobs) = locs_of new h"
    and locks: "\<forall>h \<in> chunk_hash ` set (group_of c). map_of (ss_locks st1) h =
       (if jobs_of h jobs = 0 then None else Some (Some (jobs_of h jobs)))"
    and rest: "\<forall>j \<in> set jobs. map_of (ss_reg st1) (cj_hash j) \<noteq> None"
      "\<forall>h. reg.holders cp_id h (ss_reg st1) = reg.holders cp_id h (ss_reg st)"
      "reg_ok cp_id (ss_reg st1)"
    by (rule stripe_procs_jobs [OF call ok])
  have "set (locs_of new h) = (\<lambda>j. cp_id (cj_copier j)) ` {j \<in> set jobs. cj_hash j = h}"
    using arg_cong [OF spec [OF jobs, of h], of set] by simp
  then show ?thesis
    using bspec [OF full h] bspec [OF locks h] rest by (intro that [of "locs_of full h"]) simp_all
qed

lemma run_copies_length: "run_copies jobs c st = (es, st') \<Longrightarrow> length es = length jobs"
proof (induction jobs arbitrary: st es)
  case (Cons job jobs)
  obtain e st1 where e: "run_copies (job # jobs) c st =
      (e # fst (run_copies jobs c st1), snd (run_copies jobs c st1))"
    by (rule run_copies_Cons)
  have "run_copies jobs c st1 = (fst (run_copies jobs c st1), st')"
    using e Cons.prems by (simp add: prod_eq_iff)
  from Cons.IH [OF this] show ?case
    using e Cons.prems by auto
qed simp

lemma succeeded_all:
  assumes "length es = length jobs" and "\<forall>e \<in> set es. e = None"
  shows "succeeded jobs es = map (\<lambda>j. (cj_hash j, cj_copier j)) jobs"
  using assms by (induction jobs es rule: list_induct2') (auto simp: succeeded_def)

section \<open>An example\<close>

definition ex_man :: "(nat, unit) copier_man" where
  "ex_man = foldr (\<lambda>cp man. man_add_res cp_id cp man)
     [list_copier 3 [], list_copier 4 [[1]], list_copier 5 []] new_man"

definition ex_store :: "(nat, unit, nat rr) stripe_store" where
  "ex_store = snd (new_stripe_store ex_man ())"

definition ex_chunk :: chunk where
  "ex_chunk = set_hash [1] (new_chunk 0 (Some (BytesData [9, 9])))"

definition ex_striper :: "int \<Rightarrow> (nat, nat rr) striper" where
  "ex_striper mn = (\<lambda>s d q. config_stripe \<lparr>cfg_min = mn, cfg_excl = 0\<rparr> rr_next (\<lambda>_ _ ls. ls) s d q)"

lemma ex_copies:
  obtains cs jobs st1 st2 where
    "stripe_procs (ex_striper 2) ex_chunk ex_store = Some (Ret (Inr (cs, jobs), st1))"
    "run_copies jobs ex_chunk st1 = ([None], st2)"
proof -
  have "(case stripe_procs (ex_striper 2) ex_chunk ex_store of
      Some (Ret (Inr (cs, jobs), st1)) \<Rightarrow> fst (run_copies jobs ex_chunk st1) = [None]
    | _ \<Rightarrow> False)"
    by code_simp
  then obtain cs jobs st1 where *: "stripe_procs (ex_striper 2) ex_chunk ex_store = Some (Ret (Inr (cs, jobs), st1))"
    "fst (run_copies jobs ex_chunk st1) = [None]"
    by (auto split: option.splits outcome.splits prod.splits sum.splits)
  then show ?thesis
    by (intro that [OF *(1)]) (simp add: prod_eq_iff)
qed

lemma new_stripe_store_ok: "reg_ok cp_id (ss_reg (snd (new_stripe_store man w)))"
proof -
  let ?adders = "[QuotaEntryAdder, CopiesEntryAdder]"
  have "snd (snd (lister_funcs ?adders w ml (man, new_reg))) =
      reg.record_copies cp_id (listed w ml) new_reg" for ml
    using lister_funcs_reg [of ?adders w ml "(man, new_reg)"] by simp
  moreover have "reg_ok cp_id (reg.record_copies cp_id (listed w ml) new_reg)" for ml
    by (intro conjunct1 [OF reg.record_copies_holders]) simp
  ultimately show ?thesis
    by (simp add: new_stripe_store_def add_entries_to_def Let_def split_beta)
qed

lemma ex_store_ok: "reg_ok cp_id (ss_reg ex_store)"
  by (simp add: ex_store_def new_stripe_store_ok)

lemma ex_group: "chunk_hash ` set (group_of ex_chunk) = {[1]}"
  by (simp add: group_of_def ex_chunk_def get_group_def)

lemma ex_collect: "\<exists>r. collect_chunks (group_of ex_chunk) [] 0 = Inr r"
  by (simp add: group_of_def ex_chunk_def get_group_def get_group_err_def calc_quota_use_def)

lemma min_copies:
  assumes "stripe_procs (\<lambda>s d q. config_stripe cfg nxt ord s d q) c st = Some (Ret (Inr (cs, jobs), st1))"
    and "reg_ok cp_id (ss_reg st)" and "mset jobs' = mset jobs"
    and "run_copies jobs' c st1 = (es, st2)" and "\<forall>e \<in> set es. e = None"
  shows "\<forall>h \<in> chunk_hash ` set (group_of c).
    cfg_min cfg \<le> int (card (reg.holders cp_id h (ss_reg st2))) \<and> map_of (ss_locks st2) h = None"
proof
  fix h assume h: "h \<in> chunk_hash ` set (group_of c)"
  obtain locs where locs: "distinct locs" "int (length locs) = max 0 (cfg_min cfg)"
      "set locs \<subseteq> reg.holders cp_id h (ss_reg st) \<union> (\<lambda>j. cp_id (cj_copier j)) ` {j \<in> set jobs. cj_hash j = h}"
    and locks: "map_of (ss_locks st1) h = (if jobs_of h jobs = 0 then None else Some (Some (jobs_of h jobs)))"
    and tracked: "\<forall>j \<in> set jobs. map_of (ss_reg st1) (cj_hash j) \<noteq> None"
    and reg1: "reg.holders cp_id h (ss_reg st1) = reg.holders cp_id h (ss_reg st)" "reg_ok cp_id (ss_reg st1)"
    by (rule stripe_procs_hash [OF assms(1,2) h])
  have set: "set jobs' = set jobs"
    using assms(3) by (rule mset_eq_setD)
  have "reg.holders cp_id h (ss_reg st2) = reg.holders cp_id h (ss_reg st1) \<union>
      cp_id ` {cp. (h, cp) \<in> set (succeeded jobs' es)}"
    using tracked set by (intro run_copies_holders [OF reg1(2) _ assms(4)]) simp
  also have "cp_id ` {cp. (h, cp) \<in> set (succeeded jobs' es)} =
      (\<lambda>j. cp_id (cj_copier j)) ` {j \<in> set jobs. cj_hash j = h}"
    using set by (force simp: succeeded_all [OF run_copies_length [OF assms(4)] assms(5)])
  finally have "set locs \<subseteq> reg.holders cp_id h (ss_reg st2)"
    using locs(3) reg1(1) by simp
  then have "card (set locs) \<le> card (reg.holders cp_id h (ss_reg st2))"
    by (intro card_mono) (simp_all add: reg.holders_def)
  then have "cfg_min cfg \<le> int (card (reg.holders cp_id h (ss_reg st2)))"
    using locs(1,2) by (simp add: distinct_card)
  moreover have "map_of (ss_locks st2) h = None"
    using run_copies_locks [OF assms(4), of h] locks jobs_of_mset [OF assms(3), of h]
    by (auto split: if_splits)
  ultimately show "cfg_min cfg \<le> int (card (reg.holders cp_id h (ss_reg st2))) \<and>
      map_of (ss_locks st2) h = None" ..
qed

lemma copies_holders:
  assumes "stripe_procs (\<lambda>s d q. config_stripe cfg nxt ord s d q) c st = Some (Ret (Inr (cs, jobs), st1))"
    and "reg_ok cp_id (ss_reg st)" and "mset jobs' = mset jobs"
    and "run_copies jobs' c st1 = (es, st2)"
  shows "\<forall>h \<in> chunk_hash ` set (group_of c).
    map_of (ss_locks st2) h = None \<and>
    reg.holders cp_id h (ss_reg st2) =
      reg.holders cp_id h (ss_reg st) \<union> cp_id ` {cp. (h, cp) \<in> set (succeeded jobs' es)}"
proof
  fix h assume h: "h \<in> chunk_hash ` set (group_of c)"
  obtain locks: "map_of (ss_locks st1) h = (if jobs_of h jobs = 0 then None else Some (Some (jobs_of h jobs)))"
    and tracked: "\<forall>j \<in> set jobs. map_of (ss_reg st1) (cj_hash j) \<noteq> None"
    and reg1: "reg.holders cp_id h (ss_reg st1) = reg.holders cp_id h (ss_reg st)" "reg_ok cp_id (ss_reg st1)"
    by (rule stripe_procs_hash [OF assms(1,2) h])
  have "map_of (ss_locks st2) h = None"
    using run_copies_locks [OF assms(4), of h] locks jobs_of_mset [OF assms(3), of h]
    by (auto split: if_splits)
  moreover have "reg.holders cp_id h (ss_reg st2) = reg.holders cp_id h (ss_reg st1) \<union>
      cp_id ` {cp. (h, cp) \<in> set (succeeded jobs' es)}"
    using tracked mset_eq_setD [OF assms(3)]
    by (intro run_copies_holders [OF reg1(2) _ assms(4)]) simp
  ultimately show "map_of (ss_locks st2) h = None \<and>
    reg.holders cp_id h (ss_reg st2) =
      reg.holders cp_id h (ss_reg st) \<union> cp_id ` {cp. (h, cp) \<in> set (succeeded jobs' es)}"
    using reg1(1) by simp
qed

section \<open>Properties\<close>

text \<open>
  C14: once every copy \<open>Procs\<close> asked for has succeeded, in whatever order they were made, each
  chunk of the group is held by at least \<open>Min\<close> copiers, and its lock is free.
\<close>

theorem stripe_store_min_copies:
  assumes "stripe_procs (\<lambda>s d q. config_stripe cfg nxt ord s d q) c st = Some (Ret (Inr (cs, jobs), st1))"
    and "reg_ok cp_id (ss_reg st)" and "mset jobs' = mset jobs"
    and "run_copies jobs' c st1 = (es, st2)" and "\<forall>e \<in> set es. e = None"
  shows "\<forall>h \<in> chunk_hash ` set (group_of c).
    cfg_min cfg \<le> int (card (reg.holders cp_id h (ss_reg st2))) \<and> map_of (ss_locks st2) h = None"
  using assms by (rule min_copies)

theorem stripe_store_min_copies_witness:
  "\<exists>cs jobs st1 es st2.
    stripe_procs (ex_striper 2) ex_chunk ex_store = Some (Ret (Inr (cs, jobs), st1)) \<and>
    run_copies jobs ex_chunk st1 = (es, st2) \<and>
    2 \<le> int (card (reg.holders cp_id [1] (ss_reg st2))) \<and> map_of (ss_locks st2) [1] = None"
proof -
  obtain cs jobs st1 st2 where run:
    "stripe_procs (ex_striper 2) ex_chunk ex_store = Some (Ret (Inr (cs, jobs), st1))"
    "run_copies jobs ex_chunk st1 = ([None], st2)"
    by (rule ex_copies)
  from stripe_store_min_copies [OF run(1) [unfolded ex_striper_def] ex_store_ok refl run(2)] run
  show ?thesis
    by (auto simp: ex_group)
qed

text \<open>
  C15: when some copies fail, the locks are free all the same, and the copiers recorded for a
  chunk are those that had it and those whose copy succeeded.
\<close>

theorem stripe_store_failed_copies:
  assumes "stripe_procs (\<lambda>s d q. config_stripe cfg nxt ord s d q) c st = Some (Ret (Inr (cs, jobs), st1))"
    and "reg_ok cp_id (ss_reg st)" and "mset jobs' = mset jobs"
    and "run_copies jobs' c st1 = (es, st2)"
  shows "\<forall>h \<in> chunk_hash ` set (group_of c).
    map_of (ss_locks st2) h = None \<and>
    reg.holders cp_id h (ss_reg st2) =
      reg.holders cp_id h (ss_reg st) \<union> cp_id ` {cp. (h, cp) \<in> set (succeeded jobs' es)}"
  using assms by (rule copies_holders)

theorem stripe_store_failed_copies_witness:
  "\<exists>cs jobs st1 es st2.
    stripe_procs (ex_striper 2) ex_chunk ex_store = Some (Ret (Inr (cs, jobs), st1)) \<and>
    run_copies jobs ex_chunk st1 = (es, st2) \<and> map_of (ss_locks st2) [1] = None"
proof -
  obtain cs jobs st1 st2 where run:
    "stripe_procs (ex_striper 2) ex_chunk ex_store = Some (Ret (Inr (cs, jobs), st1))"
    "run_copies jobs ex_chunk st1 = ([None], st2)"
    by (rule ex_copies)
  from stripe_store_failed_copies [OF run(1) [unfolded ex_striper_def] ex_store_ok refl run(2)] run
  show ?thesis
    by (auto simp: ex_group)
qed

text \<open>A lock that \<open>Procs\<close> holds is not released by the end of any copy.\<close>

lemma run_copies_held:
  "run_copies jobs c st = (es, st') \<Longrightarrow> map_of (ss_locks st) h = Some None \<Longrightarrow>
     map_of (ss_locks st') h = Some None"
proof (induction jobs arbitrary: st es)
  case (Cons job jobs)
  obtain e st1 where e: "run_copies (job # jobs) c st =
      (e # fst (run_copies jobs c st1), snd (run_copies jobs c st1))"
    and locks: "ss_locks st1 = wg_done (cj_hash job) (ss_locks st)"
    by (rule run_copies_Cons)
  have "run_copies jobs c st1 = (fst (run_copies jobs c st1), st')"
    using e Cons.prems(1) by (simp add: prod_eq_iff)
  moreover have "map_of (ss_locks st1) h = Some None"
    using Cons.prems(2) by (auto simp: locks map_of_wg_done)
  ultimately show ?case
    by (rule Cons.IH)
qed simp

lemma lock_hashes_blocked: "h \<in> set hs \<Longrightarrow> map_of (ss_locks st) h \<noteq> None \<Longrightarrow> lock_hashes hs st = None"
proof (induction hs arbitrary: st)
  case (Cons h' hs)
  show ?case
  proof (cases "map_of (ss_locks st) h' = None")
    case True
    with Cons.prems have "h \<in> set hs" by auto
    with Cons.IH [of "st\<lparr>ss_reg := reg_list h' (ss_reg st),
        ss_locks := AList.update h' None (ss_locks st)\<rparr>"] Cons.prems(2) show ?thesis
      by (auto simp: Let_def update_conv' split: option.splits)
  qed simp
qed simp

text \<open>
  C16: when the striper fails, \<open>Procs\<close> returns its error with the locks of the group held; from
  then on, whatever copies end, a call for a group that shares a hash with it waits for ever.
\<close>

theorem stripe_store_error_keeps_locks:
  assumes "stripe_procs striper c st = Some (Ret (Inl e, st1))"
    and "collect_chunks (group_of c) [] 0 = Inr r"
    and "run_copies jobs c0 st1 = (es, st2)"
    and "collect_chunks (group_of c') [] 0 = Inr r'"
    and "h \<in> chunk_hash ` set (group_of c)" and "h \<in> chunk_hash ` set (group_of c')"
  shows "stripe_procs striper' c' st2 = None"
proof -
  obtain chunks qu where r: "r = (chunks, qu)" by fastforce
  obtain chunks' qu' where r': "r' = (chunks', qu')" by fastforce
  from assms(1,2) obtain cur st3 q where lock: "lock_hashes (map fst chunks) st = Some (cur, st3)"
    and st1: "st1 = st3\<lparr>ss_seq := q\<rparr>"
    by (auto simp: stripe_procs_def r Let_def bind_outcome_Ret_iff
        split: option.splits sum.splits prod.splits)
  have "h \<in> fst ` set chunks"
    using collect_chunks_keys [OF assms(2) [unfolded r]] assms(5) by simp
  then have "map_of (ss_locks st1) h = Some None"
    using lock_hashes_state [OF lock] by (simp add: st1)
  then have "map_of (ss_locks st2) h = Some None"
    by (rule run_copies_held [OF assms(3)])
  moreover have "h \<in> set (map fst chunks')"
    using collect_chunks_keys [OF assms(4) [unfolded r']] assms(6) by simp
  ultimately have "lock_hashes (map fst chunks') st2 = None"
    by (intro lock_hashes_blocked [where h = h]) simp_all
  then show ?thesis
    using assms(4) by (simp add: stripe_procs_def r')
qed

theorem stripe_store_error_keeps_locks_witness:
  "\<exists>e st1. stripe_procs (ex_striper 9) ex_chunk ex_store = Some (Ret (Inl e, st1)) \<and>
    stripe_procs (ex_striper 1) ex_chunk st1 = None"
proof -
  have "(case stripe_procs (ex_striper 9) ex_chunk ex_store of
      Some (Ret (Inl e, st1)) \<Rightarrow> e = ErrStripeShort | _ \<Rightarrow> False)"
    by code_simp
  then obtain e st1 where err: "stripe_procs (ex_striper 9) ex_chunk ex_store = Some (Ret (Inl e, st1))"
    by (auto split: option.splits outcome.splits prod.splits sum.splits)
  obtain r where r: "collect_chunks (group_of ex_chunk) [] 0 = Inr r"
    using ex_collect by blast
  have "run_copies [] ex_chunk st1 = ([], st1)" by simp
  from stripe_store_error_keeps_locks [OF err r this r, of "[1]"] err show ?thesis
    by (simp add: ex_group)
qed

end
