(* ===== verification/Multireader.thy ===== *)
theory Multireader
  imports Stores
begin

text \<open>
  \<^verbatim>\<open>stores/multireader.go\<close>: reading a chunk from any of the copiers that list it, one after the
  other in a random order until one succeeds.

  The callbacks that drop a failed copier from the registry are made in a loop and refer to its
  variable \<open>cp\<close>, which Go shares between the turns of the loop: when they run, after the loop, it
  holds the last copier.
\<close>

section \<open>State and operations\<close>

record ('id, 'w) mrd =
  mr_reg :: "('id, 'w) copier_reg"
  mr_copiers :: "('id, 'w) copier list"
  mr_world :: 'w

definition new_multi_reader :: "('id, 'w) copier list \<Rightarrow> 'w \<Rightarrow> err option \<times> ('id, 'w) mrd" where
  "new_multi_reader copiers w =
     (case add_entries_to [CopiesEntryAdder] w copiers ([], new_reg) of
        (e, man, reg) \<Rightarrow> (e, \<lparr>mr_reg = reg, mr_copiers = copiers, mr_world = w\<rparr>))"

definition mrd_proc :: "('id, 'w) copier \<Rightarrow> ('id, 'w) mrd process" where
  "mrd_proc cp c st = (case cp_process cp c (mr_world st) of (rs, w) \<Rightarrow> (rs, st\<lparr>mr_world := w\<rparr>))"

definition mrd_end :: "('id, 'w) copier \<Rightarrow> err option \<Rightarrow> ('id, 'w) mrd \<Rightarrow> ('id, 'w) mrd" where
  "mrd_end cp err st =
     (case err of
        None \<Rightarrow> st
      | Some _ \<Rightarrow> st\<lparr>mr_reg := reg_remove_owner cp_id cp (mr_reg st)\<rparr>)"

definition mrd_cascade :: "('id, 'w) copier list \<Rightarrow> ('id, 'w) mrd process list" where
  "mrd_cascade copiers = map (\<lambda>cp. on_end (mrd_end (last copiers)) (mrd_proc cp)) copiers"

text \<open>\<open>perm\<close> is the permutation \<open>shuffle\<close> draws.\<close>

definition mrd_process :: "nat list \<Rightarrow> ('id, 'w) mrd process" where
  "mrd_process perm c st =
     (let copiers = shuffle_copiers perm (list_owners (chunk_hash c) (mr_reg st));
          casc = mrd_cascade copiers
      in if length casc = 0 then (single_res c (Some (MissingDataError ErrMultiReaderNoneAvail)), st)
         else cascade casc c st)"

definition finish_funcs :: "('id, 'w) copier list \<Rightarrow> 'w \<Rightarrow> err option list" where
  "finish_funcs copiers w = map (\<lambda>cp. cp_finish cp w) copiers"

definition mrd_finish :: "('id, 'w) mrd \<Rightarrow> err option" where
  "mrd_finish st = concur_first_err (finish_funcs (mr_copiers st) (mr_world st))"

section \<open>A cascade of copiers\<close>

lemma cascade_loop_map:
  "cascade_loop (map (\<lambda>cp. on_end (mrd_end x) (mrd_proc cp)) cps) c buf st = (rs, st') \<Longrightarrow>
     (cps = [] \<and> rs = buf) \<or>
     (\<exists>cp \<in> set cps. \<exists>w w'. cp_process cp c w = (rs, w'))"
proof (induction cps arbitrary: buf st)
  case (Cons cp cps)
  obtain rs1 w1 where p: "cp_process cp c (mr_world st) = (rs1, w1)" by fastforce
  define st1 where "st1 = mrd_end x (stream_err rs1) (st\<lparr>mr_world := w1\<rparr>)"
  have eq: "on_end (mrd_end x) (mrd_proc cp) c st = (rs1, st1)"
    by (simp add: on_end_def mrd_proc_def p st1_def)
  show ?case
  proof (cases "stream_err rs1 = None")
    case True
    then have "rs = rs1"
      using Cons.prems eq by (auto split: if_splits)
    with True p show ?thesis by auto
  next
    case False
    then have "cascade_loop (map (\<lambda>cp. on_end (mrd_end x) (mrd_proc cp)) cps) c rs1 st1 = (rs, st')"
      using Cons.prems eq by (auto split: if_splits)
    from Cons.IH [OF this] p show ?thesis by auto
  qed
qed simp

lemma cascade_loop_succeeds:
  assumes "cascade_loop (map (\<lambda>cp. on_end (mrd_end x) (mrd_proc cp)) cps) c buf st = (rs, st')"
    and "cp \<in> set cps" and "\<And>w. stream_err (fst (cp_process cp c w)) = None"
  shows "stream_err rs = None"
  using assms(1,2)
proof (induction cps arbitrary: buf st)
  case (Cons cp' cps)
  obtain rs1 w1 where p: "cp_process cp' c (mr_world st) = (rs1, w1)" by fastforce
  define st1 where "st1 = mrd_end x (stream_err rs1) (st\<lparr>mr_world := w1\<rparr>)"
  have eq: "on_end (mrd_end x) (mrd_proc cp') c st = (rs1, st1)"
    by (simp add: on_end_def mrd_proc_def p st1_def)
  show ?case
  proof (cases "stream_err rs1 = None")
    case True
    then show ?thesis
      using Cons.prems eq by (auto split: if_splits)
  next
    case False
    then have "cp' \<noteq> cp"
      using assms(3) [of "mr_world st"] p by auto
    moreover have "cascade_loop (map (\<lambda>cp. on_end (mrd_end x) (mrd_proc cp)) cps) c rs1 st1 = (rs, st')"
      using Cons.prems eq False by (auto split: if_splits)
    ultimately show ?thesis
      using Cons.IH Cons.prems(2) by auto
  qed
qed simp

section \<open>An example\<close>

definition read_copier :: "nat \<Rightarrow> err option \<Rightarrow> (nat, unit) copier" where
  "read_copier i e = \<lparr>cp_id = i, cp_ls = slice_ls [\<lparr>le_hash = [1], le_size = 0\<rparr>],
     cp_process = (\<lambda>c w. ([Res (Some c) e], w)), cp_finish = (\<lambda>_. None)\<rparr>"

definition ex_mrd :: "(nat, unit) mrd" where
  "ex_mrd = snd (new_multi_reader
     [read_copier 3 (Some ErrShort), read_copier 4 None, read_copier 5 None] ())"

lemma ex_mrd_reg: "mr_reg ex_mrd =
    [([1], [(3, read_copier 3 (Some ErrShort)), (4, read_copier 4 None), (5, read_copier 5 None)])]"
  by (simp add: ex_mrd_def new_multi_reader_def add_entries_to_def read_copier_def lister_func_def
      slice_ls_def add_ls_entry_def list_add_def reg_list_def new_reg_def)

lemma ex_mrd_owners: "list_owners [1] (mr_reg ex_mrd) =
    [read_copier 3 (Some ErrShort), read_copier 4 None, read_copier 5 None]"
  by (simp add: ex_mrd_reg list_owners_def list_of_def)

lemma ex_mrd_ok: "reg_ok cp_id (mr_reg ex_mrd)"
  by (simp add: ex_mrd_reg reg_ok_def list_of_def read_copier_def)

section \<open>Properties\<close>

text \<open>
  Reading a chunk some copier lists gives the results of one of its copiers; and if one of
  them always succeeds, the read succeeds, whatever the order.
\<close>

lemma mrd_process_reads:
  assumes "mrd_process perm c st = (rs, st')"
    and "set perm = {..<length (list_owners (chunk_hash c) (mr_reg st))}"
    and "cp \<in> set (list_owners (chunk_hash c) (mr_reg st))"
    and "\<And>w. stream_err (fst (cp_process cp c w)) = None"
  shows "stream_err rs = None \<and>
    (\<exists>cp \<in> set (list_owners (chunk_hash c) (mr_reg st)). \<exists>w w'. cp_process cp c w = (rs, w'))"
proof -
  let ?cps = "shuffle_copiers perm (list_owners (chunk_hash c) (mr_reg st))"
  have set: "set ?cps = set (list_owners (chunk_hash c) (mr_reg st))"
    using assms(2) by (rule set_shuffle)
  then have ne: "?cps \<noteq> []"
    using assms(3) by auto
  then have run: "cascade_loop (map (\<lambda>cp. on_end (mrd_end (last ?cps)) (mrd_proc cp)) ?cps) c [] st = (rs, st')"
    using assms(1) by (simp add: mrd_process_def Let_def mrd_cascade_def cascade_def)
  have "stream_err rs = None"
    using cascade_loop_succeeds [OF run _ assms(4)] assms(3) set by simp
  moreover have "\<exists>cp \<in> set ?cps. \<exists>w w'. cp_process cp c w = (rs, w')"
    using cascade_loop_map [OF run] ne by auto
  ultimately show ?thesis
    using set by simp
qed

lemma mrd_process_reads_witness:
  "\<exists>rs st'. mrd_process [1, 0, 2] (set_hash [1] (new_chunk 0 None)) ex_mrd = (rs, st') \<and>
    stream_err rs = None"
proof -
  let ?c = "set_hash [1] (new_chunk 0 None)"
  obtain rs st' where run: "mrd_process [1, 0, 2] ?c ex_mrd = (rs, st')" by fastforce
  have "stream_err rs = None"
    by (rule conjunct1 [OF mrd_process_reads [OF run, of "read_copier 4 None"]])
      (auto simp: ex_mrd_owners read_copier_def lessThan_Suc)
  with run show ?thesis by auto
qed

text \<open>
  C18: a copier that fails is not the one dropped from the registry: when the first copier tried
  fails and the second succeeds, every hash loses the last copier of the list, and keeps the
  failed one unless it is the last.
\<close>

theorem mrd_drops_last:
  assumes "mrd_process perm c st = (rs, st')" and "reg_ok cp_id (mr_reg st)"
    and "shuffle_copiers perm (list_owners (chunk_hash c) (mr_reg st)) = cp1 # cp2 # cps"
    and "stream_err (fst (cp_process cp1 c (mr_world st))) \<noteq> None"
    and "\<And>w. stream_err (fst (cp_process cp2 c w)) = None"
  shows "reg.holders cp_id h (mr_reg st') =
    reg.holders cp_id h (mr_reg st) - {cp_id (last (cp2 # cps))}"
proof -
  let ?last = "last (cp2 # cps)"
  obtain rs1 w1 where p1: "cp_process cp1 c (mr_world st) = (rs1, w1)" by fastforce
  obtain rs2 w2 where p2: "cp_process cp2 c w1 = (rs2, w2)" by fastforce
  have e1: "stream_err rs1 \<noteq> None" and e2: "stream_err rs2 = None"
    using assms(4) assms(5) [of w1] p1 p2 by simp_all
  let ?st1 = "st\<lparr>mr_world := w1, mr_reg := reg_remove_owner cp_id ?last (mr_reg st)\<rparr>"
  have "on_end (mrd_end ?last) (mrd_proc cp1) c st = (rs1, ?st1)"
    using e1 by (auto simp: on_end_def mrd_proc_def p1 mrd_end_def split: option.split)
  moreover have "on_end (mrd_end ?last) (mrd_proc cp2) c ?st1 = (rs2, ?st1\<lparr>mr_world := w2\<rparr>)"
    unfolding on_end_def mrd_proc_def by (simp only: e2 p2 mrd_end_def) (simp add: p2 e2)
  moreover have "\<exists>r \<in> set rs1. res_err r \<noteq> None" "\<not> (\<exists>r \<in> set rs2. res_err r \<noteq> None)"
    using e1 e2 by simp_all
  ultimately have "st' = ?st1\<lparr>mr_world := w2\<rparr>"
    using assms(1) by (simp add: mrd_process_def assms(3) mrd_cascade_def cascade_def)
  then show ?thesis
    using reg.remove_owners [OF assms(2)] by (simp add: reg.holders_def)
qed

theorem mrd_drops_last_witness:
  "\<exists>rs st'. mrd_process [0, 1, 2] (set_hash [1] (new_chunk 0 None)) ex_mrd = (rs, st') \<and>
    reg.holders cp_id [1] (mr_reg st') = {3, 4}"
proof -
  let ?c = "set_hash [1] (new_chunk 0 None)"
  obtain rs st' where run: "mrd_process [0, 1, 2] ?c ex_mrd = (rs, st')" by fastforce
  have perm: "shuffle_copiers [0, 1, 2] (list_owners (chunk_hash ?c) (mr_reg ex_mrd)) =
      read_copier 3 (Some ErrShort) # read_copier 4 None # [read_copier 5 None]"
    by (simp add: ex_mrd_owners shuffle_copiers_def)
  have "reg.holders cp_id [1] (mr_reg st') =
      reg.holders cp_id [1] (mr_reg ex_mrd) - {cp_id (last (read_copier 4 None # [read_copier 5 None]))}"
    by (rule mrd_drops_last [OF run ex_mrd_ok perm]) (simp_all add: read_copier_def stream_err_def)
  also have "\<dots> = {3, 4}"
    by (auto simp: reg.holders_def ex_mrd_owners read_copier_def)
  finally show ?thesis
    using run by auto
qed

end
