(* ===== verification/Redundancy.thy ===== *)
theory Redundancy
  imports Store_Stripe Multireader Mem_Store
begin

text \<open>
  The stripe store and the multireader over the same stores: the copies \<open>stores/stripe/stripe.go\<close>
  makes are enough for \<open>stores/multireader.go\<close> to read every chunk when some of the stores are
  lost.
\<close>

section \<open>Copiers of a family of stores\<close>

text \<open>
  \<open>stores.Copier\<close> with the \<open>Lister\<close> and the \<open>Proc\<close>, or the \<open>Unproc\<close>, of the store of its id. A
  proc that panics is one that was given data that cannot be read again.
\<close>

definition store_copier ::
  "(chunk \<Rightarrow> 'm \<Rightarrow> ((err option \<times> chunk) \<times> 'm) outcome) \<Rightarrow> ('m \<Rightarrow> err + ls_entry list) \<Rightarrow>
   'id \<Rightarrow> ('id, 'id \<Rightarrow> 'm) copier" where
  "store_copier proc ls i =
     \<lparr>cp_id = i, cp_ls = (\<lambda>w. ls (w i)),
      cp_process = (\<lambda>c w. case proc c (w i) of
          Ret ((e, c'), m) \<Rightarrow> ([Res (Some c') e], w(i := m))
        | Panic msg \<Rightarrow> ([Res (Some c) (Some (ErrText msg))], w)),
      cp_finish = (\<lambda>_. None)\<rparr>"

lemma store_copier_sel [simp]:
  "cp_id (store_copier proc ls i) = i" "cp_ls (store_copier proc ls i) w = ls (w i)"
  by (simp_all add: store_copier_def)

section \<open>What a call of \<open>Procs\<close> leaves alone, and whom it asks\<close>

lemma lock_hashes_world: "lock_hashes hs st = Some (cur, st') \<Longrightarrow> ss_world st' = ss_world st"
  by (induction hs arbitrary: st cur) (auto simp: Let_def split: if_splits option.splits)

lemma copier_jobs_from:
  "copier_jobs all h ci ids = Ret jobs \<Longrightarrow>
     \<forall>j \<in> set jobs. cj_hash j = h \<and> cj_info j = ci \<and> cj_copier j \<in> snd ` set all"
proof (induction ids arbitrary: jobs)
  case (Cons i ids)
  then obtain cp js where cp: "map_of all i = Some cp" "copier_jobs all h ci ids = Ret js"
    "jobs = \<lparr>cj_hash = h, cj_copier = cp, cj_info = ci\<rparr> # js"
    by (auto simp: bind_outcome_Ret_iff split: option.splits)
  from map_of_SomeD [OF cp(1)] have "cp \<in> snd ` set all"
    by force
  with Cons.IH [OF cp(2)] show ?case
    by (simp add: cp(3))
qed simp

lemma plan_copies_from:
  "plan_copies all chunks new st = Ret (jobs, st') \<Longrightarrow>
     ss_world st' = ss_world st \<and>
     (\<forall>j \<in> set jobs. (cj_hash j, cj_info j) \<in> set chunks \<and> cj_copier j \<in> snd ` set all)"
proof (induction all chunks new st arbitrary: jobs rule: plan_copies.induct)
  case (2 all chunks h locs new st)
  then obtain ci js js' where ci: "map_of chunks h = Some ci" "copier_jobs all h ci locs = Ret js"
    and rest: "plan_copies all chunks new (st\<lparr>ss_reg := reg_list h (ss_reg st),
      ss_locks := wait_copies h (length locs) (ss_locks st)\<rparr>) = Ret (js', st')" and jobs: "jobs = js @ js'"
    by (auto simp: bind_outcome_Ret_iff Let_def split: option.splits)
  from 2(1) [OF ci(1) refl rest] copier_jobs_from [OF ci(2)] map_of_SomeD [OF ci(1)] show ?case
    by (auto simp: jobs)
qed simp

lemma collect_chunks_from:
  assumes "collect_chunks cs chunks qu = Inr (chunks', qu')" and "(h, ci) \<in> set chunks'"
  shows "(h, ci) \<in> set chunks \<or> (ci_chunk ci \<in> set cs \<and> chunk_hash (ci_chunk ci) = h)"
  using assms
proof (induction cs arbitrary: chunks qu)
  case (Cons c cs)
  have update: "set (AList.update k v al) \<subseteq> insert (k, v) (set al)" for k v and al :: "(hash \<times> chunk_info) list"
    by (induction al) auto
  obtain q where "collect_chunks cs (AList.update (chunk_hash c) \<lparr>ci_chunk = c, ci_use = q\<rparr> chunks) (qu + q) =
      Inr (chunks', qu')"
    using Cons.prems(1) by (auto split: option.splits sum.splits)
  from Cons.IH [OF this Cons.prems(2)] update show ?case
    by fastforce
qed simp

lemma stripe_procs_from:
  assumes "stripe_procs striper c st = Some (Ret (Inr (cs, jobs), st1))"
  shows "ss_world st1 = ss_world st \<and>
    (\<exists>qu. \<forall>j \<in> set jobs. ci_chunk (cj_info j) \<in> set (group_of c) \<and>
      chunk_hash (ci_chunk (cj_info j)) = cj_hash j \<and> cj_copier j \<in> set (man_resources qu (ss_man st)))"
proof -
  from assms obtain chunks qu cur st2 new q where
    chunks: "collect_chunks (group_of c) [] 0 = Inr (chunks, qu)"
    and lock: "lock_hashes (map fst chunks) st = Some (cur, st2)"
    and plan: "plan_copies (map (\<lambda>cp. (cp_id cp, cp)) (man_resources qu (ss_man st2))) chunks new
      (st2\<lparr>ss_seq := q\<rparr>) = Ret (jobs, st1)"
    by (auto simp: stripe_procs_def Let_def bind_outcome_Ret_iff split: sum.splits option.splits prod.splits)
  have "ss_man st2 = ss_man st"
    using lock_hashes_state [OF lock] by blast
  with plan_copies_from [OF plan] collect_chunks_from [OF chunks] lock_hashes_world [OF lock] show ?thesis
    by (fastforce simp: image_image)
qed

section \<open>What the stores hold\<close>

lemma copy_end_world [simp]: "ss_world (copy_end job e st) = ss_world st"
  by (simp add: copy_end_def Let_def split: option.split)

text \<open>A copy of a chunk that holds what its hash stands for, to the store of its copier.\<close>

definition job_of_store ::
  "(chunk \<Rightarrow> 'm \<Rightarrow> ((err option \<times> chunk) \<times> 'm) outcome) \<Rightarrow> ('m \<Rightarrow> err + ls_entry list) \<Rightarrow>
   (hash \<Rightarrow> bytes) \<Rightarrow> ('id, 'id \<Rightarrow> 'm) copy_job \<Rightarrow> bool" where
  "job_of_store save ls content j \<longleftrightarrow>
     cj_copier j = store_copier save ls (cp_id (cj_copier j)) \<and>
     chunk_hash (ci_chunk (cj_info j)) = cj_hash j \<and>
     chunk_data (ci_chunk (cj_info j)) = BytesData (content (cj_hash j))"

context listed_store
begin

definition contents :: "(hash \<Rightarrow> bytes) \<Rightarrow> ('id \<Rightarrow> 'm) \<Rightarrow> bool" where
  "contents content w \<longleftrightarrow> (\<forall>i h b. held (w i) h = Some b \<longrightarrow> b = content h)"

lemma copy_step:
  assumes "job_of_store save ls content job" and named: "\<And>h. named h" and "contents content (ss_world st)"
  shows "\<exists>st1. copy_proc job c st = ([], st1) \<and> contents content (ss_world st1) \<and>
    (\<forall>i h. held (ss_world st1 i) h \<noteq> None \<longleftrightarrow>
       held (ss_world st i) h \<noteq> None \<or> (cj_hash job = h \<and> cp_id (cj_copier job) = i))"
proof -
  let ?c = "ci_chunk (cj_info job)" and ?i = "cp_id (cj_copier job)"
  have job: "cj_copier job = store_copier save ls ?i" "chunk_hash ?c = cj_hash job"
    "chunk_data ?c = BytesData (content (cj_hash job))"
    using assms(1) by (simp_all add: job_of_store_def)
  have "held (ss_world st ?i) (chunk_hash ?c) \<in> {None, Some (content (cj_hash job))}"
    using assms(3) job(2) by (cases "held (ss_world st ?i) (chunk_hash ?c)") (auto simp: contents_def)
  from saves [OF job(3) named this] obtain m' where
    m': "save ?c (ss_world st ?i) = Ret ((None, ?c), m')"
      "\<forall>h. held m' h = (if h = cj_hash job then Some (content (cj_hash job)) else held (ss_world st ?i) h)"
    using named job(2) by auto
  have "cp_process (cj_copier job) ?c (ss_world st) = ([Res (Some ?c) None], (ss_world st)(?i := m'))"
    using m'(1) by (subst job(1)) (simp add: store_copier_def)
  then have "copy_proc job c st = ([], copy_end job None (st\<lparr>ss_world := (ss_world st)(?i := m')\<rparr>))"
    by (simp add: copy_proc_def on_end_def discard_chunks_def chunk_arg_proc_def copier_proc_def stream_err_def)
  then show ?thesis
    using m'(2) assms(3) by (intro exI conjI) (assumption, auto simp: contents_def)
qed

lemma copies_held:
  assumes "run_copies jobs c st = (es, st')" and "\<forall>j \<in> set jobs. job_of_store save ls content j"
    and named: "\<And>h. named h" and "contents content (ss_world st)"
  shows "(\<forall>e \<in> set es. e = None) \<and> contents content (ss_world st') \<and>
    (\<forall>i h. held (ss_world st' i) h \<noteq> None \<longleftrightarrow>
       held (ss_world st i) h \<noteq> None \<or> (\<exists>j \<in> set jobs. cj_hash j = h \<and> cp_id (cj_copier j) = i))"
  using assms(1,2,4)
proof (induction jobs arbitrary: st es)
  case (Cons job jobs)
  obtain st1 where st1: "copy_proc job c st = ([], st1)" "contents content (ss_world st1)"
    "\<forall>i h. held (ss_world st1 i) h \<noteq> None \<longleftrightarrow>
       held (ss_world st i) h \<noteq> None \<or> (cj_hash job = h \<and> cp_id (cj_copier job) = i)"
    using copy_step [OF _ named Cons.prems(3), of job c] Cons.prems(2) by auto
  obtain es1 where run: "run_copies jobs c st1 = (es1, st')" and es: "es = None # es1"
    using Cons.prems(1) st1(1) by (cases "run_copies jobs c st1") (simp add: run_copies.simps(2) stream_err_def)
  from Cons.IH [OF run _ st1(2)] Cons.prems(2) st1(3) show ?case
    by (auto simp: es)
qed simp

text \<open>A store that holds a chunk is read, and those that do not are not listed.\<close>

lemma loads_copier:
  assumes "held (w i) (chunk_hash c) = Some b"
  shows "cp_process (store_copier load ls i) c w = ([Res (Some (with_data (BytesData b) c)) None], w)"
  using loads [OF assms] by (simp add: store_copier_def)

lemma lists_held: "named h \<Longrightarrow> lists_hash w h (store_copier proc ls i) \<longleftrightarrow> held (w i) h \<noteq> None"
  using lists [of "w i"] by (auto simp: lists_hash_def)

end

section \<open>Reading what was copied\<close>

lemma record_copies_owners:
  "set (list_owners h (reg.record_copies oid cs g)) \<subseteq> set (list_owners h g) \<union> {ow. (h, ow) \<in> set cs}"
proof (induction cs arbitrary: g)
  case (Cons x cs)
  obtain h1 ow where x: "x = (h1, ow)" by fastforce
  have "snd ` set (AList.update k v al) \<subseteq> insert v (snd ` set al)" for k v and al :: "('b \<times> 'a) list"
    by (induction al) auto
  then have "set (list_owners h (list_add oid h1 ow (reg_list h1 g))) \<subseteq>
      set (list_owners h g) \<union> (if h = h1 then {ow} else {})"
    unfolding list_owners_def list_of_add by auto
  with Cons.IH [of "list_add oid h1 ow (reg_list h1 g)"] show ?case
    by (auto simp: x reg.record_copies_def split: if_splits)
qed (simp add: reg.record_copies_def)

lemma mrd_first_reads:
  assumes "set perm = {..<length (list_owners (chunk_hash d) (mr_reg mr))}"
    and "list_owners (chunk_hash d) (mr_reg mr) \<noteq> []"
    and "\<forall>cp \<in> set (list_owners (chunk_hash d) (mr_reg mr)).
      cp_process cp d (mr_world mr) = ([Res (Some d') None], mr_world mr)"
  shows "mrd_process perm d mr = ([Res (Some d') None], mr)"
proof -
  let ?cps = "shuffle_copiers perm (list_owners (chunk_hash d) (mr_reg mr))"
  have set: "set ?cps = set (list_owners (chunk_hash d) (mr_reg mr))"
    using assms(1) by (rule set_shuffle)
  then obtain cp cps where cps: "?cps = cp # cps"
    using assms(2) by (cases ?cps) auto
  then have "cp_process cp d (mr_world mr) = ([Res (Some d') None], mr_world mr)"
    using assms(3) set by auto
  then show ?thesis
    by (simp add: mrd_process_def cps mrd_cascade_def cascade_def on_end_def mrd_proc_def mrd_end_def stream_err_def)
qed

context listed_store
begin

lemma multireader_owners:
  assumes "new_multi_reader (map (store_copier load ls) alive) w = (e, mr)" and "named h"
  shows "e = None \<and> mr_world mr = w \<and>
    reg.holders cp_id h (mr_reg mr) = {i \<in> set alive. held (w i) h \<noteq> None} \<and>
    (\<forall>cp \<in> set (list_owners h (mr_reg mr)). \<exists>i. cp = store_copier load ls i \<and> held (w i) h \<noteq> None)"
proof -
  let ?ml = "map (store_copier load ls) alive"
  obtain e' man reg where run: "add_entries_to [CopiesEntryAdder] w ?ml ([], new_reg) = (e', man, reg)"
    by (metis prod.exhaust)
  then have mr: "mr_reg mr = reg" "mr_world mr = w" "e = e'"
    using assms(1) by (auto simp: new_multi_reader_def)
  have reg: "reg = reg.record_copies cp_id (listed w ?ml) new_reg" and err: "e' = concur_first_err (fst
      (lister_funcs [CopiesEntryAdder] w ?ml ([], new_reg)))"
    using run lister_funcs_reg [of "[CopiesEntryAdder]" w ?ml "([], new_reg)"]
    by (auto simp: add_entries_to_def split: prod.splits)
  have listed: "(h, cp) \<in> set (listed w ?ml) \<longleftrightarrow> (\<exists>i \<in> set alive. cp = store_copier load ls i \<and> held (w i) h \<noteq> None)" for cp
    using lists_held [OF assms(2), where w = w and proc = load] by (auto simp: in_listed)
  have none: "list_owners h (new_reg :: ('a, 'a \<Rightarrow> 'm) copier_reg) = []"
    by (simp add: list_owners_def list_of_def new_reg_def)
  have "(case ls m of Inl x \<Rightarrow> Some x | Inr _ \<Rightarrow> None) = None" for m
    using lists [of m] by auto
  then have "e' = None"
    unfolding err lister_funcs_errs by (simp add: concur_first_err_def first_err_None_iff)
  moreover have "reg.holders cp_id h reg = {i \<in> set alive. held (w i) h \<noteq> None}"
  proof -
    have "reg.holders cp_id h reg = reg.holders cp_id h (new_reg :: ('a, 'a \<Rightarrow> 'm) copier_reg) \<union>
        {cp_id ow | ow. (h, ow) \<in> set (listed w ?ml)}"
      unfolding reg by (intro conjunct2 [OF reg.record_copies_holders]) simp
    also have "reg.holders cp_id h (new_reg :: ('a, 'a \<Rightarrow> 'm) copier_reg) = {}"
      by (simp add: reg.holders_def none)
    also have "{} \<union> {cp_id ow | ow. (h, ow) \<in> set (listed w ?ml)} = {i \<in> set alive. held (w i) h \<noteq> None}"
      by (force simp: listed)
    finally show ?thesis .
  qed
  moreover have "\<exists>i. cp = store_copier load ls i \<and> held (w i) h \<noteq> None" if "cp \<in> set (list_owners h reg)" for cp
  proof -
    have "set (list_owners h reg) \<subseteq> {ow. (h, ow) \<in> set (listed w ?ml)}"
      using record_copies_owners [of h cp_id "listed w ?ml" new_reg] none reg by simp
    then show ?thesis
      using that listed by blast
  qed
  ultimately show ?thesis
    by (simp add: mr)
qed

lemma copies_survive:
  assumes call: "stripe_procs (\<lambda>s d q. config_stripe cfg nxt ord s d q) c st = Some (Ret (Inr (cs, jobs), st1))"
    and ok: "reg_ok cp_id (ss_reg st)"
    and known: "\<forall>h i. i \<in> reg.holders cp_id h (ss_reg st) \<longrightarrow> held (ss_world st i) h \<noteq> None"
    and cont: "contents content (ss_world st)"
    and data: "\<forall>ch \<in> set (group_of c). chunk_data ch = BytesData (content (chunk_hash ch))"
    and stores: "\<And>qu cp. cp \<in> set (man_resources qu (ss_man st)) \<Longrightarrow> cp = store_copier save ls (cp_id cp)"
    and named: "\<And>h. named h"
    and run: "mset jobs' = mset jobs" "run_copies jobs' c st1 = (es, st2)"
    and ch: "ch \<in> set (group_of c)"
    and alive: "int (card (reg.holders cp_id (chunk_hash ch) (ss_reg st2) - set alive)) < cfg_min cfg"
    and mr: "new_multi_reader (map (store_copier load ls) alive) (ss_world st2) = (e, mr)"
    and d: "chunk_hash d = chunk_hash ch" "set perm = {..<length (list_owners (chunk_hash d) (mr_reg mr))}"
  shows "e = None \<and> mrd_process perm d mr = ([Res (Some (with_data (chunk_data ch) d)) None], mr)"
proof -
  let ?h = "chunk_hash ch"
  obtain qu where from_st: "ss_world st1 = ss_world st"
    "\<forall>j \<in> set jobs. ci_chunk (cj_info j) \<in> set (group_of c) \<and>
      chunk_hash (ci_chunk (cj_info j)) = cj_hash j \<and> cj_copier j \<in> set (man_resources qu (ss_man st))"
    using stripe_procs_from [OF call] by blast
  have set: "set jobs' = set jobs"
    by (rule mset_eq_setD [OF run(1)])
  have "\<forall>j \<in> set jobs'. job_of_store save ls content j"
    unfolding set job_of_store_def using from_st(2) data stores by metis
  from copies_held [OF run(2) this named] cont from_st(1) have es: "\<forall>e \<in> set es. e = None"
    and cont2: "contents content (ss_world st2)"
    and held2: "\<forall>i h. held (ss_world st2 i) h \<noteq> None \<longleftrightarrow>
      held (ss_world st i) h \<noteq> None \<or> (\<exists>j \<in> set jobs. cj_hash j = h \<and> cp_id (cj_copier j) = i)"
    unfolding set by auto
  have h: "?h \<in> chunk_hash ` set (group_of c)"
    using ch by simp
  have "cfg_min cfg \<le> int (card (reg.holders cp_id ?h (ss_reg st2)))"
    using min_copies [OF call ok run es] h by blast
  then have "\<not> reg.holders cp_id ?h (ss_reg st2) \<subseteq> reg.holders cp_id ?h (ss_reg st2) - set alive"
    using alive by (metis Diff_subset linorder_not_le subset_antisym)
  then obtain i where i: "i \<in> reg.holders cp_id ?h (ss_reg st2)" "i \<in> set alive"
    by blast
  have "reg.holders cp_id ?h (ss_reg st2) =
      reg.holders cp_id ?h (ss_reg st) \<union> cp_id ` {cp. (?h, cp) \<in> set (succeeded jobs' es)}"
    using copies_holders [OF call ok run] h by blast
  then have "held (ss_world st2 i) ?h \<noteq> None"
    using i(1) known held2 by (force simp: set succeeded_all [OF run_copies_length [OF run(2)] es])
  note owners = multireader_owners [OF mr named, of ?h]
  have "i \<in> reg.holders cp_id ?h (mr_reg mr)"
    using owners i(2) \<open>held (ss_world st2 i) ?h \<noteq> None\<close> by simp
  then have "list_owners (chunk_hash d) (mr_reg mr) \<noteq> []"
    by (auto simp: d(1) reg.holders_def)
  moreover have "\<forall>cp \<in> set (list_owners (chunk_hash d) (mr_reg mr)).
      cp_process cp d (mr_world mr) = ([Res (Some (with_data (chunk_data ch) d)) None], mr_world mr)"
  proof
    fix cp assume "cp \<in> set (list_owners (chunk_hash d) (mr_reg mr))"
    then obtain i b where cp: "cp = store_copier load ls i" and b: "held (ss_world st2 i) (chunk_hash d) = Some b"
      using owners d(1) by auto
    have "chunk_data ch = BytesData b"
      using b cont2 d(1) data ch by (auto simp: contents_def)
    then show "cp_process cp d (mr_world mr) = ([Res (Some (with_data (chunk_data ch) d)) None], mr_world mr)"
      using loads_copier [of "ss_world st2" i d b, OF b] owners by (simp add: cp)
  qed
  ultimately show ?thesis
    using mrd_first_reads [OF d(2)] owners by blast
qed

end

section \<open>An example\<close>

definition mem_copier :: "nat \<Rightarrow> (nat, nat \<Rightarrow> mem) copier" where
  "mem_copier i = store_copier mem_process mem_ls i"

definition mem_store :: "(nat, nat \<Rightarrow> mem, nat rr) stripe_store" where
  "mem_store = snd (new_stripe_store
     (foldr (\<lambda>i man. man_add_res cp_id (mem_copier i) man) [3, 4, 5] new_man) (\<lambda>_. new_mem))"

lemma mem_store_copies:
  obtains cs jobs st1 es st2 where
    "stripe_procs (ex_striper 2) ex_chunk mem_store = Some (Ret (Inr (cs, jobs), st1))"
    "run_copies jobs ex_chunk st1 = (es, st2)"
    "length (filter (\<lambda>i. i \<notin> {4, 5}) (map cp_id (list_owners [1] (ss_reg st2)))) < 2"
proof -
  have "(case stripe_procs (ex_striper 2) ex_chunk mem_store of
      Some (Ret (Inr (cs, jobs), st1)) \<Rightarrow>
        length (filter (\<lambda>i. i \<notin> {4, 5}) (map cp_id (list_owners [1] (ss_reg (snd (run_copies jobs ex_chunk st1)))))) < 2
    | _ \<Rightarrow> False)"
    by code_simp
  then obtain cs jobs st1 where *: "stripe_procs (ex_striper 2) ex_chunk mem_store = Some (Ret (Inr (cs, jobs), st1))"
    "length (filter (\<lambda>i. i \<notin> {4, 5}) (map cp_id (list_owners [1] (ss_reg (snd (run_copies jobs ex_chunk st1)))))) < 2"
    by (auto split: option.splits outcome.splits prod.splits sum.splits)
  then show ?thesis
    by (intro that [OF *(1)]) (simp add: prod_eq_iff)
qed

lemma mem_store_sel:
  "ss_world mem_store = (\<lambda>_. [])" "ss_reg mem_store = []"
  "ss_man mem_store = map (\<lambda>i. (i, \<lparr>u_res = mem_copier i, u_use = 0, u_max = unlimited\<rparr>)) [5, 4, 3]"
  by (simp_all add: mem_store_def new_stripe_store_def add_entries_to_def lister_func_def mem_copier_def mem_ls_def
      new_mem_def new_reg_def new_man_def man_add_res_def man_add_res_quota_def man_resources_def Let_def)

section \<open>Properties\<close>

text \<open>
  C4: redundancy holds: when \<open>Procs\<close> of the stripe store has had the chunks of a group copied to
  memory stores, in any order of the copies, and of the stores that hold a chunk of the group fewer
  than \<open>Min\<close> are lost, then a multireader over the stores that are left reads that chunk, in
  whatever order it tries them. Before, the registry lists a store only for what it holds, and
  the stores hold under a hash only what it stands for.
\<close>

theorem copies_survive_loss:
  assumes "stripe_procs (\<lambda>s d q. config_stripe cfg nxt ord s d q) c st = Some (Ret (Inr (cs, jobs), st1))"
    and "reg_ok cp_id (ss_reg st)"
    and "\<forall>h i. i \<in> reg.holders cp_id h (ss_reg st) \<longrightarrow> mem_get h (ss_world st i) \<noteq> None"
    and "\<forall>i h b. mem_get h (ss_world st i) = Some b \<longrightarrow> b = content h"
    and "\<forall>ch \<in> set (group_of c). chunk_data ch = BytesData (content (chunk_hash ch))"
    and "\<forall>(i, u) \<in> set (ss_man st). u_res u = store_copier mem_process mem_ls i"
    and "mset jobs' = mset jobs" and "run_copies jobs' c st1 = (es, st2)"
    and "ch \<in> set (group_of c)"
    and "int (card (reg.holders cp_id (chunk_hash ch) (ss_reg st2) - set alive)) < cfg_min cfg"
    and "new_multi_reader (map (store_copier mem_load mem_ls) alive) (ss_world st2) = (e, mr)"
    and "chunk_hash d = chunk_hash ch" and "set perm = {..<length (list_owners (chunk_hash d) (mr_reg mr))}"
  shows "e = None \<and> mrd_process perm d mr = ([Res (Some (with_data (chunk_data ch) d)) None], mr)"
proof -
  have "cp = store_copier mem_process mem_ls (cp_id cp)" if "cp \<in> set (man_resources qu (ss_man st))" for qu cp
    using that assms(6) by (auto simp: man_resources_def)
  then show ?thesis
    using mem.copies_survive [OF assms(1-3) _ assms(5) _ _ assms(7-13)] assms(4)
    by (auto simp: mem.contents_def)
qed

lemma copies_survive_loss_witness:
  "\<exists>cs jobs st1 es st2 mr.
    stripe_procs (ex_striper 2) ex_chunk mem_store = Some (Ret (Inr (cs, jobs), st1)) \<and>
    run_copies jobs ex_chunk st1 = (es, st2) \<and>
    new_multi_reader (map (store_copier mem_load mem_ls) [4, 5]) (ss_world st2) = (None, mr) \<and>
    mrd_process [0..<length (list_owners [1] (mr_reg mr))] (set_hash [1] (new_chunk 0 None)) mr =
      ([Res (Some (with_data (BytesData [9, 9]) (set_hash [1] (new_chunk 0 None)))) None], mr)"
proof -
  obtain cs jobs st1 es st2 where call: "stripe_procs (ex_striper 2) ex_chunk mem_store = Some (Ret (Inr (cs, jobs), st1))"
    and run: "run_copies jobs ex_chunk st1 = (es, st2)"
    and few: "length (filter (\<lambda>i. i \<notin> {4, 5}) (map cp_id (list_owners [1] (ss_reg st2)))) < 2"
    by (rule mem_store_copies)
  obtain e mr where mr: "new_multi_reader (map (store_copier mem_load mem_ls) [4, 5]) (ss_world st2) = (e, mr)"
    by fastforce
  let ?d = "set_hash [1] (new_chunk 0 None)"
  have holders: "reg.holders cp_id [1] (ss_reg st2) - set [4, 5] =
      set (filter (\<lambda>i. i \<notin> {4, 5}) (map cp_id (list_owners [1] (ss_reg st2))))"
    by (auto simp: reg.holders_def)
  have "card (reg.holders cp_id [1] (ss_reg st2) - set [4, 5]) < 2"
    unfolding holders using few card_length le_less_trans by blast
  then have lost: "int (card (reg.holders cp_id (chunk_hash ex_chunk) (ss_reg st2) - set [4, 5])) < cfg_min \<lparr>cfg_min = 2, cfg_excl = 0\<rparr>"
    by (simp add: ex_chunk_def)
  have ok: "reg_ok cp_id (ss_reg mem_store)"
    by (simp add: mem_store_def new_stripe_store_ok)
  have "e = None \<and> mrd_process [0..<length (list_owners [1] (mr_reg mr))] ?d mr =
      ([Res (Some (with_data (chunk_data ex_chunk) ?d)) None], mr)"
    by (rule copies_survive_loss [OF call [unfolded ex_striper_def] ok _ _ _ _ refl run _ lost mr, where content = "\<lambda>_. [9, 9]"])
      (auto simp: mem_store_sel mem_copier_def reg.holders_def list_owners_def list_of_def mem_get_def
        group_of_def get_group_def ex_chunk_def)
  with call run mr show ?thesis
    by (auto simp: ex_chunk_def)
qed

end
