(* ===== verification/Parity_Proc.thy ===== *)
theory Parity_Proc
  imports Grouping Chain
begin

text \<open>
  \<^verbatim>\<open>procs/parity.go\<close>: a chunk becomes data and parity shards, and a group of shards, some
  of them lost or corrupted, becomes the chunk again. The Reed-Solomon encoder is a
  parameter.
\<close>

section \<open>The encoder\<close>

text \<open>
  \<open>Encode\<close> and \<open>Reconstruct\<close> write into the slice they are given, so they return it; an empty
  shard is a missing one. \<open>Join\<close> writes the first bytes of the data shards.
\<close>

record rs_enc =
  rs_split :: "bytes \<Rightarrow> err + bytes list"
  rs_encode :: "bytes list \<Rightarrow> err + bytes list"
  rs_reconstruct :: "bytes list \<Rightarrow> err + bytes list"
  rs_verify :: "bytes list \<Rightarrow> err + bool"
  rs_join :: "bytes list \<Rightarrow> int \<Rightarrow> err + bytes"

text \<open>
  What its documentation promises for \<open>k\<close> parity shards out of \<open>n\<close>: \<open>Split\<close> and \<open>Encode\<close> make \<open>n\<close>
  nonempty shards of any nonempty data; when at most \<open>k\<close> of them are missing, \<open>Reconstruct\<close>
  restores them; \<open>Verify\<close> accepts them and \<open>Join\<close> gives back the data.
\<close>

definition rs_shards :: "rs_enc \<Rightarrow> bytes \<Rightarrow> err + bytes list" where
  "rs_shards enc b = (case rs_split enc b of Inl e \<Rightarrow> Inl e | Inr shards \<Rightarrow> rs_encode enc shards)"

definition missing :: "bytes list \<Rightarrow> nat" where
  "missing shards = length (filter (\<lambda>s. s = []) shards)"

definition remains_of :: "bytes list \<Rightarrow> bytes list \<Rightarrow> bool" where
  "remains_of shards full \<longleftrightarrow> list_all2 (\<lambda>s f. s = [] \<or> s = f) shards full"

definition erasure_code :: "rs_enc \<Rightarrow> nat \<Rightarrow> nat \<Rightarrow> bool" where
  "erasure_code enc n k \<longleftrightarrow>
     (\<forall>b. b \<noteq> [] \<longrightarrow> (\<exists>full. rs_shards enc b = Inr full \<and> length full = n \<and> [] \<notin> set full \<and>
        rs_verify enc full = Inr True \<and> rs_join enc full (int (length b)) = Inr b \<and>
        (\<forall>shards. remains_of shards full \<longrightarrow> missing shards \<le> k \<longrightarrow> rs_reconstruct enc shards = Inr full)))"

section \<open>Shards\<close>

record parity =
  pa_enc :: rs_enc
  pa_nshards :: int

text \<open>\<open>reedsolomon.New\<close> fails for numbers of shards it does not support.\<close>

definition new_parity :: "(int \<Rightarrow> int \<Rightarrow> err + rs_enc) \<Rightarrow> int \<Rightarrow> int \<Rightarrow> err + parity" where
  "new_parity new_enc ndata nparity =
     (case new_enc ndata nparity of
        Inl e \<Rightarrow> Inl e
      | Inr enc \<Rightarrow> Inr \<lparr>pa_enc = enc, pa_nshards = wrap_int (ndata + nparity)\<rparr>)"

definition parity_split :: "parity \<Rightarrow> chunk \<Rightarrow> (err + bytes list) outcome" where
  "parity_split p c =
     bind_outcome (data_bytes (chunk_data c)) (\<lambda>((b, e), d).
       Ret (case e of Some e \<Rightarrow> Inl e | None \<Rightarrow> rs_shards (pa_enc p) b))"

definition shard_chunk :: "parity \<Rightarrow> chunk \<Rightarrow> int \<Rightarrow> nat \<times> bytes \<Rightarrow> chunk" where
  "shard_chunk p c sz = (\<lambda>(i, shard).
     set_target_size sz
       (new_chunk (wrap_int (wrap_int (chunk_num c * pa_nshards p) + int i)) (Some (BytesData shard))))"

definition parity_process :: "parity \<Rightarrow> chunk \<Rightarrow> res list outcome" where
  "parity_process p c =
     (case data_size (chunk_data c) of
        None \<Rightarrow> Ret (single_res c (Some (ErrText ''sized-data required to determine target size'')))
      | Some sz \<Rightarrow>
          bind_outcome (parity_split p c) (\<lambda>r.
            Ret (case r of
                Inl e \<Rightarrow> [Res (Some c) (Some e)]
              | Inr shards \<Rightarrow> map (\<lambda>s. Res (Some (shard_chunk p c sz s)) None) (enumerate 0 shards))))"

section \<open>Joining\<close>

definition parity_get_group :: "chunk \<Rightarrow> int \<Rightarrow> err + chunk list" where
  "parity_get_group c sz =
     (case get_group c of
        None \<Rightarrow> Inl (ErrText ''missing group'')
      | Some cs \<Rightarrow> if int (length cs) \<noteq> sz then Inl (ErrText ''invalid group size'') else Inr cs)"

text \<open>The error the group recovered for the chunk, and whether the shard can do without it.\<close>

definition parity_recoverable_err :: "chunk \<Rightarrow> err option \<times> bool" where
  "parity_recoverable_err c =
     (case get_group_err c of
        None \<Rightarrow> (None, False)
      | Some e \<Rightarrow>
          (case e of MissingDataError _ \<Rightarrow> (Some e, True) | _ \<Rightarrow> (Some e, e = ErrIntegrityCheckFailed)))"

text \<open>The loop over the group: the shards, and whether any has to be reconstructed.\<close>

fun group_shards :: "chunk list \<Rightarrow> (err + bytes list \<times> bool) outcome" where
  "group_shards [] = Ret (Inr ([], False))"
| "group_shards (c # cs) =
     bind_outcome
       (case parity_recoverable_err c of
          (_, True) \<Rightarrow> Ret (Inr ([], True))
        | (Some e, False) \<Rightarrow> Ret (Inl e)
        | (None, False) \<Rightarrow>
            bind_outcome (data_bytes (chunk_data c)) (\<lambda>((b, e), d).
              Ret (case e of Some e \<Rightarrow> Inl e | None \<Rightarrow> Inr (b, False))))
       (\<lambda>r. case r of
          Inl e \<Rightarrow> Ret (Inl e)
        | Inr (s, must) \<Rightarrow>
            bind_outcome (group_shards cs) (\<lambda>rest.
              Ret (map_sum (\<lambda>e. e) (\<lambda>(ss, must'). (s # ss, must \<or> must')) rest)))"

definition parity_join :: "parity \<Rightarrow> chunk \<Rightarrow> (err + bytes) outcome" where
  "parity_join p c =
     (case parity_get_group c (pa_nshards p) of
        Inl e \<Rightarrow> Ret (Inl e)
      | Inr cs \<Rightarrow>
          bind_outcome (group_shards cs) (\<lambda>r.
            case r of
              Inl e \<Rightarrow> Ret (Inl e)
            | Inr (shards, must) \<Rightarrow>
                (case (if must then rs_reconstruct (pa_enc p) shards else Inr shards) of
                   Inl e \<Rightarrow> Ret (Inl e)
                 | Inr shards \<Rightarrow>
                     (case rs_verify (pa_enc p) shards of
                        Inl e \<Rightarrow> Ret (Inl e)
                      | Inr ok \<Rightarrow>
                          if \<not> ok then Ret (Inl (ErrText ''verification failed''))
                          else if chunk_target_size c < 0 then Panic ''makeslice: cap out of range''
                          else Ret (rs_join (pa_enc p) shards (chunk_target_size c))))))"

definition parity_unprocess :: "parity \<Rightarrow> chunk \<Rightarrow> (err + chunk) outcome" where
  "parity_unprocess p c =
     bind_outcome (parity_join p c) (\<lambda>r.
       Ret (map_sum (\<lambda>e. e) (\<lambda>b. with_data (BytesData b) c) r))"

section \<open>Losing shards\<close>

text \<open>
  A shard as it comes back: intact, or as the group proc keeps a chunk whose error can be
  recovered from, whatever its data.
\<close>

definition recoverable :: "err \<Rightarrow> bool" where
  "recoverable e \<longleftrightarrow> e = ErrIntegrityCheckFailed \<or> (\<exists>x. e = MissingDataError x)"

definition lost :: "chunk \<Rightarrow> bool" where
  "lost c \<longleftrightarrow> (\<exists>e. get_group_err c = Some e \<and> recoverable e)"

definition comes_back :: "bytes \<Rightarrow> chunk \<Rightarrow> bool" where
  "comes_back shard c \<longleftrightarrow> lost c \<or> (get_group_err c = None \<and> chunk_data c = BytesData shard)"

lemma recoverable_err_lost: "lost c \<Longrightarrow> \<exists>e. parity_recoverable_err c = (Some e, True)"
  by (auto simp: lost_def recoverable_def parity_recoverable_err_def)

lemma group_shards_back:
  assumes "list_all2 comes_back full cs" and "[] \<notin> set full"
  shows "\<exists>shards must. group_shards cs = Ret (Inr (shards, must)) \<and> remains_of shards full \<and>
    missing shards = length (filter lost cs) \<and> (must \<longleftrightarrow> (\<exists>c \<in> set cs. lost c)) \<and>
    (\<not> must \<longrightarrow> shards = full)"
  using assms
proof (induction rule: list_all2_induct)
  case Nil
  show ?case
    by (intro exI [of _ "[]"] exI [of _ False]) (simp add: remains_of_def missing_def)
next
  case (Cons f full c cs)
  obtain shards must where IH: "group_shards cs = Ret (Inr (shards, must))" "remains_of shards full"
    "missing shards = length (filter lost cs)" "must \<longleftrightarrow> (\<exists>c \<in> set cs. lost c)" "\<not> must \<longrightarrow> shards = full"
    using Cons.IH Cons.prems by auto
  show ?case
  proof (cases "lost c")
    case True
    then show ?thesis
      using IH recoverable_err_lost [OF True] by (auto simp: remains_of_def missing_def)
  next
    case False
    then have "get_group_err c = None" "chunk_data c = BytesData f"
      using Cons.hyps(1) by (simp_all add: comes_back_def)
    then show ?thesis
      using IH False Cons.prems
      by (auto simp: parity_recoverable_err_def data_bytes_def remains_of_def missing_def)
  qed
qed

lemma parity_unprocess_back:
  assumes code: "erasure_code (pa_enc p) n k" and p: "pa_nshards p = int n" and "b \<noteq> []"
    and full: "rs_shards (pa_enc p) b = Inr full"
    and restored: "list_all2 comes_back full cs" and few: "length (filter lost cs) \<le> k"
    and c: "get_group c = Some cs" "chunk_target_size c = int (length b)"
  shows "parity_unprocess p c = Ret (Inr (with_data (BytesData b) c))"
proof -
  have laws: "length full = n" "[] \<notin> set full" "rs_verify (pa_enc p) full = Inr True"
      "rs_join (pa_enc p) full (int (length b)) = Inr b"
    and rec: "\<And>shards. remains_of shards full \<Longrightarrow> missing shards \<le> k \<Longrightarrow>
      rs_reconstruct (pa_enc p) shards = Inr full"
    using code \<open>b \<noteq> []\<close> full unfolding erasure_code_def by force+
  obtain shards must where gs: "group_shards cs = Ret (Inr (shards, must))" "remains_of shards full"
    "missing shards = length (filter lost cs)" "\<not> must \<longrightarrow> shards = full"
    using group_shards_back [OF restored laws(2)] by blast
  have "(if must then rs_reconstruct (pa_enc p) shards else Inr shards) = Inr full"
    using gs rec [OF gs(2)] few by simp
  moreover have "length cs = n"
    using restored laws(1) by (simp add: list_all2_lengthD)
  ultimately show ?thesis
    by (simp add: parity_unprocess_def parity_join_def parity_get_group_def c p gs(1) laws)
qed

text \<open>The shards of one chunk, in any order, make one group.\<close>

lemma group_of_one:
  assumes "1 \<le> n" and nums: "map chunk_num cs0 = map (\<lambda>i. h * int n + int i) [0..<n]"
    and h: "0 \<le> h" "(h + 1) * int n \<le> 2 ^ 63" and perm: "mset cs = mset cs0"
  shows "\<exists>g. group_run cs \<lparr>gsize = int n, growing = []\<rparr> = ([Res (Some (group_agg h cs0)) None], g) \<and>
    group_finish g = None"
proof -
  have sz: "1 \<le> int n"
    using assms(1) by simp
  have set: "set cs = set cs0" and len: "length cs = n"
    using mset_eq_setD [OF perm] mset_eq_length [OF perm] arg_cong [OF nums, of length] by simp_all
  have in_range: "h * int n \<le> chunk_num c \<and> chunk_num c < h * int n + int n" if "c \<in> set cs" for c
  proof -
    have "chunk_num c \<in> set (map chunk_num cs0)"
      using that set by simp
    then show ?thesis
      unfolding nums by auto
  qed
  have ok: "\<forall>c \<in> set cs. num_ok c"
  proof
    fix c assume "c \<in> set cs"
    moreover have "0 \<le> h * int n" "h * int n + int n \<le> 2 ^ 63"
      using h by (simp_all add: algebra_simps)
    ultimately show "num_ok c"
      using in_range [of c] by (simp add: num_ok_def)
  qed
  have "mset (map chunk_num cs) = mset (map chunk_num cs0)"
    using perm by simp
  moreover have dist0: "distinct (map chunk_num cs0)"
    unfolding nums by (simp add: distinct_map inj_on_def)
  ultimately have dist: "distinct (map chunk_num cs)"
    using mset_eq_imp_distinct_iff by blast
  have head: "chunk_num c div int n = h" if "c \<in> set cs" for c
    using in_range [OF that] sz
    by (intro int_div_pos_eq [of _ _ _ "chunk_num c - h * int n"]) (auto simp: mult.commute)
  have members: "members (int n) cs h' = (if h' = h then cs else [])" for h'
    using head by (auto simp: members_def filter_id_conv filter_empty_conv)
  have full: "full_heads (int n) cs = {h}"
    using len sz by (auto simp: full_heads_def members)
  have "sort_key chunk_num cs = cs0"
  proof (rule sort_key_inj_key_eq [OF perm])
    show "inj_on chunk_num (set cs)"
      using dist by (simp add: distinct_map)
    show "sorted (map chunk_num cs0)"
      unfolding nums by (simp add: sorted_map sorted_wrt_upt)
  qed
  then have agg: "agg_res (int n) cs h = Res (Some (group_agg h cs0)) None"
    by (simp add: agg_res_def members)
  from group_run_tracks [OF sz dist ok] obtain rs g where
    run: "group_run cs \<lparr>gsize = int n, growing = []\<rparr> = (rs, g)" and t: "group_tracks (int n) g cs"
    and rs: "mset rs = {#agg_res (int n) cs h#}"
    unfolding full by auto
  have "group_finish g = None"
    using group_tracks_finish [OF sz t] full head by simp
  then show ?thesis
    using run rs agg by auto
qed

text \<open>
  The shards \<open>chs\<close> as they come back: in any order, each intact or with a recoverable error.
\<close>

definition come_back :: "nat \<Rightarrow> chunk list \<Rightarrow> chunk list \<Rightarrow> bool" where
  "come_back k chs cs \<longleftrightarrow> (\<exists>cs0. mset cs = mset cs0 \<and> length (filter lost cs0) \<le> k \<and>
     list_all2 (\<lambda>ch c. chunk_num c = chunk_num ch \<and> chunk_target_size c = chunk_target_size ch \<and>
       comes_back (case chunk_data ch of BytesData b \<Rightarrow> b | ReaderData b _ _ \<Rightarrow> b) c) chs cs0)"

lemma parity_process_shards:
  assumes "rs_shards (pa_enc p) b = Inr full" and "chunk_data c = BytesData b"
  shows "parity_process p c =
    Ret (map (\<lambda>ch. Res (Some ch) None) (map (shard_chunk p c (int (length b))) (enumerate 0 full)))"
  using assms by (simp add: parity_process_def parity_split_def data_bytes_def comp_def)

lemma parity_group_back:
  assumes law: "erasure_code (pa_enc p) n k" and p: "pa_nshards p = int n" and n: "1 \<le> n"
    and c: "chunk_data c = BytesData b" "b \<noteq> []" "0 \<le> chunk_num c"
    and small: "(chunk_num c + 1) * int n \<le> 2 ^ 63"
    and full: "rs_shards (pa_enc p) b = Inr full"
    and returned: "come_back k (map (shard_chunk p c (int (length b))) (enumerate 0 full)) cs"
  shows "\<exists>agg g d. group_run cs \<lparr>gsize = int n, growing = []\<rparr> = ([Res (Some agg) None], g) \<and>
    group_finish g = None \<and> parity_unprocess p agg = Ret (Inr d) \<and>
    chunk_data d = BytesData b \<and> chunk_num d = chunk_num c"
proof -
  let ?chs = "map (shard_chunk p c (int (length b))) (enumerate 0 full)"
  obtain cs0 where perm: "mset cs = mset cs0" and few: "length (filter lost cs0) \<le> k"
    and all: "list_all2 (\<lambda>ch c. chunk_num c = chunk_num ch \<and> chunk_target_size c = chunk_target_size ch \<and>
       comes_back (case chunk_data ch of BytesData b \<Rightarrow> b | ReaderData b _ _ \<Rightarrow> b) c) ?chs cs0"
    using returned unfolding come_back_def by blast
  have len_full: "length full = n"
    using law full c(2) unfolding erasure_code_def by force
  have len: "length cs0 = n"
    using list_all2_lengthD [OF all] len_full by simp
  have base: "0 \<le> chunk_num c * int n" "chunk_num c * int n + int n \<le> 2 ^ 63"
    using c(3) small by (simp_all add: algebra_simps)
  have shard: "chunk_num (?chs ! i) = chunk_num c * int n + int i"
      "chunk_target_size (?chs ! i) = int (length b)" "chunk_data (?chs ! i) = BytesData (full ! i)"
    if "i < n" for i
    using that base len_full by (simp_all add: shard_chunk_def nth_enumerate_eq p)
  have back_i: "chunk_num (cs0 ! i) = chunk_num c * int n + int i"
      "chunk_target_size (cs0 ! i) = int (length b)" "comes_back (full ! i) (cs0 ! i)"
    if "i < n" for i
    using list_all2_nthD2 [OF all, of i] shard [OF that] that len by simp_all
  have "map chunk_num cs0 = map (\<lambda>i. chunk_num c * int n + int i) [0..<n]"
    using back_i(1) len by (intro nth_equalityI) simp_all
  from group_of_one [OF n this c(3) small perm] obtain g where
    run: "group_run cs \<lparr>gsize = int n, growing = []\<rparr> = ([Res (Some (group_agg (chunk_num c) cs0)) None], g)"
    and fin: "group_finish g = None"
    by blast
  have "chunk_target_size (group_agg (chunk_num c) cs0) = int (length b)"
    using back_i(2) [of 0] n len by (simp add: group_agg_def hd_conv_nth flip: length_greater_0_conv)
  moreover have "list_all2 comes_back full cs0"
    using back_i(3) len len_full by (simp add: list_all2_conv_all_nth)
  ultimately have "parity_unprocess p (group_agg (chunk_num c) cs0) =
      Ret (Inr (with_data (BytesData b) (group_agg (chunk_num c) cs0)))"
    by (intro parity_unprocess_back [OF law p c(2) full _ few]) simp_all
  then show ?thesis
    using run fin by auto
qed

section \<open>Properties\<close>

text \<open>
  C27: the shards of a chunk, gathered again by the group proc in any order, give back its data
  and its number, as long as no more of them are missing or corrupted than there are parity
  shards.
\<close>

theorem parity_group_roundtrip:
  fixes p c b full
  defines "chs \<equiv> map (shard_chunk p c (int (length b))) (enumerate 0 full)"
  assumes "erasure_code (pa_enc p) n k" and "pa_nshards p = int n" and "1 \<le> n"
    and "chunk_data c = BytesData b" and "b \<noteq> []" and "0 \<le> chunk_num c"
    and "(chunk_num c + 1) * int n \<le> 2 ^ 63"
    and "rs_shards (pa_enc p) b = Inr full" and "come_back k chs cs"
  shows "parity_process p c = Ret (map (\<lambda>ch. Res (Some ch) None) chs) \<and> length chs = n \<and>
    (\<exists>agg g d. group_run cs \<lparr>gsize = int n, growing = []\<rparr> = ([Res (Some agg) None], g) \<and>
       group_finish g = None \<and> parity_unprocess p agg = Ret (Inr d) \<and>
       chunk_data d = BytesData b \<and> chunk_num d = chunk_num c)"
proof -
  have "length full = n"
    using assms(2,6,9) unfolding erasure_code_def by force
  then show ?thesis
    using parity_process_shards [OF assms(9,5)] parity_group_back [OF assms(2-9)] assms(10)
    unfolding chs_def by simp
qed

text \<open>One data shard and one parity shard, its copy.\<close>

definition mirror :: rs_enc where
  "mirror = \<lparr>
     rs_split = (\<lambda>b. Inr [b, []]),
     rs_encode = (\<lambda>ss. Inr [hd ss, hd ss]),
     rs_reconstruct = (\<lambda>ss. Inr (if hd ss = [] then [ss ! 1, ss ! 1] else [hd ss, hd ss])),
     rs_verify = (\<lambda>ss. Inr (hd ss = ss ! 1)),
     rs_join = (\<lambda>ss sz. Inr (take (nat sz) (hd ss)))\<rparr>"

lemma mirror_code: "erasure_code mirror 2 1"
proof -
  have "rs_reconstruct mirror shards = Inr [b, b]"
    if "remains_of shards [b, b]" "missing shards \<le> 1" for shards and b :: bytes
    using that by (auto simp: mirror_def remains_of_def missing_def list_all2_Cons2)
  then show ?thesis
    by (auto simp: erasure_code_def rs_shards_def) (auto simp: mirror_def)
qed

text \<open>The first shard is lost, the second comes back.\<close>

definition lost_shard :: chunk where
  "lost_shard = meta_set MetaGroupErr (MetaError ErrIntegrityCheckFailed)
     (set_target_size 2 (new_chunk 10 (Some (BytesData [0]))))"

definition kept_shard :: chunk where
  "kept_shard = set_target_size 2 (new_chunk 11 (Some (BytesData [7, 8])))"

lemma mirror_comes_back:
  "come_back 1 (map (shard_chunk \<lparr>pa_enc = mirror, pa_nshards = 2\<rparr> (new_chunk 5 (Some (BytesData [7, 8])))
     (int (length [7, 8 :: byte]))) (enumerate 0 [[7, 8], [7, 8]])) [kept_shard, lost_shard]"
  unfolding come_back_def
  by (rule exI [of _ "[lost_shard, kept_shard]"])
    (simp add: lost_shard_def kept_shard_def shard_chunk_def comes_back_def lost_def recoverable_def
      get_group_err_def)

lemma parity_group_roundtrip_witness:
  "parity_process \<lparr>pa_enc = mirror, pa_nshards = 2\<rparr> (new_chunk 5 (Some (BytesData [7, 8]))) =
      Ret (map (\<lambda>ch. Res (Some ch) None)
        (map (shard_chunk \<lparr>pa_enc = mirror, pa_nshards = 2\<rparr> (new_chunk 5 (Some (BytesData [7, 8])))
          (int (length [7, 8 :: byte]))) (enumerate 0 [[7, 8], [7, 8]]))) \<and>
    length (map (shard_chunk \<lparr>pa_enc = mirror, pa_nshards = 2\<rparr> (new_chunk 5 (Some (BytesData [7, 8])))
      (int (length [7, 8 :: byte]))) (enumerate 0 [[7, 8], [7, 8]])) = 2 \<and>
    (\<exists>agg g d. group_run [kept_shard, lost_shard] \<lparr>gsize = int 2, growing = []\<rparr> = ([Res (Some agg) None], g) \<and>
       group_finish g = None \<and>
       parity_unprocess \<lparr>pa_enc = mirror, pa_nshards = 2\<rparr> agg = Ret (Inr d) \<and>
       chunk_data d = BytesData [7, 8] \<and>
       chunk_num d = chunk_num (new_chunk 5 (Some (BytesData [7, 8]))))"
  by (rule parity_group_roundtrip [where k = 1])
    (simp_all add: mirror_code [unfolded One_nat_def] mirror_comes_back [unfolded One_nat_def, simplified]
      rs_shards_def, simp_all add: mirror_def)

end
