(* ===== verification/Slots.thy ===== *)
theory Slots
  imports Procs
begin

text \<open>
  \<^verbatim>\<open>slots/slots.go\<close>, \<^verbatim>\<open>procs/backlog.go\<close>, \<^verbatim>\<open>procs/concur.go\<close>: slots bound how many calls
  run at once. A backlog takes a slot in \<open>Process\<close>, before it returns its channel, and gives
  it back in a goroutine of its own, after that channel is closed; a concur proc does the
  same for every proc of a chunk. The steps of these goroutines are a relation, any of them
  may be the next.
\<close>

section \<open>Slots\<close>

text \<open>
  A buffered channel of capacity \<open>sl_cap\<close> with \<open>sl_len\<close> values in it. \<open>None\<close> is an operation
  that has to wait; \<open>make\<close> panics for a negative capacity.
\<close>

record slots =
  sl_cap :: nat
  sl_len :: nat

definition slots_new :: "int \<Rightarrow> slots outcome" where
  "slots_new n =
     (if n < 0 then Panic ''makechan: size out of range'' else Ret \<lparr>sl_cap = nat n, sl_len = nat n\<rparr>)"

definition slots_take :: "slots \<Rightarrow> slots option" where
  "slots_take s = (if sl_len s = 0 then None else Some (s\<lparr>sl_len := sl_len s - 1\<rparr>))"

definition slots_release :: "slots \<Rightarrow> slots option" where
  "slots_release s = (if sl_len s < sl_cap s then Some (s\<lparr>sl_len := sl_len s + 1\<rparr>) else None)"

text \<open>What \<open>Finish\<close> of a backlog or concur proc returns once its own proc has finished.\<close>

definition slots_finish :: "err option \<Rightarrow> slots \<Rightarrow> err option" where
  "slots_finish e s =
     (case e of Some e \<Rightarrow> Some e
      | None \<Rightarrow> if sl_len s < sl_cap s then Some ErrUnreturnedSlots else None)"

section \<open>Calls\<close>

text \<open>
  A call waits for a slot, runs until the results of its proc have been passed on, has then
  closed its channel (\<open>close(out)\<close>, or \<open>wg.Done()\<close> in a concur proc), and has at last
  returned its slot: the deferred calls run in the reverse of their order.
\<close>

datatype phase = Waiting | Running | Closed | Returned

record calls =
  cl_slots :: slots
  cl_phases :: "phase list"

definition calls_in :: "phase \<Rightarrow> calls \<Rightarrow> nat" where
  "calls_in p s = length (filter (\<lambda>q. q = p) (cl_phases s))"

definition new_calls :: "int \<Rightarrow> calls outcome" where
  "new_calls n = bind_outcome (slots_new n) (\<lambda>sl. Ret \<lparr>cl_slots = sl, cl_phases = []\<rparr>)"

definition new_backlog :: "int \<Rightarrow> calls outcome" where
  "new_backlog n = new_calls n"

definition new_concur :: "int \<Rightarrow> calls outcome" where
  "new_concur n = new_calls n"

text \<open>
  \<open>Process\<close> of a backlog adds a waiting call. \<open>Process\<close> of a concur proc returns the error of
  its dynamic proc, or adds a waiting call for every proc; which of the waiting ones takes
  the next slot is left open.
\<close>

definition backlog_process :: "calls \<Rightarrow> calls" where
  "backlog_process s = s\<lparr>cl_phases := cl_phases s @ [Waiting]\<rparr>"

definition concur_process :: "chunk \<Rightarrow> err + 'p list \<Rightarrow> calls \<Rightarrow> res list option \<times> calls" where
  "concur_process c procs s =
     (case procs of
        Inl e \<Rightarrow> (Some (single_res c (Some e)), s)
      | Inr ps \<Rightarrow> (None, s\<lparr>cl_phases := cl_phases s @ replicate (length ps) Waiting\<rparr>))"

inductive call_step :: "calls \<Rightarrow> calls \<Rightarrow> bool" where
  take_slot: "i < length (cl_phases s) \<Longrightarrow> cl_phases s ! i = Waiting \<Longrightarrow>
    slots_take (cl_slots s) = Some sl \<Longrightarrow>
    call_step s (s\<lparr>cl_slots := sl, cl_phases := (cl_phases s)[i := Running]\<rparr>)"
| close_out: "i < length (cl_phases s) \<Longrightarrow> cl_phases s ! i = Running \<Longrightarrow>
    call_step s (s\<lparr>cl_phases := (cl_phases s)[i := Closed]\<rparr>)"
| release_slot: "i < length (cl_phases s) \<Longrightarrow> cl_phases s ! i = Closed \<Longrightarrow>
    slots_release (cl_slots s) = Some sl \<Longrightarrow>
    call_step s (s\<lparr>cl_slots := sl, cl_phases := (cl_phases s)[i := Returned]\<rparr>)"

definition backlog_enter :: "calls \<Rightarrow> calls \<Rightarrow> bool" where
  "backlog_enter s s' \<longleftrightarrow> s' = backlog_process s"

definition concur_enter :: "calls \<Rightarrow> calls \<Rightarrow> bool" where
  "concur_enter s s' \<longleftrightarrow> (\<exists>c (procs :: err + unit list). s' = snd (concur_process c procs s))"

inductive calls_reach :: "(calls \<Rightarrow> calls \<Rightarrow> bool) \<Rightarrow> int \<Rightarrow> calls \<Rightarrow> bool" for enter n where
  reach_start: "new_calls n = Ret s \<Longrightarrow> calls_reach enter n s"
| reach_enter: "calls_reach enter n s \<Longrightarrow> enter s s' \<Longrightarrow> calls_reach enter n s'"
| reach_step: "calls_reach enter n s \<Longrightarrow> call_step s s' \<Longrightarrow> calls_reach enter n s'"

definition backlog_finish :: "err option \<Rightarrow> calls \<Rightarrow> err option" where
  "backlog_finish e s = slots_finish e (cl_slots s)"

definition concur_finish :: "err option \<Rightarrow> calls \<Rightarrow> err option" where
  "concur_finish e s = slots_finish e (cl_slots s)"

section \<open>Where the slots are\<close>

text \<open>Every slot is in the channel or held by a call that runs or has just closed.\<close>

definition slots_inv :: "int \<Rightarrow> calls \<Rightarrow> bool" where
  "slots_inv n s \<longleftrightarrow> int (sl_cap (cl_slots s)) = n \<and>
     sl_len (cl_slots s) + calls_in Running s + calls_in Closed s = sl_cap (cl_slots s)"

lemma calls_in_append [simp]:
  "calls_in p (s\<lparr>cl_phases := cl_phases s @ qs\<rparr>) = calls_in p s + length (filter (\<lambda>q. q = p) qs)"
  by (simp add: calls_in_def)

lemma filter_list_update:
  "i < length xs \<Longrightarrow> xs ! i = a \<Longrightarrow>
   length (filter (\<lambda>q. q = p) (xs[i := b])) + (if a = p then 1 else 0) =
   length (filter (\<lambda>q. q = p) xs) + (if b = p then 1 else 0)"
proof (induction xs arbitrary: i)
  case (Cons x xs)
  then show ?case
    by (cases i) auto
qed simp

lemma calls_in_update:
  assumes "i < length (cl_phases s)" and "cl_phases s ! i = a"
  shows "calls_in p (s\<lparr>cl_phases := (cl_phases s)[i := b]\<rparr>) + (if a = p then 1 else 0) =
    calls_in p s + (if b = p then 1 else 0)"
proof -
  have "cl_phases (s\<lparr>cl_phases := (cl_phases s)[i := b]\<rparr>) = (cl_phases s)[i := b]"
    by simp
  then show ?thesis
    using filter_list_update [OF assms, of p b] by (simp only: calls_in_def)
qed

lemma calls_in_slots [simp]: "calls_in p (s\<lparr>cl_slots := sl\<rparr>) = calls_in p s"
  by (simp add: calls_in_def)

lemma slots_inv_step: "call_step s s' \<Longrightarrow> slots_inv n s \<Longrightarrow> slots_inv n s'"
proof (induction rule: call_step.induct)
  case (take_slot i s sl)
  then show ?case
    using calls_in_update [OF take_slot(1,2), of Running Running]
      calls_in_update [OF take_slot(1,2), of Closed Running]
    by (auto simp: slots_inv_def slots_take_def calls_in_def split: if_splits)
next
  case (close_out i s)
  then show ?case
    using calls_in_update [OF close_out(1,2), of Running Closed]
      calls_in_update [OF close_out(1,2), of Closed Closed]
    by (auto simp: slots_inv_def split: if_splits)
next
  case (release_slot i s sl)
  then show ?case
    using calls_in_update [OF release_slot(1,2), of Running Returned]
      calls_in_update [OF release_slot(1,2), of Closed Returned]
    by (auto simp: slots_inv_def slots_release_def calls_in_def split: if_splits)
qed

lemma calls_in_pos: "0 < calls_in p s \<longleftrightarrow> (\<exists>i < length (cl_phases s). cl_phases s ! i = p)"
proof -
  have "0 < calls_in p s \<longleftrightarrow> p \<in> set (cl_phases s)"
    by (auto simp: calls_in_def filter_empty_conv)
  then show ?thesis
    by (auto simp: in_set_conv_nth)
qed

text \<open>A user of slots: a proc whose calls enter waiting.\<close>

locale slot_user =
  fixes enter :: "calls \<Rightarrow> calls \<Rightarrow> bool"
  assumes enters: "enter s s' \<Longrightarrow> \<exists>k. s' = s\<lparr>cl_phases := cl_phases s @ replicate k Waiting\<rparr>"
begin

lemma reach_inv: "calls_reach enter n s \<Longrightarrow> slots_inv n s"
proof (induction rule: calls_reach.induct)
  case (reach_start s)
  then show ?case
    by (auto simp: new_calls_def slots_new_def slots_inv_def calls_in_def split: if_splits)
next
  case (reach_enter s s')
  obtain k where "s' = s\<lparr>cl_phases := cl_phases s @ replicate k Waiting\<rparr>"
    using enters [OF reach_enter(2)] by blast
  with reach_enter(3) show ?case
    by (simp add: slots_inv_def)
next
  case (reach_step s s')
  then show ?case
    by (blast intro: slots_inv_step)
qed

lemma bounded: "calls_reach enter n s \<Longrightarrow> int (calls_in Running s) \<le> n"
  using reach_inv [of n s] by (simp add: slots_inv_def)

lemma finish_iff:
  "calls_reach enter n s \<Longrightarrow>
   slots_finish None (cl_slots s) = None \<longleftrightarrow> calls_in Running s = 0 \<and> calls_in Closed s = 0"
  using reach_inv [of n s] by (auto simp: slots_inv_def slots_finish_def)

text \<open>While a call has not returned its slot, some call can go on.\<close>

lemma progress:
  assumes "calls_reach enter n s" and "0 < n" and "\<exists>p \<in> set (cl_phases s). p \<noteq> Returned"
  shows "\<exists>s'. call_step s s'"
proof -
  have inv: "slots_inv n s"
    using assms(1) by (rule reach_inv)
  consider "0 < calls_in Running s" | "0 < calls_in Closed s"
    | "calls_in Running s = 0" "calls_in Closed s = 0"
    by auto
  then show ?thesis
  proof cases
    case 1
    then obtain i where "i < length (cl_phases s)" "cl_phases s ! i = Running"
      by (auto simp: calls_in_pos)
    then show ?thesis
      by (blast intro: close_out)
  next
    case 2
    then obtain i where "i < length (cl_phases s)" "cl_phases s ! i = Closed"
      by (auto simp: calls_in_pos)
    moreover have "slots_release (cl_slots s) \<noteq> None"
      using inv 2 by (simp add: slots_inv_def slots_release_def)
    ultimately show ?thesis
      by (blast intro: release_slot)
  next
    case 3
    obtain i where i: "i < length (cl_phases s)" "cl_phases s ! i \<noteq> Returned"
      using assms(3) by (auto simp: in_set_conv_nth)
    moreover have "cl_phases s ! i \<noteq> Running" "cl_phases s ! i \<noteq> Closed"
      using 3 i calls_in_pos [of Running s] calls_in_pos [of Closed s] by auto
    ultimately have "cl_phases s ! i = Waiting"
      by (cases "cl_phases s ! i") auto
    moreover have "slots_take (cl_slots s) \<noteq> None"
      using inv 3 assms(2) by (auto simp: slots_inv_def slots_take_def)
    ultimately show ?thesis
      using i(1) by (blast intro: take_slot)
  qed
qed

end

interpretation backlog: slot_user backlog_enter
proof
  show "\<exists>k. s' = s\<lparr>cl_phases := cl_phases s @ replicate k Waiting\<rparr>" if "backlog_enter s s'" for s s'
    using that by (auto simp: backlog_enter_def backlog_process_def intro!: exI [of _ 1])
qed

interpretation concur: slot_user concur_enter
proof
  show "\<exists>k. s' = s\<lparr>cl_phases := cl_phases s @ replicate k Waiting\<rparr>" if enter: "concur_enter s s'" for s s'
  proof -
    obtain c and procs :: "err + unit list" where s': "s' = snd (concur_process c procs s)"
      using enter by (auto simp: concur_enter_def)
    show ?thesis
    proof (cases procs)
      case (Inl e)
      then show ?thesis
        by (intro exI [of _ 0]) (simp add: s' concur_process_def)
    next
      case (Inr ps)
      then show ?thesis
        by (intro exI [of _ "length ps"]) (simp add: s' concur_process_def)
    qed
  qed
qed

text \<open>Every step brings its call nearer to its end, so the steps of given calls end.\<close>

fun phase_left :: "phase \<Rightarrow> nat" where
  "phase_left Waiting = 3"
| "phase_left Running = 2"
| "phase_left Closed = 1"
| "phase_left Returned = 0"

definition steps_left :: "calls \<Rightarrow> nat" where
  "steps_left s = sum_list (map phase_left (cl_phases s))"

lemma steps_left_step: "call_step s s' \<Longrightarrow> steps_left s' < steps_left s"
  by (induction rule: call_step.induct) (simp_all add: steps_left_def sum_list_update_less)

lemma call_step_ends: "wfp (\<lambda>s' s. call_step s s')"
proof (rule wfp_subset)
  show "wfp (\<lambda>s' s. steps_left s' < steps_left s)"
    by (simp add: wfp_if_convertible_to_nat)
  show "(\<lambda>s' s. call_step s s') \<le> (\<lambda>s' s. steps_left s' < steps_left s)"
    using steps_left_step by auto
qed

section \<open>Properties\<close>

text \<open>
  C23: however the calls of a backlog or of a concur proc interleave, no more of them run at
  once than there are slots, and \<open>Finish\<close> succeeds exactly when no call holds a slot.
\<close>

theorem slots_bound_calls:
  assumes "calls_reach backlog_enter n s \<or> calls_reach concur_enter n s"
  shows "int (calls_in Running s) \<le> n \<and>
    (slots_finish None (cl_slots s) = None \<longleftrightarrow> calls_in Running s = 0 \<and> calls_in Closed s = 0)"
  using assms backlog.bounded backlog.finish_iff concur.bounded concur.finish_iff by blast

definition one_slot :: "phase list \<Rightarrow> nat \<Rightarrow> calls" where
  "one_slot ps k = \<lparr>cl_slots = \<lparr>sl_cap = 1, sl_len = k\<rparr>, cl_phases = ps\<rparr>"

lemma one_slot_reach: "calls_reach backlog_enter 1 (one_slot [Running, Waiting] 0)"
proof -
  have "calls_reach backlog_enter 1 (one_slot [] 1)"
    by (rule reach_start) (simp add: new_calls_def slots_new_def one_slot_def)
  then have "calls_reach backlog_enter 1 (one_slot [Waiting] 1)"
    by (rule reach_enter) (simp add: backlog_enter_def backlog_process_def one_slot_def)
  then have "calls_reach backlog_enter 1 (one_slot [Waiting, Waiting] 1)"
    by (rule reach_enter) (simp add: backlog_enter_def backlog_process_def one_slot_def)
  moreover have "call_step (one_slot [Waiting, Waiting] 1) (one_slot [Running, Waiting] 0)"
    using take_slot [of 0 "one_slot [Waiting, Waiting] 1" "\<lparr>sl_cap = 1, sl_len = 0\<rparr>"]
    by (simp add: one_slot_def slots_take_def)
  ultimately show ?thesis
    by (rule reach_step)
qed

lemma slots_bound_calls_witness:
  "int (calls_in Running (one_slot [Running, Waiting] 0)) \<le> 1 \<and>
    (slots_finish None (cl_slots (one_slot [Running, Waiting] 0)) = None \<longleftrightarrow>
      calls_in Running (one_slot [Running, Waiting] 0) = 0 \<and>
      calls_in Closed (one_slot [Running, Waiting] 0) = 0)"
  by (rule slots_bound_calls) (rule disjI1 [OF one_slot_reach])

text \<open>
  C24: with at least one slot, some call can always go on until all have returned theirs, and
  the calls that have come take no more than finitely many steps.
\<close>

theorem calls_progress:
  assumes "calls_reach backlog_enter n s \<or> calls_reach concur_enter n s" and "0 < n"
    and "\<exists>p \<in> set (cl_phases s). p \<noteq> Returned"
  shows "(\<exists>s'. call_step s s') \<and> wfp (\<lambda>s' s. call_step s s')"
  using assms backlog.progress concur.progress call_step_ends by blast

lemma calls_progress_witness:
  "(\<exists>s'. call_step (one_slot [Running, Waiting] 0) s') \<and> wfp (\<lambda>s' s. call_step s s')"
  by (rule calls_progress [OF disjI1 [OF one_slot_reach]]) (simp_all add: one_slot_def)

text \<open>
  C25: a call closes its channel before it returns its slot. Between the two, all results of
  all calls have been received, and \<open>Finish\<close> fails with \<open>ErrUnreturnedSlots\<close>.
\<close>

theorem finish_races_release:
  assumes "0 < n"
  shows "\<exists>s. calls_reach backlog_enter n s \<and> cl_phases s = [Closed] \<and>
    backlog_finish None s = Some ErrUnreturnedSlots"
proof -
  define sl where "sl = \<lparr>sl_cap = nat n, sl_len = nat n\<rparr>"
  define sl' where "sl' = \<lparr>sl_cap = nat n, sl_len = nat n - 1\<rparr>"
  have "calls_reach backlog_enter n \<lparr>cl_slots = sl, cl_phases = []\<rparr>"
    by (rule reach_start) (use assms in \<open>simp add: new_calls_def slots_new_def sl_def\<close>)
  then have "calls_reach backlog_enter n \<lparr>cl_slots = sl, cl_phases = [Waiting]\<rparr>"
    by (rule reach_enter) (simp add: backlog_enter_def backlog_process_def)
  moreover have "call_step \<lparr>cl_slots = sl, cl_phases = [Waiting]\<rparr>
      \<lparr>cl_slots = sl', cl_phases = [Running]\<rparr>"
    using take_slot [of 0 "\<lparr>cl_slots = sl, cl_phases = [Waiting]\<rparr>" sl'] assms
    by (simp add: sl_def sl'_def slots_take_def)
  ultimately have "calls_reach backlog_enter n \<lparr>cl_slots = sl', cl_phases = [Running]\<rparr>"
    by (rule reach_step)
  moreover have "call_step \<lparr>cl_slots = sl', cl_phases = [Running]\<rparr>
      \<lparr>cl_slots = sl', cl_phases = [Closed]\<rparr>"
    using close_out [of 0 "\<lparr>cl_slots = sl', cl_phases = [Running]\<rparr>"] by simp
  ultimately have "calls_reach backlog_enter n \<lparr>cl_slots = sl', cl_phases = [Closed]\<rparr>"
    by (rule reach_step)
  moreover have "backlog_finish None \<lparr>cl_slots = sl', cl_phases = [Closed]\<rparr> = Some ErrUnreturnedSlots"
    using assms by (simp add: backlog_finish_def slots_finish_def sl'_def)
  ultimately show ?thesis
    by fastforce
qed

lemma finish_races_release_witness:
  "\<exists>s. calls_reach backlog_enter 1 s \<and> cl_phases s = [Closed] \<and>
    backlog_finish None s = Some ErrUnreturnedSlots"
  by (rule finish_races_release) simp

end
