(* ===== verification/Raid_Chain.thy ===== *)
theory Raid_Chain
  imports Parity_Proc Slots Multireader Chain_Index
begin

text \<open>
  The procs of a RAID as procs of a chain: \<^verbatim>\<open>procs/group.go\<close>, \<^verbatim>\<open>procs/parity.go\<close>,
  \<^verbatim>\<open>procs/concur.go\<close> over a dynamic proc, and \<^verbatim>\<open>stores/multireader.go\<close>; and the two chains of
  \<^verbatim>\<open>integration_test/raid5_test.go\<close> that are made of them, over whatever stores the shards: what
  a run of each does, one call after the other.
\<close>

section \<open>Procs\<close>

definition group_obj :: "group proc" where
  "group_obj =
     \<lparr>pr_process = ret_process group_process, pr_err = Some (\<lambda>c e g. Ret (group_process_err c e g)),
      pr_ender = None, pr_finish = (\<lambda>g. (group_finish g, g)), pr_inplace = False\<rparr>"

definition parity_obj :: "parity \<Rightarrow> 'st proc" where
  "parity_obj p = simple_proc False (\<lambda>c st. bind_outcome (parity_process p c) (\<lambda>rs. Ret (rs, st)))"

definition parity_unobj :: "parity \<Rightarrow> 'st proc" where
  "parity_unobj p =
     simple_proc False (func_proc (\<lambda>c st.
       bind_outcome (parity_unprocess p c) (\<lambda>r. Ret (or_given c r, st))))"

text \<open>
  \<open>shuf n\<close> is the permutation drawn for \<open>n\<close> copiers.
\<close>

definition mrd_obj :: "(nat \<Rightarrow> nat list) \<Rightarrow> ('id, 'w) mrd proc" where
  "mrd_obj shuf =
     \<lparr>pr_process = (\<lambda>c st.
        Ret (mrd_process (shuf (length (list_owners (chunk_hash c) (mr_reg st)))) c st)),
      pr_err = None, pr_ender = None, pr_finish = (\<lambda>st. (mrd_finish st, st)), pr_inplace = False\<rparr>"

text \<open>
  \<open>concurProc.Process\<close> over a \<open>DynProcer\<close>, its \<open>Procs\<close> and its \<open>Finish\<close>. The procs run one after
  the other in the order \<open>sched\<close> lets them in, and \<open>arr\<close> is the order in which their results
  arrive. A \<open>Procs\<close> that never returns, \<open>None\<close>, is a panic here: a proc has no value for it, and when
  it waits for a lock nobody releases this is the message of Go's runtime. \<open>sl\<close> are the slots \<open>Finish\<close>
  finds, which need not all be back.
\<close>

type_synonym 'st dyn_procs = "chunk \<Rightarrow> 'st \<Rightarrow> ((err + 'st process list) \<times> 'st) outcome option"

fun procs_each :: "'st process list \<Rightarrow> chunk \<Rightarrow> 'st \<Rightarrow> res list list \<times> 'st" where
  "procs_each [] c st = ([], st)"
| "procs_each (p # ps) c st =
     (case p c st of (rs, st') \<Rightarrow> (case procs_each ps c st' of (rss, st'') \<Rightarrow> (rs # rss, st'')))"

definition concur_obj ::
  "slots \<Rightarrow> 'st dyn_procs \<Rightarrow> ('st \<Rightarrow> err option) \<Rightarrow> ('st process list \<Rightarrow> 'st process list) \<Rightarrow>
   (res list list \<Rightarrow> res list) \<Rightarrow> 'st proc" where
  "concur_obj sl procs finish sched arr =
     \<lparr>pr_process = (\<lambda>c st.
        case procs c st of
          None \<Rightarrow> Panic ''all goroutines are asleep - deadlock!''
        | Some m \<Rightarrow> bind_outcome m (\<lambda>(r, st).
            Ret (case r of
                Inl e \<Rightarrow> (single_res c (Some e), st)
              | Inr ps \<Rightarrow> (case procs_each (sched ps) c st of (rss, st) \<Rightarrow> (arr rss, st))))),
      pr_err = None, pr_ender = None,
      pr_finish = (\<lambda>st. (slots_finish (finish st) sl, st)),
      pr_inplace = False\<rparr>"

section \<open>The two chains\<close>

definition raid_write_stages ::
  "(bytes \<Rightarrow> hash) \<Rightarrow> parity \<Rightarrow> 's proc \<Rightarrow> (string index_st \<times> (group \<times> 's)) proc list" where
  "raid_write_stages sha p store =
     [simple_proc True (func_proc (checksum_process sha)),
      over_fst (index_obj text_writer),
      parity_obj p,
      simple_proc True (func_proc (checksum_process sha)),
      over_snd (over_fst group_obj),
      over_snd (over_snd store)]"

definition raid_read_stages ::
  "(res list list \<Rightarrow> res list) \<Rightarrow> (err option list \<Rightarrow> err option list) \<Rightarrow> (bytes \<Rightarrow> hash) \<Rightarrow> parity \<Rightarrow>
   'm proc \<Rightarrow> ('m \<times> (group \<times> (chunk series \<times> bytes))) proc list" where
  "raid_read_stages mg order sha p read =
     [over_fst read,
      simple_proc True (func_proc (checksum_unprocess sha)),
      over_snd (over_fst group_obj),
      parity_unobj p,
      over_snd (over_snd (join_obj mg order append_writer))]"

definition raid_write ::
  "(res list list \<Rightarrow> res list) \<Rightarrow> (err option list \<Rightarrow> err option list) \<Rightarrow> (bytes \<Rightarrow> hash) \<Rightarrow> parity \<Rightarrow>
   's proc \<Rightarrow> (string index_st \<times> (group \<times> 's)) proc" where
  "raid_write mg order sha p store = chain mg order (raid_write_stages sha p store)"

definition raid_read ::
  "(res list list \<Rightarrow> res list) \<Rightarrow> (err option list \<Rightarrow> err option list) \<Rightarrow> (bytes \<Rightarrow> hash) \<Rightarrow> parity \<Rightarrow>
   'm proc \<Rightarrow> ('m \<times> (group \<times> (chunk series \<times> bytes))) proc" where
  "raid_read mg order sha p read = chain mg order (raid_read_stages mg order sha p read)"

section \<open>Stages over chunks without errors\<close>

abbreviation passed :: "chunk list \<Rightarrow> res list" where
  "passed cs \<equiv> map (\<lambda>c. Res (Some c) None) cs"

lemma mset_eq_map:
  "mset zs = mset (map f xs) \<Longrightarrow> \<exists>ys. zs = map f ys \<and> mset ys = mset xs"
proof (induction zs arbitrary: xs)
  case (Cons z zs)
  then have "z \<in> set (map f xs)"
    by (metis list.set_intros(1) mset_eq_setD)
  then obtain x where x: "x \<in> set xs" "z = f x"
    by auto
  define xs' where "xs' = remove1 x xs"
  have xs: "mset xs = add_mset x (mset xs')"
    using x(1) by (simp add: xs'_def)
  then have "mset zs = mset (map f xs')"
    using Cons.prems by (simp add: x(2))
  from Cons.IH [OF this] obtain ys where "zs = map f ys" "mset ys = mset xs'"
    by blast
  with x(2) xs show ?case
    by (intro exI [of _ "x # ys"]) simp
qed simp

lemma merged_passed:
  assumes "merges mg" and "mset (concat outs) = mset (passed cs)"
  obtains cs' where "mg outs = passed cs'" and "mset cs' = mset cs"
proof -
  have "mset (mg outs) = mset (passed cs)"
    using assms by (simp add: merges_def)
  from mset_eq_map [OF this] that show ?thesis
    by blast
qed

text \<open>What is without errors at the end of a proc that is no \<open>ErrProc\<close> was so at its beginning.\<close>

lemma stage_calls_no_error:
  "stage_calls p ins st = Ret (outs, st') \<Longrightarrow> pr_err p = None \<Longrightarrow> stream_err (concat outs) = None \<Longrightarrow>
     stream_err ins = None"
proof (induction p ins st arbitrary: outs rule: stage_calls.induct)
  case (2 p c e rs st)
  then show ?case
    by (cases c; cases e) (auto simp: bind_outcome_Ret_iff split: prod.splits)
qed simp

lemma merges_error_iff: "merges mg \<Longrightarrow> stream_err (mg rss) = None \<longleftrightarrow> stream_err (concat rss) = None"
  unfolding merges_def by (metis stream_err_None_iff mset_eq_setD)

lemma stage_passed:
  assumes "merges mg" and "\<And>c st. c \<in> set cs \<Longrightarrow> pr_process p c st = Ret ([Res (Some (f c)) None], st)"
  obtains cs' where "stage mg p (passed cs) st = Ret (passed cs', st)" and "mset cs' = mset (map f cs)"
proof -
  have calls: "stage_calls p (passed cs) st = Ret (map (\<lambda>c. [Res (Some (f c)) None]) cs, st)"
    using assms(2) by (induction cs) auto
  have "concat (map (\<lambda>c. [Res (Some (f c)) None]) cs) = passed (map f cs)"
    by (simp add: concat_map_singleton)
  then obtain cs' where "mg (map (\<lambda>c. [Res (Some (f c)) None]) cs) = passed cs'" "mset cs' = mset (map f cs)"
    using merged_passed [OF assms(1), of "map (\<lambda>c. [Res (Some (f c)) None]) cs" "map f cs"] by metis
  then show ?thesis
    using that by (simp add: stage_def calls)
qed

lemma bind_outcome_bind: "bind_outcome (bind_outcome m f) g = bind_outcome m (\<lambda>x. bind_outcome (f x) g)"
  by (cases m) simp_all

lemma stage_calls_over_fst:
  "stage_calls (over_fst p) ins (x, y) =
     bind_outcome (stage_calls p ins x) (\<lambda>(outs, x). Ret (outs, (x, y)))"
proof (induction p ins x rule: stage_calls.induct)
  case (2 p c e rs x)
  let ?call = "\<lambda>st. case (e, c) of
          (Some e, Some c) \<Rightarrow>
            (case pr_err p of Some f \<Rightarrow> f c e st | None \<Rightarrow> Ret ([Res (Some c) (Some e)], st))
        | (Some e, None) \<Rightarrow> Ret ([Res None (Some e)], st)
        | (None, Some c) \<Rightarrow> pr_process p c st
        | (None, None) \<Rightarrow> Panic ''nil pointer dereference''"
  have "(case (e, c) of
          (Some e, Some c) \<Rightarrow>
            (case pr_err (over_fst p) of Some f \<Rightarrow> f c e (x, y) | None \<Rightarrow> Ret ([Res (Some c) (Some e)], (x, y)))
        | (Some e, None) \<Rightarrow> Ret ([Res None (Some e)], (x, y))
        | (None, Some c) \<Rightarrow> pr_process (over_fst p) c (x, y)
        | (None, None) \<Rightarrow> Panic ''nil pointer dereference'') =
      bind_outcome (?call x) (\<lambda>(out, x). Ret (out, (x, y)))"
    by (cases c; cases e; cases "pr_err p") (simp_all add: over_fst_def)
  then show ?case
    using 2 by (cases "?call x") (simp_all add: bind_outcome_bind case_prod_unfold)
qed simp

lemma stage_calls_over_snd:
  "stage_calls (over_snd p) ins (x, y) =
     bind_outcome (stage_calls p ins y) (\<lambda>(outs, y). Ret (outs, (x, y)))"
proof (induction p ins y rule: stage_calls.induct)
  case (2 p c e rs y)
  let ?call = "\<lambda>st. case (e, c) of
          (Some e, Some c) \<Rightarrow>
            (case pr_err p of Some f \<Rightarrow> f c e st | None \<Rightarrow> Ret ([Res (Some c) (Some e)], st))
        | (Some e, None) \<Rightarrow> Ret ([Res None (Some e)], st)
        | (None, Some c) \<Rightarrow> pr_process p c st
        | (None, None) \<Rightarrow> Panic ''nil pointer dereference''"
  have "(case (e, c) of
          (Some e, Some c) \<Rightarrow>
            (case pr_err (over_snd p) of Some f \<Rightarrow> f c e (x, y) | None \<Rightarrow> Ret ([Res (Some c) (Some e)], (x, y)))
        | (Some e, None) \<Rightarrow> Ret ([Res None (Some e)], (x, y))
        | (None, Some c) \<Rightarrow> pr_process (over_snd p) c (x, y)
        | (None, None) \<Rightarrow> Panic ''nil pointer dereference'') =
      bind_outcome (?call y) (\<lambda>(out, y). Ret (out, (x, y)))"
    by (cases c; cases e; cases "pr_err p") (simp_all add: over_snd_def)
  then show ?case
    using 2 by (cases "?call y") (simp_all add: bind_outcome_bind case_prod_unfold)
qed simp

lemma stage_over [simp]:
  "stage mg (over_fst p) ins (x, y) = bind_outcome (stage mg p ins x) (\<lambda>(outs, x). Ret (outs, (x, y)))"
  "stage mg (over_snd q) ins (x, y) = bind_outcome (stage mg q ins y) (\<lambda>(outs, y). Ret (outs, (x, y)))"
  by (simp_all add: stage_def stage_calls_over_fst stage_calls_over_snd bind_outcome_bind case_prod_unfold)

lemma stage_one: "merges mg \<Longrightarrow> stage mg p [Res (Some c) None] st = pr_process p c st"
  by (cases "pr_process p c st") (auto simp: stage_def merges_one)

lemma group_calls:
  "group_run cs g = (rs, g') \<Longrightarrow>
     \<exists>outs. stage_calls group_obj (passed cs) g = Ret (outs, g') \<and> concat outs = rs"
proof (induction cs arbitrary: g rs)
  case (Cons c cs)
  then obtain rs1 g1 rs2 where "group_process c g = (rs1, g1)" "group_run cs g1 = (rs2, g')" "rs = rs1 @ rs2"
    by (auto split: prod.splits)
  with Cons.IH [of g1 rs2] show ?case
    by (auto simp: group_obj_def ret_process_def)
qed (simp add: group_obj_def)

section \<open>The shards of a chunk\<close>

definition shards_of :: "parity \<Rightarrow> bytes \<Rightarrow> bytes list" where
  "shards_of p b = (case rs_shards (pa_enc p) b of Inl _ \<Rightarrow> [] | Inr shards \<Rightarrow> shards)"

text \<open>The chunks they become, as they reach the group, and their lines in the index.\<close>

definition shard_list :: "(bytes \<Rightarrow> hash) \<Rightarrow> parity \<Rightarrow> chunk \<Rightarrow> chunk list" where
  "shard_list sha p c =
     map (\<lambda>s. hashed sha (shard_chunk p c (int (length (data_of c))) s)) (enumerate 0 (shards_of p (data_of c)))"

definition raid_entries :: "(bytes \<Rightarrow> hash) \<Rightarrow> parity \<Rightarrow> bytes \<Rightarrow> (hash \<times> int) list" where
  "raid_entries sha p x = map (\<lambda>s. (sha s, int (length x))) (shards_of p x)"

text \<open>What a chunk of a stream is when it enters the chain.\<close>

definition raid_chunk :: "nat \<Rightarrow> chunk \<Rightarrow> bool" where
  "raid_chunk n c \<longleftrightarrow> in_memory c \<and> data_of c \<noteq> [] \<and> 0 \<le> chunk_num c \<and> (chunk_num c + 1) * int n \<le> 2 ^ 63"

lemma shards_of_code:
  assumes "erasure_code (pa_enc p) n k" and "b \<noteq> []"
  shows "rs_shards (pa_enc p) b = Inr (shards_of p b)" and "length (shards_of p b) = n"
  using assms unfolding erasure_code_def shards_of_def by force+

lemma shard_list_length: "length (shard_list sha p c) = length (shards_of p (data_of c))"
  by (simp add: shard_list_def)

lemma shard_list_nth:
  assumes "raid_chunk n c" and "pa_nshards p = int n" and "i < length (shards_of p (data_of c))"
    and "length (shards_of p (data_of c)) = n"
  shows "chunk_num (shard_list sha p c ! i) = chunk_num c * int n + int i"
    and "chunk_hash (shard_list sha p c ! i) = sha (shards_of p (data_of c) ! i)"
    and "chunk_data (shard_list sha p c ! i) = BytesData (shards_of p (data_of c) ! i)"
    and "chunk_target_size (shard_list sha p c ! i) = int (length (data_of c))"
proof -
  have "0 \<le> chunk_num c * int n" "chunk_num c * int n + int n \<le> 2 ^ 63"
    using assms(1) by (simp_all add: raid_chunk_def algebra_simps)
  then show "chunk_num (shard_list sha p c ! i) = chunk_num c * int n + int i"
    "chunk_hash (shard_list sha p c ! i) = sha (shards_of p (data_of c) ! i)"
    "chunk_data (shard_list sha p c ! i) = BytesData (shards_of p (data_of c) ! i)"
    "chunk_target_size (shard_list sha p c ! i) = int (length (data_of c))"
    using assms(2-4) by (simp_all add: shard_list_def nth_enumerate_eq shard_chunk_def data_of_def)
qed

lemma shard_list_nums:
  assumes "raid_chunk n c" and "pa_nshards p = int n" and "length (shards_of p (data_of c)) = n"
  shows "map chunk_num (shard_list sha p c) = map (\<lambda>i. chunk_num c * int n + int i) [0..<n]"
  using shard_list_nth(1) [OF assms(1,2) _ assms(3)] assms(3)
  by (intro nth_equalityI) (simp_all add: shard_list_length)

lemma shard_list_sorted:
  assumes "raid_chunk n c" and "pa_nshards p = int n" and "length (shards_of p (data_of c)) = n"
    and perm: "mset fs = mset (shard_list sha p c)"
  shows "sort_key chunk_num fs = shard_list sha p c"
proof (rule sort_key_inj_key_eq [OF perm])
  note nums = shard_list_nums [OF assms(1-3)]
  have "distinct (map chunk_num (shard_list sha p c))"
    unfolding nums by (simp add: distinct_map inj_on_def)
  moreover have "set fs = set (shard_list sha p c)"
    by (rule mset_eq_setD [OF perm])
  ultimately show "inj_on chunk_num (set fs)"
    by (simp add: distinct_map)
  show "sorted (map chunk_num (shard_list sha p c))"
    unfolding nums by (simp add: sorted_map sorted_wrt_upt)
qed

lemma shard_list_entries:
  assumes "raid_chunk n c" and "pa_nshards p = int n" and "length (shards_of p (data_of c)) = n"
    and "mset fs = mset (shard_list sha p c)"
  shows "finals_entries fs = raid_entries sha p (data_of c)"
  using shard_list_nth [OF assms(1,2) _ assms(3)] assms(3)
  unfolding finals_entries_def shard_list_sorted [OF assms]
  by (intro nth_equalityI) (simp_all add: shard_list_length raid_entries_def)

section \<open>One call of the write chain\<close>

abbreviation no_group :: "nat \<Rightarrow> group" where
  "no_group n \<equiv> \<lparr>gsize = int n, growing = []\<rparr>"

lemma group_run_size: "group_run cs g = (rs, g') \<Longrightarrow> gsize g' = gsize g"
  by (induction cs arbitrary: g rs)
    (auto simp: group_process_def group_build_def Let_def split: prod.splits if_splits)

lemma group_done: "group_finish g = None \<Longrightarrow> gsize g = int n \<Longrightarrow> g = no_group n"
  by (cases g) (simp add: group_finish_def split: if_splits)

text \<open>The shards of a chunk, once hashed, make one group again.\<close>

lemma shards_grouped:
  assumes mg: "merges mg" and n: "1 \<le> n" and p: "pa_nshards p = int n"
    and len: "length (shards_of p (data_of c)) = n" and c: "raid_chunk n c"
    and perm: "mset cs = mset (shard_list sha p c)"
  shows "stage mg group_obj (passed cs) (no_group n) =
    Ret ([Res (Some (group_agg (chunk_num c) (shard_list sha p c))) None], no_group n)"
proof -
  let ?agg = "group_agg (chunk_num c) (shard_list sha p c)"
  have "0 \<le> chunk_num c" "(chunk_num c + 1) * int n \<le> 2 ^ 63"
    using c by (simp_all add: raid_chunk_def)
  from group_of_one [OF n shard_list_nums [OF c p len] this perm] obtain g where
    g: "group_run cs (no_group n) = ([Res (Some ?agg) None], g)" "group_finish g = None"
    by blast
  have "g = no_group n"
    using group_done [OF g(2)] group_run_size [OF g(1)] by simp
  with group_calls [OF g(1)] obtain outs where
    outs: "stage_calls group_obj (passed cs) (no_group n) = Ret (outs, no_group n)" "concat outs = [Res (Some ?agg) None]"
    by blast
  have "mset (concat outs) = mset (passed [?agg])"
    by (simp add: outs(2))
  from merged_passed [OF mg this] obtain cs' where "mg outs = passed cs'" "mset cs' = mset [?agg]"
    by blast
  then have "mg outs = [Res (Some ?agg) None]"
    by simp
  then show ?thesis
    by (simp add: stage_def outs(1))
qed

lemma raid_stages:
  fixes ix :: 'i and st :: 's and store :: "'s proc"
  assumes mg: "merges mg" and code: "erasure_code (pa_enc p) n k" and n: "1 \<le> n" and p: "pa_nshards p = int n"
    and c: "raid_chunk n c"
  shows "stages mg [parity_obj p, simple_proc True (func_proc (checksum_process sha)), over_snd (over_fst group_obj),
      over_snd (over_snd store)] [Res (Some (hashed sha c)) None] (ix, (no_group n, st)) =
    bind_outcome (pr_process store (group_agg (chunk_num c) (shard_list sha p c)) st)
      (\<lambda>(rs, st). Ret (rs, (ix, (no_group n, st))))"
proof -
  define shards where "shards = map (shard_chunk p c (int (length (data_of c)))) (enumerate 0 (shards_of p (data_of c)))"
  have data: "chunk_data (hashed sha c) = BytesData (data_of c)" and ne: "data_of c \<noteq> []"
    using c by (auto simp: raid_chunk_def in_memory_def data_of_def)
  note code = shards_of_code [OF code ne]
  have "shard_chunk p (hashed sha c) = shard_chunk p c"
    by (simp add: shard_chunk_def fun_eq_iff)
  then have parity: "pr_process (parity_obj p) (hashed sha c) st' = Ret (passed shards, st')"
    for st' :: "'i \<times> (group \<times> 's)"
    using parity_process_shards [OF code(1) data] by (simp add: parity_obj_def shards_def)
  have mem: "in_memory s" if "s \<in> set shards" for s
    using that by (auto simp: shards_def shard_chunk_def in_memory_def)
  have sum: "pr_process (simple_proc True (func_proc (checksum_process sha))) s st' =
      Ret ([Res (Some (hashed sha s)) None], st')"
    if "s \<in> set shards" for s and st' :: "'i \<times> (group \<times> 's)"
    using mem [OF that] by (simp add: func_proc_def checksum_in_memory)
  obtain cs where
    sums: "stage mg (simple_proc True (func_proc (checksum_process sha))) (passed shards) (ix, (no_group n, st)) =
      Ret (passed cs, (ix, (no_group n, st)))" and "mset cs = mset (map (hashed sha) shards)"
    by (rule stage_passed [where st = "(ix, (no_group n, st))", OF mg sum])
  then have "mset cs = mset (shard_list sha p c)"
    by (simp add: shard_list_def shards_def comp_def)
  note group = shards_grouped [OF mg n p code(2) c this]
  show ?thesis
    by (cases "pr_process store (group_agg (chunk_num c) (shard_list sha p c)) st")
      (auto simp: parity sums group stage_one [OF mg])
qed

text \<open>A call that returns has called the index.\<close>

lemma raid_indexed:
  assumes mg: "merges mg" and c: "in_memory c"
    and call: "chain_process mg (raid_write_stages sha p store) c (ix, r) = Ret y"
  obtains out ix1 where "index_process (hashed sha c) ix = Ret (out, ix1)"
proof (cases "index_process (hashed sha c) ix")
  case (Ret z)
  with that show ?thesis
    by (cases z) auto
next
  case (Panic m)
  then have "chain_process mg (raid_write_stages sha p store) c (ix, r) = Panic m"
    by (simp add: chain_process_def raid_write_stages_def single_res_def stage_one [OF mg] func_proc_def
        checksum_in_memory [OF c] index_over_fst)
  with call show ?thesis
    by simp
qed

lemma raid_end_procs:
  "pr_ender store = None \<Longrightarrow>
     end_procs (raid_write_stages sha p store) = [the (pr_ender (over_fst (index_obj text_writer)))]"
  by (simp add: end_procs_def raid_write_stages_def index_obj_def group_obj_def parity_obj_def
      over_fst_def over_snd_def)

text \<open>From the index on, the procs work on new chunks.\<close>

abbreviation shard_stages :: "(bytes \<Rightarrow> hash) \<Rightarrow> parity \<Rightarrow> 's proc \<Rightarrow> (string index_st \<times> (group \<times> 's)) proc list" where
  "shard_stages sha p store \<equiv>
     [parity_obj p, simple_proc True (func_proc (checksum_process sha)), over_snd (over_fst group_obj),
      over_snd (over_snd store)]"

lemma stages_seen_new:
  "\<not> pr_inplace q \<Longrightarrow> stages_seen mg (q # qs) seen ins st =
     bind_outcome (stages mg (q # qs) ins st) (\<lambda>(outs, st). Ret ((seen, outs), st))"
  by (simp only: stages_seen.simps if_False)

lemma parity_obj_new: "\<not> pr_inplace (parity_obj p)"
  by (simp add: parity_obj_def)

lemma stages_nothing: "merges mg \<Longrightarrow> stages mg ps [] st = Ret ([], st)"
  by (induction ps) (simp_all add: stage_def merges_empty)

lemma raid_seen:
  assumes mg: "merges mg" and c: "in_memory c" and ix: "index_process (hashed sha c) ix = Ret (rs1, ix1)"
  shows "stages_seen mg (raid_write_stages sha p store) c (single_res c None) (ix, r) =
    bind_outcome (stages mg (shard_stages sha p store) rs1 (ix1, r)) (\<lambda>(outs, st). Ret ((hashed sha c, outs), st))"
proof -
  have "rs1 = [] \<or> rs1 = [Res (Some (hashed sha c)) None]"
    using index_process_result(1) [OF ix] by simp
  then have seen: "seen_after rs1 (hashed sha c) = hashed sha c"
    by (auto simp: seen_after_def)
  have hashed: "stage mg (simple_proc True (func_proc (checksum_process sha))) (single_res c None) (ix, r) =
      Ret ([Res (Some (hashed sha c)) None], (ix, r))"
    by (simp add: single_res_def stage_one [OF mg] func_proc_def checksum_in_memory [OF c])
  have indexed: "stage mg (over_fst (index_obj text_writer)) [Res (Some (hashed sha c)) None] (ix, r) = Ret (rs1, (ix1, r))"
    by (simp add: stage_one [OF mg] index_over_fst ix)
  show ?thesis
    unfolding raid_write_stages_def
    by (simp add: hashed indexed index_over_fst seen parity_obj_new seen_after_def [of "[Res (Some (hashed sha c)) None]"]
        del: stages.simps stage_over)
qed

text \<open>A chunk whose hash is known ends at the index.\<close>

lemma raid_known:
  assumes mg: "merges mg" and c: "in_memory c" and ender: "pr_ender store = None"
    and "index_process (hashed sha c) ix = Ret ([], ix1)"
    and "index_process_end text_writer (hashed sha c) ix1 = (None, ix2)"
  shows "chain_process mg (raid_write_stages sha p store) c (ix, r) = Ret ([], (ix2, r))"
proof -
  have "stages_seen mg (raid_write_stages sha p store) c (single_res c None) (ix, r) =
      Ret ((hashed sha c, []), (ix1, r))"
    by (simp only: raid_seen [OF mg c assms(4)] stages_nothing [OF mg] bind_outcome.simps prod.case)
  then show ?thesis
    using assms(5)
    by (simp add: chain_process_def raid_end_procs [OF ender] stage_def merges_empty [OF mg]
        process_end_def index_over_fst)
qed

text \<open>The shards of a new one are stored, and reported to the index.\<close>

lemma raid_new:
  fixes st :: 's and store :: "'s proc"
  assumes mg: "merges mg" and code: "erasure_code (pa_enc p) n k" and n: "1 \<le> n" and p: "pa_nshards p = int n"
    and c: "raid_chunk n c" and ender: "pr_ender store = None"
    and ix1: "index_process (hashed sha c) ix = Ret ([Res (Some (hashed sha c)) None], ix1)"
      "ifinals ix1 (sha (data_of c)) = Some \<lparr>fnum = chunk_num c, entries = es, complete = False\<rparr>"
    and run: "chain_process mg (raid_write_stages sha p store) c (ix, (no_group n, st)) = Ret (rs, r)"
    and ok: "stream_err rs = None"
    and stored: "\<And>rs st1. pr_process store (group_agg (chunk_num c) (shard_list sha p c)) st = Ret (rs, st1) \<Longrightarrow>
      stream_err rs = None \<Longrightarrow> \<exists>fs. rs = passed fs"
  obtains fs st1 ix2 ix3 where
    "pr_process store (group_agg (chunk_num c) (shard_list sha p c)) st = Ret (passed fs, st1)"
    "index_run text_writer (map (EFinal (hashed sha c)) fs) ix1 = Ret (replicate (length fs) None, ix2)"
    "index_process_end text_writer (hashed sha c) ix2 = (None, ix3)" "r = (ix3, (no_group n, st1))"
    "\<forall>h. ifinals ix3 h = None \<longleftrightarrow> ifinals ix1 h = None"
proof -
  let ?agg = "group_agg (chunk_num c) (shard_list sha p c)" and ?c = "hashed sha c"
  let ?en = "the (pr_ender (over_fst (index_obj text_writer) :: (string index_st \<times> (group \<times> 's)) proc))"
  have mem: "in_memory c"
    using c by (simp add: raid_chunk_def)
  have seen: "stages_seen mg (raid_write_stages sha p store) c (single_res c None) (ix, (no_group n, st)) =
      bind_outcome (pr_process store ?agg st) (\<lambda>(rs, st). Ret ((?c, rs), (ix1, (no_group n, st))))"
    by (simp only: raid_seen [OF mg mem ix1(1)] raid_stages [OF mg code n p c] bind_outcome_bind
        case_prod_unfold bind_outcome.simps fst_conv snd_conv)
  obtain rs1 st1 where rs1: "pr_process store ?agg st = Ret (rs1, st1)"
    using run by (cases "pr_process store ?agg st") (auto simp: chain_process_def seen)
  obtain outs r2 where calls: "stage_calls (end_call_proc ?c [?en]) rs1 (ix1, (no_group n, st1)) = Ret (outs, r2)"
    using run by (cases "stage_calls (end_call_proc ?c [?en]) rs1 (ix1, (no_group n, st1))")
      (auto simp: chain_process_def seen rs1 raid_end_procs [OF ender] stage_def)
  obtain e r3 where e: "process_end ?c [?en] r2 = (e, r3)"
    by (metis prod.exhaust)
  have "r3 = r" and rs: "rs = mg outs @ (case e of None \<Rightarrow> [] | Some e \<Rightarrow> [Res None (Some e)])"
    using run by (cases e; simp add: chain_process_def seen rs1 raid_end_procs [OF ender] stage_def calls e)+
  have "e = None" "stream_err (concat outs) = None"
    using ok merges_error_iff [OF mg, of outs] by (cases e; simp add: rs)+
  have "stream_err rs1 = None"
    using stage_calls_no_error [OF calls] \<open>stream_err (concat outs) = None\<close> by (simp add: end_call_proc_def)
  from stored [OF rs1 this] obtain fs where fs: "rs1 = passed fs"
    by blast
  obtain ix2 es' where ix2: "index_run text_writer (map (EFinal ?c) fs) ix1 = Ret (replicate (length fs) None, ix2)"
    "ifinals ix2 = (ifinals ix1)(sha (data_of c) \<mapsto> \<lparr>fnum = chunk_num c, entries = es', complete = False\<rparr>)"
    using finals_taken [of ix1 ?c es text_writer fs] ix1(2) by auto
  then have r2: "r2 = (ix2, (no_group n, st1))"
    using calls finals_reported [OF ix2(1), where x = "(no_group n, st1)"] by (simp add: fs)
  obtain ix3 where ix3: "index_process_end text_writer ?c ix2 = (None, ix3)" "r = (ix3, (no_group n, st1))"
    using e \<open>e = None\<close> by (cases "index_process_end text_writer ?c ix2")
      (auto simp: process_end_def index_over_fst r2 \<open>r3 = r\<close> split: option.splits)
  have "ifinals ix3 h = None \<longleftrightarrow> ifinals ix1 h = None" for h
    using index_end_known(2) [OF text_writer_ok _ ix3(1), of h] ix2(2) ix1(2) by auto
  then show ?thesis
    using that [OF rs1 [unfolded fs] ix2(1) ix3] by blast
qed

section \<open>A run of the write chain\<close>

lemma chain_events_cong:
  "(\<And>c. c \<in> set cs \<Longrightarrow> fins c = fins' c) \<Longrightarrow> chain_events sha fins S cs = chain_events sha fins' S cs"
  by (induction cs arbitrary: S) auto

lemma index_run_append:
  "index_run wr (evs @ evs') st = bind_outcome (index_run wr evs st) (\<lambda>(es, st).
     bind_outcome (index_run wr evs' st) (\<lambda>(es', st). Ret (es @ es', st)))"
proof (induction evs arbitrary: st)
  case Nil
  show ?case by (cases "index_run wr evs' st") auto
next
  case (Cons ev evs)
  then show ?case
    by (cases "index_step wr ev st") (simp_all add: bind_outcome_bind case_prod_unfold)
qed

text \<open>
  What the chain relies on of the proc that stores a group: while \<open>ok\<close> holds of its state, and the
  chunks of the group \<open>fit\<close>, a call without an error passes them on, in any order, and leaves them
  \<open>placed\<close>; and what is placed stays so.
\<close>

locale group_store =
  fixes store :: "'s proc"
    and ok :: "'s \<Rightarrow> bool"
    and placed :: "hash list \<Rightarrow> 's \<Rightarrow> bool"
    and fit :: "chunk \<Rightarrow> bool"
  assumes no_ender: "pr_ender store = None"
    and store_ok: "ok st \<Longrightarrow> distinct (map chunk_hash grp) \<Longrightarrow> \<forall>ch \<in> set grp. fit ch \<Longrightarrow>
        pr_process store (group_agg h grp) st = Ret (rs, st') \<Longrightarrow> stream_err rs = None \<Longrightarrow> ok st'"
    and store_passes: "ok st \<Longrightarrow> distinct (map chunk_hash grp) \<Longrightarrow> \<forall>ch \<in> set grp. fit ch \<Longrightarrow>
        pr_process store (group_agg h grp) st = Ret (rs, st') \<Longrightarrow> stream_err rs = None \<Longrightarrow>
        \<exists>fs. rs = passed fs \<and> mset fs = mset grp"
    and store_places: "ok st \<Longrightarrow> distinct (map chunk_hash grp) \<Longrightarrow> \<forall>ch \<in> set grp. fit ch \<Longrightarrow>
        pr_process store (group_agg h grp) st = Ret (rs, st') \<Longrightarrow> stream_err rs = None \<Longrightarrow>
        placed (map chunk_hash grp) st'"
    and store_keeps: "ok st \<Longrightarrow> distinct (map chunk_hash grp) \<Longrightarrow> \<forall>ch \<in> set grp. fit ch \<Longrightarrow>
        pr_process store (group_agg h grp) st = Ret (rs, st') \<Longrightarrow> stream_err rs = None \<Longrightarrow>
        placed hs st \<Longrightarrow> placed hs st'"
begin

definition storable :: "(bytes \<Rightarrow> hash) \<Rightarrow> parity \<Rightarrow> chunk \<Rightarrow> bool" where
  "storable sha p c \<longleftrightarrow> distinct (map chunk_hash (shard_list sha p c)) \<and> (\<forall>ch \<in> set (shard_list sha p c). fit ch)"

lemma write_run:
  assumes mg: "merges mg" and code: "erasure_code (pa_enc p) n k" and n: "1 \<le> n" and p: "pa_nshards p = int n"
    and run: "proc_run (raid_write mg order sha p store) cs (ix, (no_group n, st)) = Ret (rs, r)"
    and err: "stream_err rs = None" and known: "\<forall>h. ifinals ix h \<noteq> None \<longleftrightarrow> h \<in> S"
    and cs: "\<forall>c \<in> set cs. raid_chunk n c \<and> storable sha p c" "distinct cs"
    and inj: "inj_on sha (data_of ` set cs)" and st: "ok st"
  shows "\<exists>fins ix' st'. r = (ix', (no_group n, st')) \<and>
    index_run text_writer (chain_events sha fins S cs) ix =
      Ret (replicate (length (chain_events sha fins S cs)) None, ix') \<and>
    (\<forall>c \<in> set cs. finals_entries (fins c) = raid_entries sha p (data_of c)) \<and>
    ok st' \<and> (\<forall>hs. placed hs st \<longrightarrow> placed hs st') \<and>
    (\<forall>c \<in> set cs. sha (data_of c) \<notin> S \<longrightarrow> placed (map chunk_hash (shard_list sha p c)) st')"
  using run err known cs inj st
proof (induction cs arbitrary: S ix st rs)
  case Nil
  then show ?case by auto
next
  case (Cons c cs)
  let ?x = "data_of c" and ?c = "hashed sha c" and ?S = "insert (sha (data_of c)) S"
  obtain rs1 r1 rs2 where call: "chain_process mg (raid_write_stages sha p store) c (ix, (no_group n, st)) = Ret (rs1, r1)"
    and rest: "proc_run (raid_write mg order sha p store) cs r1 = Ret (rs2, r)" and rs: "rs = rs1 @ rs2"
    using Cons.prems(1) by (auto simp: raid_write_def chain_def bind_outcome_Ret_iff)
  have err: "stream_err rs1 = None" "stream_err rs2 = None"
    using Cons.prems(2) by (simp_all add: rs)
  have c: "raid_chunk n c" "storable sha p c" "in_memory c" "?x \<noteq> []"
    using Cons.prems(4) by (simp_all add: raid_chunk_def)
  have len: "length (shards_of p ?x) = n"
    using shards_of_code [OF code c(4)] by simp
  have inj: "inj_on sha (data_of ` set cs)"
    using Cons.prems(6) by (auto intro: inj_on_subset)
  obtain out ix1 where p1: "index_process ?c ix = Ret (out, ix1)"
    by (rule raid_indexed [OF mg c(3) call])
  note result = index_process_result [OF p1]
  have at: "ifinals ix (sha ?x) = None \<longleftrightarrow> sha ?x \<notin> S"
    using Cons.prems(3) by blast
  have known1: "ifinals ix1 h \<noteq> None \<longleftrightarrow> h \<in> ?S" for h
    using spec [OF Cons.prems(3), of h] at result(2) by auto
  show ?case
  proof (cases "sha ?x \<in> S")
    case True
    then have "out = []" and S: "?S = S"
      using result(1) at by auto
    obtain e ix2 where e: "index_process_end text_writer ?c ix1 = (e, ix2)"
      by fastforce
    note final = index_end_known [OF text_writer_ok _ e]
    have "e = None" and known2: "\<forall>h. ifinals ix2 h \<noteq> None \<longleftrightarrow> h \<in> S"
      using final known1 S True by simp_all
    have "r1 = (ix2, (no_group n, st))"
      using raid_known [where sha = sha and p = p, OF mg c(3) no_ender p1 [unfolded \<open>out = []\<close>]] e call by (simp add: \<open>e = None\<close>)
    from Cons.IH [OF rest [unfolded this] err(2) known2 _ _ inj Cons.prems(7)] Cons.prems(4,5)
    obtain fins ix' st' where IH: "r = (ix', (no_group n, st'))"
      "index_run text_writer (chain_events sha fins S cs) ix2 =
        Ret (replicate (length (chain_events sha fins S cs)) None, ix')"
      "\<forall>c \<in> set cs. finals_entries (fins c) = raid_entries sha p (data_of c)"
      "ok st'" "\<forall>hs. placed hs st \<longrightarrow> placed hs st'"
      "\<forall>c \<in> set cs. sha (data_of c) \<notin> S \<longrightarrow> placed (map chunk_hash (shard_list sha p c)) st'"
      by auto
    define fins' where "fins' = fins(c := shard_list sha p c)"
    have "c \<notin> set cs"
      using Cons.prems(5) by simp
    then have same: "chain_events sha fins' S cs = chain_events sha fins S cs"
      by (intro chain_events_cong) (auto simp: fins'_def)
    have "index_run text_writer (chain_events sha fins' S (c # cs)) ix =
        Ret (replicate (length (chain_events sha fins' S (c # cs))) None, ix')"
      using IH(2) True S by (simp add: same index_step_def p1 e \<open>e = None\<close>)
    moreover have "\<forall>d \<in> set (c # cs). finals_entries (fins' d) = raid_entries sha p (data_of d)"
      using IH(3) shard_list_entries [OF c(1) p len refl] by (simp add: fins'_def)
    ultimately show ?thesis
      using IH(1,4-6) True by (intro exI [of _ fins'] exI [of _ ix'] exI [of _ st'] conjI) auto
  next
    case False
    then have out: "out = [Res (Some ?c) None]"
      and entry: "ifinals ix1 (sha ?x) = Some \<lparr>fnum = chunk_num c, entries = [], complete = False\<rparr>"
      using result at by simp_all
    have grp: "distinct (map chunk_hash (shard_list sha p c))" "\<forall>ch \<in> set (shard_list sha p c). fit ch"
      using c(2) by (simp_all add: storable_def)
    have passes: "\<exists>fs. rs = passed fs \<and> mset fs = mset (shard_list sha p c)"
      if "pr_process store (group_agg (chunk_num c) (shard_list sha p c)) st = Ret (rs, st1)" "stream_err rs = None"
      for rs st1
      by (rule store_passes [OF Cons.prems(7) grp that])
    obtain fs st1 ix2 ix3 where
      stored: "pr_process store (group_agg (chunk_num c) (shard_list sha p c)) st = Ret (passed fs, st1)"
      and finals: "index_run text_writer (map (EFinal ?c) fs) ix1 = Ret (replicate (length fs) None, ix2)"
      and ends: "index_process_end text_writer ?c ix2 = (None, ix3)" and r1: "r1 = (ix3, (no_group n, st1))"
      and same: "\<forall>h. ifinals ix3 h = None \<longleftrightarrow> ifinals ix1 h = None"
      using raid_new [OF mg code n p c(1) no_ender p1 [unfolded out] entry call err(1)] passes by blast
    have no_err: "stream_err (passed fs) = None"
      by simp
    have st1: "ok st1" "placed (map chunk_hash (shard_list sha p c)) st1" "\<And>hs. placed hs st \<Longrightarrow> placed hs st1"
      using store_ok [OF Cons.prems(7) grp stored no_err] store_places [OF Cons.prems(7) grp stored no_err]
        store_keeps [OF Cons.prems(7) grp stored no_err] by blast+
    obtain fs' where "passed fs = passed fs'" "mset fs' = mset (shard_list sha p c)"
      using passes [OF stored no_err] by blast
    moreover from this(1) have "fs = fs'"
      using inj_map [of "\<lambda>c. Res (Some c) None"] by (auto simp: inj_def)
    ultimately have fs: "mset fs = mset (shard_list sha p c)"
      by simp
    have known3: "\<forall>h. ifinals ix3 h \<noteq> None \<longleftrightarrow> h \<in> ?S"
      using same known1 by simp
    from Cons.IH [OF rest [unfolded r1] err(2) known3 _ _ inj st1(1)] Cons.prems(4,5)
    obtain fins ix' st' where IH: "r = (ix', (no_group n, st'))"
      "index_run text_writer (chain_events sha fins ?S cs) ix3 =
        Ret (replicate (length (chain_events sha fins ?S cs)) None, ix')"
      "\<forall>c \<in> set cs. finals_entries (fins c) = raid_entries sha p (data_of c)"
      "ok st'" "\<forall>hs. placed hs st1 \<longrightarrow> placed hs st'"
      "\<forall>c \<in> set cs. sha (data_of c) \<notin> ?S \<longrightarrow> placed (map chunk_hash (shard_list sha p c)) st'"
      by auto
    define fins' where "fins' = fins(c := fs)"
    have "c \<notin> set cs"
      using Cons.prems(5) by simp
    then have same': "chain_events sha fins' ?S cs = chain_events sha fins ?S cs"
      by (intro chain_events_cong) (auto simp: fins'_def)
    have "fins' c = fs"
      by (simp add: fins'_def)
    then have "index_run text_writer (chain_events sha fins' S (c # cs)) ix =
        Ret (replicate (length (chain_events sha fins' S (c # cs))) None, ix')"
      using False finals IH(2) ends by (simp add: same' index_step_def p1 index_run_append replicate_add
          replicate_append_same)
    moreover have "\<forall>d \<in> set (c # cs). finals_entries (fins' d) = raid_entries sha p (data_of d)"
      using IH(3) shard_list_entries [OF c(1) p len fs] by (simp add: fins'_def)
    moreover have "placed (map chunk_hash (shard_list sha p d)) st'" if "d \<in> set (c # cs)" "sha (data_of d) \<notin> S" for d
    proof (cases "sha (data_of d) = sha ?x")
      case True
      then have "data_of d = ?x"
        using inj_onD [OF Cons.prems(6), of "data_of d" ?x] that(1) by auto
      then have "map chunk_hash (shard_list sha p d) = map chunk_hash (shard_list sha p c)"
        by (simp add: shard_list_def shard_chunk_def data_of_def split_beta comp_def)
      then show ?thesis
        using st1(2) IH(5) by simp
    next
      case False
      then show ?thesis
        using that IH(6) by auto
    qed
    ultimately show ?thesis
      using IH(1,4,5) st1(3) by (intro exI [of _ fins'] exI [of _ ix'] exI [of _ st']) blast
  qed
qed

end

end
