(* ===== verification/Raid_Read.thy ===== *)
theory Raid_Read
  imports Raid_Chain
begin

text \<open>
  Reading a RAID back: \<^verbatim>\<open>stores/multireader.go\<close>, \<^verbatim>\<open>procs/group.go\<close> and \<^verbatim>\<open>procs/parity.go\<close> in the
  chain of \<^verbatim>\<open>integration_test/raid5_test.go\<close>. The shards come back in any order, some of them as
  errors the group keeps; the groups are put together again and each becomes its chunk.
\<close>

section \<open>A run of the read chain\<close>

text \<open>A chunk of the index is read: with the data of its hash, or as the group keeps it with an error.\<close>

definition read_back :: "(bytes \<Rightarrow> hash) \<Rightarrow> 'm proc \<Rightarrow> 'm \<Rightarrow> chunk \<Rightarrow> chunk \<Rightarrow> bool" where
  "read_back sha read m d ch \<longleftrightarrow>
     (\<exists>s. pr_process read d m = Ret ([Res (Some (with_data (BytesData s) d)) None], m) \<and>
        sha s = chunk_hash d \<and> ch = with_data (BytesData s) d) \<or>
     (\<exists>e. pr_process read d m = Ret ([Res (Some d) (Some e)], m) \<and> ch = meta_set MetaGroupErr (MetaError e) d)"

lemma read_group:
  assumes mg: "merges mg" and came: "read_back sha read m d ch"
  shows "stages mg [over_fst read, simple_proc True (func_proc (checksum_unprocess sha)), over_snd (over_fst group_obj)]
      (single_res d None) (m, (g, j)) = Ret (fst (group_process ch g), (m, (snd (group_process ch g), j)))"
proof -
  consider s where "pr_process read d m = Ret ([Res (Some (with_data (BytesData s) d)) None], m)"
      "sha s = chunk_hash d" "ch = with_data (BytesData s) d"
    | e where "pr_process read d m = Ret ([Res (Some d) (Some e)], m)" "ch = meta_set MetaGroupErr (MetaError e) d"
    using came unfolding read_back_def by blast
  then show ?thesis
  proof cases
    case 1
    then show ?thesis
      by (simp add: single_res_def stage_one [OF mg] func_proc_def checksum_unprocess_def data_reader_def
          checksum_sum_def mark_read_same group_obj_def ret_process_def split_beta)
  next
    case 2
    then show ?thesis
      by (simp add: single_res_def stage_one [OF mg] stage_def merges_one [OF mg] group_obj_def ret_process_def
          group_process_err_def split_beta over_fst_def over_snd_def)
  qed
qed

lemma group_process_single: "\<exists>r. fst (group_process c g) = [] \<or> fst (group_process c g) = [r]"
  by (auto simp: group_process_def split: prod.splits)

lemma stages_append: "stages mg (ps @ qs) ins st = bind_outcome (stages mg ps ins st) (\<lambda>(outs, st). stages mg qs outs st)"
  by (induction ps arbitrary: ins st) (simp_all add: bind_outcome_bind case_prod_unfold)

lemma proc_run_append:
  "proc_run p (cs @ ds) st = bind_outcome (proc_run p cs st) (\<lambda>(rs, st).
     bind_outcome (proc_run p ds st) (\<lambda>(rss, st). Ret (rs @ rss, st)))"
proof (induction cs arbitrary: st)
  case Nil
  show ?case by (cases "proc_run p ds st") auto
qed (simp add: bind_outcome_bind case_prod_unfold)

text \<open>The aggregates of the groups become chunks, and the join is called for each.\<close>

lemma read_run:
  fixes j :: "chunk series \<times> bytes" and read :: "'m proc"
  assumes mg: "merges mg" and ender: "pr_ender read = None" and "list_all2 (read_back sha read m) ds chs"
    and "group_run chs g = (passed aggs, g')"
    and "list_all2 (\<lambda>a b. parity_unprocess p a = Ret (Inr b)) aggs outs"
  shows "proc_run (raid_read mg order sha p read) ds (m, (g, j)) =
    bind_outcome (proc_run (join_obj mg order append_writer) outs j) (\<lambda>(rs, j). Ret (rs, (m, (g', j))))"
  using assms(3-5)
proof (induction ds chs arbitrary: g j aggs outs rule: list_all2_induct)
  case Nil
  then show ?case by simp
next
  case (Cons d ds ch chs)
  let ?join = "join_obj mg order append_writer"
  let ?three = "[over_fst read, simple_proc True (func_proc (checksum_unprocess sha)), over_snd (over_fst group_obj)] ::
    ('m \<times> (group \<times> (chunk series \<times> bytes))) proc list"
  obtain rs1 g1 rs2 where step: "group_process ch g = (rs1, g1)" and rest: "group_run chs g1 = (rs2, g')"
    and rs: "passed aggs = rs1 @ rs2"
    using Cons.prems(1) by (auto split: prod.splits)
  from rs obtain aggs1 aggs2 where aggs: "aggs = aggs1 @ aggs2" "rs1 = passed aggs1" "rs2 = passed aggs2"
    unfolding map_eq_append_conv by blast
  obtain outs1 outs2 where outs: "outs = outs1 @ outs2"
    "list_all2 (\<lambda>a b. parity_unprocess p a = Ret (Inr b)) aggs1 outs1"
    "list_all2 (\<lambda>a b. parity_unprocess p a = Ret (Inr b)) aggs2 outs2"
    using Cons.prems(2) unfolding aggs(1) list_all2_append1 by blast
  have "stages mg ?three (single_res d None) (m, (g, j)) = Ret (passed aggs1, (m, (g1, j)))"
    using read_group [OF mg Cons.hyps(1), of g j] by (simp add: step aggs(2))
  moreover have "end_procs (raid_read_stages mg order sha p read) = []"
    using ender by (simp add: end_procs_def raid_read_stages_def group_obj_def parity_unobj_def join_obj_def chain_def)
  ultimately have call: "pr_process (raid_read mg order sha p read) d (m, (g, j)) =
      stages mg [parity_unobj p, over_snd (over_snd ?join)] (passed aggs1) (m, (g1, j))"
    using stages_append [of mg ?three "[parity_unobj p, over_snd (over_snd ?join)]" "single_res d None" "(m, (g, j))"]
    by (simp add: raid_read_def chain_def chain_without_end raid_read_stages_def del: stages.simps)
  also have "\<dots> = bind_outcome (proc_run ?join outs1 j) (\<lambda>(rs, j). Ret (rs, (m, (g1, j))))"
  proof (cases aggs1)
    case Nil
    then show ?thesis
      using outs(2) by (simp add: stages_nothing [OF mg] del: stages.simps)
  next
    case (Cons a aggs')
    then have one: "aggs1 = [a]"
      using group_process_single [of ch g] by (auto simp: step aggs(2))
    with outs(2) obtain b where "outs1 = [b]" "parity_unprocess p a = Ret (Inr b)"
      by (auto simp: list_all2_Cons1)
    then show ?thesis
      by (cases "pr_process ?join b j")
        (auto simp: one stage_one [OF mg] parity_unobj_def func_proc_def or_given_def)
  qed
  finally show ?case
    using Cons.IH [OF rest [unfolded aggs(3)] outs(3)]
    by (cases "proc_run ?join outs1 j") (simp_all add: outs(1) proc_run_append bind_outcome_bind case_prod_unfold)
qed

section \<open>The shards of a stream\<close>

text \<open>The positions of the shards of the \<open>q\<close>-th piece.\<close>

lemma filter_div_upt:
  assumes "1 \<le> (n :: nat)" and "q < N"
  shows "filter (\<lambda>i. i div n = q) [0..<N * n] = [q * n..<q * n + n]"
proof (rule sorted_distinct_set_unique)
  have le: "q * n + n \<le> N * n"
    using assms(2) mult_le_mono1 [of "Suc q" N n] by simp
  have div: "i div n = q \<longleftrightarrow> q * n \<le> i \<and> i < q * n + n" for i
  proof
    assume "i div n = q"
    then show "q * n \<le> i \<and> i < q * n + n"
      using assms(1) div_times_less_eq_dividend [of i n] dividend_less_div_times [of n i]
      by (simp add: add.commute)
  next
    assume "q * n \<le> i \<and> i < q * n + n"
    then show "i div n = q"
      by (intro div_nat_eqI) (simp_all add: mult.commute [of n q])
  qed
  show "set (filter (\<lambda>i. i div n = q) [0..<N * n]) = set [q * n..<q * n + n]"
    unfolding set_filter div set_upt using le by auto
qed (simp_all add: sorted_wrt_filter)

text \<open>
  \<open>chs\<close> are the chunks that come back, in the order of their numbers: one for each shard of each
  piece, and too few of them lost to matter.
\<close>

definition stream_back :: "parity \<Rightarrow> nat \<Rightarrow> nat \<Rightarrow> bytes list \<Rightarrow> chunk list \<Rightarrow> bool" where
  "stream_back p n k bs chs \<longleftrightarrow> map chunk_num chs = map int [0..<length bs * n] \<and>
     (\<forall>q < length bs. list_all2 comes_back (shards_of p (bs ! q)) (map ((!) chs) [q * n..<q * n + n]) \<and>
        chunk_target_size (chs ! (q * n)) = int (length (bs ! q)) \<and>
        length (filter lost (map ((!) chs) [q * n..<q * n + n])) \<le> k)"

definition back_agg :: "nat \<Rightarrow> chunk list \<Rightarrow> nat \<Rightarrow> chunk" where
  "back_agg n chs q = group_agg (int q) (map ((!) chs) [q * n..<q * n + n])"

lemma back_members:
  assumes n: "1 \<le> n" and nums: "map chunk_num chs = map int [0..<N * n]" and q: "q < N"
    and perm: "mset cs = mset chs"
  shows "mset (members (int n) cs (int q)) = mset (map ((!) chs) [q * n..<q * n + n])"
    and "sort_key chunk_num (members (int n) cs (int q)) = map ((!) chs) [q * n..<q * n + n]"
proof -
  have len: "length chs = N * n"
    using arg_cong [OF nums, of length] by simp
  have num: "chunk_num (chs ! i) = int i" if "i < N * n" for i
    using arg_cong [OF nums, of "\<lambda>xs. xs ! i"] that len by simp
  have "filter (\<lambda>c. chunk_num c div int n = int q) chs =
      map ((!) chs) (filter (\<lambda>i. chunk_num (chs ! i) div int n = int q) [0..<length chs])"
    by (metis (no_types, lifting) comp_apply filter_cong filter_map map_nth)
  also have "filter (\<lambda>i. chunk_num (chs ! i) div int n = int q) [0..<length chs] = filter (\<lambda>i. i div n = q) [0..<N * n]"
    unfolding len by (rule filter_cong) (simp_all add: num flip: zdiv_int)
  also have "\<dots> = [q * n..<q * n + n]"
    by (rule filter_div_upt [OF n q])
  finally have slice: "filter (\<lambda>c. chunk_num c div int n = int q) chs = map ((!) chs) [q * n..<q * n + n]" .
  then show perm_q: "mset (members (int n) cs (int q)) = mset (map ((!) chs) [q * n..<q * n + n])"
    unfolding members_def mset_filter perm by (simp flip: mset_filter)
  have "q * n + n \<le> N * n"
    using q mult_le_mono1 [of "Suc q" N n] by simp
  then have nums_q: "map chunk_num (map ((!) chs) [q * n..<q * n + n]) = map int [q * n..<q * n + n]"
    by (simp add: num)
  show "sort_key chunk_num (members (int n) cs (int q)) = map ((!) chs) [q * n..<q * n + n]"
  proof (rule sort_key_inj_key_eq [OF perm_q])
    have "distinct (map chunk_num (map ((!) chs) [q * n..<q * n + n]))"
      unfolding nums_q by (simp add: distinct_map)
    then show "inj_on chunk_num (set (members (int n) cs (int q)))"
      unfolding mset_eq_setD [OF perm_q] by (simp only: distinct_map)
    show "sorted (map chunk_num (map ((!) chs) [q * n..<q * n + n]))"
      unfolding nums_q by (simp add: sorted_map)
  qed
qed

lemma stream_groups:
  assumes n: "1 \<le> n" and came: "stream_back p n k bs chs" and perm: "mset cs = mset chs"
    and small: "int (length bs * n) \<le> 2 ^ 63"
  shows "\<exists>aggs. group_run cs (no_group n) = (passed aggs, no_group n) \<and>
    mset aggs = mset (map (back_agg n chs) [0..<length bs])"
proof -
  let ?N = "length bs"
  have nums: "map chunk_num chs = map int [0..<?N * n]"
    using came by (simp add: stream_back_def)
  note set = nums_of_perm [OF perm nums]
  have sz: "1 \<le> int n"
    using n by simp
  have ok: "\<forall>c \<in> set cs. num_ok c"
  proof
    fix c assume "c \<in> set cs"
    then obtain i where "i < ?N * n" "chunk_num c = int i"
      using set(2) by blast
    moreover from this(1) have "int i < 2 ^ 63"
      using small by (metis less_le_trans of_nat_less_iff)
    ultimately show "num_ok c"
      by (simp add: num_ok_def)
  qed
  note members = back_members [OF n nums _ perm]
  have heads: "chunk_num c div int n \<in> int ` {..<?N}" if "c \<in> set cs" for c
  proof -
    obtain i where i: "i < ?N * n" "chunk_num c = int i"
      using \<open>c \<in> set cs\<close> set(2) by blast
    then have "chunk_num c div int n = int (i div n)"
      by (simp add: zdiv_int)
    with less_mult_imp_div_less [OF i(1)] show ?thesis
      by (metis imageI lessThan_iff)
  qed
  have full: "full_heads (int n) cs = int ` {..<?N}"
  proof (intro equalityI subsetI)
    fix h assume "h \<in> full_heads (int n) cs"
    then have "members (int n) cs h \<noteq> []"
      using n by (auto simp: full_heads_def)
    then show "h \<in> int ` {..<?N}"
      using heads by (auto simp: members_def filter_empty_conv)
  next
    fix h assume "h \<in> int ` {..<?N}"
    then obtain q where "q < ?N" "h = int q"
      by blast
    then show "h \<in> full_heads (int n) cs"
      using mset_eq_length [OF members(1)] by (simp add: full_heads_def)
  qed
  from group_run_tracks [OF sz set(1) ok] obtain rs g where
    run: "group_run cs (no_group n) = (rs, g)" and t: "group_tracks (int n) g cs"
    and rs: "mset rs = image_mset (agg_res (int n) cs) (mset_set (full_heads (int n) cs))"
    by blast
  have agg: "agg_res (int n) cs (int q) = Res (Some (back_agg n chs q)) None" if "q < ?N" for q
    using members(2) [OF that] by (simp add: agg_res_def back_agg_def)
  have "mset_set (int ` {..<?N}) = image_mset int (mset_set {..<?N})"
    by (simp add: image_mset_mset_set)
  then have "mset rs = image_mset (\<lambda>q. agg_res (int n) cs (int q)) (mset_set {..<?N})"
    by (simp add: rs full multiset.map_comp comp_def)
  also have "\<dots> = image_mset (\<lambda>q. Res (Some (back_agg n chs q)) None) (mset_set {..<?N})"
    by (rule image_mset_cong) (simp add: agg)
  also have "\<dots> = mset (map (\<lambda>c. Res (Some c) None) (map (back_agg n chs) [0..<?N]))"
    by (simp add: atLeast0LessThan [symmetric] comp_def)
  finally obtain aggs where aggs: "rs = passed aggs" "mset aggs = mset (map (back_agg n chs) [0..<?N])"
    using mset_eq_map by blast
  have "group_finish g = None"
    using group_tracks_finish [OF sz t] heads by (auto simp: full)
  then have "g = no_group n"
    using group_done group_run_size [OF run] by simp
  with run aggs show ?thesis
    by blast
qed

lemma stream_unprocess:
  assumes code: "erasure_code (pa_enc p) n k" and p: "pa_nshards p = int n" and n: "1 \<le> n"
    and came: "stream_back p n k bs chs" and q: "q < length bs" "bs ! q \<noteq> []"
  shows "parity_unprocess p (back_agg n chs q) = Ret (Inr (with_data (BytesData (bs ! q)) (back_agg n chs q)))"
proof (rule parity_unprocess_back [OF code p q(2) shards_of_code(1) [OF code q(2)]])
  show "get_group (back_agg n chs q) = Some (map ((!) chs) [q * n..<q * n + n])"
    by (simp add: back_agg_def)
  show "chunk_target_size (back_agg n chs q) = int (length (bs ! q))"
    using came q(1) n by (simp add: stream_back_def back_agg_def group_agg_def hd_map)
qed (use came q(1) in \<open>auto simp: stream_back_def\<close>)

section \<open>Reading a stream\<close>

lemma stream_read:
  fixes read :: "'m proc"
  assumes mg: "merges mg" and order: "\<And>es. mset (order es) = mset es" and ender: "pr_ender read = None"
    and code: "erasure_code (pa_enc p) n k" and p: "pa_nshards p = int n" and n: "1 \<le> n"
    and came: "stream_back p n k bs chs" and full: "[] \<notin> set bs"
    and small: "int (length bs * n) \<le> pos_limit"
    and reads: "list_all2 (read_back sha read m) ds cs" and perm: "mset cs = mset chs"
  shows "\<exists>rs s. proc_run (raid_read mg order sha p read) ds (m, (no_group n, (new_series, []))) =
      Ret (rs, (m, (no_group n, (s, concat bs)))) \<and> stream_err rs = None \<and>
    fst (pr_finish (join_obj mg order append_writer) (s, concat bs)) = None"
proof -
  let ?f = "\<lambda>a. with_data (BytesData (bs ! nat (chunk_num a))) a" and ?aggs = "map (back_agg n chs) [0..<length bs]"
  have limit: "int (length bs * n) \<le> 2 ^ 63" "int (length bs) \<le> pos_limit"
  proof -
    show "int (length bs * n) \<le> 2 ^ 63"
      using small by (rule order_trans) (simp add: pos_limit_def)
    have "length bs * 1 \<le> length bs * n"
      using n by (rule mult_le_mono2)
    then have "int (length bs) \<le> int (length bs * n)"
      by (simp only: mult_1_right of_nat_le_iff)
    then show "int (length bs) \<le> pos_limit"
      using small by (rule order_trans)
  qed
  obtain aggs where run: "group_run cs (no_group n) = (passed aggs, no_group n)" and aggs: "mset aggs = mset ?aggs"
    using stream_groups [OF n came perm limit(1)] by blast
  have num: "chunk_num (back_agg n chs q) = int q" for q
    by (simp add: back_agg_def)
  have "parity_unprocess p a = Ret (Inr (?f a))" if "a \<in> set aggs" for a
  proof -
    obtain q where q: "q < length bs" "a = back_agg n chs q"
      using \<open>a \<in> set aggs\<close> mset_eq_setD [OF aggs] by auto
    moreover have "bs ! q \<noteq> []"
      using full q(1) nth_mem by metis
    ultimately show ?thesis
      using stream_unprocess [OF code p n came] by (simp add: num)
  qed
  then have outs: "list_all2 (\<lambda>a b. parity_unprocess p a = Ret (Inr b)) aggs (map ?f aggs)"
    by (simp add: list_all2_map2 list_all2_same)
  have perm_out: "mset (map ?f aggs) = mset (map ?f ?aggs)"
    unfolding mset_map aggs ..
  have nums: "map chunk_num (map ?f ?aggs) = map int [0..<length bs]"
    by (simp add: num comp_def)
  have mem: "\<forall>c \<in> set (map ?f ?aggs). in_memory c"
    by (simp add: in_memory_def)
  have data: "map data_of (map ?f ?aggs) = bs"
    by (rule nth_equalityI) (simp_all add: num data_of_def)
  obtain rs s where join:
    "proc_run (join_obj mg order append_writer) (map ?f aggs) (new_series, []) = Ret (rs, (s, concat bs))"
    "stream_err rs = None" "fst (pr_finish (join_obj mg order append_writer) (s, concat bs)) = None"
    using join_any_order [OF mg order perm_out nums limit(2) mem, of "concat bs"] unfolding data by blast
  have "proc_run (raid_read mg order sha p read) ds (m, (no_group n, (new_series, []))) =
      Ret (rs, (m, (no_group n, (s, concat bs))))"
    unfolding read_run [OF mg ender reads run outs] join(1) by simp
  then show ?thesis
    using join(2,3) by blast
qed

end
