(* ===== verification/Raid_Store.thy ===== *)
theory Raid_Store
  imports Raid_Read Redundancy
begin

text \<open>
  The stripe store and the multireader as the stores of a RAID: \<^verbatim>\<open>stores/stripe/stripe.go\<close> inside
  \<^verbatim>\<open>procs/concur.go\<close> puts the shards of a chunk apart from each other, and \<^verbatim>\<open>stores/multireader.go\<close>
  reads back those that are left when some stores are lost.
\<close>

section \<open>The stripe store as a dynamic proc\<close>

definition stripe_dyn :: "('id, 'q) striper \<Rightarrow> ('id, 'w, 'q) stripe_store dyn_procs" where
  "stripe_dyn striper c st =
     map_option (\<lambda>m. bind_outcome m (\<lambda>(r, st).
         Ret (map_sum (\<lambda>e. e) (\<lambda>(cs, jobs). all_procs cs jobs) r, st)))
       (stripe_procs striper c st)"

text \<open>\<open>ress\<close> are the copiers \<open>New\<close> found, which \<open>Finish\<close> finishes; it finds the slots back.\<close>

definition stripe_obj ::
  "nat \<Rightarrow> ('id, 'w) copier list \<Rightarrow> ('id, 'q) striper \<Rightarrow>
   (('id, 'w, 'q) stripe_store process list \<Rightarrow> ('id, 'w, 'q) stripe_store process list) \<Rightarrow>
   (res list list \<Rightarrow> res list) \<Rightarrow> ('id, 'w, 'q) stripe_store proc" where
  "stripe_obj mx ress striper sched arr =
     concur_obj \<lparr>sl_cap = mx, sl_len = mx\<rparr> (stripe_dyn striper)
       (\<lambda>st. stripe_store_finish ress (ss_world st)) sched arr"

section \<open>One call\<close>

lemma procs_each_append:
  "procs_each (ps @ qs) c st =
     (case procs_each ps c st of (rss, st) \<Rightarrow> case procs_each qs c st of (rss', st) \<Rightarrow> (rss @ rss', st))"
  by (induction ps arbitrary: st) (auto split: prod.splits)

lemma copy_proc_errors:
  "copy_proc job c st = (rs, st') \<Longrightarrow> \<forall>r \<in> set rs. res_err r \<noteq> None"
  by (auto simp: copy_proc_def on_end_def discard_chunks_def split: prod.splits)

lemma procs_each_copies:
  "procs_each (map copy_proc jobs) c st = (rss, st') \<Longrightarrow>
     run_copies jobs c st = (map stream_err rss, st') \<and> (\<forall>r \<in> set (concat rss). res_err r \<noteq> None)"
proof (induction jobs arbitrary: st rss)
  case (Cons job jobs)
  then obtain rs st1 rss1 where "copy_proc job c st = (rs, st1)" "procs_each (map copy_proc jobs) c st1 = (rss1, st')"
    "rss = rs # rss1"
    by (auto split: prod.splits)
  with Cons.IH [of st1 rss1] copy_proc_errors [of job c st rs st1] show ?case
    by (auto simp: run_copies.simps(2))
qed simp

lemma run_copies_append:
  "run_copies (jobs @ jobs') c st =
     (case run_copies jobs c st of (es, st) \<Rightarrow> case run_copies jobs' c st of (es', st) \<Rightarrow> (es @ es', st))"
  by (induction jobs arbitrary: st) (auto simp: run_copies.simps(2) split: prod.splits)

text \<open>The proc of the chunks themselves comes somewhere among the copies.\<close>

lemma scheduled:
  assumes "mset ps = mset (all_procs cs jobs)"
  obtains js1 js2 where "ps = map copy_proc js1 @ slice_proc cs # map copy_proc js2"
    and "mset (js1 @ js2) = mset jobs"
proof -
  have "slice_proc cs \<in> set ps"
    using mset_eq_setD [OF assms] by (simp add: all_procs_def)
  then obtain ps1 ps2 where ps: "ps = ps1 @ slice_proc cs # ps2"
    by (blast dest: split_list)
  then have "mset (ps1 @ ps2) = mset (map copy_proc jobs)"
    using assms by (simp add: all_procs_def)
  from mset_eq_map [OF this] obtain js where js: "ps1 @ ps2 = map copy_proc js" "mset js = mset jobs"
    by blast
  then obtain js1 js2 where split: "js = js1 @ js2" "ps1 = map copy_proc js1" "ps2 = map copy_proc js2"
    unfolding append_eq_map_conv by blast
  show ?thesis
    by (rule that [of js1 js2]) (use ps js(2) split in simp_all)
qed

lemma stripe_call:
  assumes sched: "\<And>ps. mset (sched ps) = mset ps" and arr: "\<And>rss. mset (arr rss) = mset (concat rss)"
    and call: "pr_process (stripe_obj mx ress striper sched arr) c st = Ret (rs, st')"
    and ok: "stream_err rs = None"
  obtains cs jobs st1 jobs' es fs where "stripe_procs striper c st = Some (Ret (Inr (cs, jobs), st1))"
    and "mset jobs' = mset jobs" and "run_copies jobs' c st1 = (es, st')" and "\<forall>e \<in> set es. e = None"
    and "rs = passed fs" and "mset fs = mset cs"
proof -
  obtain r st1 where procs: "stripe_procs striper c st = Some (Ret (r, st1))"
    using call by (cases "stripe_procs striper c st"; cases "the (stripe_procs striper c st)")
      (auto simp: stripe_obj_def concur_obj_def stripe_dyn_def)
  obtain cs jobs where r: "r = Inr (cs, jobs)"
    using call ok by (cases r) (auto simp: stripe_obj_def concur_obj_def stripe_dyn_def procs single_res_def)
  obtain rss where each: "procs_each (sched (all_procs cs jobs)) c st1 = (rss, st')" and rs: "rs = arr rss"
    using call by (cases "procs_each (sched (all_procs cs jobs)) c st1")
      (auto simp: stripe_obj_def concur_obj_def stripe_dyn_def procs r)
  obtain js1 js2 where js: "sched (all_procs cs jobs) = map copy_proc js1 @ slice_proc cs # map copy_proc js2"
    "mset (js1 @ js2) = mset jobs"
    by (rule scheduled [OF sched])
  obtain rss1 sta rss2 where one: "procs_each (map copy_proc js1) c st1 = (rss1, sta)"
    and two: "procs_each (map copy_proc js2) c sta = (rss2, st')" and rss: "rss = rss1 @ passed cs # rss2"
    using each unfolding js(1) procs_each_append by (auto simp: slice_proc_def split: prod.splits)
  note runs = procs_each_copies [OF one] procs_each_copies [OF two]
  have "\<forall>r \<in> set (concat rss). res_err r = None"
    using ok mset_eq_setD [OF arr [of rss]] by (simp add: rs)
  then have "r \<notin> set (concat rss1)" "r \<notin> set (concat rss2)" for r
    using runs by (auto simp: rss)
  then have "set (concat rss1) = {}" "set (concat rss2) = {}"
    by (simp_all only: empty_iff subset_antisym empty_subsetI subsetI set_eq_iff simp_thms)
  then have none: "concat rss1 = []" "concat rss2 = []"
    by (simp_all only: set_empty)
  have "\<forall>e \<in> set (map stream_err (rss1 @ rss2)). e = None"
    using none by (auto simp: stream_err_def)
  moreover have "run_copies (js1 @ js2) c st1 = (map stream_err (rss1 @ rss2), st')"
    using runs by (simp add: run_copies_append)
  moreover have "mset rs = mset (passed cs)"
    unfolding rs arr rss using none by simp
  then obtain fs where "rs = passed fs" "mset fs = mset cs"
    using mset_eq_map by blast
  ultimately show ?thesis
    using that [OF procs [unfolded r] js(2)] by blast
qed

text \<open>Chunks with different hashes are all passed on, in their order.\<close>

lemma collect_chunks_distinct:
  assumes "collect_chunks cs chunks qu = Inr (chunks', qu')" and "distinct (map fst chunks @ map chunk_hash cs)"
  shows "map (\<lambda>x. ci_chunk (snd x)) chunks' = map (\<lambda>x. ci_chunk (snd x)) chunks @ cs"
  using assms
proof (induction cs arbitrary: chunks qu)
  case (Cons c cs)
  obtain q where rest: "collect_chunks cs (AList.update (chunk_hash c) \<lparr>ci_chunk = c, ci_use = q\<rparr> chunks) (qu + q) =
      Inr (chunks', qu')"
    using Cons.prems(1) by (auto split: option.splits sum.splits)
  have "chunk_hash c \<notin> fst ` set chunks"
    using Cons.prems(2) by auto
  then have "AList.update (chunk_hash c) ci chunks = chunks @ [(chunk_hash c, ci)]" for ci
    by (induction chunks) auto
  with Cons.IH [OF rest] Cons.prems(2) show ?case
    by auto
qed simp

lemma stripe_procs_chunks:
  assumes "stripe_procs striper c st = Some (Ret (Inr (cs, jobs), st1))" and "distinct (map chunk_hash (group_of c))"
  shows "cs = group_of c"
  using assms(1) collect_chunks_distinct [of "group_of c" "[]" 0] assms(2)
  by (auto simp: stripe_procs_def Let_def bind_outcome_Ret_iff comp_def split: option.splits sum.splits prod.splits)

section \<open>What holds of the stripe store all along\<close>

definition man_all :: "('i \<Rightarrow> 'r \<Rightarrow> bool) \<Rightarrow> ('i, 'r) quota_man \<Rightarrow> bool" where
  "man_all P man \<longleftrightarrow> (\<forall>(i, u) \<in> set man. P i (u_res u))"

lemma man_all_update: "man_all P man \<Longrightarrow> P i (u_res u) \<Longrightarrow> man_all P (AList.update i u man)"
  using update_pairs [of i u man] by (fastforce simp: man_all_def)

lemma man_all_delete: "man_all P man \<Longrightarrow> man_all P (AList.delete i man)"
  using delete_pairs [of i man] by (fastforce simp: man_all_def)

lemma man_all_count_use: "man_all P man \<Longrightarrow> man_all P (snd (man_count_use rid r n man))"
proof -
  have "P i (u_res u)" if "man_all P man" "map_of man i = Some u" for i u
    using that by (auto simp: man_all_def dest: map_of_SomeD)
  then show "man_all P man \<Longrightarrow> man_all P (snd (man_count_use rid r n man))"
    by (auto simp: man_count_use_def Let_def intro!: man_all_update man_all_delete split: option.split)
qed

lemma man_all_resources: "man_all P man \<Longrightarrow> cp \<in> set (man_resources n man) \<Longrightarrow> \<exists>i. P i cp"
  by (fastforce simp: man_all_def man_resources_def)

lemma copy_proc_man:
  assumes "copy_proc job c st = (rs, st')" and "man_all P (ss_man st)"
  shows "man_all P (ss_man st')"
  using assms by (auto simp: copy_proc_def on_end_def discard_chunks_def chunk_arg_proc_def copier_proc_def
      copy_end_def Let_def man_delete_def split: prod.splits option.splits intro!: man_all_delete man_all_count_use)

lemma run_copies_man: "run_copies jobs c st = (es, st') \<Longrightarrow> man_all P (ss_man st) \<Longrightarrow> man_all P (ss_man st')"
proof (induction jobs arbitrary: st es)
  case (Cons job jobs)
  obtain rs st1 where "copy_proc job c st = (rs, st1)"
    by fastforce
  with Cons copy_proc_man [OF this Cons.prems(2)] show ?case
    by (auto simp: run_copies.simps(2) split: prod.splits)
qed simp

lemma run_copies_reg_ok:
  "run_copies jobs c st = (es, st') \<Longrightarrow> reg_ok cp_id (ss_reg st) \<Longrightarrow> reg_ok cp_id (ss_reg st')"
proof (induction jobs arbitrary: st es)
  case (Cons job jobs)
  obtain e st1 where e: "run_copies (job # jobs) c st = (e # fst (run_copies jobs c st1), snd (run_copies jobs c st1))"
    and reg: "ss_reg st1 = (if e = None then list_add cp_id (cj_hash job) (cj_copier job) (ss_reg st) else ss_reg st)"
    by (rule run_copies_Cons)
  have "run_copies jobs c st1 = (fst (run_copies jobs c st1), st')"
    using e Cons.prems(1) by (simp add: prod_eq_iff)
  then show ?case
    using Cons.IH Cons.prems(2) by (simp add: reg reg.add_ok)
qed simp

lemma stripe_procs_man:
  assumes "stripe_procs striper c st = Some (Ret (Inr (cs, jobs), st1))"
  shows "ss_man st1 = ss_man st"
proof -
  have plan: "plan_copies all chunks new st = Ret (jobs, st') \<Longrightarrow> ss_man st' = ss_man st"
    for all chunks new and st st' :: "('a, 'b, 'c) stripe_store" and jobs
    by (induction all chunks new st arbitrary: jobs rule: plan_copies.induct)
      (auto simp: bind_outcome_Ret_iff Let_def split: option.splits)
  from assms obtain chunks qu cur st2 all new q where "lock_hashes (map fst chunks) st = Some (cur, st2)"
    "plan_copies all chunks new (st2\<lparr>ss_seq := q\<rparr>) = Ret (jobs, st1)"
    by (auto simp: stripe_procs_def Let_def bind_outcome_Ret_iff split: sum.splits option.splits prod.splits)
  then show ?thesis
    using lock_hashes_state plan by fastforce
qed

context listed_store
begin

text \<open>
  \<open>content h\<close> is what the hash \<open>h\<close> stands for, \<open>I\<close> the ids of the stores. The registry lists a store
  only for what it holds, and a store is filled through its own copier.
\<close>

definition stripe_inv :: "(hash \<Rightarrow> bytes) \<Rightarrow> 'i set \<Rightarrow> ('i, 'i \<Rightarrow> 'm, 'q) stripe_store \<Rightarrow> bool" where
  "stripe_inv content I st \<longleftrightarrow> reg_ok cp_id (ss_reg st) \<and>
     (\<forall>h i. i \<in> reg.holders cp_id h (ss_reg st) \<longrightarrow> held (ss_world st i) h \<noteq> None) \<and>
     contents content (ss_world st) \<and>
     man_all (\<lambda>i cp. i \<in> I \<and> cp = store_copier save ls i) (ss_man st)"

text \<open>The chunks of a group have \<open>min\<close> stores each, and enough of them a set of stores of their own.\<close>

definition kept_apart :: "stripe_config \<Rightarrow> 'i set \<Rightarrow> hash list \<Rightarrow> ('i \<Rightarrow> 'm) \<Rightarrow> bool" where
  "kept_apart cfg I hs w \<longleftrightarrow>
     (\<exists>full. fst ` set full = set hs \<and> distinct (map fst full) \<and>
        min (cfg_excl cfg) (int (length full)) \<le> int (card (apart full)) \<and>
        (\<forall>h \<in> set hs. distinct (locs_of full h) \<and> int (length (locs_of full h)) = cfg_min cfg \<and>
           set (locs_of full h) \<subseteq> {i \<in> I. held (w i) h \<noteq> None}))"

lemma kept_apart_mono:
  assumes "kept_apart cfg I hs w" and "\<And>i h. held (w i) h \<noteq> None \<Longrightarrow> held (w' i) h \<noteq> None"
  shows "kept_apart cfg I hs w'"
proof -
  obtain full where "fst ` set full = set hs" "distinct (map fst full)"
    "min (cfg_excl cfg) (int (length full)) \<le> int (card (apart full))"
    "\<forall>h \<in> set hs. distinct (locs_of full h) \<and> int (length (locs_of full h)) = cfg_min cfg \<and>
       set (locs_of full h) \<subseteq> {i \<in> I. held (w i) h \<noteq> None}"
    using assms(1) unfolding kept_apart_def by blast
  then show ?thesis
    unfolding kept_apart_def using assms(2) by (intro exI [of _ full]) blast
qed

lemma stripe_group:
  assumes min: "1 \<le> cfg_min cfg" and named: "\<And>h. named h" and inv: "stripe_inv content I st"
    and grp: "\<forall>ch \<in> set (group_of c). chunk_data ch = BytesData (content (chunk_hash ch))"
    and call: "stripe_procs (\<lambda>s d q. config_stripe cfg nxt ord s d q) c st = Some (Ret (Inr (cs, jobs), st1))"
    and run: "mset jobs' = mset jobs" "run_copies jobs' c st1 = (es, st2)"
  shows "stripe_inv content I st2 \<and> kept_apart cfg I (map chunk_hash (group_of c)) (ss_world st2) \<and>
    (\<forall>i h. held (ss_world st i) h \<noteq> None \<longrightarrow> held (ss_world st2 i) h \<noteq> None)"
proof -
  let ?H = "chunk_hash ` set (group_of c)"
  have ok: "reg_ok cp_id (ss_reg st)" and known: "\<forall>h i. i \<in> reg.holders cp_id h (ss_reg st) \<longrightarrow> held (ss_world st i) h \<noteq> None"
    and cont: "contents content (ss_world st)"
    and man: "man_all (\<lambda>i cp. i \<in> I \<and> cp = store_copier save ls i) (ss_man st)"
    using inv by (simp_all add: stripe_inv_def)
  have copier: "cp_id cp \<in> I \<and> cp = store_copier save ls (cp_id cp)" if "cp \<in> set (man_resources qu (ss_man st))" for qu cp
    using man_all_resources [OF man that] by auto
  obtain qu where world: "ss_world st1 = ss_world st"
    and from_st: "\<forall>j \<in> set jobs. ci_chunk (cj_info j) \<in> set (group_of c) \<and>
      chunk_hash (ci_chunk (cj_info j)) = cj_hash j \<and> cj_copier j \<in> set (man_resources qu (ss_man st))"
    using stripe_procs_from [OF call] by blast
  have set: "set jobs' = set jobs"
    by (rule mset_eq_setD [OF run(1)])
  have "\<forall>j \<in> set jobs'. job_of_store save ls content j"
    unfolding set job_of_store_def using from_st grp copier by metis
  from copies_held [OF run(2) this named] cont world have es: "\<forall>e \<in> set es. e = None"
    and cont2: "contents content (ss_world st2)"
    and held2: "\<forall>i h. held (ss_world st2 i) h \<noteq> None \<longleftrightarrow>
      held (ss_world st i) h \<noteq> None \<or> (\<exists>j \<in> set jobs. cj_hash j = h \<and> cp_id (cj_copier j) = i)"
    unfolding set by auto
  obtain full new qu' where keys: "fst ` set full = ?H" "distinct (map fst full)"
    and apart: "1 \<le> cfg_min cfg \<longrightarrow> min (cfg_excl cfg) (int (length full)) \<le> int (card (apart full))"
    and full: "\<forall>h \<in> ?H. distinct (locs_of full h) \<and> int (length (locs_of full h)) = max 0 (cfg_min cfg) \<and>
       set (locs_of full h) \<subseteq> reg.holders cp_id h (ss_reg st) \<union> set (locs_of new h) \<and>
       set (locs_of full h) \<subseteq> cp_id ` set (man_resources qu' (ss_man st))"
    and jobs: "\<forall>h. map (\<lambda>j. cp_id (cj_copier j)) (filter (\<lambda>j. cj_hash j = h) jobs) = locs_of new h"
    and tracked: "\<forall>j \<in> set jobs. map_of (ss_reg st1) (cj_hash j) \<noteq> None"
    and reg1: "\<forall>h. reg.holders cp_id h (ss_reg st1) = reg.holders cp_id h (ss_reg st)" "reg_ok cp_id (ss_reg st1)"
    by (rule stripe_procs_jobs [OF call ok])
  have ids: "cp_id ` {cp. (h, cp) \<in> set (succeeded jobs' es)} =
      (\<lambda>j. cp_id (cj_copier j)) ` {j \<in> set jobs. cj_hash j = h}" for h
    using set by (force simp: succeeded_all [OF run_copies_length [OF run(2)] es])
  have holders: "reg.holders cp_id h (ss_reg st2) = reg.holders cp_id h (ss_reg st) \<union>
      (\<lambda>j. cp_id (cj_copier j)) ` {j \<in> set jobs. cj_hash j = h}" for h
    using run_copies_holders [OF reg1(2) _ run(2), of h] tracked reg1(1) by (simp add: set ids)
  have filled: "held (ss_world st2 i) h \<noteq> None"
    if "i \<in> reg.holders cp_id h (ss_reg st) \<union> (\<lambda>j. cp_id (cj_copier j)) ` {j \<in> set jobs. cj_hash j = h}" for i h
    using that
  proof
    assume "i \<in> reg.holders cp_id h (ss_reg st)"
    then show ?thesis
      using known held2 by metis
  next
    assume "i \<in> (\<lambda>j. cp_id (cj_copier j)) ` {j \<in> set jobs. cj_hash j = h}"
    then obtain j where "j \<in> set jobs" "cj_hash j = h" "cp_id (cj_copier j) = i"
      by blast
    then show ?thesis
      using held2 by metis
  qed
  then have "held (ss_world st2 i) h \<noteq> None" if "i \<in> reg.holders cp_id h (ss_reg st2)" for i h
    using that unfolding holders .
  then have "stripe_inv content I st2"
    using run_copies_reg_ok [OF run(2) reg1(2)] cont2 run_copies_man [OF run(2)] man stripe_procs_man [OF call]
    by (simp add: stripe_inv_def)
  moreover have "set (locs_of full h) \<subseteq> {i \<in> I. held (ss_world st2 i) h \<noteq> None}" if "h \<in> ?H" for h
  proof
    fix i assume i: "i \<in> set (locs_of full h)"
    have "set (locs_of new h) = (\<lambda>j. cp_id (cj_copier j)) ` {j \<in> set jobs. cj_hash j = h}"
      using arg_cong [OF spec [OF jobs, of h], of set] by simp
    then have "i \<in> reg.holders cp_id h (ss_reg st) \<union> (\<lambda>j. cp_id (cj_copier j)) ` {j \<in> set jobs. cj_hash j = h}"
      using i bspec [OF full that] by auto
    then have "held (ss_world st2 i) h \<noteq> None"
      by (rule filled)
    moreover have "i \<in> I"
      using i bspec [OF full that] copier by blast
    ultimately show "i \<in> {i \<in> I. held (ss_world st2 i) h \<noteq> None}"
      by simp
  qed
  then have "kept_apart cfg I (map chunk_hash (group_of c)) (ss_world st2)"
    unfolding kept_apart_def using keys apart full min by (intro exI [of _ full]) simp
  ultimately show ?thesis
    using held2 by blast
qed

text \<open>So the stripe store is one the write chain can rely on.\<close>

definition raid_ok ::
  "stripe_config \<Rightarrow> (('i, 'i \<Rightarrow> 'm, 'q) stripe_store process list \<Rightarrow> ('i, 'i \<Rightarrow> 'm, 'q) stripe_store process list) \<Rightarrow>
   (res list list \<Rightarrow> res list) \<Rightarrow> (hash \<Rightarrow> bytes) \<Rightarrow> 'i set \<Rightarrow> ('i, 'i \<Rightarrow> 'm, 'q) stripe_store \<Rightarrow> bool" where
  "raid_ok cfg sched arr content I st \<longleftrightarrow> 1 \<le> cfg_min cfg \<and> (\<forall>h. named h) \<and>
     (\<forall>ps. mset (sched ps) = mset ps) \<and> (\<forall>rss. mset (arr rss) = mset (concat rss)) \<and> stripe_inv content I st"

lemma stripe_obj_call:
  assumes ok: "raid_ok cfg sched arr content I st" and grp: "distinct (map chunk_hash grp)"
      "\<forall>ch \<in> set grp. chunk_data ch = BytesData (content (chunk_hash ch))"
    and call: "pr_process (stripe_obj mx ress (\<lambda>s d q. config_stripe cfg nxt ord s d q) sched arr)
      (group_agg h grp) st = Ret (rs, st')" and err: "stream_err rs = None"
  shows "raid_ok cfg sched arr content I st' \<and> (\<exists>fs. rs = passed fs \<and> mset fs = mset grp) \<and>
    kept_apart cfg I (map chunk_hash grp) (ss_world st') \<and>
    (\<forall>i h. held (ss_world st i) h \<noteq> None \<longrightarrow> held (ss_world st' i) h \<noteq> None)"
proof -
  have perms: "\<And>ps. mset (sched ps) = mset ps" "\<And>rss. mset (arr rss) = mset (concat rss)"
    and min: "1 \<le> cfg_min cfg" and named: "\<And>h. named h" and inv: "stripe_inv content I st"
    using ok by (simp_all add: raid_ok_def)
  have group: "group_of (group_agg h grp) = grp"
    by (simp add: group_of_def)
  obtain cs jobs st1 jobs' es fs where
    procs: "stripe_procs (\<lambda>s d q. config_stripe cfg nxt ord s d q) (group_agg h grp) st = Some (Ret (Inr (cs, jobs), st1))"
    and run: "mset jobs' = mset jobs" "run_copies jobs' (group_agg h grp) st1 = (es, st')"
    and fs: "rs = passed fs" "mset fs = mset cs"
    by (rule stripe_call [OF perms call err])
  have "cs = grp"
    using stripe_procs_chunks [OF procs] grp(1) by (simp add: group)
  with stripe_group [where c = "group_agg h grp", unfolded group, OF min named inv grp(2) procs run] fs show ?thesis
    using perms min named by (auto simp: raid_ok_def)
qed

lemma stripe_group_store:
  "group_store (stripe_obj mx ress (\<lambda>s d q. config_stripe cfg nxt ord s d q) sched arr)
     (raid_ok cfg sched arr content I) (\<lambda>hs st. kept_apart cfg I hs (ss_world st))
     (\<lambda>ch. chunk_data ch = BytesData (content (chunk_hash ch)))"
proof
  show "pr_ender (stripe_obj mx ress (\<lambda>s d q. config_stripe cfg nxt ord s d q) sched arr) = None"
    by (simp add: stripe_obj_def concur_obj_def)
next
  fix st st' grp h rs hs
  assume call: "raid_ok cfg sched arr content I st" "distinct (map chunk_hash grp)"
    "\<forall>ch \<in> set grp. chunk_data ch = BytesData (content (chunk_hash ch))"
    "pr_process (stripe_obj mx ress (\<lambda>s d q. config_stripe cfg nxt ord s d q) sched arr) (group_agg h grp) st = Ret (rs, st')"
    "stream_err rs = None"
  note after = stripe_obj_call [OF call]
  from after show "raid_ok cfg sched arr content I st'" "\<exists>fs. rs = passed fs \<and> mset fs = mset grp"
    "kept_apart cfg I (map chunk_hash grp) (ss_world st')"
    by blast+
  show "kept_apart cfg I hs (ss_world st')" if "kept_apart cfg I hs (ss_world st)"
    using after kept_apart_mono [OF that] by blast
qed

section \<open>Losing stores\<close>

text \<open>A store that is left holds the data of the hash.\<close>

definition available :: "'i list \<Rightarrow> ('i \<Rightarrow> 'm) \<Rightarrow> hash \<Rightarrow> bool" where
  "available alive w h \<longleftrightarrow> (\<exists>i \<in> set alive. held (w i) h \<noteq> None)"

text \<open>
  When no more stores are lost than a chunk has copies, a chunk that is lost was on all of them; so
  either it is the only one, or it shares its set of stores.
\<close>

lemma few_lost:
  assumes apart: "kept_apart cfg I hs w" and hs: "distinct hs" and fin: "finite I"
    and lost: "int (card (I - set alive)) \<le> cfg_min cfg"
    and k: "1 \<le> k" "int (length hs) - int k \<le> cfg_excl cfg"
  shows "length (filter (\<lambda>h. \<not> available alive w h) hs) \<le> k"
proof -
  obtain full where keys: "fst ` set full = set hs" "distinct (map fst full)"
    and excl: "min (cfg_excl cfg) (int (length full)) \<le> int (card (apart full))"
    and full: "\<forall>h \<in> set hs. distinct (locs_of full h) \<and> int (length (locs_of full h)) = cfg_min cfg \<and>
       set (locs_of full h) \<subseteq> {i \<in> I. held (w i) h \<noteq> None}"
    using apart unfolding kept_apart_def by blast
  let ?D = "{h \<in> set hs. \<not> available alive w h}"
  have all: "set (locs_of full h) = I - set alive" if "h \<in> ?D" for h
  proof (rule card_seteq)
    have h: "distinct (locs_of full h)" "int (length (locs_of full h)) = cfg_min cfg"
      "set (locs_of full h) \<subseteq> {i \<in> I. held (w i) h \<noteq> None}"
      using full that by simp_all
    show "set (locs_of full h) \<subseteq> I - set alive"
      using h(3) that by (auto simp: available_def)
    show "card (I - set alive) \<le> card (set (locs_of full h))"
      using h(1,2) lost by (simp add: distinct_card)
  qed (use fin in simp)
  have len: "length full = length hs"
    using keys distinct_card [OF hs] distinct_card [OF keys(2)] by simp
  have "card ?D \<le> k"
  proof (cases "\<exists>h h'. h \<in> ?D \<and> h' \<in> ?D \<and> h \<noteq> h'")
    case True
    then obtain a b where ab: "a \<in> ?D" "b \<in> ?D" "a \<noteq> b"
      by blast
    have "h \<notin> apart full" if "h \<in> ?D" for h
    proof -
      obtain h' where h': "h' \<in> ?D" "h' \<noteq> h"
        using ab by (cases "h = a") auto
      then have "h' \<in> fst ` set full" "set (locs_of full h') = set (locs_of full h)"
        using all [OF that] all [OF h'(1)] keys(1) by simp_all
      then show ?thesis
        using h'(2) unfolding apart_def by blast
    qed
    then have "?D \<subseteq> set hs - apart full"
      by blast
    then have "card ?D \<le> card (set hs - apart full)"
      by (intro card_mono) simp_all
    also have "\<dots> = length hs - card (apart full)"
      using keys(1) hs by (subst card_Diff_subset) (auto simp: apart_def distinct_card)
    finally show ?thesis
      using excl k by (simp add: len)
  next
    case False
    then have "card ?D \<le> 1"
      by (simp add: card_le_Suc0_iff_eq) blast
    with k(1) show ?thesis
      by simp
  qed
  moreover have "length (filter (\<lambda>h. \<not> available alive w h) hs) = card ?D"
    using hs distinct_card [of "filter (\<lambda>h. \<not> available alive w h) hs"] by simp
  ultimately show ?thesis
    by simp
qed

text \<open>What the multireader makes of a chunk of the index.\<close>

definition came_back :: "(hash \<Rightarrow> bytes) \<Rightarrow> 'i list \<Rightarrow> ('i \<Rightarrow> 'm) \<Rightarrow> chunk \<Rightarrow> chunk" where
  "came_back content alive w d =
     (if available alive w (chunk_hash d) then with_data (BytesData (content (chunk_hash d))) d
      else meta_set MetaGroupErr (MetaError (MissingDataError ErrMultiReaderNoneAvail)) d)"

lemma mrd_read_back:
  assumes mr: "new_multi_reader (map (store_copier load ls) alive) w = (e, mr)" and named: "\<And>h. named h"
    and cont: "contents content w" and shuf: "\<And>n. set (shuf n) = {..<n}"
    and d: "sha (content (chunk_hash d)) = chunk_hash d"
  shows "read_back sha (mrd_obj shuf) mr d (came_back content alive w d)"
proof -
  let ?h = "chunk_hash d" and ?owners = "list_owners (chunk_hash d) (mr_reg mr)"
  note owners = multireader_owners [OF mr named, of ?h]
  show ?thesis
  proof (cases "available alive w ?h")
    case True
    then have "reg.holders cp_id ?h (mr_reg mr) \<noteq> {}"
      using owners by (auto simp: available_def)
    then have "?owners \<noteq> []"
      by (auto simp: reg.holders_def)
    moreover have "cp_process cp d (mr_world mr) =
        ([Res (Some (with_data (BytesData (content ?h)) d)) None], mr_world mr)" if "cp \<in> set ?owners" for cp
    proof -
      obtain i b where cp: "cp = store_copier load ls i" and b: "held (w i) ?h = Some b"
        using \<open>cp \<in> set ?owners\<close> owners by auto
      moreover have "b = content ?h"
        using b cont by (auto simp: contents_def)
      ultimately show ?thesis
        using loads_copier [of w i d b] owners by simp
    qed
    ultimately have "mrd_process (shuf (length ?owners)) d mr =
        ([Res (Some (with_data (BytesData (content ?h)) d)) None], mr)"
      by (intro mrd_first_reads) (simp_all add: shuf)
    then show ?thesis
      using True d by (auto simp: read_back_def mrd_obj_def came_back_def)
  next
    case False
    then have "reg.holders cp_id ?h (mr_reg mr) = {}"
      using owners by (auto simp: available_def)
    then have none: "?owners = []"
      by (simp add: reg.holders_def)
    then have "shuffle_copiers (shuf (length ?owners)) ?owners = []"
      using shuf [of 0] by (simp add: shuffle_copiers_def)
    then show ?thesis
      using False by (auto simp: read_back_def mrd_obj_def came_back_def mrd_process_def mrd_cascade_def single_res_def)
  qed
qed

end

end
