(* ===== verification/Raid.thy ===== *)
theory Raid
  imports Raid_Store
begin

text \<open>
  A RAID as in \<^verbatim>\<open>integration_test/raid5_test.go\<close>: the pieces of a stream are written through
  \<^verbatim>\<open>checksum | index | parity | checksum | group | concur(stripe)\<close>, and, after some stores are lost,
  read back from the index through \<^verbatim>\<open>multireader | checksum | group | parity | join\<close>.
\<close>

section \<open>The stripe store at the start\<close>

lemma lister_funcs_man:
  "man_all P (fst st) \<Longrightarrow> man_all P (fst (snd (lister_funcs adders w ml st)))"
proof (induction ml arbitrary: st)
  case (Cons cp ml)
  have entry: "man_all P (fst (add_ls_entry a cp e st))" if "man_all P (fst st)" for a e and st :: "('a, 'b) copier_man \<times> ('a, 'b) copier_reg"
    using that by (auto simp: add_ls_entry_def split: prod.split ls_adder.split intro: man_all_count_use)
  have entries: "man_all P (fst (fold (\<lambda>e st. add_ls_entry a cp e st) ls st))" if "man_all P (fst st)"
    for a ls and st :: "('a, 'b) copier_man \<times> ('a, 'b) copier_reg"
    using that by (induction ls arbitrary: st) (auto simp: entry)
  have "man_all P (fst (fold (\<lambda>a st. fold (\<lambda>e st. add_ls_entry a cp e st) ls st) adders st))" if "man_all P (fst st)"
    for ls and st :: "('a, 'b) copier_man \<times> ('a, 'b) copier_reg"
    using that by (induction adders arbitrary: st) (auto simp: entries)
  then have "man_all P (fst (snd (lister_func adders w cp st)))"
    using Cons.prems by (auto simp: lister_func_def split: sum.split)
  with Cons.IH [of "snd (lister_func adders w cp st)"] show ?case
    by (auto split: prod.splits)
qed simp

context listed_store
begin

lemma stripe_inv_new:
  assumes man: "man_all (\<lambda>i cp. i \<in> I \<and> cp = store_copier save ls i) man" and named: "\<And>h. named h"
    and cont: "contents content w" and new: "new_stripe_store man w = (e, st)"
  shows "stripe_inv content I st \<and> ss_world st = w"
proof -
  let ?ress = "man_resources 0 man"
  let ?adders = "[QuotaEntryAdder, CopiesEntryAdder]"
  define r where "r = lister_funcs ?adders w ?ress (man, new_reg)"
  have st: "ss_man st = fst (snd r)" "ss_reg st = snd (snd r)" "ss_world st = w"
    using new by (auto simp: new_stripe_store_def add_entries_to_def Let_def r_def split: prod.splits)
  have "ss_reg st = reg.record_copies cp_id (listed w ?ress) new_reg"
    using lister_funcs_reg [of ?adders w ?ress "(man, new_reg)"] by (simp add: st r_def)
  then have reg: "reg_ok cp_id (ss_reg st)"
      "reg.holders cp_id h (ss_reg st) = reg.holders cp_id h (new_reg :: ('a, 'a \<Rightarrow> 'm) copier_reg) \<union>
        {cp_id ow | ow. (h, ow) \<in> set (listed w ?ress)}" for h
    using reg.record_copies_holders [where oid = cp_id and g = new_reg and cs = "listed w ?ress" and h = h] by simp_all
  have none: "reg.holders cp_id h (new_reg :: ('a, 'a \<Rightarrow> 'm) copier_reg) = {}" for h
    by (simp add: reg.holders_def list_owners_def list_of_def new_reg_def)
  have "held (w i) h \<noteq> None" if "i \<in> reg.holders cp_id h (ss_reg st)" for h i
  proof -
    obtain cp where cp: "cp_id cp = i" "cp \<in> set ?ress" "lists_hash w h cp"
      using \<open>i \<in> _\<close> unfolding reg(2) none by (auto simp: in_listed)
    then have "cp = store_copier save ls i"
      using man_all_resources [OF man cp(2)] by auto
    with cp(3) show ?thesis
      by (simp add: lists_held [OF named])
  qed
  moreover have "man_all (\<lambda>i cp. i \<in> I \<and> cp = store_copier save ls i) (ss_man st)"
    using lister_funcs_man [of _ "(man, new_reg)" ?adders w ?ress] man by (simp add: st r_def)
  ultimately show ?thesis
    using reg(1) cont by (simp add: stripe_inv_def st(3))
qed

end

section \<open>The chunks of the index\<close>

lemma concat_uniform:
  assumes "\<forall>xs \<in> set xss. length xs = n"
  shows "length (concat xss) = length xss * n"
    and "q < length xss \<Longrightarrow> i < n \<Longrightarrow> concat xss ! (q * n + i) = xss ! q ! i"
proof -
  show "length (concat xss) = length xss * n"
    using assms by (induction xss) auto
  show "q < length xss \<Longrightarrow> i < n \<Longrightarrow> concat xss ! (q * n + i) = xss ! q ! i"
    using assms
  proof (induction xss arbitrary: q)
    case (Cons xs xss)
    then show ?case
      by (cases q) (auto simp: nth_append)
  qed simp
qed

definition raid_index :: "(bytes \<Rightarrow> hash) \<Rightarrow> parity \<Rightarrow> bytes list \<Rightarrow> chunk list" where
  "raid_index sha p bs = index_chunks 0 (concat (map (raid_entries sha p) bs))"

lemma raid_index_nth:
  assumes len: "\<forall>x \<in> set bs. length (shards_of p x) = n"
  shows "length (raid_index sha p bs) = length bs * n"
    and "q < length bs \<Longrightarrow> i < n \<Longrightarrow> raid_index sha p bs ! (q * n + i) =
      index_chunk (int (q * n + i)) (sha (shards_of p (bs ! q) ! i), int (length (bs ! q)))"
proof -
  have uniform: "\<forall>xs \<in> set (map (raid_entries sha p) bs). length xs = n"
    using len by (simp add: raid_entries_def)
  note conc = concat_uniform [OF uniform]
  show "length (raid_index sha p bs) = length bs * n"
    using conc(1) by (simp add: raid_index_def)
  show "q < length bs \<Longrightarrow> i < n \<Longrightarrow> raid_index sha p bs ! (q * n + i) =
      index_chunk (int (q * n + i)) (sha (shards_of p (bs ! q) ! i), int (length (bs ! q)))"
  proof -
    assume q: "q < length bs" and i: "i < n"
    have "q * n + i < length bs * n"
      using q i mult_le_mono1 [of "Suc q" "length bs" n] by simp
    then show ?thesis
      using conc(2) [of q i] conc(1) q i len by (simp add: raid_index_def nth_index_chunks raid_entries_def)
  qed
qed

lemma meta_get_with_data: "chunk_meta c = None \<Longrightarrow> meta_get k (with_data d c) = None"
  by (cases c) simp

lemma index_chunk_sel [simp]:
  "chunk_num (index_chunk m (h, sz)) = m" "chunk_hash (index_chunk m (h, sz)) = h"
  "chunk_target_size (index_chunk m (h, sz)) = sz" "chunk_meta (index_chunk m (h, sz)) = None"
  by (simp_all add: index_chunk_def new_chunk_def)

context listed_store
begin

lemma came_back_sel [simp]:
  "chunk_num (came_back content alive w d) = chunk_num d"
  "chunk_target_size (came_back content alive w d) = chunk_target_size d"
  by (simp_all add: came_back_def)

lemma came_back_lost:
  assumes "chunk_meta d = None"
  shows "lost (came_back content alive w d) \<longleftrightarrow> \<not> available alive w (chunk_hash d)"
    and "available alive w (chunk_hash d) \<Longrightarrow> comes_back (content (chunk_hash d)) (came_back content alive w d)"
    and "\<not> available alive w (chunk_hash d) \<Longrightarrow> comes_back s (came_back content alive w d)"
  using assms by (auto simp: came_back_def lost_def recoverable_def comes_back_def get_group_err_def meta_get_with_data)

lemma raid_stream_back:
  assumes len: "\<forall>x \<in> set bs. length (shards_of p x) = n" and n: "1 \<le> n"
    and dist: "\<forall>x \<in> set bs. distinct (map sha (shards_of p x))"
    and content: "\<forall>x \<in> set bs. \<forall>s \<in> set (shards_of p x). content (sha s) = s"
    and apart: "\<forall>x \<in> set bs. kept_apart cfg I (map sha (shards_of p x)) w" and fin: "finite I"
    and lost: "int (card (I - set alive)) \<le> cfg_min cfg"
    and k: "1 \<le> k" "int n - int k \<le> cfg_excl cfg"
  shows "stream_back p n k bs (map (came_back content alive w) (raid_index sha p bs))"
  unfolding stream_back_def
proof (intro conjI allI impI)
  let ?ds = "raid_index sha p bs" and ?b = "came_back content alive w"
  note index = raid_index_nth [OF len]
  show "map chunk_num (map ?b ?ds) = map int [0..<length bs * n]"
    using index_chunks_nums [of "concat (map (raid_entries sha p) bs)"] index(1) [where sha = sha]
    by (simp add: raid_index_def comp_def)
  fix q assume q: "q < length bs"
  let ?x = "bs ! q"
  have x: "?x \<in> set bs" and le: "q * n + n \<le> length bs * n"
    using q mult_le_mono1 [of "Suc q" "length bs" n] by simp_all
  have slice: "map ((!) (map ?b ?ds)) [q * n..<q * n + n] =
      map (\<lambda>i. ?b (index_chunk (int (q * n + i)) (sha (shards_of p ?x ! i), int (length ?x)))) [0..<n]"
    using le index(1) [where sha = sha] index(2) [OF q] by (intro nth_equalityI) simp_all
  show "list_all2 comes_back (shards_of p ?x) (map ((!) (map ?b ?ds)) [q * n..<q * n + n])"
  proof (rule list_all2_all_nthI)
    fix i assume "i < length (shards_of p ?x)"
    then have i: "i < n" "content (sha (shards_of p ?x ! i)) = shards_of p ?x ! i"
      using len x content by simp_all
    let ?d = "index_chunk (int (q * n + i)) (sha (shards_of p ?x ! i), int (length ?x))"
    have "comes_back (shards_of p ?x ! i) (?b ?d)"
      using came_back_lost(2,3) [of ?d, where alive = alive and w = w and content = content] i(2)
      by (cases "available alive w (chunk_hash ?d)") simp_all
    then show "comes_back (shards_of p ?x ! i) (map ((!) (map ?b ?ds)) [q * n..<q * n + n] ! i)"
      unfolding slice using i(1) by simp
  qed (use len x in simp)
  show "chunk_target_size (map ?b ?ds ! (q * n)) = int (length ?x)"
  proof -
    have "q * n < q * n + n"
      using n by simp
    also have "\<dots> \<le> length ?ds"
      using le index(1) [where sha = sha] by simp
    finally show ?thesis
      using n index(2) [OF q, of 0, where sha = sha] by simp
  qed
  have shards: "map (\<lambda>i. sha (shards_of p ?x ! i)) [0..<n] = map sha (shards_of p ?x)"
    using len x by (intro nth_equalityI) simp_all
  have "length (filter lost (map ((!) (map ?b ?ds)) [q * n..<q * n + n])) =
      length (filter (\<lambda>i. \<not> available alive w (sha (shards_of p ?x ! i))) [0..<n])"
    unfolding slice by (simp add: filter_map comp_def came_back_lost(1))
  also have "\<dots> = length (filter (\<lambda>h. \<not> available alive w h) (map (\<lambda>i. sha (shards_of p ?x ! i)) [0..<n]))"
    by (simp add: filter_map comp_def)
  also have "\<dots> \<le> k"
    unfolding shards using few_lost [OF _ _ fin lost k(1), of "map sha (shards_of p ?x)"] apart dist x len k(2) by simp
  finally show "length (filter lost (map ((!) (map ?b ?ds)) [q * n..<q * n + n])) \<le> k" .
qed

end

section \<open>Writing, losing, reading\<close>

lemma shard_list_hashes: "map chunk_hash (shard_list sha p c) = map sha (shards_of p (data_of c))"
  by (rule nth_equalityI) (simp_all add: shard_list_def nth_enumerate_eq shard_chunk_def data_of_def)

lemma shard_list_fits:
  assumes "\<forall>s \<in> set (shards_of p (data_of c)). content (sha s) = s"
  shows "\<forall>ch \<in> set (shard_list sha p c). chunk_data ch = BytesData (content (chunk_hash ch))"
  using assms by (auto simp: shard_list_def shard_chunk_def data_of_def in_set_enumerate_eq)

lemma pieces_raid_chunk:
  assumes "c \<in> set (pieces 0 bs)" and "[] \<notin> set bs" and "int (length bs * n) \<le> pos_limit"
  shows "raid_chunk n c"
proof -
  obtain i where i: "i < length bs" "c = piece (int i) (bs ! i)"
    using assms(1) by (auto simp: set_pieces)
  have "Suc i * n \<le> length bs * n"
    using i(1) by (intro mult_le_mono1) simp
  then have "int (Suc i * n) \<le> int (length bs * n)"
    by (rule of_nat_mono)
  then have "int (Suc i * n) \<le> pos_limit"
    using assms(3) by (rule order_trans)
  then have "(int i + 1) * int n \<le> 2 ^ 63"
    by (simp add: pos_limit_def algebra_simps)
  moreover have "bs ! i \<noteq> []"
    using assms(2) nth_mem [OF i(1)] by metis
  ultimately show ?thesis
    by (simp add: raid_chunk_def i(2))
qed

lemma concur_first_err_none:
  assumes "\<And>es. mset (order es) = mset es" and "\<forall>e \<in> set es. e = None"
  shows "concur_first_err (order es) = None"
  using concur_first_err_order [OF assms(1), of es] assms(2) by (simp add: concur_first_err_def first_err_None_iff)

lemma store_copiers_finish:
  assumes "man_all (\<lambda>i cp. i \<in> I \<and> cp = store_copier proc ls i) man" and "cp \<in> set (man_resources n man)"
  shows "cp_finish cp w = None"
  using man_all_resources [OF assms] by (auto simp: store_copier_def)

lemma raid_write_finishes:
  assumes order: "\<And>es. mset (order es) = mset es" and ix: "index_finish ix = None"
    and ress: "\<And>cp. cp \<in> set ress \<Longrightarrow> cp_finish cp (ss_world st) = None"
  shows "fst (pr_finish (raid_write mg order sha p (stripe_obj mx ress striper sched arr)) (ix, (no_group n, st))) = None"
proof -
  have "stripe_store_finish ress (ss_world st) = None"
    using ress by (auto simp: stripe_store_finish_def concur_first_err_def first_err_None_iff)
  moreover have "concur_first_err (order [None, None, None, None, None, None]) = None"
    by (rule concur_first_err_none [OF order]) simp
  ultimately show ?thesis
    by (simp add: raid_write_def raid_write_stages_def chain_def chain_finish_def index_obj_def ix
        parity_obj_def group_obj_def group_finish_def stripe_obj_def concur_obj_def slots_finish_def)
qed

context listed_store
begin

lemma raid_written:
  assumes mg: "merges mg" and perms: "\<And>ps. mset (sched ps) = mset ps" "\<And>rss. mset (arr rss) = mset (concat rss)"
    and code: "erasure_code (pa_enc p) n k" and p: "pa_nshards p = int n" and n: "1 \<le> n" and min: "1 \<le> cfg_min cfg"
    and cs: "mset cs = mset (pieces 0 bs)"
    and bs: "\<forall>x \<in> set bs. x \<noteq> [] \<and> distinct (shards_of p x)" "int (length bs * n) \<le> pos_limit"
    and sha: "inj_on sha (set bs)" "\<forall>x \<in> set bs. \<forall>s \<in> set (shards_of p x). content (sha s) = s"
    and named: "\<And>h. named h" and inv: "stripe_inv content I st0"
    and run: "proc_run (raid_write mg order sha p (stripe_obj mx ress (\<lambda>s d q. config_stripe cfg nxt ord s d q) sched arr))
      cs (new_index [], (no_group n, st0)) = Ret (rs, (ix, (g, st1)))" "stream_err rs = None"
  shows "index_finish ix = None \<and> iw ix = index_text (concat (map (raid_entries sha p) bs)) \<and> g = no_group n \<and>
    contents content (ss_world st1) \<and>
    (\<forall>x \<in> set bs. distinct (map sha (shards_of p x)) \<and> kept_apart cfg I (map sha (shards_of p x)) (ss_world st1))"
proof -
  let ?fit = "\<lambda>ch. chunk_data ch = BytesData (content (chunk_hash ch))"
  note store = stripe_group_store [where mx = mx and ress = ress and cfg = cfg and nxt = nxt and ord = ord and
      sched = sched and arr = arr and content = content and I = I]
  have set: "set cs = set (pieces 0 bs)"
    by (rule mset_eq_setD [OF cs])
  have data: "data_of ` set cs = set bs"
    using data_of_pieces [of 0 bs] by (simp add: set)
  have dist: "distinct (map sha (shards_of p x))" if "x \<in> set bs" for x
    using bs(1) sha(2) that by (auto simp: distinct_map intro!: inj_on_inverseI [of _ content])
  have "group_store.storable ?fit sha p c" if "c \<in> set cs" for c
  proof -
    have "data_of c \<in> set bs"
      using that data by blast
    with dist shard_list_fits [of p c content sha] sha(2) show ?thesis
      by (simp add: group_store.storable_def [OF store] shard_list_hashes)
  qed
  moreover have "raid_chunk n c" if "c \<in> set cs" for c
    using that bs pieces_raid_chunk [of c bs n] by (auto simp: set)
  ultimately have chunks: "\<forall>c \<in> set cs. raid_chunk n c \<and> group_store.storable ?fit sha p c"
    by blast
  have "map chunk_num (pieces 0 bs) = map int [0..<length bs]"
    by (simp add: map_num_pieces)
  from nums_of_perm(1) [OF cs this] have "distinct cs"
    by (simp add: distinct_map)
  have "\<forall>h. ifinals (new_index []) h \<noteq> None \<longleftrightarrow> h \<in> {}"
    by (simp add: new_index_def)
  note start = this
  have "raid_ok cfg sched arr content I st0"
    using min named perms inv by (simp add: raid_ok_def)
  moreover have "inj_on sha (data_of ` set cs)"
    using sha(1) by (simp add: data)
  ultimately have written: "\<exists>fins ix' st'. (ix, (g, st1)) = (ix', (no_group n, st')) \<and>
    index_run text_writer (chain_events sha fins {} cs) (new_index []) =
      Ret (replicate (length (chain_events sha fins {} cs)) None, ix') \<and>
    (\<forall>c \<in> set cs. finals_entries (fins c) = raid_entries sha p (data_of c)) \<and>
    raid_ok cfg sched arr content I st' \<and>
    (\<forall>hs. kept_apart cfg I hs (ss_world st0) \<longrightarrow> kept_apart cfg I hs (ss_world st')) \<and>
    (\<forall>c \<in> set cs. sha (data_of c) \<notin> {} \<longrightarrow>
      kept_apart cfg I (map chunk_hash (shard_list sha p c)) (ss_world st'))"
    using group_store.write_run [OF store mg code n p run start chunks \<open>distinct cs\<close>] by blast
  then obtain fins ix' st' where eq: "(ix, (g, st1)) = (ix', (no_group n, st'))"
    and events: "index_run text_writer (chain_events sha fins {} cs) (new_index []) =
      Ret (replicate (length (chain_events sha fins {} cs)) None, ix')"
    and fins: "\<forall>c \<in> set cs. finals_entries (fins c) = raid_entries sha p (data_of c)"
    and ok: "raid_ok cfg sched arr content I st'"
    and placed: "\<forall>c \<in> set cs. sha (data_of c) \<notin> {} \<longrightarrow>
      kept_apart cfg I (map chunk_hash (shard_list sha p c)) (ss_world st')"
    by (elim exE conjE) (rule that)
  have "length bs * 1 \<le> length bs * n"
    using n by (rule mult_le_mono2)
  then have "int (length bs) \<le> int (length bs * n)"
    by (simp only: mult_1_right of_nat_le_iff)
  then have "int (length bs) \<le> pos_limit"
    using bs(2) by (rule order_trans)
  have r: "ix = ix'" "g = no_group n" "st1 = st'"
    using eq by simp_all
  from chain_index [OF cs sha(1) \<open>int (length bs) \<le> pos_limit\<close> fins [unfolded set] events] have
    "index_finish ix = None \<and> iw ix = index_text (concat (map (raid_entries sha p) bs))"
    using r(1) by simp
  moreover have "kept_apart cfg I (map sha (shards_of p x)) (ss_world st1)" if "x \<in> set bs" for x
  proof -
    have "x \<in> data_of ` set cs"
      using \<open>x \<in> set bs\<close> by (simp only: data)
    then obtain c where c: "x = data_of c" "c \<in> set cs"
      by (rule imageE)
    have "kept_apart cfg I (map chunk_hash (shard_list sha p c)) (ss_world st')"
      using bspec [OF placed c(2)] by simp
    with r(3) c(1) show ?thesis
      by (simp only: shard_list_hashes)
  qed
  moreover have "contents content (ss_world st1)"
    using ok r(3) by (simp add: raid_ok_def stripe_inv_def)
  ultimately show ?thesis
    using r(2) dist by blast
qed

lemma mrd_finish_none:
  assumes "new_multi_reader (map (store_copier load ls) alive) w = (e, mr)"
  shows "mrd_finish mr = None"
proof -
  have "mr_copiers mr = map (store_copier load ls) alive"
    using assms by (auto simp: new_multi_reader_def split: prod.splits)
  then show ?thesis
    by (simp add: mrd_finish_def finish_funcs_def concur_first_err_def first_err_None_iff store_copier_def)
qed

lemma raid_read_back:
  assumes mg: "merges mg" and order: "\<And>es. mset (order es) = mset es" and perm: "\<And>ds. mset (perm ds) = mset ds"
    and shuf: "\<And>n. set (shuf n) = {..<n}"
    and code: "erasure_code (pa_enc p) n k" and p: "pa_nshards p = int n" and n: "1 \<le> n"
    and k: "1 \<le> k" "int n - int k \<le> cfg_excl cfg"
    and bs: "[] \<notin> set bs" "int (length bs * n) \<le> pos_limit"
    and content: "\<forall>x \<in> set bs. \<forall>s \<in> set (shards_of p x). content (sha s) = s"
    and named: "\<And>h. named h" and cont: "contents content w"
    and apart: "\<forall>x \<in> set bs. distinct (map sha (shards_of p x)) \<and> kept_apart cfg I (map sha (shards_of p x)) w"
    and fin: "finite I" and lost: "int (card (I - set alive)) \<le> cfg_min cfg"
    and mr: "new_multi_reader (map (store_copier load ls) alive) w = (e, mr)"
  shows "\<exists>rs s. proc_run (raid_read mg order sha p (mrd_obj shuf)) (perm (raid_index sha p bs))
      (mr, (no_group n, (new_series, []))) = Ret (rs, (mr, (no_group n, (s, concat bs)))) \<and>
    stream_err rs = None \<and>
    fst (pr_finish (raid_read mg order sha p (mrd_obj shuf)) (mr, (no_group n, (s, concat bs)))) = None"
proof -
  let ?ds = "raid_index sha p bs" and ?b = "came_back content alive w"
  have len: "\<forall>x \<in> set bs. length (shards_of p x) = n"
    using shards_of_code(2) [OF code] bs(1) by metis
  note index = raid_index_nth [OF len]
  have "\<forall>x \<in> set bs. distinct (map sha (shards_of p x))" "\<forall>x \<in> set bs. kept_apart cfg I (map sha (shards_of p x)) w"
    using apart by blast+
  note came = raid_stream_back [OF len n this(1) content this(2) fin lost k]
  have known: "sha (content (chunk_hash d)) = chunk_hash d" if "d \<in> set ?ds" for d
  proof -
    obtain j where j: "j < length bs * n" "d = ?ds ! j"
      using \<open>d \<in> set ?ds\<close> index(1) [where sha = sha] by (metis in_set_conv_nth)
    define q i where "q = j div n" and "i = j mod n"
    have qi: "q < length bs" "i < n" "j = q * n + i"
      using j(1) n by (simp_all add: q_def i_def less_mult_imp_div_less)
    then have "d = index_chunk (int (q * n + i)) (sha (shards_of p (bs ! q) ! i), int (length (bs ! q)))"
      using index(2) j(2) by simp
    moreover have "content (sha (shards_of p (bs ! q) ! i)) = shards_of p (bs ! q) ! i"
      using content len qi(1,2) nth_mem by metis
    ultimately show ?thesis
      by simp
  qed
  have "set (perm ?ds) = set ?ds"
    by (rule mset_eq_setD [OF perm])
  then have reads: "list_all2 (read_back sha (mrd_obj shuf) mr) (perm ?ds) (map ?b (perm ?ds))"
    using mrd_read_back [where sha = sha and content = content and shuf = shuf, OF mr named cont shuf known]
    by (simp add: list_all2_map2 list_all2_same)
  have perm_b: "mset (map ?b (perm ?ds)) = mset (map ?b ?ds)"
    unfolding mset_map perm ..
  have ender: "pr_ender (mrd_obj shuf) = None"
    by (simp add: mrd_obj_def)
  obtain rs s where read: "proc_run (raid_read mg order sha p (mrd_obj shuf)) (perm ?ds)
      (mr, (no_group n, (new_series, []))) = Ret (rs, (mr, (no_group n, (s, concat bs))))" "stream_err rs = None"
    and fin: "fst (pr_finish (join_obj mg order append_writer) (s, concat bs)) = None"
    using stream_read [OF mg order ender code p n came bs reads perm_b] by blast
  have "concur_first_err (order [None, None, None, None, None]) = None"
    by (rule concur_first_err_none [OF order]) simp
  then have "fst (pr_finish (raid_read mg order sha p (mrd_obj shuf)) (mr, (no_group n, (s, concat bs)))) = None"
    using fin mrd_finish_none [OF mr] by (cases "pr_finish (join_obj mg order append_writer) (s, concat bs)")
      (simp add: raid_read_def raid_read_stages_def chain_def chain_finish_def mrd_obj_def group_obj_def
        group_finish_def parity_unobj_def)
  with read show ?thesis
    by blast
qed

end

text \<open>Over memory stores the stripe store is what the write chain relies on.\<close>

interpretation raid_store: group_store
    "stripe_obj mx ress (\<lambda>s d q. config_stripe cfg nxt ord s d q) sched arr"
    "mem.raid_ok cfg sched arr content I" "\<lambda>hs st. mem.kept_apart cfg I hs (ss_world st)"
    "\<lambda>ch. chunk_data ch = BytesData (content (chunk_hash ch))"
  for mx ress cfg nxt ord sched arr content I
  by (rule mem.stripe_group_store)

section \<open>Properties\<close>

text \<open>
  C2: a stream written to a RAID is read back when stores are lost. When the write chain has taken its
  pieces, in any order, without an error, it finishes without one, the concurrent proc having its slots back;
  and when then no more stores are
  lost than each chunk has copies, \<open>Min\<close>, reading the index and sending its chunks, in any order, through
  the read chain over the stores that are left writes the stream byte for byte, without an error. This
  is for \<open>k\<close> parity shards out of \<open>n\<close>, with at least \<open>n - k\<close> exclusive chunks in a group, over memory stores,
  for a hash that tells the pieces and the shards apart, and for pieces whose shards differ from each other.
\<close>

theorem raid_restores:
  assumes mg: "merges mg" and order: "\<And>es. mset (order es) = mset es" and perm: "\<And>ds. mset (perm ds) = mset ds"
    and sched: "\<And>ps. mset (sched ps) = mset ps" and arr: "\<And>rss. mset (arr rss) = mset (concat rss)"
    and shuf: "\<And>n. set (shuf n) = {..<n}"
    and code: "erasure_code (pa_enc p) n k" "pa_nshards p = int n" "1 \<le> n" "1 \<le> k"
    and cfg: "1 \<le> cfg_min cfg" "int n - int k \<le> cfg_excl cfg"
    and cs: "mset cs = mset (pieces 0 bs)"
    and bs: "\<forall>x \<in> set bs. x \<noteq> [] \<and> distinct (shards_of p x) \<and> int (length x) < 2 ^ 63"
      "int (length bs * n) \<le> pos_limit"
    and sha: "\<And>x. length (sha x) = 32" "inj_on sha (set bs)"
      "\<forall>x \<in> set bs. \<forall>s \<in> set (shards_of p x). content (sha s) = s"
    and man: "\<forall>(i, u) \<in> set man. u_res u = store_copier mem_process mem_ls i"
    and w: "\<forall>i h b. mem_get h (w i) = Some b \<longrightarrow> b = content h"
    and new: "new_stripe_store man w = (e0, st0)"
    and wr: "write = raid_write mg order sha p (stripe_obj mx (man_resources 0 man)
      (\<lambda>s d q. config_stripe cfg rr_next ord s d q) sched arr)"
    and run: "proc_run write cs (new_index [], (\<lparr>gsize = int n, growing = []\<rparr>, st0)) = Ret (rs, (ix, (g, st1)))"
      "stream_err rs = None"
    and lost: "int (card (fst ` set man - set alive)) \<le> cfg_min cfg"
    and mr: "new_multi_reader (map (store_copier mem_load mem_ls) alive) (ss_world st1) = (e, mr)"
  shows "fst (pr_finish write (ix, (g, st1))) = None \<and> e = None \<and>
    (\<exists>ds rs' g' s. index_scan 0 (iw ix) = (ds, None) \<and>
      proc_run (raid_read mg order sha p (mrd_obj shuf)) (perm ds)
        (mr, (\<lparr>gsize = int n, growing = []\<rparr>, (new_series, []))) = Ret (rs', (mr, (g', (s, concat bs)))) \<and>
      stream_err rs' = None \<and>
      fst (pr_finish (raid_read mg order sha p (mrd_obj shuf)) (mr, (g', (s, concat bs)))) = None)"
proof -
  let ?ress = "man_resources 0 man" and ?I = "fst ` set man"
  have stores: "man_all (\<lambda>i cp. i \<in> ?I \<and> cp = store_copier mem_process mem_ls i) man"
    using man by (force simp: man_all_def)
  have cont: "mem.contents content w"
    using w by (simp add: mem.contents_def)
  have inv: "mem.stripe_inv content ?I st0"
    using mem.stripe_inv_new [OF stores _ cont new] by simp
  have ne: "\<forall>x \<in> set bs. x \<noteq> [] \<and> distinct (shards_of p x)" "[] \<notin> set bs"
    using bs(1) by auto
  have written: "index_finish ix = None" "iw ix = index_text (concat (map (raid_entries sha p) bs))"
    "g = no_group n" "mem.contents content (ss_world st1)"
    "\<forall>x \<in> set bs. distinct (map sha (shards_of p x)) \<and> mem.kept_apart cfg ?I (map sha (shards_of p x)) (ss_world st1)"
    using mem.raid_written [OF mg sched arr code(1-3) cfg(1) cs ne(1) bs(2) sha(2,3) _ inv run [unfolded wr]] by simp_all
  have "\<forall>en \<in> set (concat (map (raid_entries sha p) bs)). entry_ok en"
    using bs(1) sha(1) by (auto simp: raid_entries_def entry_ok_def)
  moreover have "length (concat (map (raid_entries sha p) bs)) = length bs * n"
    using concat_uniform(1) [of "map (raid_entries sha p) bs" n] shards_of_code(2) [OF code(1)] ne(1)
    by (simp add: raid_entries_def)
  ultimately have scan: "index_scan 0 (iw ix) = (raid_index sha p bs, None)"
    using scan_index_text [of "concat (map (raid_entries sha p) bs)" 0] bs(2)
    by (simp add: written(2) raid_index_def pos_limit_def)
  have "fst (pr_finish write (ix, (g, st1))) = None"
    unfolding wr written(3) by (rule raid_write_finishes [OF order written(1) store_copiers_finish [OF stores]])
  moreover have "e = None"
    using mem.multireader_owners [OF mr] by simp
  moreover note mem.raid_read_back [OF mg order perm shuf code(1-4) cfg(2) ne(2) bs(2) sha(3) _ written(4,5) _ lost mr]
  ultimately show ?thesis
    using scan by blast
qed

text \<open>
  An example: one data shard, and one parity shard that is the data after a 1; three stores, each
  chunk in one of them, and the two of a group apart.
\<close>

definition ex_enc :: rs_enc where
  "ex_enc = \<lparr>
     rs_split = (\<lambda>b. Inr [b, []]),
     rs_encode = (\<lambda>ss. Inr [hd ss, 1 # hd ss]),
     rs_reconstruct = (\<lambda>ss. Inr (if hd ss = [] then [tl (ss ! 1), ss ! 1] else [hd ss, 1 # hd ss])),
     rs_verify = (\<lambda>ss. Inr (ss ! 1 = 1 # hd ss)),
     rs_join = (\<lambda>ss sz. Inr (take (nat sz) (hd ss)))\<rparr>"

definition ex_parity :: parity where
  "ex_parity = \<lparr>pa_enc = ex_enc, pa_nshards = 2\<rparr>"

definition ex_content :: "hash \<Rightarrow> bytes" where
  "ex_content h = rev (dropWhile (\<lambda>b. b = 0) (rev h))"

definition ex_raid_man :: "(nat, nat \<Rightarrow> mem) copier_man" where
  "ex_raid_man = foldr (\<lambda>i man. man_add_res cp_id (store_copier mem_process mem_ls i) man) [3, 4, 5] new_man"

definition ex_write :: "(string index_st \<times> (group \<times> (nat, nat \<Rightarrow> mem, nat rr) stripe_store)) proc" where
  "ex_write = raid_write concat id ex_sha ex_parity (stripe_obj 2 (man_resources 0 ex_raid_man)
     (\<lambda>s d q. config_stripe \<lparr>cfg_min = 1, cfg_excl = 1\<rparr> rr_next (\<lambda>_ _ ls. ls) s d q) id concat)"

lemma ex_enc_code: "erasure_code ex_enc 2 1"
proof -
  have "rs_reconstruct ex_enc shards = Inr [b, 1 # b]"
    if "remains_of shards [b, 1 # b]" "missing shards \<le> 1" for shards and b :: bytes
    using that by (auto simp: ex_enc_def remains_of_def missing_def list_all2_Cons2)
  then show ?thesis
    by (auto simp: erasure_code_def rs_shards_def) (auto simp: ex_enc_def)
qed

lemma ex_write_runs:
  obtains rs ix g st1 where "proc_run ex_write (rev (pieces 0 [[2], [2]]))
      (new_index [], (\<lparr>gsize = 2, growing = []\<rparr>, snd (new_stripe_store ex_raid_man (\<lambda>_. new_mem)))) =
      Ret (rs, (ix, (g, st1)))" and "stream_err rs = None"
proof -
  have "(case proc_run ex_write (rev (pieces 0 [[2], [2]]))
      (new_index [], (\<lparr>gsize = 2, growing = []\<rparr>, snd (new_stripe_store ex_raid_man (\<lambda>_. new_mem)))) of
      Ret (rs, r) \<Rightarrow> stream_err rs = None | Panic _ \<Rightarrow> False)"
    by code_simp
  then show ?thesis
    using that by (auto split: outcome.splits prod.splits simp del: stream_err_None_iff)
qed

lemma ex_raid_man_sel:
  "ex_raid_man = map (\<lambda>i. (i, \<lparr>u_res = store_copier mem_process mem_ls i, u_use = 0, u_max = unlimited\<rparr>)) [5, 4, 3]"
  by (simp add: ex_raid_man_def new_man_def man_add_res_def man_add_res_quota_def Let_def)

lemma raid_restores_witness:
  "\<exists>rs ix g st1 mr ds rs' g' s. proc_run ex_write (rev (pieces 0 [[2], [2]]))
      (new_index [], (\<lparr>gsize = 2, growing = []\<rparr>, snd (new_stripe_store ex_raid_man (\<lambda>_. new_mem)))) =
      Ret (rs, (ix, (g, st1))) \<and>
    new_multi_reader (map (store_copier mem_load mem_ls) [4, 5]) (ss_world st1) = (None, mr) \<and>
    index_scan 0 (iw ix) = (ds, None) \<and>
    proc_run (raid_read concat id ex_sha ex_parity (mrd_obj (\<lambda>n. [0..<n]))) (rev ds)
      (mr, (\<lparr>gsize = int 2, growing = []\<rparr>, (new_series, []))) = Ret (rs', (mr, (g', (s, [2, 2])))) \<and>
    stream_err rs' = None"
proof -
  obtain rs ix g st1 where run: "proc_run ex_write (rev (pieces 0 [[2], [2]]))
      (new_index [], (\<lparr>gsize = 2, growing = []\<rparr>, snd (new_stripe_store ex_raid_man (\<lambda>_. new_mem)))) =
      Ret (rs, (ix, (g, st1)))" and ok: "stream_err rs = None"
    by (rule ex_write_runs)
  obtain e0 st0 where new: "new_stripe_store ex_raid_man (\<lambda>_. new_mem) = (e0, st0)"
    by fastforce
  obtain e mr where mr: "new_multi_reader (map (store_copier mem_load mem_ls) [4, 5]) (ss_world st1) = (e, mr)"
    by fastforce
  have shards: "shards_of ex_parity x = [x, 1 # x]" for x
    by (simp add: shards_of_def rs_shards_def ex_parity_def ex_enc_def)
  have nshards: "pa_nshards ex_parity = 2"
    by (simp add: ex_parity_def)
  have run': "proc_run ex_write (rev (pieces 0 [[2], [2]])) (new_index [], (\<lparr>gsize = int 2, growing = []\<rparr>, st0)) =
      Ret (rs, (ix, (g, st1)))"
    using run by (simp add: new)
  have "fst (pr_finish ex_write (ix, (g, st1))) = None \<and> e = None \<and>
    (\<exists>ds rs' g' s. index_scan 0 (iw ix) = (ds, None) \<and>
      proc_run (raid_read concat id ex_sha ex_parity (mrd_obj (\<lambda>n. [0..<n]))) (rev ds)
        (mr, (\<lparr>gsize = int 2, growing = []\<rparr>, (new_series, []))) = Ret (rs', (mr, (g', (s, concat [[2], [2]])))) \<and>
      stream_err rs' = None \<and>
      fst (pr_finish (raid_read concat id ex_sha ex_parity (mrd_obj (\<lambda>n. [0..<n]))) (mr, (g', (s, concat [[2], [2]])))) = None)"
  proof (rule raid_restores [where k = 1 and content = ex_content, OF merges_concat _ _ _ _ _ _ _ _ _ _ _ _ _ _ _ _ _ _ _ new ex_write_def run' ok _ mr])
    show "erasure_code (pa_enc ex_parity) 2 1"
      using ex_enc_code by (simp add: ex_parity_def)
    show "\<forall>x \<in> set [[2], [2]]. \<forall>s \<in> set (shards_of ex_parity x). ex_content (ex_sha s) = s"
      by (simp add: shards ex_content_def ex_sha_def numeral_eq_Suc)
    show "\<forall>(i, u) \<in> set ex_raid_man. u_res u = store_copier mem_process mem_ls i"
      by (simp add: ex_raid_man_sel)
    have "fst ` set ex_raid_man - set [4, 5] = {3}"
      by (auto simp: ex_raid_man_sel)
    then show "int (card (fst ` set ex_raid_man - set [4, 5])) \<le> cfg_min \<lparr>cfg_min = 1, cfg_excl = 1\<rparr>"
      by simp
  qed (simp_all add: shards nshards ex_sha_def mem_get_def new_mem_def pos_limit_def atLeast0LessThan)
  with run mr show ?thesis
    by auto
qed

end
