(* ===== verification/Raid_Twins.thy ===== *)
theory Raid_Twins
  imports Raid
begin

text \<open>
  A chunk with two equal shards, such as any chunk of zeros, or any at all with one data and one
  parity shard: \<open>Procs\<close> of \<^verbatim>\<open>stores/stripe/stripe.go\<close> keeps the chunks of a group by their hash and
  passes on one for each, so the index lacks a line, and what is read back from it is never a
  whole group.
\<close>

section \<open>The chunks passed on\<close>

lemma stripe_procs_one_each:
  assumes "stripe_procs striper c st = Some (Ret (Inr (cs, jobs), st1))"
  shows "length cs = card (chunk_hash ` set (group_of c)) \<and> set cs \<subseteq> set (group_of c)"
proof -
  from assms obtain chunks qu where chunks: "collect_chunks (group_of c) [] 0 = Inr (chunks, qu)"
    and cs: "cs = map (ci_chunk \<circ> snd) chunks"
    by (auto simp: stripe_procs_def Let_def bind_outcome_Ret_iff split: sum.splits option.splits prod.splits)
  have keys: "fst ` set chunks = chunk_hash ` set (group_of c)" "distinct (map fst chunks)"
    using collect_chunks_keys [OF chunks] by auto
  have "length cs = card (fst ` set chunks)"
    using distinct_card [OF keys(2)] by (simp add: cs)
  moreover have "set cs \<subseteq> set (group_of c)"
    using collect_chunks_from [OF chunks] by (auto simp: cs)
  ultimately show ?thesis
    using keys(1) by simp
qed

lemma card_twins:
  assumes "\<not> distinct xs"
  shows "0 < card (set xs) \<and> card (set xs) < length xs"
proof -
  have "set xs \<noteq> {}"
    using assms by auto
  moreover have "card (set xs) \<noteq> length xs"
    using assms card_distinct by blast
  ultimately show ?thesis
    using card_length [of xs] by (auto simp: card_gt_0_iff)
qed

section \<open>A group that is never whole\<close>

lemma group_run_short:
  assumes n: "1 \<le> n" and nums: "chunk_num ` set cs = int ` {..<m}" "distinct (map chunk_num cs)"
    and m: "0 < m" "m < n" and small: "int n \<le> 2 ^ 63"
  shows "\<exists>g. group_run cs (no_group n) = ([], g) \<and> group_finish g = Some ErrShort"
proof -
  have sz: "1 \<le> int n"
    using n by simp
  have len: "length cs = m"
    using distinct_card [OF nums(2)] by (simp add: nums(1) card_image)
  have ok: "\<forall>c \<in> set cs. num_ok c"
  proof
    fix c assume "c \<in> set cs"
    then have "chunk_num c \<in> int ` {..<m}"
      using nums(1) by blast
    then show "num_ok c"
      using m(2) small by (auto simp: num_ok_def)
  qed
  have none: "full_heads (int n) cs = {}"
  proof -
    have "length (members (int n) cs h) \<le> m" for h
      unfolding members_def len [symmetric] by (rule length_filter_le)
    then have "length (members (int n) cs h) \<noteq> n" for h
      using m(2) by (metis not_le)
    then show ?thesis
      by (simp add: full_heads_def)
  qed
  from group_run_tracks [OF sz nums(2) ok] obtain rs g where
    run: "group_run cs (no_group n) = (rs, g)" and t: "group_tracks (int n) g cs" and rs: "mset rs = {#}"
    unfolding none by auto
  have "set cs \<noteq> {}"
    using len m(1) by auto
  then have "group_finish g \<noteq> None"
    unfolding group_tracks_finish [OF sz t] none by auto
  then have "group_finish g = Some ErrShort"
    by (auto simp: group_finish_def split: if_splits)
  with run rs show ?thesis
    by auto
qed

lemma first_err_one:
  assumes "\<And>es. mset (order es) = mset es" and "Some e \<in> set es" and "\<forall>x \<in> set es. x = None \<or> x = Some e"
  shows "concur_first_err (order es) = Some e"
proof -
  have "first_err xs = Some e" if "Some e \<in> set xs" "\<forall>x \<in> set xs. x = None \<or> x = Some e" for xs
    using that by (induction xs rule: first_err.induct) auto
  then show ?thesis
    using assms(2,3) mset_eq_setD [OF assms(1) [of es]] by (simp add: concur_first_err_def)
qed

section \<open>Written without an error, and unreadable\<close>

context listed_store
begin

lemma twins_written:
  assumes mg: "merges mg" and perms: "\<And>ps. mset (sched ps) = mset ps" "\<And>rss. mset (arr rss) = mset (concat rss)"
    and code: "erasure_code (pa_enc p) n k" and p: "pa_nshards p = int n" and n: "1 \<le> n" "int n \<le> pos_limit"
    and min: "1 \<le> cfg_min cfg" and x: "x \<noteq> []" "\<not> distinct (shards_of p x)"
    and sha: "\<forall>s \<in> set (shards_of p x). content (sha s) = s"
    and named: "\<And>h. named h" and inv: "stripe_inv content I st0"
    and run: "proc_run (raid_write mg order sha p (stripe_obj mx ress (\<lambda>s d q. config_stripe cfg nxt ord s d q) sched arr))
      [piece 0 x] (new_index [], (no_group n, st0)) = Ret (rs, (ix, (g, st1)))" "stream_err rs = None"
  obtains fs where "index_finish ix = None" "iw ix = index_text (finals_entries fs)" "g = no_group n"
    "contents content (ss_world st1)" "0 < length fs" "length fs < n" "set fs \<subseteq> set (shard_list sha p (piece 0 x))"
proof -
  let ?c = "piece 0 x" and ?grp = "shard_list sha p (piece 0 x)" and ?h = "sha x"
  let ?store = "stripe_obj mx ress (\<lambda>s d q. config_stripe cfg nxt ord s d q) sched arr"
  have c: "raid_chunk n ?c"
    using x(1) n(2) by (simp add: raid_chunk_def pos_limit_def)
  have group: "group_of (group_agg 0 ?grp) = ?grp"
    by (simp add: group_of_def)
  have stored: "\<exists>fs. rs = passed fs \<and> set fs \<subseteq> set ?grp \<and> length fs = card (chunk_hash ` set ?grp) \<and>
      contents content (ss_world st1)"
    if "pr_process ?store (group_agg (chunk_num ?c) ?grp) st0 = Ret (rs, st1)" "stream_err rs = None" for rs st1
  proof -
    have call: "pr_process ?store (group_agg 0 ?grp) st0 = Ret (rs, st1)" and err: "stream_err rs = None"
      using that by simp_all
    obtain cs jobs st2 jobs' es fs where
      procs: "stripe_procs (\<lambda>s d q. config_stripe cfg nxt ord s d q) (group_agg 0 ?grp) st0 = Some (Ret (Inr (cs, jobs), st2))"
      and jobs: "mset jobs' = mset jobs" "run_copies jobs' (group_agg 0 ?grp) st2 = (es, st1)"
      and fs: "rs = passed fs" "mset fs = mset cs"
      by (rule stripe_call [OF perms call err])
    have "stripe_inv content I st1"
      using stripe_group [where c = "group_agg 0 ?grp", unfolded group, OF min named inv _ procs jobs]
        shard_list_fits [of p ?c content sha] sha by simp
    moreover have "set fs \<subseteq> set ?grp" "length fs = card (chunk_hash ` set ?grp)"
      using stripe_procs_one_each [OF procs] mset_eq_setD [OF fs(2)] mset_eq_length [OF fs(2)]
      by (simp_all add: group)
    ultimately show ?thesis
      using fs(1) by (auto simp: stripe_inv_def)
  qed
  have ender: "pr_ender ?store = None"
    by (simp add: stripe_obj_def concur_obj_def)
  have call: "chain_process mg (raid_write_stages sha p ?store) ?c (new_index [], (no_group n, st0)) = Ret (rs, (ix, (g, st1)))"
    using run(1) by (auto simp: raid_write_def chain_def bind_outcome_Ret_iff)
  obtain out ix1 where p1: "index_process (hashed sha ?c) (new_index [] :: string index_st) = Ret (out, ix1)"
    by (rule raid_indexed [OF mg _ call]) simp_all
  have out: "out = [Res (Some (hashed sha ?c)) None]"
    and entry: "ifinals ix1 (sha (data_of ?c)) = Some \<lparr>fnum = chunk_num ?c, entries = [], complete = False\<rparr>"
    using index_process_result [OF p1] by (simp_all add: new_index_def)
  have passes: "\<exists>fs. rs = passed fs"
    if "pr_process ?store (group_agg (chunk_num ?c) ?grp) st0 = Ret (rs, st1)" "stream_err rs = None" for rs st1
    using stored [OF that] by blast
  obtain fs st2 ix2 ix3 where
    procs: "pr_process ?store (group_agg (chunk_num ?c) ?grp) st0 = Ret (passed fs, st2)"
    and finals: "index_run text_writer (map (EFinal (hashed sha ?c)) fs) ix1 = Ret (replicate (length fs) None, ix2)"
    and ends: "index_process_end text_writer (hashed sha ?c) ix2 = (None, ix3)"
    and r: "(ix, (g, st1)) = (ix3, (no_group n, st2))"
    by (rule raid_new [OF mg code n(1) p c ender p1 [unfolded out] entry call run(2) passes])
  obtain fs' where "passed fs = passed fs'" and fs': "set fs' \<subseteq> set ?grp" "length fs' = card (chunk_hash ` set ?grp)"
    "contents content (ss_world st2)"
    using stored [OF procs] by auto
  moreover from this(1) have "fs = fs'"
    using inj_map [of "\<lambda>c. Res (Some c) None"] by (auto simp: inj_def)
  ultimately have fs: "set fs \<subseteq> set ?grp" "length fs = card (chunk_hash ` set ?grp)"
    by simp_all
  have len: "length (map chunk_hash ?grp) = n"
    using shards_of_code(2) [OF code x(1)] by (simp add: shard_list_length)
  have "\<not> distinct (map chunk_hash ?grp)"
    using x(2) by (auto simp: shard_list_hashes distinct_map)
  then have short: "0 < length fs" "length fs < n"
    using card_twins [of "map chunk_hash ?grp"] len fs(2) by simp_all
  let ?evs = "chain_events sha (\<lambda>_. fs) {} [?c]"
  have "index_run text_writer ?evs (new_index []) = Ret (replicate (length ?evs) None, ix3)"
    using finals ends by (simp add: index_step_def p1 index_run_append replicate_add replicate_append_same)
  then have "index_finish ix3 = None \<and> iw ix3 = index_text (concat (map (\<lambda>_. finals_entries fs) [x]))"
    by (intro chain_index [where cs = "[?c]" and bs = "[x]" and fins = "\<lambda>_. fs" and ents = "\<lambda>_. finals_entries fs" and sha = sha])
      (simp_all add: pos_limit_def)
  then show ?thesis
    using that [of fs] r fs(1) fs'(3) short by simp
qed

lemma twins_read:
  assumes mg: "merges mg" and order: "\<And>es. mset (order es) = mset es" and perm: "\<And>ds. mset (perm ds) = mset ds"
    and shuf: "\<And>n. set (shuf n) = {..<n}" and n: "1 \<le> n" "int n \<le> pos_limit"
    and sha: "\<forall>s \<in> set (shards_of p x). content (sha s) = s" and named: "\<And>h. named h"
    and cont: "contents content w" and fs: "0 < length fs" "length fs < n" "set fs \<subseteq> set (shard_list sha p (piece 0 x))"
    and mr: "new_multi_reader (map (store_copier load ls) alive) w = (e, mr)"
  shows "\<exists>g. proc_run (raid_read mg order sha p (mrd_obj shuf)) (perm (index_chunks 0 (finals_entries fs)))
      (mr, (no_group n, (new_series, []))) = Ret ([], (mr, (g, (new_series, [])))) \<and>
    fst (pr_finish (raid_read mg order sha p (mrd_obj shuf)) (mr, (g, (new_series, [])))) = Some ErrShort"
proof -
  let ?ds = "index_chunks 0 (finals_entries fs)" and ?b = "came_back content alive w"
  have len: "length (finals_entries fs) = length fs"
    by (simp add: finals_entries_def)
  have known: "sha (content (chunk_hash d)) = chunk_hash d" if "d \<in> set ?ds" for d
  proof -
    obtain i where i: "i < length fs" "d = index_chunk (int i) (finals_entries fs ! i)"
      using \<open>d \<in> set ?ds\<close> by (auto simp: in_set_conv_nth nth_index_chunks len)
    then have "chunk_hash d \<in> chunk_hash ` set fs"
      using nth_mem [of i "sort_key chunk_num fs"] by (auto simp: finals_entries_def)
    then have "chunk_hash d \<in> set (map chunk_hash (shard_list sha p (piece 0 x)))"
      using fs(3) by auto
    then show ?thesis
      using sha by (auto simp: shard_list_hashes)
  qed
  have set: "set (perm ?ds) = set ?ds"
    by (rule mset_eq_setD [OF perm])
  then have reads: "list_all2 (read_back sha (mrd_obj shuf) mr) (perm ?ds) (map ?b (perm ?ds))"
    using mrd_read_back [where sha = sha and content = content and shuf = shuf, OF mr named cont shuf known]
    by (simp add: list_all2_map2 list_all2_same)
  have "map chunk_num ?ds = map int [0..<length fs]"
    using index_chunks_nums [of "finals_entries fs"] by (simp add: len)
  from nums_of_perm [OF perm this] have nums: "chunk_num ` set (map ?b (perm ?ds)) = int ` {..<length fs}"
    "distinct (map chunk_num (map ?b (perm ?ds)))"
    by (simp_all add: image_image comp_def)
  have "int n \<le> 2 ^ 63"
    using n(2) by (simp add: pos_limit_def)
  from group_run_short [OF n(1) nums fs(1,2) this] obtain g where
    g: "group_run (map ?b (perm ?ds)) (no_group n) = ([], g)" "group_finish g = Some ErrShort"
    by blast
  have ender: "pr_ender (mrd_obj shuf) = None"
    by (simp add: mrd_obj_def)
  have run: "proc_run (raid_read mg order sha p (mrd_obj shuf)) (perm ?ds) (mr, (no_group n, (new_series, []))) =
      Ret ([], (mr, (g, (new_series, []))))"
    using read_run [OF mg ender reads, where aggs = "[]" and outs = "[]" and g = "no_group n" and g' = g and p = p and
        order = order and j = "(new_series, [])"] g(1) by simp
  have "fst (pr_finish (join_obj mg order append_writer) (new_series, [])) = None"
    using join_any_order [OF mg order, of "[]" "[]" 0 "[]"] by (auto simp: pos_limit_def)
  moreover have "concur_first_err (order [None, None, Some ErrShort, None, None]) = Some ErrShort"
    by (rule first_err_one [OF order]) simp_all
  ultimately have "fst (pr_finish (raid_read mg order sha p (mrd_obj shuf)) (mr, (g, (new_series, [])))) = Some ErrShort"
    using g(2) mrd_finish_none [OF mr] by (cases "pr_finish (join_obj mg order append_writer) (new_series, [])")
      (simp add: raid_read_def raid_read_stages_def chain_def chain_finish_def mrd_obj_def group_obj_def parity_unobj_def)
  with run show ?thesis
    by blast
qed

end

section \<open>Properties\<close>

text \<open>
  C3: a chunk two of whose shards are equal is lost, without any store being lost: the write chain takes
  it and finishes without an error, yet from the index it has written the read chain puts out nothing,
  and ends with \<open>ErrShort\<close>. This is for a stream of that one chunk.
\<close>

theorem raid_twins_short:
  assumes mg: "merges mg" and order: "\<And>es. mset (order es) = mset es" and perm: "\<And>ds. mset (perm ds) = mset ds"
    and sched: "\<And>ps. mset (sched ps) = mset ps" and arr: "\<And>rss. mset (arr rss) = mset (concat rss)"
    and shuf: "\<And>n. set (shuf n) = {..<n}"
    and code: "erasure_code (pa_enc p) n k" "pa_nshards p = int n" "1 \<le> n" "int n \<le> pos_limit"
    and min: "1 \<le> cfg_min cfg"
    and x: "x \<noteq> []" "\<not> distinct (shards_of p x)" "int (length x) < 2 ^ 63"
    and sha: "\<And>x. length (sha x) = 32" "\<forall>s \<in> set (shards_of p x). content (sha s) = s"
    and man: "\<forall>(i, u) \<in> set man. u_res u = store_copier mem_process mem_ls i"
    and w: "\<forall>i h b. mem_get h (w i) = Some b \<longrightarrow> b = content h"
    and new: "new_stripe_store man w = (e0, st0)"
    and wr: "write = raid_write mg order sha p (stripe_obj mx (man_resources 0 man)
      (\<lambda>s d q. config_stripe cfg rr_next ord s d q) sched arr)"
    and run: "proc_run write [piece 0 x] (new_index [], (\<lparr>gsize = int n, growing = []\<rparr>, st0)) = Ret (rs, (ix, (g, st1)))"
      "stream_err rs = None"
    and mr: "new_multi_reader (map (store_copier mem_load mem_ls) alive) (ss_world st1) = (e, mr)"
  shows "fst (pr_finish write (ix, (g, st1))) = None \<and>
    (\<exists>ds g'. index_scan 0 (iw ix) = (ds, None) \<and>
      proc_run (raid_read mg order sha p (mrd_obj shuf)) (perm ds)
        (mr, (\<lparr>gsize = int n, growing = []\<rparr>, (new_series, []))) = Ret ([], (mr, (g', (new_series, [])))) \<and>
      fst (pr_finish (raid_read mg order sha p (mrd_obj shuf)) (mr, (g', (new_series, [])))) = Some ErrShort)"
proof -
  let ?I = "fst ` set man"
  have stores: "man_all (\<lambda>i cp. i \<in> ?I \<and> cp = store_copier mem_process mem_ls i) man"
    using man by (force simp: man_all_def)
  have cont: "mem.contents content w"
    using w by (simp add: mem.contents_def)
  have inv: "mem.stripe_inv content ?I st0"
    using mem.stripe_inv_new [OF stores _ cont new] by simp
  obtain fs where written: "index_finish ix = None" "iw ix = index_text (finals_entries fs)" "g = no_group n"
    "mem.contents content (ss_world st1)" and fs: "0 < length fs" "length fs < n" "set fs \<subseteq> set (shard_list sha p (piece 0 x))"
    by (rule mem.twins_written [OF mg sched arr code min x(1,2) sha(2) _ inv run [unfolded wr]]) simp_all
  have "chunk_target_size s = int (length x)" "length (chunk_hash s) = 32" if "s \<in> set fs" for s
    using subsetD [OF fs(3) that] sha(1) by (auto simp: shard_list_def shard_chunk_def)
  then have "\<forall>en \<in> set (finals_entries fs). entry_ok en"
    using x(3) by (auto simp: finals_entries_def entry_ok_def)
  moreover have "int (length (finals_entries fs)) < 2 ^ 63"
    using fs(2) code(4) by (simp add: finals_entries_def pos_limit_def)
  ultimately have scan: "index_scan 0 (iw ix) = (index_chunks 0 (finals_entries fs), None)"
    using scan_index_text [of "finals_entries fs" 0] by (simp add: written(2))
  have "fst (pr_finish write (ix, (g, st1))) = None"
    unfolding wr written(3) by (rule raid_write_finishes [OF order written(1) store_copiers_finish [OF stores]])
  moreover note mem.twins_read [OF mg order perm shuf code(3,4) sha(2) _ written(4) fs mr]
  ultimately show ?thesis
    using scan by blast
qed

text \<open>One data and one parity shard, which is the data again: whatever the data, nothing comes back.\<close>

definition twin_parity :: parity where
  "twin_parity = \<lparr>pa_enc = mirror, pa_nshards = 2\<rparr>"

definition twin_write :: "(string index_st \<times> (group \<times> (nat, nat \<Rightarrow> mem, nat rr) stripe_store)) proc" where
  "twin_write = raid_write concat id ex_sha twin_parity (stripe_obj 2 (man_resources 0 ex_raid_man)
     (\<lambda>s d q. config_stripe \<lparr>cfg_min = 1, cfg_excl = 1\<rparr> rr_next (\<lambda>_ _ ls. ls) s d q) id concat)"

lemma twin_write_runs:
  obtains rs ix g st1 where "proc_run twin_write [piece 0 [2]]
      (new_index [], (\<lparr>gsize = 2, growing = []\<rparr>, snd (new_stripe_store ex_raid_man (\<lambda>_. new_mem)))) =
      Ret (rs, (ix, (g, st1)))" and "stream_err rs = None"
proof -
  have "(case proc_run twin_write [piece 0 [2]]
      (new_index [], (\<lparr>gsize = 2, growing = []\<rparr>, snd (new_stripe_store ex_raid_man (\<lambda>_. new_mem)))) of
      Ret (rs, r) \<Rightarrow> stream_err rs = None | Panic _ \<Rightarrow> False)"
    by code_simp
  then show ?thesis
    using that by (auto split: outcome.splits prod.splits simp del: stream_err_None_iff)
qed

lemma raid_twins_short_witness:
  "\<exists>rs ix g st1 mr ds g'. proc_run twin_write [piece 0 [2]]
      (new_index [], (\<lparr>gsize = 2, growing = []\<rparr>, snd (new_stripe_store ex_raid_man (\<lambda>_. new_mem)))) =
      Ret (rs, (ix, (g, st1))) \<and> stream_err rs = None \<and>
    snd (new_multi_reader (map (store_copier mem_load mem_ls) [3, 4, 5]) (ss_world st1)) = mr \<and>
    index_scan 0 (iw ix) = (ds, None) \<and>
    proc_run (raid_read concat id ex_sha twin_parity (mrd_obj (\<lambda>n. [0..<n]))) ds
      (mr, (\<lparr>gsize = int 2, growing = []\<rparr>, (new_series, []))) = Ret ([], (mr, (g', (new_series, [])))) \<and>
    fst (pr_finish (raid_read concat id ex_sha twin_parity (mrd_obj (\<lambda>n. [0..<n]))) (mr, (g', (new_series, [])))) = Some ErrShort"
proof -
  obtain rs ix g st1 where run: "proc_run twin_write [piece 0 [2]]
      (new_index [], (\<lparr>gsize = 2, growing = []\<rparr>, snd (new_stripe_store ex_raid_man (\<lambda>_. new_mem)))) =
      Ret (rs, (ix, (g, st1)))" and ok: "stream_err rs = None"
    by (rule twin_write_runs)
  obtain e0 st0 where new: "new_stripe_store ex_raid_man (\<lambda>_. new_mem) = (e0, st0)"
    by fastforce
  obtain e mr where mr: "new_multi_reader (map (store_copier mem_load mem_ls) [3, 4, 5]) (ss_world st1) = (e, mr)"
    by fastforce
  have shards: "shards_of twin_parity x = [x, x]" for x
    by (simp add: shards_of_def rs_shards_def twin_parity_def mirror_def)
  have nshards: "pa_nshards twin_parity = 2"
    by (simp add: twin_parity_def)
  have run': "proc_run twin_write [piece 0 [2]] (new_index [], (\<lparr>gsize = int 2, growing = []\<rparr>, st0)) =
      Ret (rs, (ix, (g, st1)))"
    using run by (simp add: new)
  have "fst (pr_finish twin_write (ix, (g, st1))) = None \<and>
    (\<exists>ds g'. index_scan 0 (iw ix) = (ds, None) \<and>
      proc_run (raid_read concat id ex_sha twin_parity (mrd_obj (\<lambda>n. [0..<n]))) (id ds)
        (mr, (\<lparr>gsize = int 2, growing = []\<rparr>, (new_series, []))) = Ret ([], (mr, (g', (new_series, [])))) \<and>
      fst (pr_finish (raid_read concat id ex_sha twin_parity (mrd_obj (\<lambda>n. [0..<n]))) (mr, (g', (new_series, [])))) = Some ErrShort)"
  proof (rule raid_twins_short [where k = 1 and content = ex_content, OF merges_concat _ _ _ _ _ _ _ _ _ _ _ _ _ _ _ _ _ new twin_write_def run' ok mr])
    show "erasure_code (pa_enc twin_parity) 2 1"
      using mirror_code by (simp add: twin_parity_def)
    show "\<forall>s \<in> set (shards_of twin_parity [2]). ex_content (ex_sha s) = s"
      by (simp add: shards ex_content_def ex_sha_def numeral_eq_Suc)
    show "\<forall>(i, u) \<in> set ex_raid_man. u_res u = store_copier mem_process mem_ls i"
      by (simp add: ex_raid_man_sel)
  qed (simp_all add: shards nshards ex_sha_def mem_get_def new_mem_def pos_limit_def atLeast0LessThan)
  with run ok mr show ?thesis
    by auto
qed

end
