(* ===== verification/Lock_Order.thy ===== *)
theory Lock_Order
  imports Store_Stripe
begin

text \<open>
  Calls of \<open>Procs\<close> (\<^verbatim>\<open>stores/stripe/stripe.go\<close>) that are under way at the same time, as a backlog around
  the chain lets them be: each takes the locks of its hashes one after the other, in the order in which Go's
  range goes through a map, and the goroutine of each hash gives its lock back when the copies have ended.
  \<^verbatim>\<open>Store_Stripe\<close> has what one call does; here a call stops and goes on between any two locks. The
  striper is taken to find a stripe; a call for which it fails keeps its locks
  (\<open>stripe_store_error_keeps_locks\<close>).
\<close>

section \<open>Calls taking locks\<close>

text \<open>
  A call has taken some locks and has others to take, in an order; then the locks of the hashes whose copies
  have not ended are left.
\<close>

datatype locking = Taking "hash list" "hash list" | Copying "hash list"

record lock_run =
  lr_held :: "hash \<rightharpoonup> nat"
  lr_calls :: "locking list"

definition procs_hashes :: "chunk \<Rightarrow> hash list" where
  "procs_hashes c =
     (case collect_chunks (group_of c) [] 0 of Inl e \<Rightarrow> [] | Inr (chunks, qu) \<Rightarrow> map fst chunks)"

text \<open>A step of the call \<open>i\<close>; it waits for a lock by having no step.\<close>

inductive lock_step :: "nat \<Rightarrow> lock_run \<Rightarrow> lock_run \<Rightarrow> bool" where
  take_lock: "i < length (lr_calls s) \<Longrightarrow> lr_calls s ! i = Taking got (h # left) \<Longrightarrow> lr_held s h = None \<Longrightarrow>
    lock_step i s (s\<lparr>lr_held := (lr_held s)(h \<mapsto> i), lr_calls := (lr_calls s)[i := Taking (h # got) left]\<rparr>)"
| start_copies: "i < length (lr_calls s) \<Longrightarrow> lr_calls s ! i = Taking got [] \<Longrightarrow>
    lock_step i s (s\<lparr>lr_calls := (lr_calls s)[i := Copying got]\<rparr>)"
| free_lock: "i < length (lr_calls s) \<Longrightarrow> lr_calls s ! i = Copying hs \<Longrightarrow> h \<in> set hs \<Longrightarrow>
    lock_step i s (s\<lparr>lr_held := (lr_held s)(h := None), lr_calls := (lr_calls s)[i := Copying (remove1 h hs)]\<rparr>)"

definition lock_start :: "chunk list \<Rightarrow> lock_run \<Rightarrow> bool" where
  "lock_start cs s \<longleftrightarrow> lr_held s = Map.empty \<and>
     list_all2 (\<lambda>c p. \<exists>hs. p = Taking [] hs \<and> mset hs = mset (procs_hashes c)) cs (lr_calls s)"

inductive lock_reach :: "chunk list \<Rightarrow> lock_run \<Rightarrow> bool" for cs where
  start: "lock_start cs s \<Longrightarrow> lock_reach cs s"
| step: "lock_reach cs s \<Longrightarrow> lock_step i s s' \<Longrightarrow> lock_reach cs s'"

definition all_ended :: "lock_run \<Rightarrow> bool" where
  "all_ended s \<longleftrightarrow> (\<forall>p \<in> set (lr_calls s). p = Copying [])"

inductive_cases lock_stepE: "lock_step i s s'"

section \<open>A call by itself\<close>

text \<open>
  While the other calls stand still, a call takes its locks as \<open>lock_hashes\<close> does, and comes to wait where this
  has no result.
\<close>

lemma lock_hashes_steps:
  assumes "i < length (lr_calls s)" and "lr_calls s ! i = Taking got hs"
    and "\<forall>h. lr_held s h = None \<longleftrightarrow> map_of (ss_locks st) h = None"
  shows "case lock_hashes hs st of
      Some (cur, st') \<Rightarrow> \<exists>s'. (lock_step i)\<^sup>*\<^sup>* s s' \<and> lr_calls s' = (lr_calls s)[i := Taking (rev hs @ got) []] \<and>
        (\<forall>h. lr_held s' h = None \<longleftrightarrow> map_of (ss_locks st') h = None)
    | None \<Rightarrow> \<exists>s' got' h left. (lock_step i)\<^sup>*\<^sup>* s s' \<and> lr_calls s' ! i = Taking got' (h # left) \<and>
        lr_held s' h \<noteq> None"
  using assms
proof (induction hs arbitrary: s st got)
  case Nil
  then show ?case
    using list_update_id [of "lr_calls s" i] by (auto intro!: exI [of _ s])
next
  case (Cons h hs)
  show ?case
  proof (cases "map_of (ss_locks st) h = None")
    case True
    let ?st = "st\<lparr>ss_reg := reg_list h (ss_reg st), ss_locks := AList.update h None (ss_locks st)\<rparr>"
    let ?s = "s\<lparr>lr_held := (lr_held s)(h \<mapsto> i), lr_calls := (lr_calls s)[i := Taking (h # got) hs]\<rparr>"
    have one: "lock_step i s ?s"
      using Cons.prems True by (intro take_lock) auto
    have IH: "case lock_hashes hs ?st of
        Some (cur, st') \<Rightarrow> \<exists>s'. (lock_step i)\<^sup>*\<^sup>* ?s s' \<and>
          lr_calls s' = (lr_calls ?s)[i := Taking (rev hs @ h # got) []] \<and>
          (\<forall>h. lr_held s' h = None \<longleftrightarrow> map_of (ss_locks st') h = None)
      | None \<Rightarrow> \<exists>s' got' h left. (lock_step i)\<^sup>*\<^sup>* ?s s' \<and> lr_calls s' ! i = Taking got' (h # left) \<and>
          lr_held s' h \<noteq> None"
      by (rule Cons.IH) (use Cons.prems in \<open>simp_all add: update_conv'\<close>)
    show ?thesis
    proof (cases "lock_hashes hs ?st")
      case None
      then show ?thesis
        using IH True converse_rtranclp_into_rtranclp [where r = "lock_step i", OF one]
        by (simp add: Let_def) blast
    next
      case (Some r)
      then obtain s' where "(lock_step i)\<^sup>*\<^sup>* ?s s'" "lr_calls s' = (lr_calls s)[i := Taking (rev hs @ h # got) []]"
          "\<forall>h. lr_held s' h = None \<longleftrightarrow> map_of (ss_locks (snd r)) h = None"
        using IH by (cases r) auto
      then show ?thesis
        using True Some converse_rtranclp_into_rtranclp [where r = "lock_step i", OF one, of s']
        by (cases r) (auto simp: Let_def)
    qed
  next
    case False
    have "lr_held s h \<noteq> None"
      using Cons.prems(3) [THEN spec, of h] False by argo
    moreover have "(lock_step i)\<^sup>*\<^sup>* s s"
      by simp
    ultimately show ?thesis
      using Cons.prems(2) False by (simp del: not_None_eq) blast
  qed
qed

section \<open>Who holds which lock\<close>

fun held_by :: "locking \<Rightarrow> hash list" where
  "held_by (Taking got left) = got"
| "held_by (Copying hs) = hs"

fun needed_by :: "locking \<Rightarrow> hash list" where
  "needed_by (Taking got left) = got @ left"
| "needed_by (Copying hs) = hs"

definition lock_inv :: "chunk list \<Rightarrow> lock_run \<Rightarrow> bool" where
  "lock_inv cs s \<longleftrightarrow> length (lr_calls s) = length cs \<and>
     (\<forall>i < length cs. distinct (needed_by (lr_calls s ! i)) \<and>
       set (needed_by (lr_calls s ! i)) \<subseteq> set (procs_hashes (cs ! i))) \<and>
     (\<forall>h i. lr_held s h = Some i \<longleftrightarrow> i < length cs \<and> h \<in> set (held_by (lr_calls s ! i)))"

lemma procs_hashes_distinct: "distinct (procs_hashes c)"
  using collect_chunks_keys [of "group_of c" "[]" 0]
  by (auto simp: procs_hashes_def split: sum.split)

lemma lock_inv_needs:
  "lock_inv cs s \<Longrightarrow> i < length cs \<Longrightarrow>
   distinct (needed_by (lr_calls s ! i)) \<and> set (needed_by (lr_calls s ! i)) \<subseteq> set (procs_hashes (cs ! i))"
  by (simp add: lock_inv_def)

lemma lock_inv_start:
  assumes "lock_start cs s"
  shows "lock_inv cs s"
proof -
  have len: "length (lr_calls s) = length cs"
    using assms by (auto simp: lock_start_def dest: list_all2_lengthD)
  have starts: "list_all2 (\<lambda>c p. \<exists>hs. p = Taking [] hs \<and> mset hs = mset (procs_hashes c)) cs (lr_calls s)"
    using assms by (simp add: lock_start_def)
  have "\<exists>hs. lr_calls s ! i = Taking [] hs \<and> set hs = set (procs_hashes (cs ! i)) \<and> distinct hs"
    if i: "i < length cs" for i
  proof -
    obtain hs where "lr_calls s ! i = Taking [] hs" and perm: "mset hs = mset (procs_hashes (cs ! i))"
      using list_all2_nthD [OF starts i] by blast
    then show ?thesis
      using mset_eq_setD [OF perm] mset_eq_imp_distinct_iff [OF perm] procs_hashes_distinct by auto
  qed
  then show ?thesis
    using assms len unfolding lock_inv_def lock_start_def by fastforce
qed

lemma lock_inv_step:
  assumes "lock_step i s s'" and "lock_inv cs s"
  shows "lock_inv cs s'"
  using assms(1)
proof cases
  case (take_lock got h left)
  have "distinct (needed_by (lr_calls s ! i))" "set (needed_by (lr_calls s ! i)) \<subseteq> set (procs_hashes (cs ! i))"
    using assms(2) take_lock(2) by (auto simp: lock_inv_def)
  moreover have "h \<notin> set (held_by (lr_calls s ! k))" if "k < length cs" for k
    using assms(2) take_lock(4) that unfolding lock_inv_def by (metis option.distinct(1))
  ultimately show ?thesis
    using assms(2) take_lock by (auto simp: lock_inv_def nth_list_update)
next
  case (start_copies got)
  have "distinct got" "set got \<subseteq> set (procs_hashes (cs ! i))" if "i < length cs"
    using lock_inv_needs [OF assms(2) that] start_copies(3) by auto
  then show ?thesis
    using assms(2) start_copies by (auto simp: lock_inv_def nth_list_update)
next
  case (free_lock hs h)
  have len: "length (lr_calls s) = length cs"
    using assms(2) by (simp add: lock_inv_def)
  have held: "lr_held s k = Some j \<longleftrightarrow> j < length cs \<and> k \<in> set (held_by (lr_calls s ! j))" for k j
    using assms(2) by (simp add: lock_inv_def)
  have hs: "distinct hs" "set (remove1 h hs) = set hs - {h}" "set hs \<subseteq> set (procs_hashes (cs ! i))"
    using lock_inv_needs [OF assms(2), of i] free_lock(2,3) len by auto
  have "j = i" if "j < length cs" "h \<in> set (held_by (lr_calls s ! j))" for j
    using held [of h j] held [of h i] that free_lock(2-4) len by simp
  then have "lr_held s' k = Some j \<longleftrightarrow> j < length cs \<and> k \<in> set (held_by (lr_calls s' ! j))" for k j
    using held [of k j] free_lock(1,2,3) hs(2) len by (cases "j = i"; cases "k = h") auto
  moreover have "distinct (needed_by (lr_calls s' ! j)) \<and>
      set (needed_by (lr_calls s' ! j)) \<subseteq> set (procs_hashes (cs ! j))" if "j < length cs" for j
    using lock_inv_needs [OF assms(2) that] free_lock(1,2) hs that len by (cases "j = i") auto
  ultimately show ?thesis
    using free_lock(1) len by (simp add: lock_inv_def)
qed

lemma lock_reach_inv: "lock_reach cs s \<Longrightarrow> lock_inv cs s"
  by (induction rule: lock_reach.induct) (auto intro: lock_inv_start lock_inv_step)

section \<open>Going on\<close>

text \<open>
  A call that waits for a lock waits for another call that waits. When no call has two hashes that others have
  too, this cannot be: it would hold one of them and wait for the other.
\<close>

definition shares :: "chunk list \<Rightarrow> nat \<Rightarrow> hash \<Rightarrow> bool" where
  "shares cs i h \<longleftrightarrow> h \<in> set (procs_hashes (cs ! i)) \<and>
     (\<exists>j < length cs. j \<noteq> i \<and> h \<in> set (procs_hashes (cs ! j)))"

lemma waits_for:
  assumes inv: "lock_inv cs s" and stuck: "\<And>i s'. \<not> lock_step i s s'"
    and i: "i < length cs" "lr_calls s ! i \<noteq> Copying []"
  obtains h j where "lr_held s h = Some j" and "j < length cs" and "j \<noteq> i" and "lr_calls s ! j \<noteq> Copying []"
    and "h \<notin> set (held_by (lr_calls s ! i))" and "shares cs i h" and "shares cs j h" and "h \<in> set (held_by (lr_calls s ! j))"
proof -
  have len: "i < length (lr_calls s)"
    using inv i(1) by (simp add: lock_inv_def)
  have "\<exists>got h left. lr_calls s ! i = Taking got (h # left) \<and> lr_held s h \<noteq> None"
  proof (cases "lr_calls s ! i")
    case (Taking got left)
    then show ?thesis
      using stuck [of i] len take_lock [of i s got "hd left" "tl left"] start_copies [of i s got]
      by (cases left) auto
  next
    case (Copying hs)
    then show ?thesis
      using stuck [of i] len i(2) free_lock [of i s hs "hd hs"] by (cases hs) auto
  qed
  then obtain got h left j where w: "lr_calls s ! i = Taking got (h # left)" and j: "lr_held s h = Some j"
    by auto
  have held: "j < length cs" "h \<in> set (held_by (lr_calls s ! j))"
    using inv j by (auto simp: lock_inv_def)
  have "distinct (got @ h # left)" "set (got @ h # left) \<subseteq> set (procs_hashes (cs ! i))"
    using inv i(1) w by (force simp: lock_inv_def)+
  moreover have "set (held_by (lr_calls s ! j)) \<subseteq> set (procs_hashes (cs ! j))"
    using inv held(1) by (cases "lr_calls s ! j") (force simp: lock_inv_def)+
  ultimately have "j \<noteq> i" "h \<in> set (procs_hashes (cs ! i))" "h \<in> set (procs_hashes (cs ! j))" "h \<notin> set got"
    using held(2) w by auto
  then have "shares cs i h" "shares cs j h" "j \<noteq> i"
    using held(1) i(1) by (auto simp: shares_def)
  moreover have "lr_calls s ! j \<noteq> Copying []" "h \<notin> set (held_by (lr_calls s ! i))"
    using held(2) w \<open>h \<notin> set got\<close> by auto
  ultimately show ?thesis
    using that j held by blast
qed

lemma lock_progress:
  assumes reach: "lock_reach cs s" and "\<not> all_ended s"
    and one: "\<And>i h h'. i < length cs \<Longrightarrow> shares cs i h \<Longrightarrow> shares cs i h' \<Longrightarrow> h = h'"
  shows "\<exists>i s'. lock_step i s s'"
proof (rule ccontr)
  assume "\<not> ?thesis"
  then have stuck: "\<not> lock_step i s s'" for i s'
    by blast
  have inv: "lock_inv cs s"
    using reach by (rule lock_reach_inv)
  obtain i where i: "i < length cs" "lr_calls s ! i \<noteq> Copying []"
    using inv assms(2) by (auto simp: all_ended_def lock_inv_def in_set_conv_nth)
  obtain h j where j: "j < length cs" "lr_calls s ! j \<noteq> Copying []" "shares cs j h" "h \<in> set (held_by (lr_calls s ! j))"
    by (rule waits_for [OF inv stuck i])
  obtain h' k where "h' \<notin> set (held_by (lr_calls s ! j))" "shares cs j h'"
    by (rule waits_for [OF inv stuck j(1,2)])
  then show False
    using one [OF j(1,3)] j(4) by blast
qed

text \<open>Every step brings its call nearer to its end.\<close>

fun locking_left :: "locking \<Rightarrow> nat" where
  "locking_left (Taking got left) = length got + 2 * length left + 1"
| "locking_left (Copying hs) = length hs"

definition locks_left :: "lock_run \<Rightarrow> nat" where
  "locks_left s = sum_list (map locking_left (lr_calls s))"

lemma locks_left_step: "lock_step i s s' \<Longrightarrow> locks_left s' < locks_left s"
  by (induction rule: lock_step.induct)
    (auto simp: locks_left_def length_remove1 intro!: sum_list_update_less diff_less dest: length_pos_if_in_set)

lemma lock_steps_end: "wfp (\<lambda>s' s. \<exists>i. lock_step i s s')"
proof (rule wfp_subset)
  show "wfp (\<lambda>s' s. locks_left s' < locks_left s)"
    by (simp add: wfp_if_convertible_to_nat)
  show "(\<lambda>s' s. \<exists>i. lock_step i s s') \<le> (\<lambda>s' s. locks_left s' < locks_left s)"
    using locks_left_step by auto
qed

section \<open>Two calls that share two hashes\<close>

lemma two_first:
  assumes "a \<in> set hs" and "b \<in> set hs" and "a \<noteq> b"
  obtains hs' where "mset (a # b # hs') = mset hs"
proof -
  have "mset (a # b # remove1 b (remove1 a hs)) = mset hs"
    using assms by (simp add: insert_DiffM in_diff_count flip: diff_diff_add_mset)
  then show thesis
    by (rule that)
qed

lemma locks_crossed:
  assumes ab: "a \<noteq> b" "{a, b} \<subseteq> set (procs_hashes c)" "{a, b} \<subseteq> set (procs_hashes c')"
  shows "\<exists>s. lock_reach [c, c'] s \<and> \<not> all_ended s \<and> (\<nexists>i s'. lock_step i s s')"
proof -
  obtain hs where hs: "mset (a # b # hs) = mset (procs_hashes c)"
    using two_first [of a "procs_hashes c" b] ab by auto
  obtain hs' where hs': "mset (b # a # hs') = mset (procs_hashes c')"
    using two_first [of b "procs_hashes c'" a] ab by auto
  let ?s0 = "\<lparr>lr_held = Map.empty, lr_calls = [Taking [] (a # b # hs), Taking [] (b # a # hs')]\<rparr>"
  let ?s1 = "\<lparr>lr_held = [a \<mapsto> 0], lr_calls = [Taking [a] (b # hs), Taking [] (b # a # hs')]\<rparr>"
  let ?s2 = "\<lparr>lr_held = [a \<mapsto> 0, b \<mapsto> 1], lr_calls = [Taking [a] (b # hs), Taking [b] (a # hs')]\<rparr>"
  have "lock_reach [c, c'] ?s0"
    using hs hs' by (intro lock_reach.start) (simp add: lock_start_def)
  moreover have "lock_step 0 ?s0 ?s1"
    using take_lock [of 0 ?s0 "[]" a "b # hs"] by simp
  moreover have "lock_step 1 ?s1 ?s2"
    using take_lock [of 1 ?s1 "[]" b "a # hs'"] ab(1) by simp
  ultimately have "lock_reach [c, c'] ?s2"
    by (blast intro: lock_reach.step)
  moreover have "\<not> lock_step i ?s2 s'" for i s'
    using ab(1) by (auto elim!: lock_stepE simp: nth_Cons' less_Suc_eq split: if_splits)
  ultimately show ?thesis
    by (intro exI [of _ ?s2]) (simp add: all_ended_def)
qed

section \<open>Properties\<close>

text \<open>
  C17: two calls of \<open>Procs\<close> can come to wait for each other for ever exactly when their groups have two hashes
  in common; and they take no more than finitely many steps, so that otherwise both end with their locks
  given back.
\<close>

theorem procs_deadlock_iff:
  "wfp (\<lambda>s' s. \<exists>i. lock_step i s s') \<and>
   ((\<exists>s. lock_reach [c, c'] s \<and> \<not> all_ended s \<and> (\<nexists>i s'. lock_step i s s')) \<longleftrightarrow>
     2 \<le> card (set (procs_hashes c) \<inter> set (procs_hashes c')))"
proof -
  let ?H = "set (procs_hashes c) \<inter> set (procs_hashes c')"
  have "\<exists>i s'. lock_step i s s'" if "lock_reach [c, c'] s" "\<not> all_ended s" "card ?H < 2" for s
  proof (rule lock_progress [OF that(1,2)])
    have "card ?H \<le> Suc 0"
      using that(3) by simp
    moreover have "h \<in> ?H" if "i < length [c, c']" "shares [c, c'] i h" for i h
      using that by (auto simp: shares_def less_Suc_eq nth_Cons')
    ultimately show "h = h'" if "i < length [c, c']" "shares [c, c'] i h" "shares [c, c'] i h'" for i h h'
      using that by (metis List.finite_set card_le_Suc0_iff_eq finite_Int)
  qed
  moreover have "\<exists>a b. a \<noteq> b \<and> {a, b} \<subseteq> ?H" if "2 \<le> card ?H"
    using that by (metis List.finite_set card_le_Suc0_iff_eq finite_Int insert_subset empty_subsetI not_less_eq_eq numeral_2_eq_2)
  ultimately show ?thesis
    using lock_steps_end locks_crossed [of _ _ c c'] by (meson le_inf_iff not_le)
qed

end
