(* ===== verification/Utf8.thy ===== *)
theory Utf8
  imports Scat_Prelude
begin

text \<open>
  Go strings: bytes, read as runes by \<open>range\<close>, \<open>strings.IndexFunc\<close> and \<open>ReadRune\<close>. A byte
  that starts no valid encoding is read as one byte with the rune U+FFFD.
\<close>

type_synonym rune = nat

definition rune_error :: rune where
  "rune_error = 0xFFFD"

definition cont :: "nat \<Rightarrow> nat \<Rightarrow> byte \<Rightarrow> bool" where
  "cont lo hi b \<longleftrightarrow> lo \<le> unat b \<and> unat b \<le> hi"

text \<open>The second byte of an encoding is restricted by the first: no overlong forms, no
  surrogates, nothing above U+10FFFF.\<close>

definition second_range :: "nat \<Rightarrow> nat \<times> nat" where
  "second_range b0 =
     (if b0 = 0xE0 then (0xA0, 0xBF) else if b0 = 0xED then (0x80, 0x9F)
      else if b0 = 0xF0 then (0x90, 0xBF) else if b0 = 0xF4 then (0x80, 0x8F)
      else (0x80, 0xBF))"

definition decode_rune :: "bytes \<Rightarrow> rune \<times> nat" where
  "decode_rune s =
     (case s of
        [] \<Rightarrow> (rune_error, 0)
      | b # s1 \<Rightarrow>
          (let b0 = unat b; (lo, hi) = second_range b0 in
           if b0 < 0x80 then (b0, 1)
           else if 0xC2 \<le> b0 \<and> b0 \<le> 0xDF then
             (case s1 of
                b1 # _ \<Rightarrow> if cont 0x80 0xBF b1 then ((b0 - 0xC0) * 64 + (unat b1 - 0x80), 2)
                          else (rune_error, 1)
              | _ \<Rightarrow> (rune_error, 1))
           else if 0xE0 \<le> b0 \<and> b0 \<le> 0xEF then
             (case s1 of
                b1 # b2 # _ \<Rightarrow>
                  if cont lo hi b1 \<and> cont 0x80 0xBF b2
                  then (((b0 - 0xE0) * 64 + (unat b1 - 0x80)) * 64 + (unat b2 - 0x80), 3)
                  else (rune_error, 1)
              | _ \<Rightarrow> (rune_error, 1))
           else if 0xF0 \<le> b0 \<and> b0 \<le> 0xF4 then
             (case s1 of
                b1 # b2 # b3 # _ \<Rightarrow>
                  if cont lo hi b1 \<and> cont 0x80 0xBF b2 \<and> cont 0x80 0xBF b3
                  then ((((b0 - 0xF0) * 64 + (unat b1 - 0x80)) * 64 + (unat b2 - 0x80)) * 64 +
                        (unat b3 - 0x80), 4)
                  else (rune_error, 1)
              | _ \<Rightarrow> (rune_error, 1))
           else (rune_error, 1)))"

lemma decode_rune_width: "s \<noteq> [] \<Longrightarrow> 1 \<le> snd (decode_rune s) \<and> snd (decode_rune s) \<le> length s"
  by (auto simp: decode_rune_def Let_def split: list.split prod.split)

lemma decode_rune_ascii: "b < 0x80 \<Longrightarrow> decode_rune (b # s) = (unat b, 1)"
  by (simp add: decode_rune_def Let_def word_less_nat_alt split: prod.split)

text \<open>The runes of a string with their byte offsets.\<close>

function runes_from :: "nat \<Rightarrow> bytes \<Rightarrow> (nat \<times> rune) list" where
  "runes_from off s =
     (if s = [] then []
      else (off, fst (decode_rune s)) #
           runes_from (off + snd (decode_rune s)) (drop (snd (decode_rune s)) s))"
  by pat_completeness auto
termination
proof (relation "measure (\<lambda>(off, s). length s)")
  fix off :: nat and s :: bytes
  assume "s \<noteq> []"
  with decode_rune_width [of s]
  show "((off + snd (decode_rune s), drop (snd (decode_rune s)) s), (off, s)) \<in>
      measure (\<lambda>(off, s). length s)"
    by auto
qed simp

declare runes_from.simps [simp del]

lemma runes_from_Nil [simp]: "runes_from off [] = []"
  by (simp add: runes_from.simps)

definition runes :: "bytes \<Rightarrow> (nat \<times> rune) list" where
  "runes s = runes_from 0 s"

lemma runes_from_shift: "runes_from off s = map (\<lambda>(i, r). (i + off, r)) (runes_from 0 s)"
proof (induction "length s" arbitrary: off s rule: less_induct)
  case less
  show ?case
  proof (cases "s = []")
    case False
    define k s' where "k = snd (decode_rune s)" and "s' = drop k s"
    have "length s' < length s"
      using decode_rune_width [OF False] False unfolding s'_def k_def length_drop by linarith
    note IH = less.hyps [OF this]
    have *: "runes_from off s = (off, fst (decode_rune s)) # runes_from (off + k) s'" for off
      using False by (subst runes_from.simps) (simp add: k_def s'_def)
    show ?thesis
      using IH [of "off + k"] IH [of "0 + k"] unfolding * by (simp add: case_prod_beta ac_simps)
  qed simp
qed

definition is_space_rune :: "rune \<Rightarrow> bool" where
  "is_space_rune r \<longleftrightarrow> (0x09 \<le> r \<and> r \<le> 0x0D) \<or> r = 0x20 \<or> r = 0x85 \<or> r = 0xA0 \<or> r = 0x1680 \<or>
     (0x2000 \<le> r \<and> r \<le> 0x200A) \<or> r = 0x2028 \<or> r = 0x2029 \<or> r = 0x202F \<or> r = 0x205F \<or> r = 0x3000"

text \<open>\<open>strings.IndexFunc\<close>; \<open>None\<close> is \<open>-1\<close>.\<close>

fun index_rune :: "(rune \<Rightarrow> bool) \<Rightarrow> (nat \<times> rune) list \<Rightarrow> nat option" where
  "index_rune P [] = None"
| "index_rune P ((i, r) # rs) = (if P r then Some i else index_rune P rs)"

definition index_func :: "(rune \<Rightarrow> bool) \<Rightarrow> bytes \<Rightarrow> nat option" where
  "index_func P s = index_rune P (runes s)"

text \<open>\<open>utf8.EncodeRune\<close>, as \<open>string([]rune)\<close> applies it.\<close>

definition encode_rune :: "rune \<Rightarrow> bytes" where
  "encode_rune r =
     (if r < 0x80 then [of_nat r]
      else if r < 0x800 then [of_nat (0xC0 + r div 64), of_nat (0x80 + r mod 64)]
      else if (0xD800 \<le> r \<and> r \<le> 0xDFFF) \<or> 0x10FFFF < r then [0xEF, 0xBF, 0xBD]
      else if r < 0x10000 then
        [of_nat (0xE0 + r div 4096), of_nat (0x80 + r div 64 mod 64), of_nat (0x80 + r mod 64)]
      else [of_nat (0xF0 + r div 262144), of_nat (0x80 + r div 4096 mod 64),
            of_nat (0x80 + r div 64 mod 64), of_nat (0x80 + r mod 64)])"

text \<open>A string of the source as its bytes.\<close>

definition bytes_of :: "string \<Rightarrow> bytes" where
  "bytes_of s = map of_char s"

section \<open>Bounds\<close>

lemma runes_from_length: "length (runes_from off s) \<le> length s"
proof (induction off s rule: runes_from.induct)
  case (1 off s)
  show ?case
  proof (cases "s = []")
    case False
    then have "length (runes_from (off + snd (decode_rune s)) (drop (snd (decode_rune s)) s)) \<le>
        length s - snd (decode_rune s)"
      using 1 by simp
    then have "Suc (length (runes_from (off + snd (decode_rune s)) (drop (snd (decode_rune s)) s))) \<le>
        length s"
      using decode_rune_width [OF False] by linarith
    then show ?thesis
      by (subst runes_from.simps) simp
  qed simp
qed

lemma runes_from_offset: "(i, r) \<in> set (runes_from off s) \<Longrightarrow> off \<le> i \<and> i < off + length s"
proof (induction off s rule: runes_from.induct)
  case (1 off s)
  have ne: "s \<noteq> []"
    using 1(2) by auto
  have "(i, r) = (off, fst (decode_rune s)) \<or>
      (i, r) \<in> set (runes_from (off + snd (decode_rune s)) (drop (snd (decode_rune s)) s))"
    using 1(2) ne by (subst (asm) runes_from.simps) simp
  with 1(1) [OF ne] decode_rune_width [OF ne] ne show ?case
    by (cases s) auto
qed

lemma index_rune_in: "index_rune P rs = Some i \<Longrightarrow> \<exists>r. (i, r) \<in> set rs \<and> P r"
  by (induction P rs rule: index_rune.induct) (auto split: if_splits)

lemma index_func_bound: "index_func P s = Some i \<Longrightarrow> i < length s"
  using runes_from_offset [of i _ 0 s] index_rune_in [of P "runes s" i]
  by (auto simp: index_func_def runes_def)

section \<open>ASCII\<close>

definition ascii :: "bytes \<Rightarrow> bool" where
  "ascii s \<longleftrightarrow> (\<forall>b \<in> set s. b < 0x80)"

lemma runes_from_ascii_Cons:
  "b < 0x80 \<Longrightarrow> runes_from off (b # s) = (off, unat b) # runes_from (Suc off) s"
  by (subst runes_from.simps) (simp add: decode_rune_ascii)

lemma runes_from_ascii_append:
  "ascii a \<Longrightarrow> runes_from off (a @ s) =
     zip [off..<off + length a] (map unat a) @ runes_from (off + length a) s"
proof (induction a arbitrary: off)
  case (Cons b a)
  then show ?case
    by (simp add: ascii_def runes_from_ascii_Cons upt_conv_Cons del: upt_Suc)
qed simp

section \<open>Encoding\<close>

text \<open>A rune that \<open>utf8.ValidRune\<close> accepts, encoded and read back.\<close>

definition valid_rune :: "rune \<Rightarrow> bool" where
  "valid_rune r \<longleftrightarrow> r < 0xD800 \<or> (0xDFFF < r \<and> r \<le> 0x10FFFF)"

lemma unat_byte: "n < 256 \<Longrightarrow> unat (of_nat n :: byte) = n"
  by (simp add: unat_of_nat take_bit_nat_eq_self)

lemma digit64: "c < 64 \<Longrightarrow> (q * 64 + c) div 64 = (q :: nat)" "c < 64 \<Longrightarrow> (q * 64 + c) mod 64 = (c :: nat)"
  by simp_all

lemma cont_byte: "n < 256 \<Longrightarrow> cont lo hi (of_nat n) \<longleftrightarrow> lo \<le> n \<and> n \<le> hi"
  by (simp add: cont_def unat_byte)

lemma decode_encode_2:
  assumes "r = a * 64 + b" and "2 \<le> a" "a < 32" "b < 64"
  shows "decode_rune (encode_rune r @ t) = (r, 2)"
proof -
  have "encode_rune r = [of_nat (0xC0 + a), of_nat (0x80 + b)]"
    using assms by (simp add: encode_rune_def)
  then show ?thesis
    using assms
    by (simp add: decode_rune_def Let_def unat_byte cont_byte second_range_def del: of_nat_add)
qed

lemma decode_encode_3:
  assumes "r = (a * 64 + b) * 64 + c" and "a < 16" "b < 64" "c < 64"
    and "0x800 \<le> r" and "valid_rune r"
  shows "decode_rune (encode_rune r @ t) = (r, 3)"
proof -
  have "r div 64 = a * 64 + b" "r mod 64 = c"
    unfolding assms(1) by (rule digit64 [OF assms(4)])+
  moreover have "r div 4096 = r div 64 div 64"
    by (simp flip: div_mult2_eq)
  ultimately have digits: "r div 4096 = a" "r div 64 mod 64 = b" "r mod 64 = c"
    using assms(3) by simp_all
  have "r < 0x10000"
    using assms by simp
  then have enc: "encode_rune r = [of_nat (0xE0 + a), of_nat (0x80 + b), of_nat (0x80 + c)]"
    using assms(5,6) unfolding encode_rune_def valid_rune_def digits by auto
  obtain lo hi where range: "second_range (0xE0 + a) = (lo, hi)"
    by fastforce
  have "lo \<le> 0x80 + b \<and> 0x80 + b \<le> hi"
    using assms range by (auto simp: second_range_def valid_rune_def split: if_splits)
  then show ?thesis
    using assms(1-4) unfolding enc
    by (simp add: decode_rune_def Let_def unat_byte cont_byte range del: of_nat_add)
qed

lemma decode_encode_4:
  assumes "r = ((a * 64 + b) * 64 + c) * 64 + d" and "a < 5" "b < 64" "c < 64" "d < 64"
    and "0x10000 \<le> r" and "valid_rune r"
  shows "decode_rune (encode_rune r @ t) = (r, 4)"
proof -
  have "r div 64 = (a * 64 + b) * 64 + c" "r mod 64 = d"
    unfolding assms(1) by (rule digit64 [OF assms(5)])+
  moreover have "r div 64 div 64 = a * 64 + b" "r div 64 mod 64 = c"
    unfolding calculation(1) by (rule digit64 [OF assms(4)])+
  moreover have "r div 4096 = r div 64 div 64" "r div 262144 = r div 64 div 64 div 64"
    by (simp_all flip: div_mult2_eq)
  ultimately have digits: "r div 262144 = a" "r div 4096 mod 64 = b" "r div 64 mod 64 = c"
      "r mod 64 = d"
    using assms(3) by simp_all
  have enc: "encode_rune r =
      [of_nat (0xF0 + a), of_nat (0x80 + b), of_nat (0x80 + c), of_nat (0x80 + d)]"
    using assms(6,7) unfolding encode_rune_def valid_rune_def digits by auto
  obtain lo hi where range: "second_range (0xF0 + a) = (lo, hi)"
    by fastforce
  have "lo \<le> 0x80 + b \<and> 0x80 + b \<le> hi"
    using assms range by (auto simp: second_range_def valid_rune_def split: if_splits)
  then show ?thesis
    using assms(1-5) unfolding enc
    by (simp add: decode_rune_def Let_def unat_byte cont_byte range del: of_nat_add)
qed

lemma decode_encode:
  assumes "valid_rune r"
  shows "decode_rune (encode_rune r @ t) = (r, length (encode_rune r))"
proof -
  consider "r < 0x80" | "0x80 \<le> r" "r < 0x800" | "0x800 \<le> r" "r < 0x10000" | "0x10000 \<le> r"
    by linarith
  then show ?thesis
  proof cases
    case 1
    then show ?thesis
      by (simp add: encode_rune_def decode_rune_def Let_def unat_byte split: prod.split)
  next
    case 2
    have "2 \<le> r div 64"
      using 2 div_le_mono [of 128 r 64] by simp
    moreover have "r div 64 < 32"
      using 2 by (intro less_mult_imp_div_less) simp
    ultimately show ?thesis
      using decode_encode_2 [of r "r div 64" "r mod 64" t] 2 by (simp add: encode_rune_def)
  next
    case 3
    have "r = (r div 64 div 64 * 64 + r div 64 mod 64) * 64 + r mod 64"
      by simp
    moreover have "r div 64 div 64 < 16"
      using 3 by (intro less_mult_imp_div_less) simp
    ultimately show ?thesis
      using decode_encode_3 [of r "r div 64 div 64" "r div 64 mod 64" "r mod 64" t] 3 assms
      by (simp add: encode_rune_def valid_rune_def)
  next
    case 4
    have "r = ((r div 64 div 64 div 64 * 64 + r div 64 div 64 mod 64) * 64 + r div 64 mod 64) * 64 + r mod 64"
      by simp
    moreover have "r div 64 div 64 div 64 < 5"
      using assms by (intro less_mult_imp_div_less) (auto simp: valid_rune_def)
    ultimately show ?thesis
      using decode_encode_4 [of r "r div 64 div 64 div 64" "r div 64 div 64 mod 64" "r div 64 mod 64" "r mod 64" t] 4 assms
      by (simp add: encode_rune_def valid_rune_def)
  qed
qed

lemma encode_rune_length: "1 \<le> length (encode_rune r)"
  by (simp add: encode_rune_def)

lemma runes_from_encode:
  "valid_rune r \<Longrightarrow> runes_from off (encode_rune r @ s) =
     (off, r) # runes_from (off + length (encode_rune r)) s"
  using encode_rune_length [of r] by (subst runes_from.simps) (auto simp: decode_encode)

end
