(* ===== verification/Argparse.thy ===== *)
theory Argparse
  imports Utf8
begin

text \<open>
  \<^verbatim>\<open>argparse/\<close>: the parsers of the command line and of the procs given on it, and their
  combinators. A parser takes a string and returns a value, how much of the string it read and an
  error, as in Go, where all three are returned even with an error. A parse may panic (\<open>Panic\<close>)
  or never return (\<open>None\<close>).
\<close>

section \<open>Errors, values, parsers\<close>

datatype perr =
    PInvalidSyntax
  | PTooManyArgs
  | PTooFewArgs
  | PUnclosedBracket
  | PDetails perr bytes int
  | PText string

fun original_err :: "perr \<Rightarrow> perr" where
  "original_err (PDetails e _ _) = original_err e"
| "original_err e = e"

text \<open>\<open>interface{}\<close> as the parsers use it; \<open>VAny\<close> is what a caller's functions make.\<close>

datatype 'v pval = VNil | VStr bytes | VInt int | VUint uint64 | VList "'v pval list" | VAny 'v

type_synonym 'v pres = "('v pval \<times> int \<times> perr option) outcome option"

text \<open>
  \<open>p_empty\<close> is \<open>Empty\<close>, for a parser that has it; \<open>p_pair\<close> tells whether its type is \<open>ArgPair\<close>.
\<close>

record 'v parser =
  p_parse :: "bytes \<Rightarrow> 'v pres"
  p_empty :: "('v pval \<times> perr option) option"
  p_pair :: bool

definition plain :: "(bytes \<Rightarrow> 'v pres) \<Rightarrow> 'v parser" where
  "plain f = \<lparr>p_parse = f, p_empty = None, p_pair = False\<rparr>"

definition pbind :: "'a outcome option \<Rightarrow> ('a \<Rightarrow> 'b outcome option) \<Rightarrow> 'b outcome option" where
  "pbind m f = Option.bind m (\<lambda>r. case r of Panic e \<Rightarrow> Some (Panic e) | Ret x \<Rightarrow> f x)"

lemma pbind_simps [simp]:
  "pbind None f = None" "pbind (Some (Panic e)) f = Some (Panic e)" "pbind (Some (Ret x)) f = f x"
  by (simp_all add: pbind_def)

abbreviation pret :: "'a \<Rightarrow> 'a outcome option" where
  "pret x \<equiv> Some (Ret x)"

text \<open>\<open>str[pos:]\<close>\<close>

definition slice_from :: "bytes \<Rightarrow> int \<Rightarrow> bytes outcome option" where
  "slice_from s pos =
     (if pos < 0 \<or> int (length s) < pos then Some (Panic ''slice bounds out of range'')
      else pret (drop (nat pos) s))"

section \<open>Spaces\<close>

definition count_left_spaces :: "bytes \<Rightarrow> nat" where
  "count_left_spaces s = length (takeWhile (\<lambda>(_, r). is_space_rune r) (runes s))"

definition space_end_index :: "bytes \<Rightarrow> nat" where
  "space_end_index s = (case index_func is_space_rune s of Some i \<Rightarrow> i | None \<Rightarrow> length s)"

section \<open>Single arguments\<close>

text \<open>\<open>strconv.Atoi\<close>\<close>

definition digit_byte :: "byte \<Rightarrow> bool" where
  "digit_byte b \<longleftrightarrow> 48 \<le> b \<and> b \<le> 57"

definition digits_value :: "bytes \<Rightarrow> nat" where
  "digits_value s = foldl (\<lambda>n b. 10 * n + (unat b - 48)) 0 s"

definition atoi :: "bytes \<Rightarrow> int \<times> perr option" where
  "atoi s =
     (let neg = (s \<noteq> [] \<and> hd s = 45); ds = (if s \<noteq> [] \<and> (hd s = 43 \<or> hd s = 45) then tl s else s) in
      if ds = [] \<or> (\<exists>b \<in> set ds. \<not> digit_byte b) then (0, Some (PText ''invalid syntax''))
      else (let n = int (digits_value ds); i = (if neg then - n else n) in
        if i < - (2 ^ 63) then (- (2 ^ 63), Some (PText ''value out of range''))
        else if 2 ^ 63 \<le> i then (2 ^ 63 - 1, Some (PText ''value out of range''))
        else (i, None)))"

definition int_parse :: "bytes \<Rightarrow> 'v pres" where
  "int_parse s =
     (let i = space_end_index s in
      case atoi (take i s) of (n, e) \<Rightarrow> pret (VInt n, int i, e))"

definition arg_int :: "'v parser" where
  "arg_int = plain int_parse"

text \<open>
  \<open>humanize.ParseBytes\<close> is a parameter: its number and its error, \<open>Inl\<close> a \<open>strconv\<close> syntax
  error and \<open>Inr\<close> any other.
\<close>

definition bytes_parse ::
  "(bytes \<Rightarrow> uint64 \<times> (unit + string) option) \<Rightarrow> bytes \<Rightarrow> 'v pres" where
  "bytes_parse parse_bytes s =
     (let i = space_end_index s in
      case parse_bytes (take i s) of (n, e) \<Rightarrow>
        pret (VUint n, int i,
              case e of None \<Rightarrow> None | Some (Inl _) \<Rightarrow> Some PInvalidSyntax | Some (Inr t) \<Rightarrow> Some (PText t)))"

definition arg_bytes :: "(bytes \<Rightarrow> uint64 \<times> (unit + string) option) \<Rightarrow> 'v parser" where
  "arg_bytes parse_bytes = plain (bytes_parse parse_bytes)"

definition space_only_parse :: "bytes \<Rightarrow> 'v pres" where
  "space_only_parse s = (let i = space_end_index s in pret (VStr (take i s), int i, None))"

text \<open>The search for the closing quote: the runes before it, where it is, and the runes after.\<close>

fun find_quote :: "(nat \<times> rune) list \<Rightarrow> rune list \<Rightarrow> (rune list \<times> nat \<times> (nat \<times> rune) list) option" where
  "find_quote [] acc = None"
| "find_quote ((i, r) # rs) acc = (if r = 34 then Some (acc, i, rs) else find_quote rs (acc @ [r]))"

definition str_parse :: "bytes \<Rightarrow> 'v pres" where
  "str_parse s =
     (case runes s of
        [] \<Rightarrow> pret (VStr [], 0, None)
      | (_, first) # rs \<Rightarrow>
          if first \<noteq> 34 then space_only_parse s
          else (case find_quote rs [] of
                  None \<Rightarrow> space_only_parse s
                | Some (acc, i, rest) \<Rightarrow>
                    if rest \<noteq> [] \<and> \<not> is_space_rune (snd (hd rest)) then space_only_parse s
                    else pret (VStr (concat (map encode_rune acc)), int i + 1, None)))"

definition arg_str :: "'v parser" where
  "arg_str = plain str_parse"

section \<open>Combinators\<close>

text \<open>
  What a function given to a parser returns. It may panic, and nothing recovers from that: the
  parse panics with it. The place \<open>n\<close> is the parser's.
\<close>

type_synonym 'v fn_res = "('v pval \<times> perr option) outcome"

definition placed :: "int \<Rightarrow> 'v fn_res \<Rightarrow> 'v pres" where
  "placed n r = Some (case r of Panic m \<Rightarrow> Panic m | Ret (v, e) \<Rightarrow> Ret (v, n, e))"

lemma placed_simps [simp]:
  "placed n (Ret (v, e)) = pret (v, n, e)" "placed n (Panic m) = Some (Panic m)"
  by (simp_all add: placed_def)

definition filter_parse :: "'v parser \<Rightarrow> ('v pval \<Rightarrow> 'v fn_res) \<Rightarrow> bytes \<Rightarrow> 'v pres" where
  "filter_parse p f s =
     pbind (p_parse p s) (\<lambda>(v, n, e).
       case e of Some _ \<Rightarrow> pret (v, n, e) | None \<Rightarrow> placed n (f v))"

definition arg_filter :: "'v parser \<Rightarrow> ('v pval \<Rightarrow> 'v fn_res) \<Rightarrow> 'v parser" where
  "arg_filter p f = plain (filter_parse p f)"

fun or_parse :: "'v parser list \<Rightarrow> 'v pval \<times> int \<times> perr option \<Rightarrow> bytes \<Rightarrow> 'v pres" where
  "or_parse [] r s = pret r"
| "or_parse (arg # args) r s =
     pbind (p_parse arg s) (\<lambda>(v, n, e).
       if map_option original_err e = Some PInvalidSyntax then or_parse args (v, n, e) s
       else pret (v, n, e))"

definition arg_or :: "'v parser list \<Rightarrow> 'v parser" where
  "arg_or args = plain (or_parse args (VNil, 0, None))"

text \<open>The loop of \<open>Args\<close>: an early return (\<open>Inl\<close>) or the values and the position.\<close>

fun args_loop :: "bytes \<Rightarrow> 'v parser list \<Rightarrow> int \<Rightarrow> (perr \<times> int + 'v pval list \<times> int) outcome option" where
  "args_loop str [] pos = pret (Inr ([], pos))"
| "args_loop str (arg # args) pos =
     pbind (slice_from str pos) (\<lambda>s.
       let pos = pos + int (count_left_spaces s) in
       if int (length str) \<le> pos then
         (case p_empty arg of
            None \<Rightarrow> pret (Inl (PTooFewArgs, pos))
          | Some (_, Some e) \<Rightarrow> pret (Inl (e, pos))
          | Some (val, None) \<Rightarrow>
              pbind (args_loop str args pos) (\<lambda>r.
                pret (map_sum (\<lambda>x. x) (\<lambda>(vals, p). (val # vals, p)) r)))
       else
         pbind (slice_from str pos) (\<lambda>s1.
         pbind (p_parse arg s1) (\<lambda>(val, n, e).
           case e of
             Some e \<Rightarrow> pret (Inl (PDetails e str (pos + n), pos + n))
           | None \<Rightarrow>
               pbind (args_loop str args (pos + n)) (\<lambda>r.
                 pret (map_sum (\<lambda>x. x) (\<lambda>(vals, p). (val # vals, p)) r)))))"

definition args_parse :: "'v parser list \<Rightarrow> bytes \<Rightarrow> 'v pres" where
  "args_parse args str =
     pbind (args_loop str args 0) (\<lambda>r.
       case r of
         Inl (e, pos) \<Rightarrow> pret (VNil, pos, Some e)
       | Inr (vals, pos) \<Rightarrow>
           pbind (slice_from str pos) (\<lambda>s.
             let pos = pos + int (count_left_spaces s) in
             pret (VList vals, pos, if pos \<noteq> int (length str) then Some PTooManyArgs else None)))"

definition args :: "'v parser list \<Rightarrow> 'v parser" where
  "args ps = plain (args_parse ps)"

text \<open>The loop of \<open>ArgVariadic\<close>, which need not end.\<close>

partial_function (option) variadic_loop ::
  "'v parser \<Rightarrow> bytes \<Rightarrow> int \<Rightarrow> 'v pval list \<Rightarrow> 'v pres" where
  "variadic_loop arg str pos vals =
     Option.bind (slice_from str pos) (\<lambda>r. case r of Panic e \<Rightarrow> Some (Panic e) | Ret s \<Rightarrow>
       (let pos = pos + int (count_left_spaces s) in
        if int (length str) \<le> pos then pret (VList vals, pos, None)
        else
          Option.bind (slice_from str pos) (\<lambda>r. case r of Panic e \<Rightarrow> Some (Panic e) | Ret s1 \<Rightarrow>
          Option.bind (p_parse arg s1) (\<lambda>r. case r of Panic e \<Rightarrow> Some (Panic e) | Ret (val, n, err) \<Rightarrow>
            (case err of
               Some e \<Rightarrow> pret (VNil, pos + n, Some (PDetails e str (pos + n)))
             | None \<Rightarrow> variadic_loop arg str (pos + n) (vals @ [val]))))))"

definition arg_variadic :: "'v parser \<Rightarrow> 'v parser" where
  "arg_variadic arg =
     \<lparr>p_parse = (\<lambda>str. variadic_loop arg str 0 []), p_empty = Some (VList [], None), p_pair = False\<rparr>"

text \<open>\<open>ArgPair\<close>: the separator after which the right side begins.\<close>

fun pair_index :: "nat \<Rightarrow> (nat \<times> rune) list \<Rightarrow> nat option" where
  "pair_index skip [] = None"
| "pair_index skip ((i, r) # rs) =
     (if r \<noteq> 61 then pair_index skip rs
      else if skip = 0 then Some i
      else pair_index (skip - 1) rs)"

definition pair_parse ::
  "'v parser \<Rightarrow> 'v parser \<Rightarrow> ('v pval \<Rightarrow> 'v pval \<Rightarrow> 'v fn_res) \<Rightarrow> bytes \<Rightarrow> 'v pres" where
  "pair_parse left right run str =
     (case pair_index (if p_pair left then 1 else 0) (runes str) of
        None \<Rightarrow> pret (VNil, 0, Some PInvalidSyntax)
      | Some i \<Rightarrow>
          pbind (p_parse left (take i str)) (\<lambda>(l, n, e).
            case e of
              Some e \<Rightarrow> pret (VNil, 0, Some (PDetails e str n))
            | None \<Rightarrow>
                (let pos = int i + 1 in
                 pbind (slice_from str pos) (\<lambda>s.
                 pbind (p_parse right s) (\<lambda>(r, n, e).
                   case e of
                     Some e \<Rightarrow> pret (VNil, pos + n, Some (PDetails e str (pos + n)))
                   | None \<Rightarrow> placed (pos + n) (run l r))))))"

definition arg_pair ::
  "'v parser \<Rightarrow> 'v parser \<Rightarrow> ('v pval \<Rightarrow> 'v pval \<Rightarrow> 'v fn_res) \<Rightarrow> 'v parser" where
  "arg_pair left right run = \<lparr>p_parse = pair_parse left right run, p_empty = None, p_pair = True\<rparr>"

type_synonym brackets = "rune \<times> rune"

definition lambda_brackets :: brackets where
  "lambda_brackets = (40, 41)"

text \<open>\<open>ArgPiped\<close>: where the pipe is that ends an argument, outside of brackets if there are any.\<close>

fun pipe_index :: "brackets option \<Rightarrow> int \<Rightarrow> (nat \<times> rune) list \<Rightarrow> nat option" where
  "pipe_index b nest [] = None"
| "pipe_index None nest ((i, r) # rs) = (if r = 124 then Some i else pipe_index None nest rs)"
| "pipe_index (Some (op, cl)) nest ((i, r) # rs) =
     (if r = op then pipe_index (Some (op, cl)) (nest + 1) rs
      else if r = cl then pipe_index (Some (op, cl)) (nest - 1) rs
      else if r = 124 \<and> nest = 0 then Some i
      else pipe_index (Some (op, cl)) nest rs)"

lemma pipe_index_in: "pipe_index b nest rs = Some i \<Longrightarrow> \<exists>r. (i, r) \<in> set rs"
  by (induction b nest rs rule: pipe_index.induct) (auto split: if_splits)

lemma pipe_index_bound: "pipe_index b nest (runes s) = Some i \<Longrightarrow> i < length s"
  using pipe_index_in runes_from_offset [of i _ 0 s] by (fastforce simp: runes_def)

text \<open>The next argument, and how many bytes it takes with the pipe after it.\<close>

definition piped_arg :: "brackets option \<Rightarrow> bytes \<Rightarrow> bytes \<times> nat" where
  "piped_arg b s =
     (case pipe_index b 0 (runes s) of None \<Rightarrow> (s, length s) | Some i \<Rightarrow> (take i s, i + 1))"

lemma piped_arg_bounds:
  "s \<noteq> [] \<Longrightarrow> 0 < snd (piped_arg b s) \<and> snd (piped_arg b s) \<le> length s \<and>
    length (fst (piped_arg b s)) \<le> snd (piped_arg b s)"
  using pipe_index_bound [of b 0 s] by (auto simp: piped_arg_def split: option.split)

text \<open>The loop over what is left of the string, \<open>s\<close>, from position \<open>pos\<close>.\<close>

function piped_loop ::
  "'v parser \<Rightarrow> brackets option \<Rightarrow> bytes \<Rightarrow> int \<Rightarrow> bytes \<Rightarrow> 'v pval list \<Rightarrow> 'v pres" where
  "piped_loop arg nest str pos s vals =
     (let k = count_left_spaces s; pos1 = pos + int k; s1 = drop k s in
      if s1 = [] then pret (VList vals, pos1, None)
      else
        pbind (p_parse arg (fst (piped_arg nest s1))) (\<lambda>(val, n, e).
          case e of
            Some e \<Rightarrow> pret (VNil, pos1, Some (PDetails e str (pos1 + n)))
          | None \<Rightarrow>
              piped_loop arg nest str (pos1 + int (snd (piped_arg nest s1)))
                (drop (snd (piped_arg nest s1)) s1) (vals @ [val])))"
  by pat_completeness auto
termination
proof (relation "measure (\<lambda>(arg, nest, str, pos, s, vals). length s)", goal_cases)
  case (2 arg nest str pos s vals k pos1 s1 x)
  have "length s1 - snd (piped_arg nest s1) < length s"
    using piped_arg_bounds [OF 2(4), of nest] 2(3) 2(4) by auto
  then show ?case
    by simp
qed simp

declare piped_loop.simps [simp del]

definition arg_piped :: "'v parser \<Rightarrow> brackets option \<Rightarrow> 'v parser" where
  "arg_piped arg nest = plain (\<lambda>str. piped_loop arg nest str 0 str [])"

text \<open>\<open>ArgLambda\<close>: the bracket that closes the one already open, and how many are open then.\<close>

fun bracket_index :: "brackets \<Rightarrow> int \<Rightarrow> (nat \<times> rune) list \<Rightarrow> int \<times> nat option" where
  "bracket_index b nest [] = (nest, None)"
| "bracket_index (op, cl) nest ((i, r) # rs) =
     (if r = op then bracket_index (op, cl) (nest + 1) rs
      else if r = cl then
        (if nest - 1 = 0 then (0, Some i) else bracket_index (op, cl) (nest - 1) rs)
      else bracket_index (op, cl) nest rs)"

text \<open>
  \<open>RunFn\<close>. \<open>ArgLambda\<close> recovers from the panic of the assertion on what its parser of arguments
  returned, but not from one of \<open>Run\<close>.
\<close>

type_synonym 'v run_fn = "'v pval list \<Rightarrow> 'v fn_res"

definition nop_run :: "'v run_fn" where
  "nop_run _ = Ret (VNil, None)"

definition lambda_args :: "'v parser option \<Rightarrow> 'v parser" where
  "lambda_args ps = (case ps of None \<Rightarrow> args [] | Some p \<Rightarrow> p)"

definition lambda_run :: "'v run_fn option \<Rightarrow> 'v run_fn" where
  "lambda_run run = (case run of None \<Rightarrow> nop_run | Some f \<Rightarrow> f)"

definition lambda_parse ::
  "'v parser option \<Rightarrow> 'v run_fn option \<Rightarrow> brackets option \<Rightarrow> bytes \<Rightarrow> 'v pres" where
  "lambda_parse ps run b str =
     (let (op, cl) = case b of None \<Rightarrow> lambda_brackets | Some b \<Rightarrow> b in
      if length str < 2 \<or> fst (decode_rune str) \<noteq> op then pret (VNil, 0, Some PInvalidSyntax)
      else
        (let str = tl str; (nest, i) = bracket_index (op, cl) 1 (runes str) in
         if 0 < nest then pret (VNil, 0, Some PUnclosedBracket)
         else (case i of
             None \<Rightarrow> Some (Panic ''slice bounds out of range'')
           | Some i \<Rightarrow>
               pbind (p_parse (lambda_args ps) (take i str)) (\<lambda>(iargs, n, e).
                 case e of
                   Some e \<Rightarrow> pret (VNil, 0, Some e)
                 | None \<Rightarrow>
                     (case iargs of
                        VList vals \<Rightarrow> placed (int i + 2) (lambda_run run vals)
                      | _ \<Rightarrow> pret (VNil, 0, Some (PText ''wrong return type of Args parser'')))))))"

definition arg_lambda ::
  "'v parser option \<Rightarrow> 'v run_fn option \<Rightarrow> brackets option \<Rightarrow> 'v parser" where
  "arg_lambda ps run b = plain (lambda_parse ps run b)"

text \<open>
  \<open>fnRe\<close>: a name, and the brackets right after it up to the last closing bracket, if there
  are any.
\<close>

definition word_byte :: "byte \<Rightarrow> bool" where
  "word_byte b \<longleftrightarrow> (48 \<le> b \<and> b \<le> 57) \<or> (65 \<le> b \<and> b \<le> 90) \<or> b = 95 \<or> (97 \<le> b \<and> b \<le> 122)"

definition fn_match :: "bytes \<Rightarrow> (bytes \<times> bytes) option" where
  "fn_match s =
     (let name = takeWhile word_byte s; rest = drop (length name) s in
      if name = [] then None
      else Some (name,
        if rest \<noteq> [] \<and> hd rest = 40 \<and> 41 \<in> set rest
        then rev (dropWhile (\<lambda>b. b \<noteq> 41) (rev rest)) else []))"

definition fn_parse :: "(bytes \<Rightarrow> 'v parser option) \<Rightarrow> bytes \<Rightarrow> 'v pres" where
  "fn_parse a str =
     (case fn_match str of
        None \<Rightarrow> pret (VNil, 0, Some PInvalidSyntax)
      | Some (name, args_str) \<Rightarrow>
          (case a name of
             None \<Rightarrow> pret (VNil, 0, Some (PText ''no such function''))
           | Some parser \<Rightarrow>
               (let pos = length name;
                    (pos, args_str, adj) =
                      if args_str = [] then
                        (let pos = pos + count_left_spaces (drop pos str) in
                         (pos, 40 # drop pos str @ [41], - 2))
                      else (pos, args_str, 0)
                in pbind (p_parse parser args_str) (\<lambda>(res, n, e).
                     let pos = int pos + n in
                     case e of
                       Some e \<Rightarrow> pret (res, pos, Some (PDetails e str pos))
                     | None \<Rightarrow> pret (res, pos + adj, None)))))"

definition arg_fn :: "(bytes \<Rightarrow> 'v parser option) \<Rightarrow> 'v parser" where
  "arg_fn a = plain (fn_parse a)"

section \<open>Error texts\<close>

text \<open>The string an error is shown in, cut at the line breaks around the position.\<close>

definition etc :: bytes where
  "etc = [46, 46]"

fun newline_where :: "(nat \<Rightarrow> bool) \<Rightarrow> (nat \<times> rune) list \<Rightarrow> nat option" where
  "newline_where P [] = None"
| "newline_where P ((i, r) # rs) = (if r = 10 \<and> P i then Some i else newline_where P rs)"

definition shorten :: "bytes \<Rightarrow> int \<Rightarrow> bytes \<times> int" where
  "shorten str pos =
     (let (str, pos) =
        (case newline_where (\<lambda>i. int i < pos) (runes str) of
           None \<Rightarrow> (str, pos)
         | Some i \<Rightarrow> (etc @ drop (i + 1) str, int (length etc) - int (i + 1) + pos))
      in (case newline_where (\<lambda>i. pos \<le> int i) (runes str) of
            None \<Rightarrow> (str, pos)
          | Some i \<Rightarrow> (take i str @ etc, pos)))"

text \<open>
  \<open>fmt.Sprintf("%*s", width, " ")\<close>: a negative width pads on the other side, and one beyond
  a million is refused.
\<close>

definition star_space :: "int \<Rightarrow> bytes" where
  "star_space width =
     (if 1000000 < \<bar>width\<bar> then bytes_of ''%!(BADWIDTH) '' else replicate (max 1 (nat \<bar>width\<bar>)) 32)"

text \<open>
  \<open>Error\<close> of \<open>ErrDetails\<close> and of the errors in it: the innermost details tell where, with a
  caret below the place.
\<close>

fun perr_error :: "perr \<Rightarrow> bytes" where
  "perr_error PInvalidSyntax = bytes_of ''invalid syntax''"
| "perr_error PTooManyArgs = bytes_of ''too many args''"
| "perr_error PTooFewArgs = bytes_of ''too few args''"
| "perr_error PUnclosedBracket = bytes_of ''unclosed bracket''"
| "perr_error (PText t) = bytes_of t"
| "perr_error (PDetails e s n) =
     (case e of
        PDetails _ _ _ \<Rightarrow> perr_error e
      | _ \<Rightarrow>
          (case shorten s n of (str, pos) \<Rightarrow>
             perr_error e @ 10 # bytes_of ''  in '' @ 34 # str @ 34 # 10 # star_space (pos + 6) @ [94]))"

end
