(* ===== verification/Argparse_Contract.thy ===== *)
theory Argparse_Contract
  imports Argparse
begin

text \<open>
  The contract of the parsers: a parse ends, the only panics are those of the functions a parser
  was given, and a parse without error has read between nothing and the whole of its string. Every
  parser of \<^verbatim>\<open>argparse/\<close> meets it, combinators when their parts do. A variadic argument
  needs more of its part, that it reads something, and a function that its lambda reads
  at least two bytes, the brackets.
\<close>

section \<open>Bounds of the scans\<close>

lemma takeWhile_le: "length (takeWhile P xs) \<le> length xs"
  by (simp add: length_takeWhile_le)

lemma count_left_spaces_le [simp]: "count_left_spaces s \<le> length s"
  unfolding count_left_spaces_def runes_def
  by (rule order_trans [OF takeWhile_le runes_from_length])

lemma space_end_index_le [simp]: "space_end_index s \<le> length s"
  using index_func_bound [of is_space_rune s]
  by (auto simp: space_end_index_def split: option.split)

definition starts_with_space :: "bytes \<Rightarrow> bool" where
  "starts_with_space s \<longleftrightarrow> s \<noteq> [] \<and> is_space_rune (fst (decode_rune s))"

lemma runes_Cons:
  "s \<noteq> [] \<Longrightarrow> runes s =
     (0, fst (decode_rune s)) # runes_from (snd (decode_rune s)) (drop (snd (decode_rune s)) s)"
  by (simp add: runes_def) (subst runes_from.simps, simp)

lemma runes_Nil [simp]: "runes [] = []"
  by (simp add: runes_def)

lemma count_left_spaces_pos: "starts_with_space s \<Longrightarrow> 0 < count_left_spaces s"
  by (simp add: starts_with_space_def count_left_spaces_def runes_Cons)

lemma count_left_spaces_0: "\<not> starts_with_space s \<Longrightarrow> count_left_spaces s = 0"
  by (cases "s = []") (simp_all add: starts_with_space_def count_left_spaces_def runes_Cons)

lemma index_rune_ge: "index_rune P (runes_from off s) = Some i \<Longrightarrow> off \<le> i"
  using index_rune_in [of P "runes_from off s" i] runes_from_offset [of i _ off s] by blast

lemma space_end_index_pos:
  assumes "s \<noteq> []" and "\<not> starts_with_space s"
  shows "0 < space_end_index s"
proof -
  have "0 < i" if "index_func is_space_rune s = Some i" for i
    using that assms index_rune_ge [of is_space_rune "snd (decode_rune s)" _ i]
      decode_rune_width [OF assms(1)]
    by (auto simp: index_func_def runes_Cons starts_with_space_def dest!: index_rune_ge)
  then show ?thesis
    using assms(1) by (auto simp: space_end_index_def split: option.split)
qed

lemma slice_from_ok: "0 \<le> pos \<Longrightarrow> pos \<le> int (length s) \<Longrightarrow> slice_from s pos = pret (drop (nat pos) s)"
  by (simp add: slice_from_def)

lemma slice_from_None [simp]: "slice_from s pos \<noteq> None"
  by (simp add: slice_from_def)

lemma pbind_pret_iff: "pbind m f = pret y \<longleftrightarrow> (\<exists>x. m = pret x \<and> f x = pret y)"
  by (cases m) (auto simp: pbind_def split: outcome.split)

section \<open>How a parse ends\<close>

text \<open>
  \<open>ends P Q m\<close>: \<open>m\<close> ends, with a panic that satisfies \<open>P\<close> or a result that satisfies \<open>Q\<close>.
\<close>

definition ends :: "(string \<Rightarrow> bool) \<Rightarrow> ('a \<Rightarrow> bool) \<Rightarrow> 'a outcome option \<Rightarrow> bool" where
  "ends P Q m \<longleftrightarrow> (\<exists>r. m = Some r \<and> (case r of Panic e \<Rightarrow> P e | Ret x \<Rightarrow> Q x))"

lemma ends_simps [simp]:
  "\<not> ends P Q None" "ends P Q (Some (Panic e)) \<longleftrightarrow> P e" "ends P Q (pret x) \<longleftrightarrow> Q x"
  by (simp_all add: ends_def)

lemma endsE:
  assumes "ends P Q m"
  obtains e where "m = Some (Panic e)" and "P e" | x where "m = pret x" and "Q x"
proof -
  obtain r where "m = Some r" and "case r of Panic e \<Rightarrow> P e | Ret x \<Rightarrow> Q x"
    using assms by (auto simp: ends_def)
  then show thesis
    using that by (cases r) auto
qed

lemma ends_mono: "ends P Q m \<Longrightarrow> (\<And>x. Q x \<Longrightarrow> R x) \<Longrightarrow> ends P R m"
  by (erule endsE) simp_all

lemma ends_False: "ends (\<lambda>_. False) Q m \<longleftrightarrow> (\<exists>x. m = pret x \<and> Q x)"
  by (auto elim: endsE)

lemma ends_bindI: "ends P Q m \<Longrightarrow> (\<And>x. Q x \<Longrightarrow> ends P R (f x)) \<Longrightarrow> ends P R (pbind m f)"
  by (erule endsE) simp_all

lemma ends_placed [simp]:
  "ends P Q (placed n r) \<longleftrightarrow> (case r of Panic e \<Rightarrow> P e | Ret (v, e) \<Rightarrow> Q (v, n, e))"
  by (simp add: placed_def split: outcome.split prod.split)

text \<open>Without an error, the place is between two bounds.\<close>

definition reads :: "int \<Rightarrow> int \<Rightarrow> 'v pval \<times> int \<times> perr option \<Rightarrow> bool" where
  "reads lo hi r \<longleftrightarrow> (case r of (v, n, e) \<Rightarrow> e = None \<longrightarrow> lo \<le> n \<and> n \<le> hi)"

lemma reads_simps [simp]:
  "reads lo hi (v, n, None) \<longleftrightarrow> lo \<le> n \<and> n \<le> hi" "reads lo hi (v, n, Some e)"
  by (simp_all add: reads_def)

lemma reads_if [simp]: "reads lo hi (v, n, if b then Some e else None) \<longleftrightarrow> b \<or> lo \<le> n \<and> n \<le> hi"
  by simp

text \<open>Each result of a parser is an error or has a place in its bounds.\<close>

lemma ends_parseI:
  fixes m :: "'v pres"
  assumes "ends P (reads lo hi) m" and "\<And>(v :: 'v pval) n. lo \<le> n \<Longrightarrow> n \<le> hi \<Longrightarrow> ends P R (f (v, n, None))"
    and "\<And>(v :: 'v pval) n e. ends P R (f (v, n, Some e))"
  shows "ends P R (pbind m f)"
proof (rule ends_bindI [OF assms(1)], clarify)
  fix v :: "'v pval" and n e
  assume "reads lo hi (v, n, e)"
  then show "ends P R (f (v, n, e))"
    using assms(2,3) by (cases e) auto
qed

section \<open>The contract\<close>

text \<open>
  A parse ends, and what panics there are satisfy \<open>P\<close>: those of the functions given to the
  parser, as the parsers make none themselves.
\<close>

locale parser_within =
  fixes p :: "'v parser" and P :: "string \<Rightarrow> bool"
  assumes total: "ends P (reads 0 (int (length s))) (p_parse p s)"
begin

lemma filtered:
  assumes "\<And>v m. f v = Panic m \<Longrightarrow> P m"
  shows "parser_within (arg_filter p f) P"
proof
  show "ends P (reads 0 (int (length s))) (p_parse (arg_filter p f) s)" for s
    by (auto simp: arg_filter_def plain_def filter_parse_def reads_def assms
        intro!: ends_parseI [OF total] split: outcome.split)
qed

text \<open>\<open>ArgPiped\<close> adds no panic and, without an error, has read the whole string.\<close>

lemma piped_total:
  assumes "int (length str) = pos + int (length s)"
  shows "ends P (\<lambda>(v, n, e). e = None \<longrightarrow> n = int (length str) \<and> (\<exists>xs. v = VList (vals @ xs)))
    (piped_loop p b str pos s vals)"
  using assms
proof (induction "length s" arbitrary: pos s vals rule: less_induct)
  case less
  define s1 where "s1 = drop (count_left_spaces s) s"
  have s1: "int (length s1) = int (length s) - int (count_left_spaces s)"
    by (simp add: s1_def)
  have rest: "ends P (\<lambda>(v, n, e). e = None \<longrightarrow> n = int (length str) \<and> (\<exists>xs. v = VList (vals @ xs)))
      (piped_loop p b str (pos + int (count_left_spaces s) + int (snd (piped_arg b s1)))
        (drop (snd (piped_arg b s1)) s1) (vals @ [v]))" if "s1 \<noteq> []" for v
  proof -
    note step = piped_arg_bounds [OF that, of b]
    show ?thesis
      by (rule ends_mono [OF less.hyps]) (use step s1 less.prems in \<open>auto simp: that\<close>)
  qed
  show ?case
    unfolding piped_loop.simps [of p b str pos s vals] Let_def s1_def [symmetric]
    using rest less.prems s1 by (auto intro!: ends_parseI [OF total])
qed

lemma piped: "parser_within (arg_piped p b) P"
proof
  show "ends P (reads 0 (int (length s))) (p_parse (arg_piped p b) s)" for s
    unfolding arg_piped_def plain_def
    using piped_total [of s 0 s "[]" b] by (auto simp: reads_def elim!: ends_mono)
qed

end

text \<open>A parser none of whose functions panics.\<close>

locale arg_parser = parser_within p "\<lambda>_. False" for p
begin

lemma parse_returns:
  obtains v n e where "p_parse p s = pret (v, n, e)" and "e = None \<longrightarrow> 0 \<le> n \<and> n \<le> int (length s)"
  using total [of s] by (fastforce simp: ends_False reads_def)

end

text \<open>A parser that reads something when there is something that is no space.\<close>

locale eager_parser = parser_within +
  assumes eager: "p_parse p s = pret (v, n, None) \<Longrightarrow> s \<noteq> [] \<Longrightarrow> \<not> starts_with_space s \<Longrightarrow> 1 \<le> n"
begin

lemma eager_ends:
  assumes "s \<noteq> []" and "\<not> starts_with_space s"
  shows "ends P (reads 1 (int (length s))) (p_parse p s)"
  by (rule endsE [OF total [of s]]) (use eager [of s] assms in \<open>auto simp: reads_def\<close>)

lemma variadic_total:
  assumes "0 \<le> pos" and "pos \<le> int (length str)"
  shows "ends P (\<lambda>(v, n, e). e = None \<longrightarrow> n = int (length str) \<and> (\<exists>xs. v = VList (vals @ xs)))
    (variadic_loop p str pos vals)"
  using assms
proof (induction "length str - nat pos" arbitrary: pos vals rule: less_induct)
  case less
  define s where "s = drop (nat pos) str"
  define pos1 where "pos1 = pos + int (count_left_spaces s)"
  define s1 where "s1 = drop (nat pos1) str"
  have s1: "s1 = drop (count_left_spaces s) s"
    using less.prems by (simp add: s1_def s_def pos1_def nat_add_distrib add.commute)
  have pos1: "0 \<le> pos1" "pos1 \<le> int (length str)"
    using less.prems count_left_spaces_le [of s] by (simp_all add: pos1_def s_def)
  have unfold: "variadic_loop p str pos vals =
      (if int (length str) \<le> pos1 then pret (VList vals, pos1, None)
       else pbind (p_parse p s1) (\<lambda>(v, n, e). case e of
         Some e \<Rightarrow> pret (VNil, pos1 + n, Some (PDetails e str (pos1 + n)))
       | None \<Rightarrow> variadic_loop p str (pos1 + n) (vals @ [v])))"
    by (subst variadic_loop.simps)
      (simp add: slice_from_ok less.prems pos1 Let_def s_def [symmetric] pos1_def [symmetric]
        s1_def [symmetric] pbind_def)
  have lo: "ends P (reads (if starts_with_space s then 0 else 1) (int (length s1))) (p_parse p s1)"
    if "pos1 < int (length str)"
  proof (cases "starts_with_space s")
    case False
    then have "s1 = s"
      by (simp add: s1 count_left_spaces_0)
    moreover have "s1 \<noteq> []"
      using that pos1 by (simp add: s1_def nat_less_iff not_le)
    ultimately show ?thesis
      using eager_ends [of s1] False by simp
  qed (simp add: total)
  have rest: "ends P (\<lambda>(v, n, e). e = None \<longrightarrow> n = int (length str) \<and> (\<exists>xs. v = VList (vals @ xs)))
      (variadic_loop p str (pos1 + n) (vals @ [v]))"
    if n: "(if starts_with_space s then 0 else 1) \<le> n" "n \<le> int (length s1)" and "pos1 < int (length str)" for n v
  proof -
    have "pos < pos1 + n"
      using count_left_spaces_pos [of s] n by (auto simp: pos1_def split: if_splits)
    moreover have "pos1 + n \<le> int (length str)"
      using n pos1 by (simp add: s1_def)
    ultimately show ?thesis
      using less.prems by (intro ends_mono [OF less.hyps [of "pos1 + n" "vals @ [v]"]]) auto
  qed
  show ?case
    unfolding unfold using pos1 rest lo by (auto intro!: ends_parseI)
qed

lemma variadic: "parser_within (arg_variadic p) P"
proof
  show "ends P (reads 0 (int (length s))) (p_parse (arg_variadic p) s)" for s
    using variadic_total [of 0 s "[]"] by (auto simp: arg_variadic_def reads_def elim!: ends_mono)
qed

end

text \<open>A parser that reads an opening and a closing bracket.\<close>

locale bracketed_parser = parser_within +
  assumes bracketed: "p_parse p s = pret (v, n, None) \<Longrightarrow> 2 \<le> n"
begin

lemma bracketed_ends: "ends P (reads 2 (int (length s))) (p_parse p s)"
  by (rule endsE [OF total [of s]]) (use bracketed [of s] in \<open>auto simp: reads_def\<close>)

end

sublocale bracketed_parser \<subseteq> eager_parser
proof
  show "1 \<le> n" if "p_parse p s = pret (v, n, None)" for s v n
    using bracketed [OF that] by simp
qed

text \<open>A parse within bounds is one of each kind, by the lower bound.\<close>

lemma eager_parserI:
  assumes "\<And>s. ends P (reads 0 (int (length s))) (p_parse p s)"
    and "\<And>s. s \<noteq> [] \<Longrightarrow> \<not> starts_with_space s \<Longrightarrow> ends P (reads 1 (int (length s))) (p_parse p s)"
  shows "eager_parser p P"
proof
  fix s v n
  assume "p_parse p s = pret (v, n, None)" "s \<noteq> []" "\<not> starts_with_space s"
  then show "1 \<le> n"
    using assms(2) [of s] by simp
qed (rule assms(1))

lemma bracketed_parserI:
  assumes "\<And>s. ends P (reads 2 (int (length s))) (p_parse p s)"
  shows "bracketed_parser p P"
proof
  show "ends P (reads 0 (int (length s))) (p_parse p s)" for s
    by (rule ends_mono [OF assms]) (auto simp: reads_def)
  show "2 \<le> n" if "p_parse p s = pret (v, n, None)" for s v n
    using assms [of s] that by simp
qed

lemma filter_ends:
  assumes "ends P (reads lo hi) (p_parse p s)" and "\<And>v m. f v = Panic m \<Longrightarrow> P m"
  shows "ends P (reads lo hi) (p_parse (arg_filter p f) s)"
  unfolding arg_filter_def plain_def filter_parse_def
  by (auto simp: reads_def assms(2) intro!: ends_parseI [OF assms(1)] split: outcome.split)

lemma eager_filtered:
  assumes "eager_parser p P" and "\<And>v m. f v = Panic m \<Longrightarrow> P m"
  shows "eager_parser (arg_filter p f) P"
proof (rule eager_parserI)
  fix s
  show "ends P (reads 0 (int (length s))) (p_parse (arg_filter p f) s)"
    by (rule filter_ends [OF parser_within.total [OF eager_parser.axioms(1) [OF assms(1)]] assms(2)])
  assume "s \<noteq> []" "\<not> starts_with_space s"
  from filter_ends [OF eager_parser.eager_ends [OF assms(1) this] assms(2)]
  show "ends P (reads 1 (int (length s))) (p_parse (arg_filter p f) s)" .
qed

lemma bracketed_filtered:
  assumes "bracketed_parser p P" and "\<And>v m. f v = Panic m \<Longrightarrow> P m"
  shows "bracketed_parser (arg_filter p f) P"
  by (rule bracketed_parserI) (rule filter_ends [OF bracketed_parser.bracketed_ends [OF assms(1)] assms(2)])

section \<open>The single arguments\<close>

interpretation int_arg: eager_parser arg_int P for P
proof (rule eager_parserI)
  fix s
  show "ends P (reads 0 (int (length s))) (p_parse arg_int s)"
    by (auto simp: arg_int_def plain_def int_parse_def Let_def reads_def split: prod.split)
  assume "s \<noteq> []" "\<not> starts_with_space s"
  then show "ends P (reads 1 (int (length s))) (p_parse arg_int s)"
    using space_end_index_pos [of s]
    by (auto simp: arg_int_def plain_def int_parse_def Let_def reads_def split: prod.split)
qed

interpretation bytes_arg: eager_parser "arg_bytes parse_bytes" P for parse_bytes P
proof (rule eager_parserI)
  fix s
  show "ends P (reads 0 (int (length s))) (p_parse (arg_bytes parse_bytes) s)"
    by (auto simp: arg_bytes_def plain_def bytes_parse_def Let_def reads_def split: prod.split)
  assume "s \<noteq> []" "\<not> starts_with_space s"
  then show "ends P (reads 1 (int (length s))) (p_parse (arg_bytes parse_bytes) s)"
    using space_end_index_pos [of s]
    by (auto simp: arg_bytes_def plain_def bytes_parse_def Let_def reads_def split: prod.split)
qed

lemma find_quote_bound:
  "find_quote rs acc = Some (cs, i, rest) \<Longrightarrow> \<exists>r. (i, r) \<in> set rs"
  by (induction rs acc rule: find_quote.induct) (auto split: if_splits)

lemma str_parse_returns:
  "\<exists>v n. str_parse s = pret (v, n, None) \<and> 0 \<le> n \<and> n \<le> int (length s) \<and>
     (s \<noteq> [] \<and> \<not> starts_with_space s \<longrightarrow> 1 \<le> n)"
  (is "?P (str_parse s)")
proof -
  have space: "?P (space_only_parse s)"
    using space_end_index_pos [of s] by (auto simp: space_only_parse_def Let_def)
  show ?thesis
  proof (cases "s = []")
    case True
    then show ?thesis
      by (simp add: str_parse_def)
  next
    case False
    define rs where "rs = runes_from (snd (decode_rune s)) (drop (snd (decode_rune s)) s)"
    have runes: "runes s = (0, fst (decode_rune s)) # rs"
      using False by (simp add: runes_Cons rs_def)
    show ?thesis
    proof (cases "find_quote rs []")
      case None
      then show ?thesis
        using space by (simp add: str_parse_def runes)
    next
      case (Some q)
      obtain cs i rest where q: "q = (cs, i, rest)"
        by (cases q) auto
      obtain r where "(i, r) \<in> set rs"
        using find_quote_bound [OF Some [unfolded q]] by (elim exE) (rule that)
      then have "i < length s"
        using runes_from_offset [of i r 0 s] runes by (simp add: runes_def)
      then have "?P (pret (VStr (concat (map encode_rune cs)), int i + 1, None))"
        by simp
      then show ?thesis
        using space by (simp add: str_parse_def runes Some q)
    qed
  qed
qed

lemma str_ends:
  "ends P (reads 0 (int (length s))) (str_parse s :: 'v pres)"
  "s \<noteq> [] \<Longrightarrow> \<not> starts_with_space s \<Longrightarrow> ends P (reads 1 (int (length s))) (str_parse s :: 'v pres)"
  using str_parse_returns [of s, where 'a = 'v] by auto

interpretation str_arg: eager_parser arg_str P for P
  by (rule eager_parserI) (simp_all add: arg_str_def plain_def str_ends)

text \<open>None of them is given a function: they never panic.\<close>

interpretation int_never: arg_parser arg_int
  by (rule arg_parser.intro) (rule int_arg.parser_within_axioms)

interpretation str_never: arg_parser arg_str
  by (rule arg_parser.intro) (rule str_arg.parser_within_axioms)

interpretation strs_never: arg_parser "arg_variadic arg_str"
  by (rule arg_parser.intro) (rule str_arg.variadic)

section \<open>The combinators\<close>

text \<open>What the loop of \<open>Args\<close> comes to: an error, or a value for each argument.\<close>

definition args_res_ok :: "bytes \<Rightarrow> 'v parser list \<Rightarrow> perr \<times> int + 'v pval list \<times> int \<Rightarrow> bool" where
  "args_res_ok str ps r \<longleftrightarrow>
     (case r of Inl _ \<Rightarrow> True
      | Inr (vals, n) \<Rightarrow> 0 \<le> n \<and> n \<le> int (length str) \<and> length vals = length ps)"

lemma args_res_ok_simps [simp]:
  "args_res_ok str ps (Inl e)"
  "args_res_ok str ps (Inr (vals, n)) \<longleftrightarrow> 0 \<le> n \<and> n \<le> int (length str) \<and> length vals = length ps"
  by (simp_all add: args_res_ok_def)

lemma args_loop_ok:
  assumes "\<And>p. p \<in> set ps \<Longrightarrow> parser_within p P" and "0 \<le> pos" and "pos \<le> int (length str)"
  shows "ends P (args_res_ok str ps) (args_loop str ps pos)"
  using assms
proof (induction ps arbitrary: pos)
  case (Cons p ps)
  define pos1 where "pos1 = pos + int (count_left_spaces (drop (nat pos) str))"
  have pos1: "0 \<le> pos1" "pos1 \<le> int (length str)"
    using Cons.prems(2,3) count_left_spaces_le [of "drop (nat pos) str"] by (simp_all add: pos1_def)
  have tail: "ends P (args_res_ok str (p # ps)) (pbind (args_loop str ps q)
      (\<lambda>r. pret (map_sum (\<lambda>x. x) (\<lambda>(vals, p). (v # vals, p)) r)))"
    if "0 \<le> q" "q \<le> int (length str)" for q v
    by (rule ends_bindI [OF Cons.IH [OF _ that]])
      (use Cons.prems(1) in \<open>auto simp: args_res_ok_def split: sum.splits\<close>)
  have p: "ends P (reads 0 (int (length (drop (nat pos1) str)))) (p_parse p (drop (nat pos1) str))"
    by (rule parser_within.total) (simp add: Cons.prems(1))
  show ?case
    using Cons.prems(2,3) pos1
    by (auto simp: slice_from_ok pos1_def [symmetric] Let_def split: option.split
        intro!: ends_parseI [OF p] tail)
qed simp

lemma args_total:
  assumes "\<And>p. p \<in> set ps \<Longrightarrow> parser_within p P"
  shows "ends P (\<lambda>(v, n, e). e = None \<longrightarrow>
      n = int (length s) \<and> (\<exists>vals. v = VList vals \<and> length vals = length ps)) (args_parse ps s)"
  unfolding args_parse_def
  by (rule ends_bindI [OF args_loop_ok]) (auto simp: assms slice_from_ok Let_def split: sum.split)

lemma within_args: "(\<And>p. p \<in> set ps \<Longrightarrow> parser_within p P) \<Longrightarrow> parser_within (args ps) P"
proof
  fix s
  assume "\<And>p. p \<in> set ps \<Longrightarrow> parser_within p P"
  then show "ends P (reads 0 (int (length s))) (p_parse (args ps) s)"
    unfolding args_def plain_def using args_total [of ps P s]
    by (auto simp: reads_def elim!: ends_mono)
qed

text \<open>\<open>ArgOr\<close> returns what one of its parsers returned.\<close>

lemma or_ends:
  assumes "\<And>p. p \<in> set ps \<Longrightarrow> ends P Q (p_parse p s)" and "ps \<noteq> []"
  shows "ends P Q (p_parse (arg_or ps) s)"
proof -
  have "ends P Q (or_parse ps r s)" if "ps \<noteq> [] \<or> Q r" for r
    using that assms(1)
  proof (induction ps arbitrary: r)
    case (Cons p ps)
    have "ends P Q (p_parse p s)"
      using Cons.prems(2) by simp
    then show ?case
      by (auto intro!: ends_bindI Cons.IH Cons.prems(2))
  qed simp
  then show ?thesis
    using assms(2) by (simp add: arg_or_def plain_def)
qed

lemma within_or:
  assumes "\<And>p. p \<in> set ps \<Longrightarrow> parser_within p P" and "ps \<noteq> []"
  shows "parser_within (arg_or ps) P"
  by (rule parser_within.intro) (rule or_ends [OF parser_within.total [OF assms(1)] assms(2)])

lemma eager_or:
  assumes "\<And>p. p \<in> set ps \<Longrightarrow> eager_parser p P" and "ps \<noteq> []"
  shows "eager_parser (arg_or ps) P"
proof (rule eager_parserI)
  fix s
  show "ends P (reads 0 (int (length s))) (p_parse (arg_or ps) s)"
    by (rule or_ends [OF parser_within.total [OF eager_parser.axioms(1) [OF assms(1)]] assms(2)])
  assume "s \<noteq> []" "\<not> starts_with_space s"
  then show "ends P (reads 1 (int (length s))) (p_parse (arg_or ps) s)"
    using or_ends [OF eager_parser.eager_ends [OF assms(1)] assms(2)] by blast
qed

lemma pair_index_in: "pair_index k rs = Some i \<Longrightarrow> \<exists>r. (i, r) \<in> set rs"
  by (induction k rs rule: pair_index.induct) (auto split: if_splits)

lemma eager_pair:
  assumes "parser_within l P" and "parser_within r P" and "\<And>v w m. run v w = Panic m \<Longrightarrow> P m"
  shows "eager_parser (arg_pair l r run) P"
proof -
  have "ends P (reads 1 (int (length s))) (pair_parse l r run s)" for s
  proof (cases "pair_index (if p_pair l then 1 else 0) (runes s)")
    case None
    then show ?thesis
      by (simp add: pair_parse_def)
  next
    case (Some i)
    obtain c where "(i, c) \<in> set (runes s)"
      using pair_index_in [OF Some] by blast
    then have i: "i < length s"
      using runes_from_offset [of i c 0 s] by (simp add: runes_def)
    then have "slice_from s (int i + 1) = pret (drop (i + 1) s)"
      by (subst slice_from_ok) (auto simp: nat_add_distrib)
    then show ?thesis
      using i Some assms(3) by (auto simp: pair_parse_def Let_def reads_def split: option.split outcome.split
          intro!: ends_parseI [OF parser_within.total [OF assms(1)]] ends_parseI [OF parser_within.total [OF assms(2)]])
  qed
  note pair = this
  have "ends P (reads 0 (int (length s))) (pair_parse l r run s)" for s
    by (rule ends_mono [OF pair]) (auto simp: reads_def)
  with pair show ?thesis
    by (intro eager_parserI) (simp_all add: arg_pair_def)
qed

lemma bracket_index_found:
  "bracket_index b nest rs = (m, Some i) \<Longrightarrow> m = 0 \<and> (\<exists>r. (i, r) \<in> set rs)"
  by (induction b nest rs rule: bracket_index.induct) (auto split: if_splits)

lemma bracket_index_open: "0 < nest \<Longrightarrow> bracket_index b nest rs = (m, None) \<Longrightarrow> 0 < m"
  by (induction b nest rs rule: bracket_index.induct) (auto split: if_splits)

lemma within_no_args: "parser_within (args []) P"
  by (rule within_args) simp

lemma bracketed_lambda:
  assumes "\<And>q. p = Some q \<Longrightarrow> parser_within q P" and "\<And>vs m. lambda_run run vs = Panic m \<Longrightarrow> P m"
  shows "bracketed_parser (arg_lambda p run b) P"
proof (rule bracketed_parserI)
  fix s
  have args: "parser_within (lambda_args p) P"
    using assms(1) within_no_args by (cases p) (simp_all add: lambda_args_def)
  obtain op cl where b: "(case b of None \<Rightarrow> lambda_brackets | Some b \<Rightarrow> b) = (op, cl)"
    by fastforce
  obtain nest i where idx: "bracket_index (op, cl) 1 (runes (tl s)) = (nest, i)"
    by fastforce
  have "ends P (reads 2 (int (length s))) (lambda_parse p run b s)"
  proof (cases "length s < 2 \<or> fst (decode_rune s) \<noteq> op \<or> 0 < nest")
    case True
    then show ?thesis
      by (auto simp: lambda_parse_def b idx Let_def)
  next
    case False
    then obtain j where i: "i = Some j"
      using idx bracket_index_open [of 1 "(op, cl)" "runes (tl s)" nest] by (cases i) auto
    obtain r where "(j, r) \<in> set (runes (tl s))"
      using bracket_index_found [OF idx [unfolded i]] by blast
    then have "j + 2 \<le> length s"
      using runes_from_offset [of j r 0 "tl s"] by (simp add: runes_def)
    then show ?thesis
      using False assms(2) by (auto simp: lambda_parse_def b idx i Let_def reads_def
          split: pval.split outcome.split intro!: ends_parseI [OF parser_within.total [OF args]])
  qed
  then show "ends P (reads 2 (int (length s))) (p_parse (arg_lambda p run b) s)"
    by (simp add: arg_lambda_def plain_def)
qed

text \<open>What the name and the brackets of a function have of the string.\<close>

lemma fn_match_bounds:
  assumes "fn_match s = Some (name, a)"
  shows "name \<noteq> []" and "length name + length a \<le> length s"
proof -
  show "name \<noteq> []"
    using assms by (auto simp: fn_match_def Let_def split: if_splits)
  define rest where "rest = drop (length (takeWhile word_byte s)) s"
  have "length (rev (dropWhile (\<lambda>b. b \<noteq> 41) (rev rest))) \<le> length rest"
    using length_dropWhile_le [of "\<lambda>b. b \<noteq> 41" "rev rest"] by simp
  moreover have "length rest = length s - length (takeWhile word_byte s)"
    by (simp add: rest_def)
  moreover have "length (takeWhile word_byte s) \<le> length s"
    by (rule takeWhile_le)
  ultimately show "length name + length a \<le> length s"
    using assms by (auto simp: fn_match_def Let_def rest_def split: if_splits)
qed

lemma eager_fn:
  assumes "\<And>name p. a name = Some p \<Longrightarrow> bracketed_parser p P"
  shows "eager_parser (arg_fn a) P"
proof -
  have "ends P (reads 1 (int (length s))) (fn_parse a s)" for s
  proof (cases "fn_match s")
    case None
    then show ?thesis
      by (simp add: fn_parse_def)
  next
    case (Some m)
    obtain name arg where m: "m = (name, arg)"
      by fastforce
    note bounds = fn_match_bounds [OF Some [unfolded m]]
    have len: "1 \<le> length name" "length name \<le> length s"
      using bounds by (cases name; simp)+
    show ?thesis
    proof (cases "a name")
      case None
      then show ?thesis
        using Some m by (simp add: fn_parse_def)
    next
      case (Some p)
      note ends = bracketed_parser.bracketed_ends [OF assms [OF Some]]
      define k where "k = length name + count_left_spaces (drop (length name) s)"
      have "length name \<le> k" "k \<le> length s"
        using len count_left_spaces_le [of "drop (length name) s"] by (simp_all add: k_def)
      then show ?thesis
        using \<open>fn_match s = _\<close> m Some bounds len
        by (auto simp: fn_parse_def Let_def k_def [symmetric] intro!: ends_parseI [OF ends])
    qed
  qed
  note fn = this
  have "ends P (reads 0 (int (length s))) (fn_parse a s)" for s
    by (rule ends_mono [OF fn]) (auto simp: reads_def)
  with fn show ?thesis
    by (intro eager_parserI) (simp_all add: arg_fn_def plain_def)
qed

end
