(* ===== verification/Argproc.thy ===== *)
theory Argproc
  imports Argparse_Contract Grouping Slots
begin

text \<open>
  \<^verbatim>\<open>argproc/argproc.go\<close>: the grammar of the procs on the command line. A parse makes Go objects
  with the constructors of \<^verbatim>\<open>procs/\<close>, \<^verbatim>\<open>stores/\<close> and \<^verbatim>\<open>stats/\<close>; here it makes expressions
  that name the constructor and its arguments. What a constructor does outside, opening a file or
  listing a store, is in its error, which the environment gives; the panic of a constructor is the
  panic of the parse.
\<close>

section \<open>What is made\<close>

datatype store_exp =
    RcloneStore bytes
  | CpStore bytes "int list"
  | ScpStore bytes bytes "int list"

text \<open>\<open>Proc()\<close> or \<open>Unproc()\<close> of an object that has both.\<close>

datatype side = GetProc | GetUnproc

datatype cmd_kind = CmdBoth | CmdIn | CmdOut

datatype lister_exp = StoreLister store_exp | QuotaInitReport bytes store_exp

datatype proc_exp =
    MkChecksumProc
  | MkChecksumUnproc
  | MkIndexProc bytes
  | MkIndexUnproc
  | MkSplit
  | MkSplitSize uint64 uint64
  | MkBacklog int proc_exp
  | MkConcur int dyn_exp
  | MkMultiReader "copier_exp list"
  | MkParity side int int
  | MkGzip side
  | MkSort
  | MkWriterTo bytes
  | MkJoin bytes
  | MkGroup int
  | MkCmd cmd_kind bytes "bytes list"
  | MkStore side store_exp
  | MkChain "proc_exp list"
  | MkStats bytes proc_exp
and copier_exp = MkCopier bytes lister_exp proc_exp
and dyn_exp = MkStripe int int "(copier_exp \<times> uint64) list"

datatype arg_val =
    AProc proc_exp
  | AStore store_exp
  | ACopier copier_exp
  | AQuota copier_exp uint64
  | ADyn dyn_exp

text \<open>
  \<open>ae_stats\<close>: whether there is a \<open>Statsd\<close>. \<open>ae_bytes\<close> is \<open>humanize.ParseBytes\<close>. The other
  fields are the errors of \<open>os.OpenFile\<close>, \<open>procs.NewParity\<close>, \<open>storestripe.New\<close> and
  \<open>stores.NewMultiReader\<close>.
\<close>

record arg_env =
  ae_stats :: bool
  ae_bytes :: "bytes \<Rightarrow> uint64 \<times> (unit + string) option"
  ae_open :: "bytes \<Rightarrow> string option"
  ae_parity :: "int \<Rightarrow> int \<Rightarrow> string option"
  ae_stripe :: "dyn_exp \<Rightarrow> string option"
  ae_multi :: "copier_exp list \<Rightarrow> string option"

type_synonym arg_run = "arg_val run_fn"

definition text_err :: "string option \<Rightarrow> perr option" where
  "text_err = map_option PText"

text \<open>A type assertion, or an index, that fails.\<close>

definition arg_panic :: "arg_val fn_res" where
  "arg_panic = Panic ''interface conversion''"

definition made :: "proc_exp \<Rightarrow> arg_val fn_res" where
  "made p = Ret (VAny (AProc p), None)"

text \<open>The assertion \<open>v.(T)\<close> over all values of a list.\<close>

fun assert_all :: "('v pval \<Rightarrow> 'a option) \<Rightarrow> 'v pval list \<Rightarrow> 'a list option" where
  "assert_all f [] = Some []"
| "assert_all f (v # vs) =
     (case f v of
        None \<Rightarrow> None
      | Some x \<Rightarrow> map_option ((#) x) (assert_all f vs))"

fun as_proc :: "arg_val pval \<Rightarrow> proc_exp option" where
  "as_proc (VAny (AProc p)) = Some p"
| "as_proc v = None"

fun as_copier :: "arg_val pval \<Rightarrow> copier_exp option" where
  "as_copier (VAny (ACopier cp)) = Some cp"
| "as_copier v = None"

fun as_quota :: "arg_val pval \<Rightarrow> (copier_exp \<times> uint64) option" where
  "as_quota (VAny (AQuota cp mx)) = Some (cp, mx)"
| "as_quota v = None"

fun as_int :: "'v pval \<Rightarrow> int option" where
  "as_int (VInt i) = Some i"
| "as_int v = None"

fun as_str :: "'v pval \<Rightarrow> bytes option" where
  "as_str (VStr s) = Some s"
| "as_str v = None"

text \<open>\<open>openOut\<close>: the error it returns.\<close>

definition open_out :: "arg_env \<Rightarrow> bytes \<Rightarrow> perr option" where
  "open_out e path = (if path = [45] then None else text_err (ae_open e path))"

section \<open>Stores\<close>

definition lam :: "'v parser list \<Rightarrow> 'v run_fn \<Rightarrow> 'v parser" where
  "lam ps run = arg_lambda (Some (args ps)) (Some run) None"

definition lam0 :: "'v run_fn \<Rightarrow> 'v parser" where
  "lam0 run = arg_lambda None (Some run) None"

fun rclone_run :: arg_run where
  "rclone_run [VStr remote] = Ret (VAny (AStore (RcloneStore remote)), None)"
| "rclone_run _ = arg_panic"

fun cp_run :: arg_run where
  "cp_run [VStr path, VList nesting] =
     (case assert_all as_int nesting of
        None \<Rightarrow> arg_panic
      | Some part \<Rightarrow> Ret (VAny (AStore (CpStore path part)), None))"
| "cp_run _ = arg_panic"

fun scp_run :: arg_run where
  "scp_run [VStr host, VStr path, VList nesting] =
     (case assert_all as_int nesting of
        None \<Rightarrow> arg_panic
      | Some part \<Rightarrow> Ret (VAny (AStore (ScpStore host path part)), None))"
| "scp_run _ = arg_panic"

definition new_arg_store :: "(bytes \<times> arg_val parser) list" where
  "new_arg_store =
    [(bytes_of ''rclone'', lam [arg_str] rclone_run),
     (bytes_of ''cp'', lam [arg_str, arg_variadic arg_int] cp_run),
     (bytes_of ''scp'', lam [arg_str, arg_str, arg_variadic arg_int] scp_run)]"

fun store_proc_filter :: "side \<Rightarrow> arg_val pval \<Rightarrow> arg_val fn_res" where
  "store_proc_filter sd (VAny (AStore st)) = made (MkStore sd st)"
| "store_proc_filter sd _ = arg_panic"

definition new_arg_store_proc :: "arg_val parser \<Rightarrow> side \<Rightarrow> arg_val parser" where
  "new_arg_store_proc p sd = arg_filter p (store_proc_filter sd)"

section \<open>Copiers and quotas\<close>

fun copier_run :: "arg_env \<Rightarrow> side \<Rightarrow> arg_val pval \<Rightarrow> arg_val pval \<Rightarrow> arg_val fn_res" where
  "copier_run e sd (VStr ident) (VAny (AStore st)) =
     Ret (VAny (ACopier (if ae_stats e
        then MkCopier ident (QuotaInitReport ident st) (MkStats ident (MkStore sd st))
        else MkCopier ident (StoreLister st) (MkStore sd st))), None)"
| "copier_run e sd _ _ = arg_panic"

definition new_arg_copier :: "arg_env \<Rightarrow> side \<Rightarrow> arg_val parser" where
  "new_arg_copier e sd = arg_pair arg_str (arg_fn (map_of new_arg_store)) (copier_run e sd)"

fun quota_max_run :: "arg_val pval \<Rightarrow> arg_val pval \<Rightarrow> arg_val fn_res" where
  "quota_max_run (VAny (ACopier cp)) (VUint mx) = Ret (VAny (AQuota cp mx), None)"
| "quota_max_run _ _ = arg_panic"

text \<open>\<open>quota.Unlimited\<close> for a copier on its own.\<close>

fun quota_filter :: "arg_val pval \<Rightarrow> arg_val fn_res" where
  "quota_filter (VAny (ACopier cp)) = Ret (VAny (AQuota cp (- 1)), None)"
| "quota_filter v = Ret (v, None)"

text \<open>The filter that enters the quota in the counters: what it returns.\<close>

fun quota_stats_filter :: "arg_val pval \<Rightarrow> arg_val fn_res" where
  "quota_stats_filter (VAny (AQuota cp mx)) = Ret (VAny (AQuota cp mx), None)"
| "quota_stats_filter _ = arg_panic"

definition new_arg_quota :: "arg_env \<Rightarrow> arg_val parser \<Rightarrow> arg_val parser" where
  "new_arg_quota e argc =
     (let res = arg_filter (arg_or [arg_pair argc (arg_bytes (ae_bytes e)) quota_max_run, argc])
            quota_filter
      in if ae_stats e then arg_filter res quota_stats_filter else res)"

section \<open>Dynamic procs\<close>

definition new_s :: "arg_env \<Rightarrow> int \<Rightarrow> int \<Rightarrow> arg_val pval list \<Rightarrow> arg_val fn_res" where
  "new_s e min_copies excl iress =
     (case assert_all as_quota iress of
        None \<Rightarrow> arg_panic
      | Some ress \<Rightarrow>
          (let d = MkStripe min_copies excl ress in
           Ret (VAny (ADyn d), text_err (ae_stripe e d))))"

fun mincopies_run :: "arg_env \<Rightarrow> arg_run" where
  "mincopies_run e [VInt m, VList iress] = new_s e m 0 iress"
| "mincopies_run e _ = arg_panic"

fun stripe_run :: "arg_env \<Rightarrow> arg_run" where
  "stripe_run e [VInt m, VInt excl, VList iress] = new_s e m excl iress"
| "stripe_run e _ = arg_panic"

definition new_arg_dyn_proc :: "arg_env \<Rightarrow> (bytes \<times> arg_val parser) list" where
  "new_arg_dyn_proc e =
    (let argq = new_arg_quota e (new_arg_copier e GetProc) in
    [(bytes_of ''mincopies'', lam [arg_int, arg_variadic argq] (mincopies_run e)),
     (bytes_of ''stripe'', lam [arg_int, arg_int, arg_variadic argq] (stripe_run e))])"

section \<open>Procs\<close>

fun index_arg_run :: "arg_env \<Rightarrow> arg_run" where
  "index_arg_run e [VStr path] = Ret (VAny (AProc (MkIndexProc path)), open_out e path)"
| "index_arg_run e _ = arg_panic"

fun split2_run :: arg_run where
  "split2_run [VUint lo, VUint hi] = made (MkSplitSize lo hi)"
| "split2_run _ = arg_panic"

text \<open>
  \<open>NewBacklog\<close> and \<open>NewConcur\<close> make their slots, \<open>NewGroup\<close> looks at its size: each panics for
  a number that is too small.
\<close>

fun backlog_run :: arg_run where
  "backlog_run [VInt nslots, VAny (AProc p)] =
     bind_outcome (slots_new nslots) (\<lambda>_. made (MkBacklog nslots p))"
| "backlog_run _ = arg_panic"

fun concur_run :: arg_run where
  "concur_run [VInt n, VAny (ADyn d)] =
     bind_outcome (slots_new n) (\<lambda>_. made (MkConcur n d))"
| "concur_run _ = arg_panic"

text \<open>\<open>Args\<close> of the multireader is a variadic on its own: its values are the copiers.\<close>

definition multireader_run :: "arg_env \<Rightarrow> arg_run" where
  "multireader_run e vs =
     (case assert_all as_copier vs of
        None \<Rightarrow> arg_panic
      | Some cps \<Rightarrow> Ret (VAny (AProc (MkMultiReader cps)), text_err (ae_multi e cps)))"

fun parity_run :: "arg_env \<Rightarrow> side \<Rightarrow> arg_run" where
  "parity_run e sd [VInt ndata, VInt nparity] =
     (case text_err (ae_parity e ndata nparity) of
        Some er \<Rightarrow> Ret (VNil, Some er)
      | None \<Rightarrow> made (MkParity sd ndata nparity))"
| "parity_run e sd _ = arg_panic"

definition new_arg_parity :: "arg_env \<Rightarrow> side \<Rightarrow> arg_val parser" where
  "new_arg_parity e sd = lam [arg_int, arg_int] (parity_run e sd)"

definition new_arg_gzip :: "side \<Rightarrow> arg_val parser" where
  "new_arg_gzip sd = lam0 (\<lambda>_. made (MkGzip sd))"

fun write_run :: "arg_env \<Rightarrow> arg_run" where
  "write_run e [VStr path] = Ret (VAny (AProc (MkWriterTo path)), open_out e path)"
| "write_run e _ = arg_panic"

fun join_run :: "arg_env \<Rightarrow> arg_run" where
  "join_run e [VStr path] = Ret (VAny (AProc (MkJoin path)), open_out e path)"
| "join_run e _ = arg_panic"

fun group_arg_run :: arg_run where
  "group_arg_run [VInt sz] = bind_outcome (new_group sz) (\<lambda>_. made (MkGroup sz))"
| "group_arg_run _ = arg_panic"

fun cmd_run :: "cmd_kind \<Rightarrow> arg_run" where
  "cmd_run k [VStr name, VList icmd_args] =
     (case assert_all as_str icmd_args of
        None \<Rightarrow> arg_panic
      | Some cmd_args \<Rightarrow> made (MkCmd k name cmd_args))"
| "cmd_run k _ = arg_panic"

definition new_arg_cmd_proc :: "cmd_kind \<Rightarrow> arg_val parser" where
  "new_arg_cmd_proc k = lam [arg_str, arg_variadic arg_str] (cmd_run k)"

definition new_arg_proc :: "arg_env \<Rightarrow> arg_val parser \<Rightarrow> (bytes \<times> arg_val parser) list" where
  "new_arg_proc e argp =
    [(bytes_of ''checksum'', lam0 (\<lambda>_. made MkChecksumProc)),
     (bytes_of ''uchecksum'', lam0 (\<lambda>_. made MkChecksumUnproc)),
     (bytes_of ''index'', lam [arg_str] (index_arg_run e)),
     (bytes_of ''uindex'', lam0 (\<lambda>_. made MkIndexUnproc)),
     (bytes_of ''split'', lam0 (\<lambda>_. made MkSplit)),
     (bytes_of ''split2'', lam [arg_bytes (ae_bytes e), arg_bytes (ae_bytes e)] split2_run),
     (bytes_of ''backlog'', lam [arg_int, argp] backlog_run),
     (bytes_of ''concur'', lam [arg_int, arg_fn (map_of (new_arg_dyn_proc e))] concur_run),
     (bytes_of ''multireader'',
        arg_lambda (Some (arg_variadic (new_arg_copier e GetUnproc))) (Some (multireader_run e)) None),
     (bytes_of ''parity'', new_arg_parity e GetProc),
     (bytes_of ''uparity'', new_arg_parity e GetUnproc),
     (bytes_of ''gzip'', new_arg_gzip GetProc),
     (bytes_of ''ugzip'', new_arg_gzip GetUnproc),
     (bytes_of ''sort'', lam0 (\<lambda>_. made MkSort)),
     (bytes_of ''write'', lam [arg_str] (write_run e)),
     (bytes_of ''join'', lam [arg_str] (join_run e)),
     (bytes_of ''group'', lam [arg_int] group_arg_run),
     (bytes_of ''cmd'', new_arg_cmd_proc CmdBoth),
     (bytes_of ''cmdin'', new_arg_cmd_proc CmdIn),
     (bytes_of ''cmdout'', new_arg_cmd_proc CmdOut)]"

text \<open>\<open>newArgStatsProc\<close>: the filter with the id it counts under.\<close>

fun stats_filter :: "bytes \<Rightarrow> arg_val pval \<Rightarrow> arg_val fn_res" where
  "stats_filter ident (VAny (AProc p)) = made (MkStats ident p)"
| "stats_filter ident _ = arg_panic"

definition new_arg_stats_proc :: "arg_val parser \<Rightarrow> bytes \<Rightarrow> arg_val parser" where
  "new_arg_stats_proc p ident = arg_filter p (stats_filter ident)"

text \<open>
  The functions of \<open>argProc\<close>, with those of the stores; the latter come first, as an
  assignment to the map replaces what is there.
\<close>

definition proc_fns :: "arg_env \<Rightarrow> arg_val parser \<Rightarrow> (bytes \<times> arg_val parser) list" where
  "proc_fns e argp =
     (let fns = concat (map (\<lambda>(k, v).
                  [(k, new_arg_store_proc v GetProc), (117 # k, new_arg_store_proc v GetUnproc)])
                new_arg_store) @ new_arg_proc e argp
      in if ae_stats e then map (\<lambda>(k, v). (k, new_arg_stats_proc v k)) fns else fns)"

definition chain_brackets :: brackets where
  "chain_brackets = (123, 125)"

definition new_chain :: arg_run where
  "new_chain vs =
     (case assert_all as_proc vs of None \<Rightarrow> arg_panic | Some ps \<Rightarrow> made (MkChain ps))"

definition arg_chain :: "arg_val parser \<Rightarrow> arg_val parser" where
  "arg_chain argp =
     arg_lambda (Some (arg_piped argp (Some chain_brackets))) (Some new_chain) (Some chain_brackets)"

text \<open>
  \<open>argProc\<close> refers to itself: a chain and a backlog hold procs. The number bounds how deep; a
  parse that would go deeper does not return.
\<close>

primrec arg_proc :: "arg_env \<Rightarrow> nat \<Rightarrow> arg_val parser" where
  "arg_proc e 0 = plain (\<lambda>_. None)"
| "arg_proc e (Suc n) =
     (let argp = arg_proc e n in arg_or [arg_chain argp, arg_fn (map_of (proc_fns e argp))])"

fun new_filter :: "arg_val pval \<Rightarrow> arg_val fn_res" where
  "new_filter (VList vs) = new_chain vs"
| "new_filter _ = arg_panic"

text \<open>\<open>New\<close>: the parser of the whole argument, to a depth.\<close>

definition new_parser :: "arg_env \<Rightarrow> nat \<Rightarrow> arg_val parser" where
  "new_parser e n = arg_filter (arg_piped (arg_proc e n) (Some chain_brackets)) new_filter"

text \<open>A string nests no deeper than it is long.\<close>

definition argproc_parse :: "arg_env \<Rightarrow> bytes \<Rightarrow> arg_val pres" where
  "argproc_parse e str = p_parse (new_parser e (Suc (length str))) str"

end
