(* ===== verification/Argparse_Props.thy ===== *)
theory Argparse_Props
  imports Argparse_Contract
begin

text \<open>
  What the parsers of \<^verbatim>\<open>argparse/\<close> read: arguments separated by spaces, quoted strings,
  brackets, and the position an error is shown at.
\<close>

section \<open>Arguments separated by spaces\<close>

text \<open>
  \<open>token p w v\<close>: at the end of the string or before a space, \<open>p\<close> reads the text \<open>w\<close> as the
  value \<open>v\<close>.
\<close>

definition token :: "'v parser \<Rightarrow> bytes \<Rightarrow> 'v pval \<Rightarrow> bool" where
  "token p w v \<longleftrightarrow> w \<noteq> [] \<and>
     (\<forall>rest. (rest = [] \<or> starts_with_space rest) \<longrightarrow>
        \<not> starts_with_space (w @ rest) \<and> p_parse p (w @ rest) = pret (v, int (length w), None))"

fun spaced :: "bytes list \<Rightarrow> bytes" where
  "spaced [] = []"
| "spaced [w] = w"
| "spaced (w # ws) = w @ 32 # spaced ws"

definition spaces :: "nat \<Rightarrow> bytes" where
  "spaces k = replicate k 32"

lemma starts_with_space_32 [simp]: "starts_with_space (32 # s)"
  by (simp add: starts_with_space_def decode_rune_ascii is_space_rune_def)

lemma not_starts_with_space_Nil [simp]: "\<not> starts_with_space []"
  by (simp add: starts_with_space_def)

lemma count_left_spaces_32: "count_left_spaces (32 # s) = Suc (count_left_spaces s)"
proof -
  have *: "length (takeWhile (\<lambda>(_, r). P r) (runes_from off s)) =
      length (takeWhile P (map snd (runes_from off s)))" for P :: "rune \<Rightarrow> bool" and off
    by (simp add: takeWhile_map comp_def case_prod_beta')
  have runes: "map snd (runes_from (Suc 0) s) = map snd (runes_from 0 s)"
    by (subst (1 2) runes_from_shift) (simp add: case_prod_beta')
  have "length (takeWhile (\<lambda>(_, r). is_space_rune r) (runes_from (Suc 0) s)) =
      length (takeWhile (\<lambda>(_, r). is_space_rune r) (runes_from 0 s))"
    by (simp only: * runes)
  moreover have "is_space_rune 32"
    by (simp add: is_space_rune_def)
  ultimately show ?thesis
    by (simp add: count_left_spaces_def runes_def runes_from_ascii_Cons)
qed

lemma count_left_spaces_spaces:
  "\<not> starts_with_space s \<Longrightarrow> count_left_spaces (spaces k @ s) = k"
  by (induction k) (simp_all add: spaces_def count_left_spaces_32 count_left_spaces_0)

text \<open>What is left of the string at a token: spaces, the token, and a space or the end.\<close>

lemma spaced_Cons:
  "spaced (w # ws) = w @ (if ws = [] then [] else spaces 1 @ spaced ws)"
  by (cases ws) (simp_all add: spaces_def)

definition at_tokens :: "bytes \<Rightarrow> nat \<Rightarrow> bytes list \<Rightarrow> bool" where
  "at_tokens str pos ws \<longleftrightarrow> pos \<le> length str \<and>
     (\<exists>k. drop pos str = spaces k @ spaced ws \<and> (ws = [] \<longrightarrow> k = 0))"

lemma at_tokens_0: "at_tokens (spaced ws) 0 ws"
  by (auto simp: at_tokens_def spaces_def intro: exI [of _ 0])

lemma at_tokens_Nil: "at_tokens str pos [] \<longleftrightarrow> pos = length str"
  by (auto simp: at_tokens_def spaces_def)

text \<open>
  \<open>reads_here p w ws v\<close>: before the texts \<open>ws\<close>, \<open>p\<close> reads \<open>w\<close> as \<open>v\<close>. A token is read so
  before any texts.
\<close>

definition reads_here :: "'v parser \<Rightarrow> bytes \<Rightarrow> bytes list \<Rightarrow> 'v pval \<Rightarrow> bool" where
  "reads_here p w ws v \<longleftrightarrow> w \<noteq> [] \<and> \<not> starts_with_space (spaced (w # ws)) \<and>
     p_parse p (spaced (w # ws)) = pret (v, int (length w), None)"

lemma token_reads_here:
  assumes "token p w v"
  shows "reads_here p w ws v"
proof -
  have "(if ws = [] then [] else spaces 1 @ spaced ws) = [] \<or>
      starts_with_space (if ws = [] then [] else spaces 1 @ spaced ws)"
    by (simp add: spaces_def)
  then show ?thesis
    using assms unfolding token_def reads_here_def spaced_Cons by blast
qed

lemma at_tokens_Cons:
  assumes "at_tokens str pos (w # ws)" and "reads_here p w ws v"
  obtains pos1 where "pos1 = pos + count_left_spaces (drop pos str)" and "pos1 < length str"
    and "p_parse p (drop pos1 str) = pret (v, int (length w), None)"
    and "at_tokens str (pos1 + length w) ws"
proof -
  obtain k where k: "drop pos str = spaces k @ spaced (w # ws)"
    using assms(1) by (auto simp: at_tokens_def)
  define rest where "rest = (if ws = [] then [] else spaces 1 @ spaced ws)"
  have str: "drop pos str = spaces k @ w @ rest"
    using k by (simp add: spaced_Cons rest_def)
  have tok: "\<not> starts_with_space (w @ rest)"
      "p_parse p (w @ rest) = pret (v, int (length w), None)" "w \<noteq> []"
    using assms(2) by (simp_all add: reads_here_def spaced_Cons rest_def)
  have count: "count_left_spaces (drop pos str) = k"
    unfolding str by (rule count_left_spaces_spaces [OF tok(1)])
  have len: "length str = pos + k + length w + length rest"
    using arg_cong [OF str, of length] assms(1) by (auto simp: spaces_def at_tokens_def)
  have drop1: "drop (pos + k) str = w @ rest"
    using arg_cong [OF str, of "drop k"] by (simp add: spaces_def add.commute)
  have "drop (pos + k + length w) str = rest"
    using arg_cong [OF drop1, of "drop (length w)"] by (simp add: add.commute)
  then have "at_tokens str (pos + k + length w) ws"
    using len by (auto simp: at_tokens_def rest_def spaces_def intro: exI [of _ 0] exI [of _ 1])
  then show thesis
    using that [of "pos + k"] count drop1 tok len by simp
qed

text \<open>\<open>Args\<close> over tokens, with the arguments \<open>qs\<close> after them.\<close>

definition tokens :: "('v parser \<times> bytes \<times> 'v pval) list \<Rightarrow> bool" where
  "tokens ts \<longleftrightarrow> (\<forall>(p, w, v) \<in> set ts. token p w v)"

lemma args_loop_tokens:
  assumes "tokens ts" and "at_tokens str pos (map (fst \<circ> snd) ts @ us)"
  shows "\<exists>pos'. at_tokens str pos' us \<and>
    args_loop str (map fst ts @ qs) (int pos) =
      pbind (args_loop str qs (int pos'))
        (\<lambda>r. pret (map_sum (\<lambda>x. x) (\<lambda>(vals, p). (map (snd \<circ> snd) ts @ vals, p)) r))"
  using assms
proof (induction ts arbitrary: pos)
  case Nil
  have id: "pbind m (\<lambda>r. pret (map_sum (\<lambda>x. x) (\<lambda>a. a) r)) = m" for m :: "('x + 'y) outcome option"
    unfolding sum.map_ident by (cases m) (auto simp: pbind_def split: outcome.split)
  show ?case
    using Nil.prems by (auto simp: id)
next
  case (Cons t ts)
  obtain p w v where t: "t = (p, w, v)"
    by (cases t) auto
  have tok: "token p w v" "tokens ts"
    using Cons.prems(1) by (simp_all add: tokens_def t)
  have at: "at_tokens str pos (w # map (fst \<circ> snd) ts @ us)"
    using Cons.prems(2) by (simp add: t comp_def)
  obtain pos1 where pos1: "pos1 = pos + count_left_spaces (drop pos str)" "pos1 < length str"
    and p: "p_parse p (drop pos1 str) = pret (v, int (length w), None)"
    and next_at: "at_tokens str (pos1 + length w) (map (fst \<circ> snd) ts @ us)"
    by (rule at_tokens_Cons [OF at token_reads_here [OF tok(1)]])
  obtain pos' where pos': "at_tokens str pos' us"
    and loop: "args_loop str (map fst ts @ qs) (int (pos1 + length w)) =
      pbind (args_loop str qs (int pos'))
        (\<lambda>r. pret (map_sum (\<lambda>x. x) (\<lambda>(vals, p). (map (snd \<circ> snd) ts @ vals, p)) r))"
    using Cons.IH [OF tok(2) next_at] by blast
  have "pos \<le> length str"
    using at by (simp add: at_tokens_def)
  have "args_loop str (map fst (t # ts) @ qs) (int pos) =
      pbind (args_loop str (map fst ts @ qs) (int (pos1 + length w)))
        (\<lambda>r. pret (map_sum (\<lambda>x. x) (\<lambda>(vals, p). (v # vals, p)) r))"
    using \<open>pos \<le> length str\<close> pos1 p by (simp add: t slice_from_ok Let_def flip: of_nat_add)
  also have "\<dots> = pbind (args_loop str qs (int pos'))
        (\<lambda>r. pret (map_sum (\<lambda>x. x) (\<lambda>(vals, p). (map (snd \<circ> snd) (t # ts) @ vals, p)) r))"
    unfolding loop by (cases "args_loop str qs (int pos')")
      (auto simp: pbind_def t sum.map_comp comp_def case_prod_beta' split: outcome.split)
  finally show ?case
    using pos' by blast
qed

lemma args_parse_tokens:
  assumes "tokens ts"
  shows "args_parse (map fst ts) (spaced (map (fst \<circ> snd) ts)) =
    pret (VList (map (snd \<circ> snd) ts), int (length (spaced (map (fst \<circ> snd) ts))), None)"
proof -
  let ?s = "spaced (map (fst \<circ> snd) ts)"
  obtain pos' where "at_tokens ?s pos' []"
    and "args_loop ?s (map fst ts @ []) (int 0) =
      pbind (args_loop ?s [] (int pos'))
        (\<lambda>r. pret (map_sum (\<lambda>x. x) (\<lambda>(vals, p). (map (snd \<circ> snd) ts @ vals, p)) r))"
    using args_loop_tokens [OF assms, of ?s 0 "[]" "[]"] at_tokens_0 by (metis append_Nil2)
  then show ?thesis
    by (simp add: at_tokens_Nil args_parse_def slice_from_ok count_left_spaces_0 Let_def)
qed

text \<open>\<open>ArgVariadic\<close> over tokens, and after others.\<close>

fun all_read_here :: "'v parser \<Rightarrow> (bytes \<times> 'v pval) list \<Rightarrow> bool" where
  "all_read_here p [] = True"
| "all_read_here p ((w, v) # ts) = (reads_here p w (map fst ts) v \<and> all_read_here p ts)"

lemma tokens_all_read_here: "\<forall>(w, v) \<in> set ts. token p w v \<Longrightarrow> all_read_here p ts"
  by (induction ts) (auto simp: token_reads_here)

lemma variadic_loop_tokens:
  assumes "all_read_here p ts" and "at_tokens str pos (map fst ts)"
  shows "variadic_loop p str (int pos) vals = pret (VList (vals @ map snd ts), int (length str), None)"
  using assms
proof (induction ts arbitrary: pos vals)
  case Nil
  then show ?case
    by (subst variadic_loop.simps) (simp add: at_tokens_Nil slice_from_ok count_left_spaces_0)
next
  case (Cons t ts)
  obtain w v where t: "t = (w, v)"
    by fastforce
  have tok: "reads_here p w (map fst ts) v" "all_read_here p ts"
    using Cons.prems(1) by (auto simp: t)
  have at: "at_tokens str pos (w # map fst ts)"
    using Cons.prems(2) by (simp add: t)
  obtain pos1 where pos1: "pos1 = pos + count_left_spaces (drop pos str)" "pos1 < length str"
    and p: "p_parse p (drop pos1 str) = pret (v, int (length w), None)"
    and next_at: "at_tokens str (pos1 + length w) (map fst ts)"
    by (rule at_tokens_Cons [OF at tok(1)])
  have "pos \<le> length str"
    using at by (simp add: at_tokens_def)
  have "variadic_loop p str (int pos) vals = variadic_loop p str (int (pos1 + length w)) (vals @ [v])"
    using \<open>pos \<le> length str\<close> pos1 p
    by (subst variadic_loop.simps) (simp add: slice_from_ok Let_def flip: of_nat_add)
  then show ?case
    using Cons.IH [OF tok(2) next_at, of "vals @ [v]"] by (simp add: t)
qed

lemma args_loop_variadic:
  assumes "all_read_here q us" and "at_tokens str pos (map fst us)"
  shows "args_loop str [arg_variadic q] (int pos) =
    pret (Inr ([VList (map snd us)], int (length str)))"
proof (cases us)
  case Nil
  then show ?thesis
    using assms(2)
    by (simp add: at_tokens_Nil slice_from_ok count_left_spaces_0 arg_variadic_def)
next
  case (Cons u us')
  obtain w v where u: "u = (w, v)"
    by fastforce
  have at: "at_tokens str pos (w # map fst us')" and tok: "reads_here q w (map fst us') v"
    using assms by (auto simp: Cons u)
  obtain pos1 where pos1: "pos1 = pos + count_left_spaces (drop pos str)" "pos1 < length str"
    and "p_parse q (drop pos1 str) = pret (v, int (length w), None)"
    and "at_tokens str (pos1 + length w) (map fst us')"
    by (rule at_tokens_Cons [OF at tok])
  obtain k where k: "drop pos str = spaces k @ spaced (map fst us)"
    using assms(2) by (auto simp: at_tokens_def)
  have "spaced (map fst us) = w @ (if us' = [] then [] else spaces 1 @ spaced (map fst us'))"
    by (simp add: Cons u spaced_Cons)
  moreover have "\<not> starts_with_space (w @ (if us' = [] then [] else spaces 1 @ spaced (map fst us')))"
    using tok by (simp add: reads_here_def spaced_Cons)
  ultimately have "count_left_spaces (drop pos str) = k"
    unfolding k by (metis count_left_spaces_spaces)
  then have "drop pos1 str = spaced (map fst us)"
    using arg_cong [OF k, of "drop k"] by (simp add: pos1 spaces_def add.commute)
  then have "p_parse (arg_variadic q) (drop pos1 str) =
      pret (VList (map snd us), int (length (drop pos1 str)), None)"
    using variadic_loop_tokens [OF assms(1), of "drop pos1 str" 0 "[]"] at_tokens_0
    by (simp add: arg_variadic_def)
  moreover have "pos \<le> length str"
    using at by (simp add: at_tokens_def)
  ultimately show ?thesis
    using pos1 by (simp add: slice_from_ok Let_def flip: of_nat_add)
qed

lemma args_parse_variadic:
  assumes "tokens ts" and "all_read_here q us"
  shows "args_parse (map fst ts @ [arg_variadic q]) (spaced (map (fst \<circ> snd) ts @ map fst us)) =
    pret (VList (map (snd \<circ> snd) ts @ [VList (map snd us)]),
      int (length (spaced (map (fst \<circ> snd) ts @ map fst us))), None)"
proof -
  let ?s = "spaced (map (fst \<circ> snd) ts @ map fst us)"
  obtain pos' where "at_tokens ?s pos' (map fst us)"
    and "args_loop ?s (map fst ts @ [arg_variadic q]) (int 0) =
      pbind (args_loop ?s [arg_variadic q] (int pos'))
        (\<lambda>r. pret (map_sum (\<lambda>x. x) (\<lambda>(vals, p). (map (snd \<circ> snd) ts @ vals, p)) r))"
    using args_loop_tokens [OF assms(1), of ?s 0 "map fst us" "[arg_variadic q]"] at_tokens_0 by blast
  then show ?thesis
    using args_loop_variadic [OF assms(2)]
    by (simp add: args_parse_def slice_from_ok count_left_spaces_0 Let_def)
qed

section \<open>Which texts are tokens\<close>

lemma tokenI:
  assumes "w = b # w'" and "b < 0x80" and "\<not> is_space_rune (unat b)"
    and "\<And>rest. rest = [] \<or> starts_with_space rest \<Longrightarrow>
      p_parse p (w @ rest) = pret (v, int (length w), None)"
  shows "token p w v"
  unfolding token_def using assms by (simp add: starts_with_space_def decode_rune_ascii)

lemma index_rune_word:
  assumes "\<forall>b \<in> set w. \<not> is_space_rune (unat b)"
  shows "index_rune is_space_rune (zip [off..<off + length w] (map unat w) @ rs) =
    index_rune is_space_rune rs"
  using assms
proof (induction w arbitrary: off)
  case (Cons b w)
  have "zip [off..<off + length (b # w)] (map unat (b # w)) =
      (off, unat b) # zip [Suc off..<Suc off + length w] (map unat w)"
    by (simp add: upt_conv_Cons del: upt_Suc)
  then have "index_rune is_space_rune
      (zip [off..<off + length (b # w)] (map unat (b # w)) @ rs) =
      index_rune is_space_rune (zip [Suc off..<Suc off + length w] (map unat w) @ rs)"
    using Cons.prems by (simp del: upt_Suc)
  then show ?case
    using Cons.IH [of "Suc off"] Cons.prems by (simp del: upt_Suc)
qed simp

lemma space_end_index_word:
  assumes "ascii w" and "\<forall>b \<in> set w. \<not> is_space_rune (unat b)"
    and "rest = [] \<or> starts_with_space rest"
  shows "space_end_index (w @ rest) = length w"
proof -
  note word = index_rune_word [OF assms(2)]
  have rest: "index_rune is_space_rune (runes_from (length w) rest) =
      (if rest = [] then None else Some (length w))"
    using assms(3) by (subst runes_from.simps) (auto simp: starts_with_space_def)
  show ?thesis
    using word [of 0] rest
    by (simp add: space_end_index_def index_func_def runes_def runes_from_ascii_append [OF assms(1)])
qed

text \<open>A word: ASCII, no spaces, no quote in front.\<close>

definition word :: "bytes \<Rightarrow> bool" where
  "word w \<longleftrightarrow> w \<noteq> [] \<and> ascii w \<and> hd w \<noteq> 34 \<and> (\<forall>b \<in> set w. \<not> is_space_rune (unat b))"

lemma token_word:
  assumes "word w"
  shows "token arg_str w (VStr w)"
proof -
  obtain b w' where w: "w = b # w'" "b < 0x80" "b \<noteq> 34" "\<not> is_space_rune (unat b)"
    using assms by (cases w) (auto simp: word_def ascii_def)
  have quote: "unat b \<noteq> 34"
  proof
    assume "unat b = 34"
    then have "unat b = unat (34 :: byte)"
      by simp
    with w(3) show False
      by (simp only: word_unat_eq_iff)
  qed
  have "p_parse arg_str (w @ rest) = pret (VStr w, int (length w), None)"
    if "rest = [] \<or> starts_with_space rest" for rest
  proof -
    have "runes (w @ rest) = (0, unat b) # runes_from 1 (w' @ rest)"
      using w by (simp add: runes_def runes_from_ascii_Cons)
    moreover have "space_end_index (w @ rest) = length w"
      by (rule space_end_index_word) (use assms that in \<open>auto simp: word_def\<close>)
    ultimately show ?thesis
      using quote by (simp add: arg_str_def plain_def str_parse_def space_only_parse_def)
  qed
  then show ?thesis
    by (rule tokenI [OF w(1,2,4)])
qed

text \<open>A quoted string of any runes but the quote.\<close>

definition quoted :: "rune list \<Rightarrow> bytes" where
  "quoted cs = 34 # concat (map encode_rune cs) @ [34]"

definition quotable :: "rune list \<Rightarrow> bool" where
  "quotable cs \<longleftrightarrow> (\<forall>c \<in> set cs. valid_rune c \<and> c \<noteq> 34)"

lemma find_quote_encoded:
  assumes "quotable cs"
  shows "find_quote (runes_from off (concat (map encode_rune cs) @ 34 # rest)) acc =
    Some (acc @ cs, off + length (concat (map encode_rune cs)),
      runes_from (Suc (off + length (concat (map encode_rune cs)))) rest)"
  using assms
proof (induction cs arbitrary: off acc)
  case Nil
  then show ?case
    by (simp add: runes_from_ascii_Cons)
next
  case (Cons c cs)
  then show ?case
    by (simp add: quotable_def runes_from_encode add.assoc)
qed

lemma str_parse_quoted:
  assumes "quotable cs" and "rest = [] \<or> starts_with_space rest"
  shows "str_parse (quoted cs @ rest) =
    pret (VStr (concat (map encode_rune cs)), int (length (quoted cs)), None)"
proof -
  have "runes (quoted cs @ rest) =
      (0, 34) # runes_from 1 (concat (map encode_rune cs) @ 34 # rest)"
    by (simp add: runes_def quoted_def runes_from_ascii_Cons)
  moreover have "runes_from k rest = [] \<or> is_space_rune (snd (hd (runes_from k rest)))" for k
    using assms(2) by (subst (1 2) runes_from.simps) (auto simp: starts_with_space_def)
  moreover have "find_quote (runes_from 1 (concat (map encode_rune cs) @ 34 # rest)) [] =
      Some (cs, length (concat (map encode_rune cs)) + 1,
        runes_from (length (concat (map encode_rune cs)) + 2) rest)"
    using find_quote_encoded [OF assms(1), of 1 rest "[]"] by simp
  ultimately show ?thesis
    unfolding str_parse_def quoted_def by (auto simp: numeral_2_eq_2)
qed

lemma token_quoted:
  "quotable cs \<Longrightarrow> token arg_str (quoted cs) (VStr (concat (map encode_rune cs)))"
  by (rule tokenI [OF quoted_def]) (simp_all add: str_parse_quoted arg_str_def plain_def is_space_rune_def)

text \<open>Digits that fit an \<open>int\<close>.\<close>

lemma token_int:
  assumes "ds \<noteq> []" and "\<forall>b \<in> set ds. digit_byte b" and "digits_value ds < 2 ^ 63"
  shows "token arg_int ds (VInt (int (digits_value ds)))"
proof -
  have digit: "48 \<le> unat b \<and> unat b \<le> 57" if "b \<in> set ds" for b
    using assms(2) that by (auto simp: digit_byte_def word_le_nat_alt)
  have ascii: "ascii ds"
    using digit by (fastforce simp: ascii_def word_less_nat_alt)
  have no_space: "\<forall>b \<in> set ds. \<not> is_space_rune (unat b)"
    using digit by (fastforce simp: is_space_rune_def)
  obtain b ds' where ds: "ds = b # ds'"
    using assms(1) by (cases ds) auto
  have b: "b < 0x80" "\<not> is_space_rune (unat b)" "b \<noteq> 43" "b \<noteq> 45"
    using ascii no_space assms(2) by (auto simp: ds ascii_def digit_byte_def word_le_nat_alt)
  have "atoi ds = (int (digits_value ds), None)"
    using assms b by (auto simp: atoi_def Let_def ds)
  then have "p_parse arg_int (ds @ rest) = pret (VInt (int (digits_value ds)), int (length ds), None)"
    if "rest = [] \<or> starts_with_space rest" for rest
    using space_end_index_word [OF ascii no_space that]
    by (simp add: arg_int_def plain_def int_parse_def)
  then show ?thesis
    by (rule tokenI [OF ds b(1,2)])
qed

lemma token_neg_int:
  assumes "ds \<noteq> []" and "\<forall>b \<in> set ds. digit_byte b" and "digits_value ds < 2 ^ 63"
  shows "token arg_int (45 # ds) (VInt (- int (digits_value ds)))"
proof -
  have digit: "48 \<le> unat b \<and> unat b \<le> 57" if "b \<in> set ds" for b
    using assms(2) that by (auto simp: digit_byte_def word_le_nat_alt)
  have ascii: "ascii (45 # ds)"
    using digit by (fastforce simp: ascii_def word_less_nat_alt)
  have no_space: "\<forall>b \<in> set (45 # ds). \<not> is_space_rune (unat b)"
    using digit by (fastforce simp: is_space_rune_def)
  have "atoi (45 # ds) = (- int (digits_value ds), None)"
    using assms by (auto simp: atoi_def Let_def)
  then have parse: "p_parse arg_int ((45 # ds) @ rest) = pret (VInt (- int (digits_value ds)), int (length (45 # ds)), None)"
    if "rest = [] \<or> starts_with_space rest" for rest
    using space_end_index_word [OF ascii no_space that]
    by (simp add: arg_int_def plain_def int_parse_def)
  show ?thesis
    by (rule tokenI [of _ 45 ds]) (use parse in \<open>simp_all add: is_space_rune_def\<close>)
qed

section \<open>Brackets\<close>

text \<open>Text whose brackets match, and whose pipes, if \<open>flat\<close>, are all in brackets.\<close>

inductive balanced :: "byte \<Rightarrow> byte \<Rightarrow> bool \<Rightarrow> bytes \<Rightarrow> bool" for op cl where
  balanced_Nil: "balanced op cl flat []"
| balanced_byte: "b < 0x80 \<Longrightarrow> b \<noteq> op \<Longrightarrow> b \<noteq> cl \<Longrightarrow> \<not> (flat \<and> b = 124) \<Longrightarrow> balanced op cl flat s \<Longrightarrow>
    balanced op cl flat (b # s)"
| balanced_nest: "balanced op cl False s \<Longrightarrow> balanced op cl flat t \<Longrightarrow>
    balanced op cl flat (op # s @ cl # t)"

lemma unat_byte_eq: "unat (a :: byte) = unat b \<longleftrightarrow> a = b"
  by (simp add: word_unat_eq_iff)

lemma unat_eq_124: "unat (b :: byte) = 124 \<longleftrightarrow> b = 124"
  using unat_byte_eq [of b 124] by simp

lemma bracket_index_balanced:
  assumes "balanced op cl flat s" and "op < 0x80" and "cl < 0x80" and "op \<noteq> cl" and "1 \<le> nest"
  shows "bracket_index (unat op, unat cl) nest (runes_from off (s @ rest)) =
    bracket_index (unat op, unat cl) nest (runes_from (off + length s) rest)"
  using assms
proof (induction arbitrary: off nest rest rule: balanced.induct)
  case (balanced_byte b flat s)
  then show ?case
    by (simp add: runes_from_ascii_Cons unat_byte_eq)
next
  case (balanced_nest s flat t)
  then show ?case
    by (simp add: runes_from_ascii_Cons unat_byte_eq add.assoc)
qed simp

text \<open>A lambda reads what is between its brackets with its parser of arguments.\<close>

lemma lambda_parse_brackets:
  assumes "balanced op cl False s" and "op < 0x80" and "cl < 0x80" and "op \<noteq> cl"
  shows "lambda_parse (Some p) (Some run) (Some (unat op, unat cl)) (op # s @ cl # rest) =
    pbind (p_parse p s) (\<lambda>(v, n, e).
      case e of
        Some e \<Rightarrow> pret (VNil, 0, Some e)
      | None \<Rightarrow>
          (case v of
             VList vals \<Rightarrow> placed (int (length s) + 2) (run vals)
           | _ \<Rightarrow> pret (VNil, 0, Some (PText ''wrong return type of Args parser''))))"
proof -
  have "bracket_index (unat op, unat cl) 1 (runes (s @ cl # rest)) = (0, Some (length s))"
    unfolding runes_def using assms
    by (subst bracket_index_balanced) (auto simp: runes_from_ascii_Cons unat_byte_eq)
  then show ?thesis
    using assms
    by (auto simp: lambda_parse_def decode_rune_ascii Let_def lambda_args_def lambda_run_def pbind_def
        split: option.split outcome.split pval.split intro!: Option.bind_cong)
qed

text \<open>\<open>ArgPiped\<close> cuts at the pipes outside of brackets.\<close>

lemma pipe_index_balanced:
  assumes "balanced op cl flat s" and "op < 0x80" and "cl < 0x80" and "op \<noteq> cl"
    and "op \<noteq> 124" and "cl \<noteq> 124" and "0 \<le> nest" and "flat \<or> 0 < nest"
  shows "pipe_index (Some (unat op, unat cl)) nest (runes_from off (s @ rest)) =
    pipe_index (Some (unat op, unat cl)) nest (runes_from (off + length s) rest)"
  using assms
proof (induction arbitrary: off nest rest rule: balanced.induct)
  case (balanced_byte b flat s)
  have "unat b \<noteq> 124 \<or> nest \<noteq> 0"
    using balanced_byte by (auto simp: unat_eq_124)
  with balanced_byte show ?case
    by (auto simp: runes_from_ascii_Cons unat_byte_eq)
next
  case (balanced_nest s flat t)
  then show ?case
    by (simp add: runes_from_ascii_Cons unat_byte_eq unat_eq_124 add.assoc)
qed simp

lemma piped_arg_balanced:
  assumes "balanced op cl True s" and "op < 0x80" and "cl < 0x80" and "op \<noteq> cl"
    and "op \<noteq> 124" and "cl \<noteq> 124"
  shows "piped_arg (Some (unat op, unat cl)) (s @ 124 # rest) = (s, length s + 1)"
    and "piped_arg (Some (unat op, unat cl)) s = (s, length s)"
proof -
  have "pipe_index (Some (unat op, unat cl)) 0 (runes (s @ 124 # rest)) = Some (length s)"
    unfolding runes_def using assms
    by (subst pipe_index_balanced) (auto simp: runes_from_ascii_Cons unat_eq_124)
  then show "piped_arg (Some (unat op, unat cl)) (s @ 124 # rest) = (s, length s + 1)"
    by (simp add: piped_arg_def)
  have "pipe_index (Some (unat op, unat cl)) 0 (runes (s @ [])) = None"
    unfolding runes_def using assms by (subst pipe_index_balanced) auto
  then show "piped_arg (Some (unat op, unat cl)) s = (s, length s)"
    by (simp add: piped_arg_def)
qed

fun piped_text :: "bytes list \<Rightarrow> bytes" where
  "piped_text [] = []"
| "piped_text [s] = s"
| "piped_text (s # ss) = s @ 124 # piped_text ss"

text \<open>
  A text that is one argument of a piped parser, and one that is read as the value \<open>v\<close>; and the
  step of the parser's loop over it, with a pipe and the rest behind it or at the end.
\<close>

definition seg_text :: "byte \<Rightarrow> byte \<Rightarrow> bytes \<Rightarrow> bool" where
  "seg_text op cl s \<longleftrightarrow> balanced op cl True s \<and> s \<noteq> [] \<and> hd s < 0x80 \<and> \<not> is_space_rune (unat (hd s))"

definition segment :: "byte \<Rightarrow> byte \<Rightarrow> 'v parser \<Rightarrow> bytes \<Rightarrow> 'v pval \<Rightarrow> bool" where
  "segment op cl p s v \<longleftrightarrow> seg_text op cl s \<and> (\<exists>n. p_parse p s = pret (v, n, None))"

definition brackets_ok :: "byte \<Rightarrow> byte \<Rightarrow> bool" where
  "brackets_ok op cl \<longleftrightarrow> op < 0x80 \<and> cl < 0x80 \<and> op \<noteq> cl \<and> op \<noteq> 124 \<and> cl \<noteq> 124"

lemma brackets_ok_braces [simp]: "brackets_ok 123 125"
  by (simp add: brackets_ok_def)

lemma piped_loop_step:
  assumes "seg_text op cl s" and "brackets_ok op cl" and "rest = [] \<or> hd rest = 124"
  shows "piped_loop p (Some (unat op, unat cl)) str pos (s @ rest) vals =
    pbind (p_parse p s) (\<lambda>(v, n, e).
      case e of
        Some e \<Rightarrow> pret (VNil, pos, Some (PDetails e str (pos + n)))
      | None \<Rightarrow> piped_loop p (Some (unat op, unat cl)) str
          (pos + int (if rest = [] then length s else length s + 1)) (tl rest) (vals @ [v]))"
proof -
  have seg: "balanced op cl True s" "s \<noteq> []" "hd s < 0x80" "\<not> is_space_rune (unat (hd s))"
    using assms(1) by (simp_all add: seg_text_def)
  then have "\<not> starts_with_space (s @ rest)"
    by (cases s) (simp_all add: starts_with_space_def decode_rune_ascii)
  then have spaces: "count_left_spaces (s @ rest) = 0"
    by (rule count_left_spaces_0)
  have arg: "piped_arg (Some (unat op, unat cl)) (s @ rest) =
      (s, if rest = [] then length s else length s + 1)"
    using piped_arg_balanced [OF seg(1)] assms(2,3) by (cases rest) (simp_all add: brackets_ok_def)
  have dropped: "drop (if rest = [] then length s else length s + 1) (s @ rest) = tl rest"
    by (simp add: drop_Suc)
  show ?thesis
    unfolding piped_loop.simps [of p "Some (unat op, unat cl)" str pos "s @ rest" vals]
      Let_def spaces drop_0 arg fst_conv snd_conv dropped of_nat_0 add_0_right
    by (simp add: seg(2))
qed

lemma piped_text_Cons:
  "piped_text (s # ss) = s @ (if ss = [] then [] else 124 # piped_text ss)"
  by (cases ss) simp_all

lemma piped_loop_segments:
  assumes "\<forall>(s, v) \<in> set segs. segment op cl p s v" and "brackets_ok op cl"
  shows "piped_loop p (Some (unat op, unat cl)) str pos (piped_text (map fst segs)) vals =
    pret (VList (vals @ map snd segs), pos + int (length (piped_text (map fst segs))), None)"
  using assms(1)
proof (induction segs arbitrary: pos vals)
  case Nil
  then show ?case
    by (subst piped_loop.simps) (simp add: count_left_spaces_0)
next
  case (Cons g segs)
  obtain s v n where g: "g = (s, v)" "seg_text op cl s" "p_parse p s = pret (v, n, None)"
    using Cons.prems by (cases g) (auto simp: segment_def)
  then show ?case
    using piped_loop_step [OF g(2) assms(2), of "if segs = [] then [] else 124 # piped_text (map fst segs)" p str pos vals]
      Cons.IH Cons.prems g by (cases segs) (simp_all add: piped_text_Cons)
qed

text \<open>A panic in a segment, whatever comes after the next pipe.\<close>

lemma piped_loop_panics:
  assumes "\<forall>(s, v) \<in> set segs. segment op cl p s v" and "brackets_ok op cl"
    and "seg_text op cl t" and "p_parse p t = Some (Panic m)" and "rest = [] \<or> hd rest = 124"
  shows "piped_loop p (Some (unat op, unat cl)) str pos (piped_text (map fst segs @ [t]) @ rest) vals =
    Some (Panic m)"
  using assms(1)
proof (induction segs arbitrary: pos vals)
  case Nil
  show ?case
    by (simp add: piped_loop_step assms)
next
  case (Cons g segs)
  obtain s v n where g: "g = (s, v)" "seg_text op cl s" "p_parse p s = pret (v, n, None)"
    using Cons.prems by (cases g) (auto simp: segment_def)
  then show ?case
    using Cons.IH Cons.prems assms(2) by (simp add: piped_text_Cons piped_loop_step)
qed

section \<open>Properties\<close>

text \<open>
  C22: \<open>Args\<close> of parsers that meet the contract, in which no function panics, never panics and never loops, and when it
  reports no error it has read the whole string and holds one value for each argument.
\<close>

theorem args_consume_all:
  assumes "\<And>p. p \<in> set ps \<Longrightarrow> arg_parser p"
  shows "\<exists>v n e. p_parse (args ps) s = pret (v, n, e) \<and>
    (e = None \<longrightarrow> n = int (length s) \<and> (\<exists>vals. v = VList vals \<and> length vals = length ps))"
proof -
  have "parser_within p (\<lambda>_. False)" if "p \<in> set ps" for p
    using assms [OF that] by (rule arg_parser.axioms)
  from args_total [OF this, of ps s] show ?thesis
    by (fastforce simp: ends_False args_def plain_def)
qed

lemma args_consume_all_witness:
  "\<exists>v n e. p_parse (args [arg_int, arg_variadic arg_str]) [49, 32, 97, 32] =
     pret (v :: unit pval, n, e) \<and>
     (e = None \<longrightarrow> n = int (length [49, 32, 97, 32 :: byte]) \<and>
       (\<exists>vals. v = VList vals \<and> length vals = length [arg_int, arg_variadic arg_str :: unit parser]))"
  by (rule args_consume_all) (auto intro: int_never.arg_parser_axioms strs_never.arg_parser_axioms)

end
