(* ===== verification/Argproc_Props.thy ===== *)
theory Argproc_Props
  imports Argproc Argparse_Props
begin

text \<open>
  The grammar of \<^verbatim>\<open>argproc/\<close>: a parse ends, whatever the string, and does not depend on the
  depth once that is more than the length of the string; the panics it can end in are those of the
  functions given to the parsers.
\<close>

section \<open>Strings up to a length\<close>

text \<open>Two parsers that agree on the strings shorter than \<open>n\<close>.\<close>

definition agree :: "nat \<Rightarrow> 'v parser \<Rightarrow> 'v parser \<Rightarrow> bool" where
  "agree n p q \<longleftrightarrow> p_empty p = p_empty q \<and> p_pair p = p_pair q \<and>
     (\<forall>s. length s < n \<longrightarrow> p_parse p s = p_parse q s)"

lemma agreeD: "agree n p q \<Longrightarrow> length s < n \<Longrightarrow> p_parse p s = p_parse q s"
  by (simp add: agree_def)

lemma agree_refl [simp]: "agree n p p"
  by (simp add: agree_def)

lemma agree_plain: "(\<And>s. length s < n \<Longrightarrow> f s = g s) \<Longrightarrow> agree n (plain f) (plain g)"
  by (simp add: agree_def plain_def)

lemma agree_mono: "agree n p q \<Longrightarrow> m \<le> n \<Longrightarrow> agree m p q"
  by (simp add: agree_def)

subsection \<open>The combinators\<close>

lemma agree_filter: "agree n p q \<Longrightarrow> agree n (arg_filter p f) (arg_filter q f)"
  unfolding arg_filter_def by (rule agree_plain) (simp add: filter_parse_def agreeD)

lemma agree_or:
  assumes "list_all2 (agree n) ps qs"
  shows "agree n (arg_or ps) (arg_or qs)"
proof -
  have "or_parse ps r s = or_parse qs r s" if "length s < n" for r s
    using assms that by (induction arbitrary: r rule: list_all2_induct) (simp_all add: agreeD case_prod_beta' cong: if_cong)
  then show ?thesis
    unfolding arg_or_def by (rule agree_plain)
qed

lemma args_loop_agree:
  assumes "list_all2 (agree n) ps qs" and "length str < n"
  shows "args_loop str ps pos = args_loop str qs pos"
  using assms(1)
proof (induction arbitrary: pos rule: list_all2_induct)
  case (Cons p ps q qs)
  have "p_empty p = p_empty q"
    using Cons(1) by (simp add: agree_def)
  moreover have "p_parse p (drop k str) = p_parse q (drop k str)" for k
    using assms(2) by (intro agreeD [OF Cons(1)]) simp
  ultimately show ?case
    by (simp add: Cons(3) slice_from_def Let_def case_prod_beta' cong: option.case_cong)
qed simp

lemma agree_args: "list_all2 (agree n) ps qs \<Longrightarrow> agree n (args ps) (args qs)"
  unfolding args_def by (rule agree_plain) (simp add: args_parse_def args_loop_agree)

lemma piped_loop_agree:
  assumes "agree n p q" and "length s < n"
  shows "piped_loop p b str pos s vals = piped_loop q b str pos s vals"
  using assms(2)
proof (induction "length s" arbitrary: pos s vals rule: less_induct)
  case less
  define s1 where "s1 = drop (count_left_spaces s) s"
  show ?case
  proof (cases "s1 = []")
    case True
    then show ?thesis
      by (subst (1 2) piped_loop.simps) (simp add: s1_def)
  next
    case False
    note bounds = piped_arg_bounds [OF False, of b]
    have s1: "length s1 \<le> length s"
      by (simp add: s1_def)
    have "p_parse p (fst (piped_arg b s1)) = p_parse q (fst (piped_arg b s1))"
      using bounds s1 less.prems by (intro agreeD [OF assms(1)]) linarith
    moreover have "piped_loop p b str pos' (drop (snd (piped_arg b s1)) s1) vals' =
        piped_loop q b str pos' (drop (snd (piped_arg b s1)) s1) vals'" for pos' vals'
      using bounds s1 less.prems False by (intro less.hyps) auto
    ultimately show ?thesis
      by (subst (1 2) piped_loop.simps) (simp add: s1_def [symmetric] Let_def)
  qed
qed

lemma agree_piped: "agree n p q \<Longrightarrow> agree n (arg_piped p b) (arg_piped q b)"
  unfolding arg_piped_def by (rule agree_plain) (simp add: piped_loop_agree)

text \<open>Behind a bracket the string is two bytes shorter, behind a function's name one.\<close>

lemma agree_lambda:
  assumes "agree n p q"
  shows "agree (n + 2) (arg_lambda (Some p) run b) (arg_lambda (Some q) run b)"
  unfolding arg_lambda_def
proof (rule agree_plain)
  fix s :: bytes
  assume s: "length s < n + 2"
  have inner: "p_parse p (take i (tl s)) = p_parse q (take i (tl s))"
    if "bracket_index br 1 (runes (tl s)) = (nest, i')" and "i' = Some i" for br nest i i'
  proof -
    have "i < length (tl s)"
      using bracket_index_found [OF that(1) [unfolded that(2)]] runes_from_offset [of i _ 0 "tl s"] by (auto simp: runes_def)
    with s show ?thesis
      by (intro agreeD [OF assms]) auto
  qed
  obtain op cl where b: "(case b of None \<Rightarrow> lambda_brackets | Some b \<Rightarrow> b) = (op, cl)"
    by fastforce
  obtain nest i where idx: "bracket_index (op, cl) 1 (runes (tl s)) = (nest, i)"
    by fastforce
  show "lambda_parse (Some p) run b s = lambda_parse (Some q) run b s"
    using inner [OF idx] idx by (cases i) (auto simp: lambda_parse_def b idx Let_def lambda_args_def)
qed

lemma agree_fn:
  assumes "\<And>name. rel_option (agree (n + 2)) (a name) (a' name)"
  shows "agree (Suc n) (arg_fn a) (arg_fn a')"
  unfolding arg_fn_def
proof (rule agree_plain)
  fix s :: bytes
  assume s: "length s < Suc n"
  show "fn_parse a s = fn_parse a' s"
  proof (cases "fn_match s")
    case None
    then show ?thesis
      by (simp add: fn_parse_def)
  next
    case (Some m)
    obtain name arg where m: "m = (name, arg)"
      by fastforce
    note bounds = fn_match_bounds [OF Some [unfolded m]]
    have "1 \<le> length name"
      using bounds(1) by (cases name) simp_all
    then have "length (40 # drop (length name + k) s @ [41 :: byte]) < n + 2" "length arg < n + 2" for k
      using bounds(2) s by simp_all
    then show ?thesis
      using assms [of name] Some m
      by (auto simp: fn_parse_def Let_def option_rel_Some1 option_rel_Some2 agreeD
          split: option.split)
  qed
qed

section \<open>The grammar ends\<close>

text \<open>What the functions of the grammar panic with: a failed assertion, or a constructor.\<close>

definition maker_panic :: "string \<Rightarrow> bool" where
  "maker_panic m \<longleftrightarrow> m = ''size must be >= 1'' \<or> m = ''makechan: size out of range''"

definition fn_panic :: "string \<Rightarrow> bool" where
  "fn_panic m \<longleftrightarrow> m = ''interface conversion'' \<or> maker_panic m"

lemma arg_panic_iff [simp]: "arg_panic = Panic m \<longleftrightarrow> m = ''interface conversion''"
  by (auto simp: arg_panic_def)

lemma made_no_panic [simp]: "made p \<noteq> Panic m"
  by (simp add: made_def)

lemma fn_panicI [simp]: "fn_panic ''interface conversion''" "maker_panic m \<Longrightarrow> fn_panic m"
  by (simp_all add: fn_panic_def)

lemma maker_panics:
  "slots_new n = Panic m \<Longrightarrow> maker_panic m" "new_group k = Panic m \<Longrightarrow> maker_panic m"
  by (simp_all add: slots_new_def new_group_def maker_panic_def split: if_splits)

lemma bind_made_panic [simp]: "bind_outcome r (\<lambda>_. made p) = Panic m \<longleftrightarrow> r = Panic m"
  by (cases r) simp_all

lemma new_s_panic: "new_s e k excl vs = Panic m \<Longrightarrow> fn_panic m"
  by (auto simp: new_s_def Let_def split: option.splits)

lemma new_chain_panic: "new_chain vs = Panic m \<Longrightarrow> fn_panic m"
  by (auto simp: new_chain_def split: option.splits)

lemma multireader_run_panic: "multireader_run e vs = Panic m \<Longrightarrow> fn_panic m"
  by (auto simp: multireader_run_def split: option.splits)

lemma filter_panics:
  "store_proc_filter sd v = Panic m \<Longrightarrow> fn_panic m" "copier_run e sd v w = Panic m \<Longrightarrow> fn_panic m"
  "quota_max_run v w = Panic m \<Longrightarrow> fn_panic m" "quota_filter v = Panic m \<Longrightarrow> fn_panic m"
  "quota_stats_filter v = Panic m \<Longrightarrow> fn_panic m" "stats_filter k v = Panic m \<Longrightarrow> fn_panic m"
  "new_filter v = Panic m \<Longrightarrow> fn_panic m"
proof -
  show "store_proc_filter sd v = Panic m \<Longrightarrow> fn_panic m"
    by (cases "(sd, v)" rule: store_proc_filter.cases) auto
  show "copier_run e sd v w = Panic m \<Longrightarrow> fn_panic m"
    by (cases "(e, sd, v, w)" rule: copier_run.cases) auto
  show "quota_max_run v w = Panic m \<Longrightarrow> fn_panic m"
    by (cases "(v, w)" rule: quota_max_run.cases) auto
  show "quota_filter v = Panic m \<Longrightarrow> fn_panic m"
    by (cases v rule: quota_filter.cases) auto
  show "quota_stats_filter v = Panic m \<Longrightarrow> fn_panic m"
    by (cases v rule: quota_stats_filter.cases) auto
  show "stats_filter k v = Panic m \<Longrightarrow> fn_panic m"
    by (cases "(k, v)" rule: stats_filter.cases) auto
  show "new_filter v = Panic m \<Longrightarrow> fn_panic m"
    by (cases v rule: new_filter.cases) (auto dest: new_chain_panic)
qed

lemma run_panics:
  "rclone_run vs = Panic m \<Longrightarrow> fn_panic m" "cp_run vs = Panic m \<Longrightarrow> fn_panic m"
  "scp_run vs = Panic m \<Longrightarrow> fn_panic m" "mincopies_run e vs = Panic m \<Longrightarrow> fn_panic m"
  "stripe_run e vs = Panic m \<Longrightarrow> fn_panic m" "index_arg_run e vs = Panic m \<Longrightarrow> fn_panic m"
  "split2_run vs = Panic m \<Longrightarrow> fn_panic m" "backlog_run vs = Panic m \<Longrightarrow> fn_panic m"
  "concur_run vs = Panic m \<Longrightarrow> fn_panic m" "parity_run e sd vs = Panic m \<Longrightarrow> fn_panic m"
  "write_run e vs = Panic m \<Longrightarrow> fn_panic m" "join_run e vs = Panic m \<Longrightarrow> fn_panic m"
  "group_arg_run vs = Panic m \<Longrightarrow> fn_panic m" "cmd_run k vs = Panic m \<Longrightarrow> fn_panic m"
proof -
  show "rclone_run vs = Panic m \<Longrightarrow> fn_panic m"
    by (cases vs rule: rclone_run.cases) auto
  show "cp_run vs = Panic m \<Longrightarrow> fn_panic m"
    by (cases vs rule: cp_run.cases) (auto split: option.splits)
  show "scp_run vs = Panic m \<Longrightarrow> fn_panic m"
    by (cases vs rule: scp_run.cases) (auto split: option.splits)
  show "mincopies_run e vs = Panic m \<Longrightarrow> fn_panic m"
    by (cases "(e, vs)" rule: mincopies_run.cases) (auto dest: new_s_panic)
  show "stripe_run e vs = Panic m \<Longrightarrow> fn_panic m"
    by (cases "(e, vs)" rule: stripe_run.cases) (auto dest: new_s_panic)
  show "index_arg_run e vs = Panic m \<Longrightarrow> fn_panic m"
    by (cases "(e, vs)" rule: index_arg_run.cases) auto
  show "split2_run vs = Panic m \<Longrightarrow> fn_panic m"
    by (cases vs rule: split2_run.cases) auto
  show "backlog_run vs = Panic m \<Longrightarrow> fn_panic m"
    by (cases vs rule: backlog_run.cases) (auto dest: maker_panics)
  show "concur_run vs = Panic m \<Longrightarrow> fn_panic m"
    by (cases vs rule: concur_run.cases) (auto dest: maker_panics)
  show "parity_run e sd vs = Panic m \<Longrightarrow> fn_panic m"
    by (cases "(e, sd, vs)" rule: parity_run.cases) (auto split: option.splits)
  show "write_run e vs = Panic m \<Longrightarrow> fn_panic m"
    by (cases "(e, vs)" rule: write_run.cases) auto
  show "join_run e vs = Panic m \<Longrightarrow> fn_panic m"
    by (cases "(e, vs)" rule: join_run.cases) auto
  show "group_arg_run vs = Panic m \<Longrightarrow> fn_panic m"
    by (cases vs rule: group_arg_run.cases) (auto dest: maker_panics)
  show "cmd_run k vs = Panic m \<Longrightarrow> fn_panic m"
    by (cases "(k, vs)" rule: cmd_run.cases) (auto split: option.splits)
qed

abbreviation ending :: "arg_val parser \<Rightarrow> bool" where
  "ending p \<equiv> parser_within p fn_panic"

abbreviation ending_eager :: "arg_val parser \<Rightarrow> bool" where
  "ending_eager p \<equiv> eager_parser p fn_panic"

abbreviation ending_call :: "arg_val parser \<Rightarrow> bool" where
  "ending_call p \<equiv> bracketed_parser p fn_panic"

lemma bracketed_lam:
  assumes "\<And>vs m. run vs = Panic m \<Longrightarrow> fn_panic m" and "\<And>p. p \<in> set ps \<Longrightarrow> ending p"
  shows "ending_call (lam ps run)"
  unfolding lam_def using assms
  by (intro bracketed_lambda) (auto simp: lambda_run_def intro: within_args)

lemma bracketed_lam0: "(\<And>m. r = Panic m \<Longrightarrow> fn_panic m) \<Longrightarrow> ending_call (lam0 (\<lambda>_. r))"
  unfolding lam0_def by (rule bracketed_lambda) (simp_all add: lambda_run_def)

lemmas single_parsers =
  str_arg.parser_within_axioms int_arg.parser_within_axioms bytes_arg.parser_within_axioms
  str_arg.variadic int_arg.variadic

interpretation parity_arg: bracketed_parser "new_arg_parity e sd" fn_panic for e sd
  unfolding new_arg_parity_def by (rule bracketed_lam [OF run_panics(10)]) (auto intro: single_parsers)

interpretation gzip_arg: bracketed_parser "new_arg_gzip sd" fn_panic for sd
  unfolding new_arg_gzip_def by (rule bracketed_lam0) simp

interpretation cmd_arg: bracketed_parser "new_arg_cmd_proc k" fn_panic for k
  unfolding new_arg_cmd_proc_def by (rule bracketed_lam [OF run_panics(14)]) (auto intro: single_parsers)

lemmas call_parsers =
  parity_arg.bracketed_parser_axioms gzip_arg.bracketed_parser_axioms cmd_arg.bracketed_parser_axioms

text \<open>The functions of a map, each with brackets.\<close>

definition bracketed_fns :: "(bytes \<times> arg_val parser) list \<Rightarrow> bool" where
  "bracketed_fns fns \<longleftrightarrow> list_all (\<lambda>(k, p). ending_call p) fns"

lemma eager_fns: "bracketed_fns fns \<Longrightarrow> ending_eager (arg_fn (map_of fns))"
  by (rule eager_fn) (auto simp: bracketed_fns_def list_all_iff dest: map_of_SomeD)

lemma ending_fns: "bracketed_fns fns \<Longrightarrow> ending (arg_fn (map_of fns))"
  by (rule eager_parser.axioms(1)) (rule eager_fns)

lemma store_bracketed: "bracketed_fns new_arg_store"
  by (auto simp: bracketed_fns_def new_arg_store_def intro!: bracketed_lam single_parsers
      intro: run_panics(1-3))

lemma copier_eager: "ending_eager (new_arg_copier e sd)"
  unfolding new_arg_copier_def
  by (rule eager_pair) (simp_all add: single_parsers ending_fns store_bracketed filter_panics(2))

lemma quota_eager:
  assumes "ending_eager argc"
  shows "ending_eager (new_arg_quota e argc)"
proof -
  have "ending_eager (arg_pair argc (arg_bytes (ae_bytes e)) quota_max_run)"
    by (rule eager_pair [OF eager_parser.axioms(1) [OF assms] single_parsers(3) filter_panics(3)])
  then have "ending_eager (arg_or [arg_pair argc (arg_bytes (ae_bytes e)) quota_max_run, argc])"
    using assms by (intro eager_or) auto
  from eager_filtered [OF this filter_panics(4)] show ?thesis
    by (simp add: new_arg_quota_def Let_def eager_filtered filter_panics(5))
qed

lemma dyn_bracketed: "bracketed_fns (new_arg_dyn_proc e)"
proof -
  have "ending (arg_variadic (new_arg_quota e (new_arg_copier e GetProc)))"
    by (rule eager_parser.variadic) (simp add: quota_eager copier_eager)
  then show ?thesis
    by (auto simp: bracketed_fns_def new_arg_dyn_proc_def Let_def intro!: bracketed_lam single_parsers
        intro: run_panics(4,5))
qed

lemma procs_bracketed:
  assumes "ending argp"
  shows "bracketed_fns (new_arg_proc e argp)"
proof -
  have "ending (arg_variadic (new_arg_copier e GetUnproc))"
    by (rule eager_parser.variadic) (rule copier_eager)
  then have "ending_call (arg_lambda (Some (arg_variadic (new_arg_copier e GetUnproc)))
      (Some (multireader_run e)) None)"
    by (intro bracketed_lambda) (auto simp: lambda_run_def intro: multireader_run_panic)
  then show ?thesis
    using assms
    by (auto simp: bracketed_fns_def new_arg_proc_def
        intro!: call_parsers bracketed_lam bracketed_lam0 single_parsers ending_fns dyn_bracketed intro: run_panics)
qed

lemma proc_fns_bracketed: "ending argp \<Longrightarrow> bracketed_fns (proc_fns e argp)"
  using procs_bracketed [of argp e] store_bracketed
  by (auto simp: bracketed_fns_def list_all_iff proc_fns_def new_arg_stats_proc_def
      new_arg_store_proc_def Let_def intro!: bracketed_filtered intro: filter_panics(1,6))

lemma arg_chain_bracketed: "ending argp \<Longrightarrow> ending_call (arg_chain argp)"
  unfolding arg_chain_def
  by (rule bracketed_lambda) (auto simp: lambda_run_def intro: parser_within.piped new_chain_panic)

text \<open>One level of \<open>argProc\<close> over procs that agree on shorter strings.\<close>

definition arg_proc_step :: "arg_env \<Rightarrow> arg_val parser \<Rightarrow> arg_val parser" where
  "arg_proc_step e argp = arg_or [arg_chain argp, arg_fn (map_of (proc_fns e argp))]"

lemma arg_proc_Suc: "arg_proc e (Suc n) = arg_proc_step e (arg_proc e n)"
  by (simp add: arg_proc_step_def Let_def)

lemma arg_proc_step_parser: "ending argp \<Longrightarrow> ending (arg_proc_step e argp)"
  unfolding arg_proc_step_def
  by (rule within_or)
    (auto intro: ending_fns proc_fns_bracketed bracketed_parser.axioms(1) arg_chain_bracketed)

definition agree_fns :: "nat \<Rightarrow> (bytes \<times> 'v parser) list \<Rightarrow> (bytes \<times> 'v parser) list \<Rightarrow> bool" where
  "agree_fns n fs gs \<longleftrightarrow> list_all2 (\<lambda>(k, p) (l, q). k = l \<and> agree n p q) fs gs"

lemma agree_fns_map_of:
  assumes "agree_fns n fs gs"
  shows "rel_option (agree n) (map_of fs name) (map_of gs name)"
  using assms unfolding agree_fns_def by (induction rule: list_all2_induct) auto

lemma new_arg_proc_agree:
  assumes "agree n p q"
  shows "agree_fns (n + 2) (new_arg_proc e p) (new_arg_proc e q)"
proof -
  have "agree (n + 2) (lam [arg_int, p] backlog_run) (lam [arg_int, q] backlog_run)"
    unfolding lam_def by (intro agree_lambda agree_args) (simp add: assms)
  then show ?thesis
    by (simp add: agree_fns_def new_arg_proc_def)
qed

lemma proc_fns_agree:
  assumes "agree n p q"
  shows "agree_fns (n + 2) (proc_fns e p) (proc_fns e q)"
  using new_arg_proc_agree [OF assms, of e]
  by (auto simp: agree_fns_def proc_fns_def new_arg_stats_proc_def Let_def list_all2_map1
      list_all2_map2 agree_filter intro!: list_all2_appendI list_all2_refl elim!: list_all2_mono)

lemma arg_proc_step_agree:
  assumes "agree n p q"
  shows "agree (Suc n) (arg_proc_step e p) (arg_proc_step e q)"
proof -
  have "agree (Suc n) (arg_chain p) (arg_chain q)"
    unfolding arg_chain_def
    by (rule agree_mono [OF agree_lambda [OF agree_piped [OF assms]]]) simp
  moreover have "agree (Suc n) (arg_fn (map_of (proc_fns e p))) (arg_fn (map_of (proc_fns e q)))"
    by (rule agree_fn) (rule agree_fns_map_of [OF proc_fns_agree [OF assms]])
  ultimately show ?thesis
    unfolding arg_proc_step_def by (intro agree_or) simp
qed

lemma arg_proc_ends: "\<exists>q. ending q \<and> agree n (arg_proc e n) q"
proof (induction n)
  case 0
  have "agree 0 (arg_proc e 0) arg_str"
    by (simp add: agree_def arg_str_def plain_def)
  then show ?case
    using str_arg.parser_within_axioms by blast
next
  case (Suc n)
  then show ?case
    unfolding arg_proc_Suc using arg_proc_step_parser arg_proc_step_agree by blast
qed

lemma arg_proc_deeper: "n \<le> m \<Longrightarrow> agree n (arg_proc e n) (arg_proc e m)"
proof (induction n arbitrary: m)
  case 0
  then show ?case
    by (cases m) (simp_all add: agree_def arg_or_def plain_def Let_def)
next
  case (Suc n)
  then obtain m' where "m = Suc m'" "n \<le> m'"
    by (cases m) auto
  then show ?case
    unfolding \<open>m = _\<close> arg_proc_Suc using Suc.IH by (intro arg_proc_step_agree) simp
qed

lemma new_parser_ends:
  assumes "length str < n"
  shows "ends fn_panic (reads 0 (int (length str))) (p_parse (new_parser e n) str)"
proof -
  obtain q where q: "ending q" "agree n (arg_proc e n) q"
    using arg_proc_ends by blast
  have "agree n (new_parser e n) (arg_filter (arg_piped q (Some chain_brackets)) new_filter)"
    unfolding new_parser_def by (intro agree_filter agree_piped q(2))
  then have "p_parse (new_parser e n) str =
      p_parse (arg_filter (arg_piped q (Some chain_brackets)) new_filter) str"
    by (rule agreeD) (rule assms)
  moreover have "ending (arg_filter (arg_piped q (Some chain_brackets)) new_filter)"
    by (intro parser_within.filtered parser_within.piped q(1) filter_panics(7))
  ultimately show ?thesis
    using parser_within.total by simp
qed

lemma new_parser_depth:
  assumes "length str < n"
  shows "p_parse (new_parser e n) str = argproc_parse e str"
proof -
  have "agree (Suc (length str)) (new_parser e (Suc (length str))) (new_parser e n)"
    unfolding new_parser_def using assms by (intro agree_filter agree_piped arg_proc_deeper) simp
  then show ?thesis
    unfolding argproc_parse_def by (metis agreeD lessI)
qed

end
