(* ===== verification/Argproc_Types.thy ===== *)
theory Argproc_Types
  imports Argproc_Props
begin

text \<open>
  What the values of the parsers are. The functions given to the parsers of
  \<^verbatim>\<open>argproc/argproc.go\<close> assert the types of their arguments; the locale follows the
  types through the combinators, and none of the assertions can fail.
\<close>

section \<open>What a parse comes to, if it ends\<close>

text \<open>\<open>pholds P m\<close>: the result satisfies \<open>P\<close>, and there is no panic of a failed assertion.\<close>

definition pholds :: "('a \<Rightarrow> bool) \<Rightarrow> 'a outcome option \<Rightarrow> bool" where
  "pholds P m \<longleftrightarrow>
     (case m of None \<Rightarrow> True | Some (Panic e) \<Rightarrow> e \<noteq> ''interface conversion'' | Some (Ret x) \<Rightarrow> P x)"

lemma pholds_simps [simp]:
  "pholds P None" "pholds P (Some (Panic e)) \<longleftrightarrow> e \<noteq> ''interface conversion''" "pholds P (pret x) \<longleftrightarrow> P x"
  by (simp_all add: pholds_def)

lemma pholdsE:
  assumes "pholds P m"
  obtains "m = None" | e where "m = Some (Panic e)" and "e \<noteq> ''interface conversion''"
    | x where "m = pret x" and "P x"
  using assms by (cases m; cases "the m") (auto simp: pholds_def)

lemma pholds_mono: "pholds P m \<Longrightarrow> (\<And>x. P x \<Longrightarrow> Q x) \<Longrightarrow> pholds Q m"
  by (erule pholdsE) simp_all

lemma pholds_bindI: "pholds Q m \<Longrightarrow> (\<And>x. Q x \<Longrightarrow> pholds P (f x)) \<Longrightarrow> pholds P (pbind m f)"
  by (erule pholdsE) simp_all

lemma pholds_sliceI: "(\<And>x. pholds P (f x)) \<Longrightarrow> pholds P (pbind (slice_from s pos) f)"
  by (simp add: slice_from_def)

section \<open>Typed parsers\<close>

text \<open>A value of the type if there is no error; and no failed assertion.\<close>

definition typed_pair_res :: "('v pval \<Rightarrow> bool) \<Rightarrow> 'v pval \<times> perr option \<Rightarrow> bool" where
  "typed_pair_res Q r \<longleftrightarrow> (snd r = None \<longrightarrow> Q (fst r))"

lemma typed_pair_res_simps [simp]:
  "typed_pair_res Q (v, None) \<longleftrightarrow> Q v" "typed_pair_res Q (v, Some e)"
  by (simp_all add: typed_pair_res_def)

lemma typed_pair_res_mono: "typed_pair_res Q r \<Longrightarrow> (\<And>v. Q v \<Longrightarrow> R v) \<Longrightarrow> typed_pair_res R r"
  by (simp add: typed_pair_res_def)

definition typed_res :: "('v pval \<Rightarrow> bool) \<Rightarrow> 'v fn_res \<Rightarrow> bool" where
  "typed_res Q r \<longleftrightarrow>
     (case r of Panic e \<Rightarrow> e \<noteq> ''interface conversion'' | Ret r \<Rightarrow> typed_pair_res Q r)"

lemma typed_res_simps [simp]:
  "typed_res Q (Ret r) \<longleftrightarrow> typed_pair_res Q r" "typed_res Q (Panic e) \<longleftrightarrow> e \<noteq> ''interface conversion''"
  by (simp_all add: typed_res_def)

definition typed_pres :: "('v pval \<Rightarrow> bool) \<Rightarrow> 'v pres \<Rightarrow> bool" where
  "typed_pres Q = pholds (\<lambda>(v, n, e). typed_pair_res Q (v, e))"

lemma typed_pres_pret [simp]: "typed_pres Q (pret (v, n, e)) \<longleftrightarrow> typed_pair_res Q (v, e)"
  by (simp add: typed_pres_def)

lemma typed_pres_placed [simp]: "typed_pres R (placed n r) \<longleftrightarrow> typed_res R r"
  by (cases r) (auto simp: typed_pres_def placed_def)

lemma typed_pres_bindI:
  assumes "typed_pres Q m" and "\<And>v n. Q v \<Longrightarrow> typed_pres R (f (v, n, None))"
    and "\<And>v n e. typed_pres R (f (v, n, Some e))"
  shows "typed_pres R (pbind m f)"
  unfolding typed_pres_def
proof (rule pholds_bindI [OF assms(1) [unfolded typed_pres_def]], clarify)
  fix v n e
  assume "typed_pair_res Q (v, e)"
  then show "pholds (\<lambda>(v, n, e). typed_pair_res R (v, e)) (f (v, n, e))"
    using assms(2,3) by (cases e) (auto simp: typed_pres_def)
qed

lemma typed_pres_sliceI:
  "(\<And>x. typed_pres R (f x)) \<Longrightarrow> typed_pres R (pbind (slice_from s pos) f)"
  by (simp add: typed_pres_def pholds_sliceI)

lemma typed_pres_stop [simp]:
  "typed_pres Q None" "typed_pres Q (Some (Panic e)) \<longleftrightarrow> e \<noteq> ''interface conversion''"
  by (simp_all add: typed_pres_def)

text \<open>The two binds, of \<open>partial_function\<close> and of the rest, are one.\<close>

lemma bind_pbind:
  "Option.bind m (\<lambda>r. case r of Ret x \<Rightarrow> f x | Panic e \<Rightarrow> Some (Panic e)) = pbind m f"
  by (simp add: pbind_def)

definition vlist_of :: "('v pval \<Rightarrow> bool) \<Rightarrow> 'v pval \<Rightarrow> bool" where
  "vlist_of Q v \<longleftrightarrow> (\<exists>vs. v = VList vs \<and> list_all Q vs)"

lemma vlist_of_VList [simp]: "vlist_of Q (VList vs) \<longleftrightarrow> list_all Q vs"
  by (simp add: vlist_of_def)

locale typed_parser =
  fixes p :: "'v parser" and Q :: "'v pval \<Rightarrow> bool"
  assumes typed: "typed_pres Q (p_parse p s)"
    and typed_empty: "p_empty p = Some r \<Longrightarrow> typed_pair_res Q r"
begin

lemma weaker: "(\<And>v. Q v \<Longrightarrow> R v) \<Longrightarrow> typed_parser p R"
  by unfold_locales
    (auto simp: typed_pres_def intro: typed_pair_res_mono typed_empty
      intro!: pholds_mono [OF typed [unfolded typed_pres_def]])

lemma filtered:
  assumes "\<And>v. Q v \<Longrightarrow> typed_res R (f v)"
  shows "typed_parser (arg_filter p f) R"
proof
  show "typed_pres R (p_parse (arg_filter p f) s)" for s
    by (auto simp: arg_filter_def plain_def filter_parse_def assms intro: typed_pres_bindI [OF typed])
qed (simp add: arg_filter_def plain_def)

lemma piped_typed: "list_all Q vals \<Longrightarrow> typed_pres (vlist_of Q) (piped_loop p b str pos s vals)"
proof (induction "length s" arbitrary: pos s vals rule: less_induct)
  case less
  define s1 where "s1 = drop (count_left_spaces s) s"
  have shorter: "length (drop (snd (piped_arg b s1)) s1) < length s" if "s1 \<noteq> []"
    using piped_arg_bounds [OF that, of b] that by (auto simp: s1_def)
  show ?case
    unfolding piped_loop.simps [of p b str pos s vals] Let_def s1_def [symmetric]
    by (auto simp: less.prems intro!: typed_pres_bindI [OF typed] less.hyps [OF shorter])
qed

lemma piped: "typed_parser (arg_piped p b) (vlist_of Q)"
  by unfold_locales (auto simp: arg_piped_def plain_def intro: piped_typed)

lemma variadic_typed:
  assumes "list_all Q vals"
  shows "typed_pres (vlist_of Q) (variadic_loop p str pos vals)"
proof (cases "variadic_loop p str pos vals")
  case (Some r)
  have "p = p \<longrightarrow> list_all Q vals \<longrightarrow> typed_pres (vlist_of Q) (Some r)"
  proof (rule variadic_loop.raw_induct
      [where P = "\<lambda>p' str pos vals r. p' = p \<longrightarrow> list_all Q vals \<longrightarrow> typed_pres (vlist_of Q) (Some r)",
        OF _ Some], intro impI)
    fix loop p' str pos vals r
    assume IH: "\<And>p' str pos vals r. loop p' str pos vals = Some r \<Longrightarrow>
        p' = p \<longrightarrow> list_all Q vals \<longrightarrow> typed_pres (vlist_of Q) (Some r)"
      and eq: "Option.bind (slice_from str pos) (\<lambda>r. case r of Panic e \<Rightarrow> Some (Panic e) | Ret s \<Rightarrow>
       (let pos = pos + int (count_left_spaces s) in
        if int (length str) \<le> pos then pret (VList vals, pos, None)
        else
          Option.bind (slice_from str pos) (\<lambda>r. case r of Panic e \<Rightarrow> Some (Panic e) | Ret s1 \<Rightarrow>
          Option.bind (p_parse p' s1) (\<lambda>r. case r of Panic e \<Rightarrow> Some (Panic e) | Ret (val, n, err) \<Rightarrow>
            (case err of
               Some e \<Rightarrow> pret (VNil, pos + n, Some (PDetails e str (pos + n)))
             | None \<Rightarrow> loop p' str (pos + n) (vals @ [val])))))) = Some r"
      and p': "p' = p" and vals: "list_all Q vals"
    have "typed_pres (vlist_of Q) (loop p str k ws)" if "list_all Q ws" for k ws
      using IH [of p str k ws] that by (cases "loop p str k ws") auto
    then show "typed_pres (vlist_of Q) (Some r)"
      unfolding eq [symmetric] bind_pbind Let_def p'
      using vals by (auto intro!: typed_pres_sliceI typed_pres_bindI [OF typed])
  qed
  with Some assms show ?thesis
    by simp
qed simp

lemma variadic: "typed_parser (arg_variadic p) (vlist_of Q)"
  by unfold_locales (auto simp: arg_variadic_def intro: variadic_typed)

lemma lambda:
  assumes "\<And>v vs. Q v \<Longrightarrow> v = VList vs \<Longrightarrow> typed_res R (run vs)"
  shows "typed_parser (arg_lambda (Some p) (Some run) b) R"
proof
  show "typed_pres R (p_parse (arg_lambda (Some p) (Some run) b) s)" for s
    unfolding arg_lambda_def plain_def lambda_parse_def Let_def lambda_args_def lambda_run_def
    by (auto intro!: typed_pres_bindI [OF typed] assms split: option.splits prod.splits pval.split)
qed (simp add: arg_lambda_def plain_def)

end

section \<open>The combinators of several parsers\<close>

lemma typed_or:
  assumes "\<And>p. p \<in> set ps \<Longrightarrow> typed_parser p Q" and "ps \<noteq> []"
  shows "typed_parser (arg_or ps) Q"
proof
  have "typed_pres Q (or_parse ps r s)" if "ps \<noteq> [] \<or> typed_pres Q (pret r)" for r s
    using that assms(1)
  proof (induction ps arbitrary: r)
    case (Cons p ps)
    have "typed_pres Q (p_parse p s)"
      using Cons.prems(2) by (simp add: typed_parser.typed)
    then show ?case
      by (auto intro!: typed_pres_bindI Cons.IH Cons.prems(2))
  qed auto
  then show "typed_pres Q (p_parse (arg_or ps) s)" for s
    using assms(2) by (simp add: arg_or_def plain_def)
qed (simp add: arg_or_def plain_def)

lemma typed_pair:
  assumes "typed_parser l Q" and "typed_parser r R"
    and "\<And>v w. Q v \<Longrightarrow> R w \<Longrightarrow> typed_res T (run v w)"
  shows "typed_parser (arg_pair l r run) T"
proof
  show "typed_pres T (p_parse (arg_pair l r run) s)" for s
    by (auto simp: arg_pair_def pair_parse_def Let_def split: option.split
        intro!: typed_pres_bindI [OF typed_parser.typed [OF assms(1)]]
          typed_pres_bindI [OF typed_parser.typed [OF assms(2)]] typed_pres_sliceI assms(3))
qed (simp add: arg_pair_def)

lemma typed_fn:
  assumes "\<And>name p. a name = Some p \<Longrightarrow> typed_parser p Q"
  shows "typed_parser (arg_fn a) Q"
proof
  show "typed_pres Q (p_parse (arg_fn a) s)" for s
    by (auto simp: arg_fn_def plain_def fn_parse_def Let_def split: option.split prod.split
        intro!: typed_pres_bindI [OF typed_parser.typed [OF assms]])
qed (simp add: arg_fn_def plain_def)

text \<open>\<open>Args\<close>: a value of the type of each argument.\<close>

definition vals_of :: "('v pval \<Rightarrow> bool) list \<Rightarrow> 'v pval list \<Rightarrow> bool" where
  "vals_of Qs vs \<longleftrightarrow> list_all2 (\<lambda>Q v. Q v) Qs vs"

lemma vals_of_simps [simp]:
  "vals_of [] vs \<longleftrightarrow> vs = []"
  "vals_of (Q # Qs) vs \<longleftrightarrow> (\<exists>w ws. vs = w # ws \<and> Q w \<and> vals_of Qs ws)"
  by (auto simp: vals_of_def list_all2_Cons1)

definition args_res :: "('v pval \<Rightarrow> bool) list \<Rightarrow> perr \<times> int + 'v pval list \<times> int \<Rightarrow> bool" where
  "args_res Qs r \<longleftrightarrow>
     (case r of Inl _ \<Rightarrow> True | Inr (vs, _) \<Rightarrow> vals_of Qs vs)"

lemma args_res_simps [simp]:
  "args_res Qs (Inl x)"
  "args_res Qs (Inr (vs, k)) \<longleftrightarrow> vals_of Qs vs"
  by (simp_all add: args_res_def)

lemma args_loop_typed:
  assumes "list_all2 typed_parser ps Qs"
  shows "pholds (args_res Qs) (args_loop str ps pos)"
  using assms
proof (induction arbitrary: pos rule: list_all2_induct)
  case (Cons p ps Q Qs)
  have tail: "pholds (args_res (Q # Qs)) (pbind (args_loop str ps k)
      (\<lambda>r. pret (map_sum (\<lambda>x. x) (\<lambda>(vals, p). (v # vals, p)) r)))" if "Q v" for k v
    by (rule pholds_bindI [OF Cons.IH]) (use that in \<open>auto simp: args_res_def split: sum.splits\<close>)
  have "pholds (args_res (Q # Qs)) (pbind (p_parse p s) (\<lambda>(v, n, e).
      case e of
        Some e \<Rightarrow> pret (Inl (PDetails e str (k + n), k + n))
      | None \<Rightarrow> pbind (args_loop str ps (k + n))
          (\<lambda>r. pret (map_sum (\<lambda>x. x) (\<lambda>(vals, p). (v # vals, p)) r))))" for s k
    using tail by (intro pholds_bindI [OF typed_parser.typed [OF Cons(1), unfolded typed_pres_def]])
      (auto split: option.split)
  moreover have "typed_pair_res Q r" if "p_empty p = Some r" for r
    by (rule typed_parser.typed_empty [OF Cons(1) that])
  ultimately show ?case
    by (auto simp: Let_def split: option.split prod.split intro!: pholds_sliceI tail)
qed simp

definition args_of :: "('v pval \<Rightarrow> bool) list \<Rightarrow> 'v pval \<Rightarrow> bool" where
  "args_of Qs v \<longleftrightarrow> (\<exists>vs. v = VList vs \<and> vals_of Qs vs)"

lemma typed_args:
  assumes "list_all2 typed_parser ps Qs"
  shows "typed_parser (args ps) (args_of Qs)"
proof
  show "typed_pres (args_of Qs) (p_parse (args ps) s)" for s
    unfolding args_def plain_def args_parse_def typed_pres_def
    by (auto simp: args_of_def Let_def split: sum.split
        intro!: pholds_bindI [OF args_loop_typed [OF assms]] pholds_sliceI)
qed (simp add: args_def plain_def)

lemma typed_lam:
  assumes "list_all2 typed_parser ps Qs" and "\<And>vs. vals_of Qs vs \<Longrightarrow> typed_res R (run vs)"
  shows "typed_parser (lam ps run) R"
  unfolding lam_def
  by (rule typed_parser.lambda [OF typed_args [OF assms(1)]]) (auto simp: args_of_def assms(2))

lemma lambda_args_None: "lambda_args None = lambda_args (Some (args []))"
  by (simp add: lambda_args_def)

lemma lambda_no_args: "arg_lambda None run b = arg_lambda (Some (args [])) run b"
proof -
  have "lambda_parse None run b s = lambda_parse (Some (args [])) run b s" for s
    unfolding lambda_parse_def lambda_args_None ..
  then have "lambda_parse None run b = lambda_parse (Some (args [])) run b" ..
  then show ?thesis
    by (simp only: arg_lambda_def)
qed

lemma typed_lam0: "typed_res R (run []) \<Longrightarrow> typed_parser (lam0 run) R"
  unfolding lam0_def lambda_no_args
  by (rule typed_parser.lambda [OF typed_args [of "[]" "[]"]]) (auto simp: args_of_def)

section \<open>The single arguments\<close>

definition is_int :: "'v pval \<Rightarrow> bool" where
  "is_int v \<longleftrightarrow> (\<exists>i. v = VInt i)"

definition is_uint :: "'v pval \<Rightarrow> bool" where
  "is_uint v \<longleftrightarrow> (\<exists>i. v = VUint i)"

definition is_str :: "'v pval \<Rightarrow> bool" where
  "is_str v \<longleftrightarrow> (\<exists>s. v = VStr s)"

interpretation int_typed: typed_parser arg_int is_int
  by unfold_locales
    (auto simp: arg_int_def plain_def int_parse_def atoi_def Let_def is_int_def
      split: prod.split)

interpretation bytes_typed: typed_parser "arg_bytes parse_bytes" is_uint
  by unfold_locales
    (auto simp: arg_bytes_def plain_def bytes_parse_def Let_def is_uint_def
      split: prod.split option.split sum.split)

interpretation str_typed: typed_parser arg_str is_str
  by unfold_locales
    (auto simp: arg_str_def plain_def str_parse_def space_only_parse_def Let_def is_str_def
      split: list.split option.split)

section \<open>The grammar\<close>

definition is_proc :: "arg_val pval \<Rightarrow> bool" where
  "is_proc v \<longleftrightarrow> (\<exists>p. v = VAny (AProc p))"

definition is_store :: "arg_val pval \<Rightarrow> bool" where
  "is_store v \<longleftrightarrow> (\<exists>st. v = VAny (AStore st))"

definition is_copier :: "arg_val pval \<Rightarrow> bool" where
  "is_copier v \<longleftrightarrow> (\<exists>cp. v = VAny (ACopier cp))"

definition is_quota :: "arg_val pval \<Rightarrow> bool" where
  "is_quota v \<longleftrightarrow> (\<exists>cp mx. v = VAny (AQuota cp mx))"

definition is_dyn :: "arg_val pval \<Rightarrow> bool" where
  "is_dyn v \<longleftrightarrow> (\<exists>d. v = VAny (ADyn d))"

lemmas is_defs = is_int_def is_uint_def is_str_def is_proc_def is_store_def is_copier_def
  is_quota_def is_dyn_def

lemma typed_text_err [simp]: "typed_pair_res R (v, text_err t) \<longleftrightarrow> (t = None \<longrightarrow> R v)"
  by (cases t) (simp_all add: text_err_def)

lemma typed_open_out: "R v \<Longrightarrow> typed_pair_res R (v, open_out e path)"
  by (simp add: open_out_def)

lemma assert_all_typed:
  assumes "list_all Q vs" and "\<And>v. Q v \<Longrightarrow> f v \<noteq> None"
  shows "\<exists>xs. assert_all f vs = Some xs"
  using assms by (induction vs) fastforce+

lemma assert_all_lists:
  "list_all is_int vs \<Longrightarrow> \<exists>xs. assert_all as_int vs = Some xs"
  "list_all is_str vs \<Longrightarrow> \<exists>xs. assert_all as_str vs = Some xs"
  "list_all is_proc ws \<Longrightarrow> \<exists>xs. assert_all as_proc ws = Some xs"
  "list_all is_copier ws \<Longrightarrow> \<exists>xs. assert_all as_copier ws = Some xs"
  "list_all is_quota ws \<Longrightarrow> \<exists>xs. assert_all as_quota ws = Some xs"
  by (erule assert_all_typed, force simp: is_defs)+

definition typed_fns :: "(bytes \<times> 'v parser) list \<Rightarrow> ('v pval \<Rightarrow> bool) \<Rightarrow> bool" where
  "typed_fns fns Q \<longleftrightarrow> list_all (\<lambda>(k, p). typed_parser p Q) fns"

lemma typed_fns_parser: "typed_fns fns Q \<Longrightarrow> typed_parser (arg_fn (map_of fns)) Q"
  by (rule typed_fn) (auto simp: typed_fns_def list_all_iff dest: map_of_SomeD)

lemmas single_typed = str_typed.typed_parser_axioms int_typed.typed_parser_axioms
  bytes_typed.typed_parser_axioms str_typed.variadic int_typed.variadic

lemma store_typed: "typed_fns new_arg_store is_store"
proof -
  have "typed_parser (lam [arg_str] rclone_run) is_store"
    by (rule typed_lam [where Qs = "[is_str]"]) (auto simp: is_defs single_typed)
  moreover have "typed_parser (lam [arg_str, arg_variadic arg_int] cp_run) is_store"
    by (rule typed_lam [where Qs = "[is_str, vlist_of is_int]"])
      (auto simp: single_typed is_str_def is_store_def vlist_of_def dest!: assert_all_lists)
  moreover have "typed_parser (lam [arg_str, arg_str, arg_variadic arg_int] scp_run) is_store"
    by (rule typed_lam [where Qs = "[is_str, is_str, vlist_of is_int]"])
      (auto simp: single_typed is_str_def is_store_def vlist_of_def dest!: assert_all_lists)
  ultimately show ?thesis
    by (simp add: typed_fns_def new_arg_store_def)
qed

lemma copier_typed: "typed_parser (new_arg_copier e sd) is_copier"
  unfolding new_arg_copier_def
  by (rule typed_pair [OF str_typed.typed_parser_axioms typed_fns_parser [OF store_typed]])
    (auto simp: is_defs)

lemma quota_typed:
  assumes "typed_parser argc is_copier"
  shows "typed_parser (new_arg_quota e argc) is_quota"
proof -
  let ?Q = "\<lambda>v. is_copier v \<or> is_quota v"
  have "typed_parser (arg_pair argc (arg_bytes (ae_bytes e)) quota_max_run) ?Q"
    by (rule typed_pair [OF assms bytes_typed.typed_parser_axioms]) (auto simp: is_defs)
  moreover have "typed_parser argc ?Q"
    by (rule typed_parser.weaker [OF assms]) simp
  ultimately have quota: "typed_parser
      (arg_filter (arg_or [arg_pair argc (arg_bytes (ae_bytes e)) quota_max_run, argc]) quota_filter) is_quota"
    by (intro typed_parser.filtered [of _ ?Q] typed_or) (auto simp: is_defs)
  then show ?thesis
    unfolding new_arg_quota_def Let_def
    by (auto intro!: typed_parser.filtered [OF quota] simp: is_quota_def)
qed

lemma dyn_typed: "typed_fns (new_arg_dyn_proc e) is_dyn"
proof -
  have new_s: "typed_res is_dyn (new_s e m excl vs)" if "list_all is_quota vs" for m excl vs
    using assert_all_lists(5) [OF that] by (auto simp: new_s_def is_dyn_def Let_def)
  have quotas: "typed_parser (arg_variadic (new_arg_quota e (new_arg_copier e GetProc))) (vlist_of is_quota)"
    by (rule typed_parser.variadic) (rule quota_typed [OF copier_typed])
  have "typed_parser (lam [arg_int, arg_variadic (new_arg_quota e (new_arg_copier e GetProc))]
      (mincopies_run e)) is_dyn"
    by (rule typed_lam [where Qs = "[is_int, vlist_of is_quota]"])
      (auto simp: single_typed quotas is_int_def vlist_of_def new_s)
  moreover have "typed_parser (lam [arg_int, arg_int, arg_variadic (new_arg_quota e (new_arg_copier e GetProc))]
      (stripe_run e)) is_dyn"
    by (rule typed_lam [where Qs = "[is_int, is_int, vlist_of is_quota]"])
      (auto simp: single_typed quotas is_int_def vlist_of_def new_s)
  ultimately show ?thesis
    by (simp add: typed_fns_def new_arg_dyn_proc_def Let_def)
qed

lemma typed_fns_Cons:
  "typed_fns ((k, p) # fns) Q \<longleftrightarrow> typed_parser p Q \<and> typed_fns fns Q" "typed_fns [] Q"
  by (simp_all add: typed_fns_def)

lemma lam_str_typed:
  "(\<And>path. typed_res R (run [VStr path])) \<Longrightarrow> typed_parser (lam [arg_str] run) R"
  by (rule typed_lam [where Qs = "[is_str]"]) (auto simp: single_typed is_str_def)

lemma lam_int_typed:
  "typed_parser p Q \<Longrightarrow> (\<And>i v. Q v \<Longrightarrow> typed_res R (run [VInt i, v])) \<Longrightarrow>
    typed_parser (lam [arg_int, p] run) R"
  by (rule typed_lam [where Qs = "[is_int, Q]"]) (auto simp: single_typed is_int_def)

lemma made_typed [simp]: "typed_res is_proc (made p)"
  by (simp add: made_def is_proc_def)

text \<open>The panic of a constructor is none of an assertion.\<close>

lemma constructor_typed:
  "typed_res R r \<Longrightarrow> typed_res R (bind_outcome (slots_new n) (\<lambda>_. r))"
  "typed_res R r \<Longrightarrow> typed_res R (bind_outcome (new_group k) (\<lambda>_. r))"
  by (simp_all add: slots_new_def new_group_def)

lemma cmd_typed: "typed_parser (new_arg_cmd_proc k) is_proc"
  unfolding new_arg_cmd_proc_def
  by (rule typed_lam [where Qs = "[is_str, vlist_of is_str]"])
    (auto simp: single_typed is_str_def [of "_ :: arg_val pval"] vlist_of_def dest!: assert_all_lists(2))

lemma procs_typed:
  assumes "typed_parser argp is_proc"
  shows "typed_fns (new_arg_proc e argp) is_proc"
proof -
  have procs: "is_proc (VAny (AProc p))" for p
    by (simp add: is_proc_def)
  have "typed_parser (lam [arg_bytes (ae_bytes e), arg_bytes (ae_bytes e)] split2_run) is_proc"
    by (rule typed_lam [where Qs = "[is_uint, is_uint]"]) (auto simp: single_typed is_uint_def)
  moreover have "typed_parser (lam [arg_int, argp] backlog_run) is_proc"
    by (rule lam_int_typed [OF assms]) (auto simp: is_proc_def made_def constructor_typed)
  moreover have "typed_parser (lam [arg_int, arg_fn (map_of (new_arg_dyn_proc e))] concur_run) is_proc"
    by (rule lam_int_typed [OF typed_fns_parser [OF dyn_typed]]) (auto simp: is_dyn_def constructor_typed)
  moreover have "typed_parser (arg_lambda (Some (arg_variadic (new_arg_copier e GetUnproc)))
      (Some (multireader_run e)) None) is_proc"
    by (rule typed_parser.lambda [OF typed_parser.variadic [OF copier_typed]])
      (auto simp: multireader_run_def procs dest!: assert_all_lists)
  moreover have "typed_parser (new_arg_parity e sd) is_proc" for sd
    unfolding new_arg_parity_def
    by (rule lam_int_typed [OF int_typed.typed_parser_axioms])
      (auto simp: is_int_def text_err_def split: option.split)
  moreover have "typed_parser (lam [arg_int] group_arg_run) is_proc"
    by (rule typed_lam [where Qs = "[is_int]"]) (auto simp: single_typed is_int_def constructor_typed)
  moreover have "typed_parser (lam [arg_str] (index_arg_run e)) is_proc"
      "typed_parser (lam [arg_str] (write_run e)) is_proc" "typed_parser (lam [arg_str] (join_run e)) is_proc"
    by (rule lam_str_typed, simp add: typed_open_out procs)+
  ultimately show ?thesis
    by (simp add: new_arg_proc_def typed_fns_Cons typed_lam0 new_arg_gzip_def cmd_typed)
qed

lemma proc_fns_typed:
  assumes "typed_parser argp is_proc"
  shows "typed_fns (proc_fns e argp) is_proc"
proof -
  have store: "typed_parser (new_arg_store_proc p sd) is_proc" if "(k, p) \<in> set new_arg_store" for k p sd
    unfolding new_arg_store_proc_def
    by (rule typed_parser.filtered [where Q = is_store])
      (use store_typed that in \<open>auto simp: typed_fns_def list_all_iff is_store_def\<close>)
  have stats: "typed_parser (new_arg_stats_proc p k) is_proc" if "typed_parser p is_proc" for p k
    unfolding new_arg_stats_proc_def by (rule typed_parser.filtered [OF that]) (auto simp: is_proc_def made_def)
  show ?thesis
    using procs_typed [OF assms, of e] store stats
    by (fastforce simp: typed_fns_def list_all_iff proc_fns_def Let_def)
qed

lemma new_chain_typed: "list_all is_proc vs \<Longrightarrow> typed_res is_proc (new_chain vs)"
  by (auto simp: new_chain_def dest!: assert_all_lists)

lemma arg_proc_typed: "typed_parser (arg_proc e n) is_proc"
proof (induction n)
  case 0
  show ?case
    by unfold_locales (simp_all add: plain_def)
next
  case (Suc n)
  have "typed_parser (arg_chain (arg_proc e n)) is_proc"
    unfolding arg_chain_def
    by (rule typed_parser.lambda [OF typed_parser.piped [OF Suc.IH]]) (simp add: new_chain_typed)
  moreover have "typed_parser (arg_fn (map_of (proc_fns e (arg_proc e n)))) is_proc"
    by (rule typed_fns_parser) (rule proc_fns_typed [OF Suc.IH])
  ultimately show ?case
    unfolding arg_proc_Suc arg_proc_step_def by (intro typed_or) auto
qed

end
