(* ===== verification/Proc_Text.thy ===== *)
theory Proc_Text
  imports Argproc_Types Argparse_Props
begin

text \<open>
  A reference grammar for the texts of procs, and that the parser of \<^verbatim>\<open>argproc/\<close> reads every text of
  the grammar as the proc it stands for.
\<close>

section \<open>Calls\<close>

definition call_text :: "bytes \<Rightarrow> bytes list \<Rightarrow> bytes" where
  "call_text name ws = name @ 40 # spaced ws @ [41]"

definition open_text :: "bytes \<Rightarrow> bytes list \<Rightarrow> bytes" where
  "open_text name ws = name @ (if ws = [] then [] else 32 # spaced ws)"

definition fn_name :: "bytes \<Rightarrow> bool" where
  "fn_name k \<longleftrightarrow> k \<noteq> [] \<and> (\<forall>b \<in> set k. word_byte b)"

text \<open>\<open>reads_args p t v\<close>: \<open>p\<close> reads \<open>t\<close> in round brackets as \<open>v\<close>, and nothing behind them.\<close>

definition reads_args :: "'v parser \<Rightarrow> bytes \<Rightarrow> 'v pval \<Rightarrow> bool" where
  "reads_args p t v \<longleftrightarrow> (\<forall>rest. p_parse p (40 # t @ 41 # rest) = pret (v, int (length t) + 2, None))"

lemma reads_args_filter:
  "reads_args p t v \<Longrightarrow> f v = Ret (w, None) \<Longrightarrow> reads_args (arg_filter p f) t w"
  by (simp add: reads_args_def arg_filter_def plain_def filter_parse_def)

lemma reads_args_lambda:
  assumes "balanced 40 41 False t" and "p_parse p t = pret (VList vals, n, None)" and "run vals = Ret (v, None)"
  shows "reads_args (arg_lambda (Some p) (Some run) None) t v"
proof -
  have "lambda_parse (Some p) (Some run) None = lambda_parse (Some p) (Some run) (Some (unat (40 :: byte), unat (41 :: byte)))"
    by (simp add: lambda_parse_def lambda_brackets_def fun_eq_iff)
  then show ?thesis
    using assms lambda_parse_brackets [OF assms(1), of p run]
    by (simp add: reads_args_def arg_lambda_def plain_def)
qed

lemma reads_args_lam:
  assumes "tokens ts" and "balanced 40 41 False (spaced (map (fst \<circ> snd) ts))"
    and "run (map (snd \<circ> snd) ts) = Ret (v, None)"
  shows "reads_args (lam (map fst ts) run) (spaced (map (fst \<circ> snd) ts)) v"
  unfolding lam_def using args_parse_tokens [OF assms(1)] assms(2,3)
  by (intro reads_args_lambda) (simp_all add: args_def plain_def)

lemma reads_args_lam0: "run [] = Ret (v, None) \<Longrightarrow> reads_args (lam0 run) [] v"
  unfolding lam0_def lambda_no_args
  using reads_args_lam [of "[]" run v] by (simp add: lam_def tokens_def balanced_Nil)

lemma reads_args_lam_variadic:
  assumes "tokens ts" and "all_read_here q us" and "balanced 40 41 False (spaced (map (fst \<circ> snd) ts @ map fst us))"
    and "run (map (snd \<circ> snd) ts @ [VList (map snd us)]) = Ret (v, None)"
  shows "reads_args (lam (map fst ts @ [arg_variadic q]) run) (spaced (map (fst \<circ> snd) ts @ map fst us)) v"
  unfolding lam_def using args_parse_variadic [OF assms(1,2)] assms(3,4)
  by (intro reads_args_lambda) (simp_all add: args_def plain_def)

lemma reads_args_variadic:
  assumes "all_read_here q us" and "balanced 40 41 False (spaced (map fst us))"
    and "run (map snd us) = Ret (v, None)"
  shows "reads_args (arg_lambda (Some (arg_variadic q)) (Some run) None) (spaced (map fst us)) v"
  using assms(2,3) variadic_loop_tokens [OF assms(1), of "spaced (map fst us)" 0 "[]"] at_tokens_0
  by (intro reads_args_lambda) (simp_all add: arg_variadic_def)

text \<open>What \<open>fnRe\<close> takes of a call: its brackets, and text behind them up to another bracket.\<close>

lemma last_bracket: "\<exists>r. rev (dropWhile (\<lambda>b. b \<noteq> x) (rev (s @ x # rest))) = s @ x # r"
proof (cases "x \<in> set rest")
  case True
  then show ?thesis
    by (intro exI [of _ "rev (dropWhile (\<lambda>b. b \<noteq> x) (rev rest))"]) (simp add: dropWhile_append1)
next
  case False
  then have "dropWhile (\<lambda>b. b \<noteq> x) (rev rest @ x # rev s) = x # rev s"
    by (subst dropWhile_append2) auto
  then show ?thesis
    by (intro exI [of _ "[]"]) simp
qed

lemma takeWhile_name: "fn_name k \<Longrightarrow> rest = [] \<or> \<not> word_byte (hd rest) \<Longrightarrow> takeWhile word_byte (k @ rest) = k"
  by (cases rest) (auto simp: fn_name_def takeWhile_append2)

lemma fn_match_call:
  assumes "fn_name k"
  shows "\<exists>r. fn_match (k @ 40 # t @ 41 # rest) = Some (k, 40 # t @ 41 # r)"
proof -
  have "takeWhile word_byte (k @ 40 # t @ 41 # rest) = k"
    using assms by (intro takeWhile_name) (simp_all add: word_byte_def)
  moreover obtain r where "rev (dropWhile (\<lambda>b. b \<noteq> 41) (rev ((40 # t) @ 41 # rest))) = (40 # t) @ 41 # r"
    using last_bracket [of 41 "40 # t" rest] by blast
  ultimately show ?thesis
    using assms by (auto simp: fn_match_def fn_name_def simp del: rev_append)
qed

lemma fn_parse_call:
  assumes "fn_name k" and "a k = Some p" and "reads_args p t v"
  shows "fn_parse a (k @ 40 # t @ 41 # rest) = pret (v, int (length (k @ 40 # t @ [41])), None)"
proof -
  obtain r where "fn_match (k @ 40 # t @ 41 # rest) = Some (k, 40 # t @ 41 # r)"
    using fn_match_call [OF assms(1)] by blast
  then show ?thesis
    using assms(2,3) by (simp add: fn_parse_def reads_args_def)
qed

lemma fn_parse_open:
  assumes "fn_name k" and "a k = Some p" and "reads_args p (spaced ws) v"
    and "ws = [] \<or> \<not> starts_with_space (spaced ws)"
  shows "\<exists>n. fn_parse a (open_text k ws) = pret (v, n, None)"
proof -
  define rest where "rest = (if ws = [] then [] else 32 # spaced ws)"
  have take: "takeWhile word_byte (k @ rest) = k"
    using assms(1) by (intro takeWhile_name) (simp_all add: word_byte_def rest_def)
  then have "fn_match (k @ rest) = Some (k, [])"
    using assms(1) by (auto simp: fn_match_def fn_name_def rest_def)
  moreover have "drop (count_left_spaces rest) rest = spaced ws"
    using assms(4) by (auto simp: rest_def count_left_spaces_32 count_left_spaces_0)
  ultimately show ?thesis
    using assms(2) assms(3) [unfolded reads_args_def, rule_format, of "[]"]
    by (simp add: fn_parse_def open_text_def Let_def rest_def [symmetric] flip: drop_drop)
qed

section \<open>Words\<close>

text \<open>The bytes that end a word or mean something to a parser: quote, brackets, pipe.\<close>

definition plain_byte :: "byte \<Rightarrow> bool" where
  "plain_byte b \<longleftrightarrow> b < 0x80 \<and> b \<notin> {34, 40, 41, 123, 124, 125}"

definition bare :: "bytes \<Rightarrow> bool" where
  "bare w \<longleftrightarrow> w \<noteq> [] \<and> (\<forall>b \<in> set w. plain_byte b \<and> \<not> is_space_rune (unat b))"

definition str_text :: "bytes \<Rightarrow> bytes \<Rightarrow> bool" where
  "str_text w s \<longleftrightarrow> bare w \<and> s = w \<or> w = 34 # s @ [34] \<and> (\<forall>b \<in> set s. plain_byte b)"

definition int_text :: "bytes \<Rightarrow> int \<Rightarrow> bool" where
  "int_text w i \<longleftrightarrow> w \<noteq> [] \<and> (\<forall>b \<in> set w. digit_byte b) \<and> digits_value w < 2 ^ 63 \<and>
     i = int (digits_value w)"

definition size_text :: "arg_env \<Rightarrow> bytes \<Rightarrow> uint64 \<Rightarrow> bool" where
  "size_text e w n \<longleftrightarrow> bare w \<and> ae_bytes e w = (n, None)"

lemma bare_word: "bare w \<Longrightarrow> word w"
  by (cases w) (auto simp: bare_def word_def ascii_def plain_byte_def)

lemma token_size: "size_text e w n \<Longrightarrow> token (arg_bytes (ae_bytes e)) w (VUint n)"
proof -
  assume "size_text e w n"
  then have w: "bare w" "ae_bytes e w = (n, None)"
    by (simp_all add: size_text_def)
  then obtain b w' where b: "w = b # w'" "b < 0x80" "\<not> is_space_rune (unat b)"
    by (cases w) (auto simp: bare_def plain_byte_def)
  have "space_end_index (w @ rest) = length w" if "rest = [] \<or> starts_with_space rest" for rest
    using bare_word [OF w(1)] that by (intro space_end_index_word) (auto simp: word_def)
  then show ?thesis
    by (intro tokenI [OF b]) (simp_all add: arg_bytes_def plain_def bytes_parse_def w(2))
qed

lemma token_int_text: "int_text w i \<Longrightarrow> token arg_int w (VInt i)"
  unfolding int_text_def using token_int by blast

lemma token_str_text:
  assumes "str_text w s"
  shows "token arg_str w (VStr s)"
proof (cases "bare w \<and> s = w")
  case True
  then show ?thesis
    by (simp add: token_word bare_word)
next
  case False
  then have w: "w = 34 # s @ [34]" and s: "\<forall>b \<in> set s. plain_byte b"
    using assms by (auto simp: str_text_def)
  have byte: "encode_rune (unat b) = [b]" "unat b \<noteq> 34" "valid_rune (unat b)" if "plain_byte b" for b
    using that unat_byte_eq [of b 34]
    by (auto simp: plain_byte_def encode_rune_def valid_rune_def word_less_nat_alt)
  have "concat (map (encode_rune \<circ> unat) s) = s"
    using s byte(1) by (induction s) auto
  then have "quoted (map unat s) = w" "quotable (map unat s)"
    using s byte(2,3) by (auto simp: quoted_def quotable_def w comp_def)
  then show ?thesis
    using token_quoted [of "map unat s"] \<open>concat _ = s\<close> by simp
qed

section \<open>Balanced texts\<close>

text \<open>Balanced in both kinds of brackets, with no pipe outside of a chain.\<close>

definition nice :: "bytes \<Rightarrow> bool" where
  "nice w \<longleftrightarrow> balanced 40 41 False w \<and> balanced 123 125 True w"

lemma balanced_append: "balanced op cl flat s \<Longrightarrow> balanced op cl flat t \<Longrightarrow> balanced op cl flat (s @ t)"
  by (induction rule: balanced.induct) (auto intro: balanced.intros)

lemma balanced_mono: "balanced op cl flat s \<Longrightarrow> balanced op cl False s"
  by (induction rule: balanced.induct) (auto intro: balanced.intros)

lemma nice_byte: "b < 0x80 \<Longrightarrow> b \<notin> {40, 41, 123, 124, 125} \<Longrightarrow> nice s \<Longrightarrow> nice (b # s)"
  by (auto simp: nice_def intro: balanced.intros)

lemma nice_append: "nice s \<Longrightarrow> nice t \<Longrightarrow> nice (s @ t)"
  by (simp add: nice_def balanced_append)

lemma nice_Nil [simp]: "nice []"
  by (simp add: nice_def balanced.intros)

lemma nice_bytes: "\<forall>b \<in> set s. plain_byte b \<Longrightarrow> nice s"
  by (induction s) (auto simp: plain_byte_def intro!: nice_byte)

lemma nice_word: "bare w \<Longrightarrow> nice w" "str_text w' s \<Longrightarrow> nice w'" "int_text v i \<Longrightarrow> nice v"
  "size_text e u n \<Longrightarrow> nice u" "fn_name k \<Longrightarrow> nice k"
proof -
  show bare: "bare w \<Longrightarrow> nice w" for w
    by (auto simp: bare_def intro!: nice_bytes)
  have "nice (34 # s @ [34])" if "\<forall>b \<in> set s. plain_byte b"
    using nice_bytes [OF that] by (intro nice_byte nice_append) simp_all
  then show "str_text w' s \<Longrightarrow> nice w'"
    by (auto simp: str_text_def bare)
  show "int_text v i \<Longrightarrow> nice v"
    by (rule nice_bytes) (auto simp: int_text_def digit_byte_def plain_byte_def word_le_nat_alt word_less_nat_alt)
  show "size_text e u n \<Longrightarrow> nice u"
    by (simp add: size_text_def bare)
  show "fn_name k \<Longrightarrow> nice k"
    by (rule nice_bytes) (auto simp: fn_name_def word_byte_def plain_byte_def word_le_nat_alt word_less_nat_alt)
qed

lemma nice_spaced: "\<forall>w \<in> set ws. nice w \<Longrightarrow> nice (spaced ws)"
  by (induction ws rule: spaced.induct) (auto intro!: nice_append nice_byte)

lemma nice_call:
  assumes "fn_name k" and "\<forall>w \<in> set ws. nice w"
  shows "nice (call_text k ws)" and "nice (open_text k ws)"
proof -
  have "nice (spaced ws)"
    using nice_spaced [OF assms(2)] .
  moreover from this have "nice (40 # spaced ws @ [41])"
    using balanced_append [of 123 125 True "spaced ws" "[41]"]
      balanced_nest [of 40 41 "spaced ws" False "[]"] by (simp add: nice_def balanced.intros)
  ultimately show "nice (call_text k ws)" and "nice (open_text k ws)"
    using nice_word(5) [OF assms(1)] by (auto simp: call_text_def open_text_def intro!: nice_append nice_byte)
qed

lemma nice_chain:
  assumes "\<forall>t \<in> set ts. nice t"
  shows "nice (123 # piped_text ts @ [125])"
proof -
  have "balanced 40 41 False (piped_text ts)" "balanced 123 125 False (piped_text ts)"
    using assms by (induction ts rule: piped_text.induct)
      (auto simp: nice_def intro!: balanced_append balanced.intros intro: balanced_mono)
  then show ?thesis
    using balanced_append [of 40 41 False "piped_text ts" "[125]"]
      balanced_nest [of 123 125 "piped_text ts" True "[]"] by (simp add: nice_def balanced.intros)
qed

section \<open>The grammar of stores and dynamic procs\<close>

text \<open>One rule for each function: its name, the texts of its arguments, what it makes.\<close>

inductive store_args :: "bytes \<Rightarrow> bytes list \<Rightarrow> store_exp \<Rightarrow> bool" where
  "str_text w remote \<Longrightarrow> store_args (bytes_of ''rclone'') [w] (RcloneStore remote)"
| "str_text w path \<Longrightarrow> list_all2 int_text ns part \<Longrightarrow> store_args (bytes_of ''cp'') (w # ns) (CpStore path part)"
| "str_text u host \<Longrightarrow> str_text w path \<Longrightarrow> list_all2 int_text ns part \<Longrightarrow>
    store_args (bytes_of ''scp'') (u # w # ns) (ScpStore host path part)"

text \<open>
  A copier, \<open>id=store(...)\<close>, with the counter of its id if there are statistics. The only \<open>=\<close> is
  that behind the id: the parser of quotas takes a second one for its own.
\<close>

definition copier_of :: "arg_env \<Rightarrow> side \<Rightarrow> bytes \<Rightarrow> store_exp \<Rightarrow> copier_exp" where
  "copier_of e sd ident st =
     (if ae_stats e then MkCopier ident (QuotaInitReport ident st) (MkStats ident (MkStore sd st))
      else MkCopier ident (StoreLister st) (MkStore sd st))"

inductive copier_text :: "arg_env \<Rightarrow> side \<Rightarrow> bytes \<Rightarrow> copier_exp \<Rightarrow> bool" for e sd where
  "bare ident \<Longrightarrow> 61 \<notin> set ident \<Longrightarrow> store_args name ws st \<Longrightarrow> \<forall>w \<in> set ws. 61 \<notin> set w \<Longrightarrow>
    copier_text e sd (ident @ 61 # call_text name ws) (copier_of e sd ident st)"

text \<open>A copier with a quota, \<open>id=store(...)=size\<close>, or without one.\<close>

inductive quota_text :: "arg_env \<Rightarrow> bytes \<Rightarrow> copier_exp \<times> uint64 \<Rightarrow> bool" for e where
  "copier_text e GetProc w cp \<Longrightarrow> quota_text e w (cp, - 1)"
| "copier_text e GetProc w cp \<Longrightarrow> size_text e sz mx \<Longrightarrow> quota_text e (w @ 61 # sz) (cp, mx)"

inductive dyn_args :: "arg_env \<Rightarrow> bytes \<Rightarrow> bytes list \<Rightarrow> dyn_exp \<Rightarrow> bool" for e where
  "int_text n m \<Longrightarrow> list_all2 (quota_text e) qs ress \<Longrightarrow> d = MkStripe m 0 ress \<Longrightarrow> ae_stripe e d = None \<Longrightarrow>
    dyn_args e (bytes_of ''mincopies'') (n # qs) d"
| "int_text n m \<Longrightarrow> int_text x excl \<Longrightarrow> list_all2 (quota_text e) qs ress \<Longrightarrow> d = MkStripe m excl ress \<Longrightarrow>
    ae_stripe e d = None \<Longrightarrow> dyn_args e (bytes_of ''stripe'') (n # x # qs) d"

text \<open>
  \<open>humanize.ParseBytes\<close> reads a number first: a text that begins with a letter is a syntax error.
\<close>

definition sizes_begin_with_digits :: "arg_env \<Rightarrow> bool" where
  "sizes_begin_with_digits e \<longleftrightarrow>
     (\<forall>b w. 97 \<le> b \<and> b \<le> 122 \<longrightarrow> (\<exists>n. ae_bytes e (b # w) = (n, Some (Inl ()))))"

section \<open>Stores are read\<close>

lemma fn_name_bytes: "list_all (\<lambda>c. word_byte (of_char c)) s \<Longrightarrow> s \<noteq> [] \<Longrightarrow> fn_name (bytes_of s)"
  by (simp add: fn_name_def bytes_of_def list_all_iff)

text \<open>A list of texts that are tokens each, as the pairs \<open>all_read_here\<close> takes.\<close>

lemma token_list:
  assumes "list_all2 (\<lambda>w x. token p w (f x)) ws xs"
  obtains us where "all_read_here p us" and "map fst us = ws" and "map snd us = map f xs"
proof -
  have len: "length ws = length xs"
    by (rule list_all2_lengthD [OF assms])
  have "token p w v" if "(w, v) \<in> set (zip ws (map f xs))" for w v
    using that assms by (force simp: list_all2_conv_all_nth in_set_zip)
  then have "all_read_here p (zip ws (map f xs))"
    by (intro tokens_all_read_here) blast
  then show thesis
    using that [of "zip ws (map f xs)"] len by simp
qed

lemma int_list:
  assumes "list_all2 int_text ns part"
  obtains us where "all_read_here arg_int us" and "map fst us = ns" and "map snd us = map VInt part"
proof -
  have "list_all2 (\<lambda>w x. token arg_int w (VInt x)) ns part"
    using assms by (rule list_all2_mono) (rule token_int_text)
  then show thesis
    using that by (rule token_list)
qed

lemma int_texts_nice: "list_all2 int_text ns part \<Longrightarrow> \<forall>w \<in> set ns. nice w"
  by (induction rule: list_all2_induct) (auto dest: nice_word(3))

lemma assert_all_ints: "assert_all as_int (map VInt part) = Some part"
  by (induction part) simp_all

lemma tokens_Cons: "tokens ((p, w, v) # ts) \<longleftrightarrow> token p w v \<and> tokens ts"
  by (simp add: tokens_def)

lemma tokens_Nil: "tokens []"
  by (simp add: tokens_def)

lemmas tokens_simps = tokens_Nil tokens_Cons

lemma store_args_nice: "store_args name ws st \<Longrightarrow> fn_name name \<and> (\<forall>w \<in> set ws. nice w)"
  by (induction rule: store_args.induct)
    (auto intro!: fn_name_bytes simp: word_byte_def dest: nice_word(2) int_texts_nice)

lemma balanced_spaced: "\<forall>w \<in> set ws. nice w \<Longrightarrow> balanced 40 41 False (spaced ws)"
  using nice_spaced by (simp add: nice_def)

lemma store_args_read:
  assumes "store_args name ws st"
  shows "\<exists>p. map_of new_arg_store name = Some p \<and> reads_args p (spaced ws) (VAny (AStore st))"
proof -
  have balanced: "balanced 40 41 False (spaced ws)"
    using store_args_nice [OF assms] balanced_spaced by blast
  show ?thesis
    using assms
  proof cases
    case (1 w remote)
    have "reads_args (lam [arg_str] rclone_run) (spaced [w]) (VAny (AStore (RcloneStore remote)))"
      using reads_args_lam [of "[(arg_str, w, VStr remote)]" rclone_run] 1 balanced
      by (simp add: tokens_simps token_str_text)
    then show ?thesis
      by (simp add: 1 new_arg_store_def)
  next
    case (2 w path ns part)
    obtain us where us: "all_read_here (arg_int :: arg_val parser) us" "map fst us = ns" "map snd us = map VInt part"
      by (rule int_list [OF 2(5)])
    have "reads_args (lam [arg_str, arg_variadic arg_int] cp_run) (spaced ws) (VAny (AStore st))"
      using reads_args_lam_variadic [of "[(arg_str, w, VStr path)]" arg_int us cp_run]
        2 balanced us by (simp add: tokens_simps token_str_text assert_all_ints)
    then show ?thesis
      by (simp add: 2(1) new_arg_store_def bytes_of_def)
  next
    case (3 u host w path ns part)
    obtain us where us: "all_read_here (arg_int :: arg_val parser) us" "map fst us = ns" "map snd us = map VInt part"
      by (rule int_list [OF 3(6)])
    have "reads_args (lam [arg_str, arg_str, arg_variadic arg_int] scp_run) (spaced ws) (VAny (AStore st))"
      using reads_args_lam_variadic [of "[(arg_str, u, VStr host), (arg_str, w, VStr path)]" arg_int us scp_run]
        3 balanced us by (simp add: tokens_simps token_str_text assert_all_ints)
    then show ?thesis
      by (simp add: 3(1) new_arg_store_def bytes_of_def)
  qed
qed

section \<open>Copiers and quotas are read\<close>

lemma token_call:
  assumes "fn_name k" and "a k = Some p" and "reads_args p (spaced ws) v"
  shows "token (arg_fn a) (call_text k ws) v"
proof -
  obtain b k' where k: "k = b # k'" "word_byte b"
    using assms(1) by (cases k) (auto simp: fn_name_def)
  have "p_parse (arg_fn a) (call_text k ws @ rest) = pret (v, int (length (call_text k ws)), None)" for rest
    using fn_parse_call [of k a p "spaced ws" v rest] assms by (simp add: arg_fn_def plain_def call_text_def)
  moreover have "b < 0x80" "\<not> is_space_rune (unat b)"
    using k(2) by (auto simp: word_byte_def is_space_rune_def word_le_nat_alt word_less_nat_alt)
  ultimately show ?thesis
    by (intro tokenI [of _ b]) (simp_all add: call_text_def k(1))
qed

lemma pair_index_plain:
  assumes "\<forall>b \<in> set w. b < 0x80 \<and> b \<noteq> 61"
  shows "pair_index k (runes_from off (w @ rest)) = pair_index k (runes_from (off + length w) rest)"
  using assms
proof (induction w arbitrary: off)
  case (Cons b w)
  then have "unat b \<noteq> 61"
    using unat_byte_eq [of b 61] by simp
  with Cons show ?case
    by (simp add: runes_from_ascii_Cons)
qed simp

lemma pair_index_equals:
  "pair_index k (runes_from off (61 # rest)) = (if k = 0 then Some off else pair_index (k - 1) (runes_from (Suc off) rest))"
  by (simp add: runes_from_ascii_Cons)

lemma pair_parse_at:
  assumes "pair_index (if p_pair l then 1 else 0) (runes (u @ 61 # t)) = Some (length u)"
    and "p_parse l u = pret (lv, n, None)" and "p_parse r t = pret (rv, m, er)"
  shows "pair_parse l r run (u @ 61 # t) =
    (let pos = int (length u) + 1 + m in
     case er of
       Some er \<Rightarrow> pret (VNil, pos, Some (PDetails er (u @ 61 # t) pos))
     | None \<Rightarrow> placed pos (run lv rv))"
proof -
  have "slice_from (u @ 61 # t) (int (length u) + 1) = pret t"
    by (simp add: slice_from_ok nat_add_distrib)
  then show ?thesis
    using assms(2,3) by (simp add: pair_parse_def assms(1) Let_def)
qed

lemma balanced_ascii: "balanced op cl flat s \<Longrightarrow> op < 0x80 \<Longrightarrow> cl < 0x80 \<Longrightarrow> b \<in> set s \<Longrightarrow> b < 0x80"
  by (induction rule: balanced.induct) auto

lemma nice_ascii: "nice s \<Longrightarrow> b \<in> set s \<Longrightarrow> b < 0x80"
  using balanced_ascii [of 40 41 False s b] by (simp add: nice_def)

text \<open>A copier's text: an id, the only equals sign, and a call, which begins with a letter.\<close>

lemma copier_text_shape:
  assumes "copier_text e sd w cp"
  obtains ident b t where "w = ident @ 61 # b # t" and "bare ident" and "97 \<le> b" "b \<le> 122"
    and "nice w" and "\<forall>x \<in> set (ident @ b # t). x < 0x80 \<and> x \<noteq> 61"
  using assms
proof cases
  case (1 ident name ws st)
  have st: "fn_name name" "\<forall>w \<in> set ws. nice w"
    using store_args_nice [OF 1(5)] by simp_all
  obtain b k where name: "name = b # k" "97 \<le> b" "b \<le> 122"
    using 1(5) by cases (simp_all add: bytes_of_def)
  have nice: "nice (call_text name ws)"
    by (rule nice_call(1) [OF st])
  have "61 \<notin> set (spaced ws)"
    using 1(6) by (induction ws rule: spaced.induct) auto
  moreover have "61 \<notin> set name"
    using st(1) by (auto simp: fn_name_def word_byte_def)
  ultimately have "61 \<notin> set (call_text name ws)"
    by (simp add: call_text_def)
  moreover have "nice ident"
    by (rule nice_word(1) [OF 1(3)])
  ultimately have "\<forall>x \<in> set (ident @ call_text name ws). x < 0x80 \<and> x \<noteq> 61"
    using 1(4) nice_ascii [OF nice] nice_ascii [of ident] by auto
  moreover have "nice w"
    unfolding 1(1) using \<open>nice ident\<close> nice by (intro nice_append nice_byte) simp_all
  moreover have "call_text name ws = b # k @ 40 # spaced ws @ [41]"
    by (simp add: call_text_def name)
  ultimately show thesis
    using that [OF _ 1(3) name(2,3)] by (simp only: 1(1))
qed

lemma token_copier:
  assumes "copier_text e sd w cp"
  shows "token (new_arg_copier e sd) w (VAny (ACopier cp))"
  using assms
proof cases
  case (1 ident name ws st)
  have ident: "\<forall>b \<in> set ident. b < 0x80 \<and> b \<noteq> 61"
    using 1(3,4) by (auto simp: bare_def plain_byte_def)
  obtain p where p: "map_of new_arg_store name = Some p" "reads_args p (spaced ws) (VAny (AStore st))"
    using store_args_read [OF 1(5)] by blast
  have call: "token (arg_fn (map_of new_arg_store)) (call_text name ws) (VAny (AStore st))"
    using store_args_nice [OF 1(5)] p by (intro token_call) auto
  have "p_parse arg_str ident = pret (VStr ident :: arg_val pval, int (length ident), None)"
    using token_word [OF bare_word [OF 1(3)]] unfolding token_def by (metis append_Nil2)
  moreover have "pair_index 0 (runes (ident @ 61 # s)) = Some (length ident)" for s
    unfolding runes_def by (simp add: pair_index_plain [OF ident] pair_index_equals)
  moreover have "p_pair (arg_str :: arg_val parser) = False"
    by (simp add: arg_str_def plain_def)
  moreover from calculation have parse: "p_parse (new_arg_copier e sd) (w @ rest) = pret (VAny (ACopier cp), int (length w), None)"
    if "rest = [] \<or> starts_with_space rest" for rest
  proof -
    have "p_parse (arg_fn (map_of new_arg_store)) (call_text name ws @ rest) =
        pret (VAny (AStore st), int (length (call_text name ws)), None)"
      using call that unfolding token_def by blast
    with calculation show ?thesis
      using pair_parse_at [of arg_str ident "call_text name ws @ rest" "VStr ident" _
          "arg_fn (map_of new_arg_store)" "VAny (AStore st)" "int (length (call_text name ws))" None "copier_run e sd"]
      by (simp add: 1(1,2) new_arg_copier_def arg_pair_def copier_of_def)
  qed
  obtain b t where "ident = b # t" "b < 0x80" "\<not> is_space_rune (unat b)"
    using 1(3) by (cases ident) (auto simp: bare_def plain_byte_def)
  then show ?thesis
    using parse by (intro tokenI [of _ b]) (simp_all add: 1(1))
qed

text \<open>
  A quota in a list: the text before the second equals sign is read as a copier. Without a quota
  that sign, if there is one, is the next copier's, and a store's name stands where a size would.
\<close>

definition quota_or :: "arg_env \<Rightarrow> arg_val parser \<Rightarrow> bytes \<Rightarrow> arg_val pres" where
  "quota_or e argc s = or_parse [arg_pair argc (arg_bytes (ae_bytes e)) quota_max_run, argc] (VNil, 0, None) s"

lemma new_arg_quota_parse:
  assumes "quota_or e argc s = pret (v, n, None)"
    and "v = VAny (ACopier cp) \<and> mx = - 1 \<or> v = VAny (AQuota cp mx)"
  shows "p_parse (new_arg_quota e argc) s = pret (VAny (AQuota cp mx), n, None)"
  using assms
  by (auto simp: new_arg_quota_def quota_or_def arg_filter_def arg_or_def plain_def filter_parse_def Let_def)

lemma p_pair_copier: "p_pair (new_arg_copier e sd)"
  by (simp add: new_arg_copier_def arg_pair_def)

lemma quota_or_max:
  assumes "copier_text e sd w cp" and "size_text e sz mx" and "rest = [] \<or> starts_with_space rest"
  shows "quota_or e (new_arg_copier e sd) ((w @ 61 # sz) @ rest) =
    pret (VAny (AQuota cp mx), int (length (w @ 61 # sz)), None)"
proof -
  obtain ident b t where w: "w = ident @ 61 # b # t" "\<forall>x \<in> set (ident @ b # t). x < 0x80 \<and> x \<noteq> 61"
    by (rule copier_text_shape [OF assms(1)])
  have "pair_index 1 (runes (w @ 61 # sz @ rest)) = Some (length w)"
    using w pair_index_plain [of ident 1 0] pair_index_plain [of "b # t" 0 "Suc (length ident)" "61 # sz @ rest"]
    by (simp add: runes_def pair_index_equals)
  moreover have "p_parse (new_arg_copier e sd) w = pret (VAny (ACopier cp), int (length w), None)"
    using token_copier [OF assms(1)] unfolding token_def by (metis append_Nil2)
  moreover have "p_parse (arg_bytes (ae_bytes e)) (sz @ rest) = pret (VUint mx :: arg_val pval, int (length sz), None)"
    using token_size [OF assms(2)] assms(3) unfolding token_def by blast
  ultimately show ?thesis
    using pair_parse_at [of "new_arg_copier e sd" w "sz @ rest" "VAny (ACopier cp)" _ "arg_bytes (ae_bytes e)"
        "VUint mx" "int (length sz)" None quota_max_run]
    by (simp add: quota_or_def arg_pair_def p_pair_copier)
qed

lemma quota_or_alone:
  assumes "copier_text e sd w cp" and "rest = [] \<or> starts_with_space rest"
    and "pair_index 1 (runes (w @ rest)) = None \<or>
      (\<exists>u b t. rest = 32 # u @ 61 # b # t \<and> (\<forall>x \<in> set u. x < 0x80 \<and> x \<noteq> 61) \<and> 97 \<le> b \<and> b \<le> 122)"
    and "sizes_begin_with_digits e"
  shows "quota_or e (new_arg_copier e sd) (w @ rest) = pret (VAny (ACopier cp), int (length w), None)"
proof -
  let ?argc = "new_arg_copier e sd"
  have copier: "p_parse ?argc (w @ r) = pret (VAny (ACopier cp), int (length w), None)"
    if "r = [] \<or> starts_with_space r" for r
    using token_copier [OF assms(1)] that unfolding token_def by blast
  have "\<exists>v n er. pair_parse ?argc (arg_bytes (ae_bytes e)) quota_max_run (w @ rest) = pret (v, n, Some er) \<and>
      original_err er = PInvalidSyntax"
    using assms(3)
  proof
    assume "pair_index 1 (runes (w @ rest)) = None"
    then show ?thesis
      by (simp add: pair_parse_def p_pair_copier)
  next
    assume "\<exists>u b t. rest = 32 # u @ 61 # b # t \<and> (\<forall>x \<in> set u. x < 0x80 \<and> x \<noteq> 61) \<and> 97 \<le> b \<and> b \<le> 122"
    then obtain u b t where rest: "rest = 32 # u @ 61 # b # t" "\<forall>x \<in> set (32 # u). x < 0x80 \<and> x \<noteq> 61"
      and b: "97 \<le> b" "b \<le> 122"
      by auto
    obtain ident b' t' where w: "w = ident @ 61 # b' # t'" "\<forall>x \<in> set (ident @ b' # t'). x < 0x80 \<and> x \<noteq> 61"
      by (rule copier_text_shape [OF assms(1)])
    have whole: "w @ rest = (w @ 32 # u) @ 61 # b # t"
      by (simp add: rest(1))
    have "\<forall>x \<in> set ((b' # t') @ 32 # u). x < 0x80 \<and> x \<noteq> 61"
      using w(2) rest(2) by auto
    note plain = pair_index_plain [OF this, of 0 "Suc (length ident)" "61 # b # t"]
    have "\<forall>x \<in> set ident. x < 0x80 \<and> x \<noteq> 61"
      using w(2) by auto
    note plain_ident = pair_index_plain [OF this, of 1 0]
    have "pair_index 1 (runes ((w @ 32 # u) @ 61 # b # t)) = Some (length (w @ 32 # u))"
      using plain plain_ident by (simp add: w(1) runes_def pair_index_equals add.commute)
    moreover have "\<exists>k m. p_parse (arg_bytes (ae_bytes e)) (b # t) = pret (VUint k :: arg_val pval, m, Some PInvalidSyntax)"
    proof -
      have "b < 0x80" "\<not> is_space_rune (unat b)"
        using b by (auto simp: is_space_rune_def word_le_nat_alt word_less_nat_alt)
      then have "index_func is_space_rune (b # t) = Some i \<Longrightarrow> 0 < i" for i
        using index_rune_in runes_from_offset [of _ _ 1 t]
        by (fastforce simp: index_func_def runes_def runes_from_ascii_Cons)
      then obtain u' where "take (space_end_index (b # t)) (b # t) = b # u'"
        by (cases "space_end_index (b # t)") (auto simp: space_end_index_def split: option.splits)
      moreover obtain n where "ae_bytes e (b # u') = (n, Some (Inl ()))"
        using assms(4) b unfolding sizes_begin_with_digits_def by blast
      ultimately show ?thesis
        by (simp add: arg_bytes_def plain_def bytes_parse_def Let_def)
    qed
    ultimately show ?thesis
      unfolding whole using copier [of "32 # u"] pair_parse_at [of ?argc "w @ 32 # u" "b # t" "VAny (ACopier cp)" _
          "arg_bytes (ae_bytes e)" _ _ "Some PInvalidSyntax" quota_max_run]
      by (auto simp: p_pair_copier Let_def)
  qed
  then show ?thesis
    using copier [OF assms(2)] by (auto simp: quota_or_def arg_pair_def)
qed

lemma quota_text_shape:
  assumes "quota_text e w r"
  obtains u b t where "w = u @ 61 # b # t" and "\<forall>x \<in> set u. x < 0x80 \<and> x \<noteq> 61" and "97 \<le> b" "b \<le> 122" and "nice w"
  using assms
proof cases
  case (1 cp)
  show thesis
    by (rule copier_text_shape [OF 1(2)], rule that) auto
next
  case (2 w' cp sz mx)
  have "nice sz"
    by (rule nice_word(4) [OF 2(4)])
  obtain u b t where u: "w' = u @ 61 # b # t" "97 \<le> b" "b \<le> 122" "nice w'"
    "\<forall>x \<in> set (u @ b # t). x < 0x80 \<and> x \<noteq> 61"
    by (rule copier_text_shape [OF 2(3)])
  show thesis
    by (rule that [of u b "t @ 61 # sz"])
      (use u \<open>nice sz\<close> in \<open>auto simp: 2(1) intro!: nice_append [of "u @ 61 # b # t", simplified] nice_byte\<close>)
qed

abbreviation quota_val :: "copier_exp \<times> uint64 \<Rightarrow> arg_val pval" where
  "quota_val r \<equiv> VAny (AQuota (fst r) (snd r))"

lemma quota_reads_here:
  assumes "quota_text e w r" and "list_all2 (quota_text e) ws rs" and "sizes_begin_with_digits e"
  shows "reads_here (new_arg_quota e (new_arg_copier e GetProc)) w ws (quota_val r)"
proof -
  define rest where "rest = (if ws = [] then [] else 32 # spaced ws)"
  have spaced: "spaced (w # ws) = w @ rest" and rest: "rest = [] \<or> starts_with_space rest"
    by (simp_all add: spaced_Cons rest_def spaces_def)
  have "w \<noteq> [] \<and> \<not> starts_with_space (w @ rest) \<and>
      p_parse (new_arg_quota e (new_arg_copier e GetProc)) (w @ rest) = pret (quota_val r, int (length w), None)"
    using assms(1)
  proof cases
    case (1 cp)
    have "\<exists>u b t. rest = 32 # u @ 61 # b # t \<and> (\<forall>x \<in> set u. x < 0x80 \<and> x \<noteq> 61) \<and> 97 \<le> b \<and> b \<le> 122"
      if nonempty: "ws \<noteq> []"
    proof -
      obtain w2 ws' where ws: "ws = w2 # ws'"
        using nonempty by (cases ws) auto
      then obtain r2 where "quota_text e w2 r2"
        using assms(2) by (auto simp: list_all2_Cons1)
      then obtain u b t where "w2 = u @ 61 # b # t" "\<forall>x \<in> set u. x < 0x80 \<and> x \<noteq> 61" "97 \<le> b" "b \<le> 122"
        by (rule quota_text_shape)
      then show ?thesis
        by (intro exI [of _ u] exI [of _ b] exI [of _ "t @ (if ws' = [] then [] else 32 # spaced ws')"])
          (auto simp: rest_def ws spaced_Cons spaces_def)
    qed
    moreover have "pair_index 1 (runes w) = None"
    proof -
      obtain ident b t where w: "w = ident @ 61 # b # t" "\<forall>x \<in> set (ident @ b # t). x < 0x80 \<and> x \<noteq> 61"
        by (rule copier_text_shape [OF 1(2)])
      then show ?thesis
        using pair_index_plain [of ident 1 0] pair_index_plain [of "b # t" 0 "Suc (length ident)" "[]"]
        by (simp add: runes_def pair_index_equals)
    qed
    ultimately have "quota_or e (new_arg_copier e GetProc) (w @ rest) = pret (VAny (ACopier cp), int (length w), None)"
      using quota_or_alone [OF 1(2) rest _ assms(3)] by (cases "ws = []") (auto simp: rest_def)
    from new_arg_quota_parse [OF this, of cp "- 1"] show "w \<noteq> [] \<and>
      \<not> starts_with_space (w @ rest) \<and> p_parse (new_arg_quota e (new_arg_copier e GetProc)) (w @ rest) =
        pret (quota_val r, int (length w), None)"
      using token_copier [OF 1(2)] rest unfolding token_def by (auto simp: 1(1))
  next
    case (2 w' cp sz mx)
    have "\<not> starts_with_space (w' @ [])" "w' \<noteq> []"
      using token_copier [OF 2(3)] unfolding token_def by blast+
    moreover obtain b w'' where "w' = b # w''" "b < 0x80"
      using copier_text_shape [OF 2(3)] by (metis append_is_Nil_conv list.exhaust list.simps(3) list.set_intros(1) nice_ascii)
    ultimately have "\<not> starts_with_space (w @ rest)"
      by (simp add: 2(1) starts_with_space_def decode_rune_ascii)
    with quota_or_max [OF 2(3,4) rest] show "w \<noteq> [] \<and>
      \<not> starts_with_space (w @ rest) \<and> p_parse (new_arg_quota e (new_arg_copier e GetProc)) (w @ rest) =
        pret (quota_val r, int (length w), None)"
      using new_arg_quota_parse [of e _ _ _ _ cp mx] by (auto simp: 2(1,2))
  qed
  then show ?thesis
    by (simp add: reads_here_def spaced)
qed

lemma quota_list:
  assumes "list_all2 (quota_text e) qs ress" and "sizes_begin_with_digits e"
  shows "\<exists>us. all_read_here (new_arg_quota e (new_arg_copier e GetProc)) us \<and> map fst us = qs \<and>
    map snd us = map quota_val ress"
  using assms(1)
proof (induction rule: list_all2_induct)
  case Nil
  then show ?case
    by (intro exI [of _ "[]"]) simp
next
  case (Cons q qs r rs)
  then obtain us where "all_read_here (new_arg_quota e (new_arg_copier e GetProc)) us" "map fst us = qs"
    "map snd us = map quota_val rs"
    by blast
  then show ?case
    using quota_reads_here [OF Cons(1,2) assms(2)] by (intro exI [of _ "(q, quota_val r) # us"]) simp
qed

lemma assert_all_quotas: "assert_all as_quota (map quota_val ress) = Some ress"
  by (induction ress) simp_all

section \<open>Dynamic procs are read\<close>

lemma quota_texts_nice: "list_all2 (quota_text e) qs ress \<Longrightarrow> \<forall>w \<in> set qs. nice w"
  by (induction rule: list_all2_induct) (auto elim: quota_text_shape)

lemma dyn_args_nice: "dyn_args e name ws d \<Longrightarrow> fn_name name \<and> (\<forall>w \<in> set ws. nice w)"
  by (induction rule: dyn_args.induct)
    (auto intro!: fn_name_bytes simp: word_byte_def dest: nice_word(3) quota_texts_nice)

lemma dyn_args_read:
  assumes "dyn_args e name ws d" and "sizes_begin_with_digits e"
  shows "\<exists>p. map_of (new_arg_dyn_proc e) name = Some p \<and> reads_args p (spaced ws) (VAny (ADyn d))"
proof -
  let ?q = "new_arg_quota e (new_arg_copier e GetProc)"
  have balanced: "balanced 40 41 False (spaced ws)"
    using dyn_args_nice [OF assms(1)] balanced_spaced by blast
  show ?thesis
    using assms(1)
  proof cases
    case (1 n m qs ress)
    obtain us where us: "all_read_here ?q us" "map fst us = qs" "map snd us = map quota_val ress"
      using quota_list [OF 1(4) assms(2)] by blast
    have "reads_args (lam [arg_int, arg_variadic ?q] (mincopies_run e)) (spaced ws) (VAny (ADyn d))"
      using reads_args_lam_variadic [of "[(arg_int, n, VInt m)]" ?q us "mincopies_run e"] 1 balanced us
      by (simp add: tokens_simps token_int_text new_s_def assert_all_quotas text_err_def)
    then show ?thesis
      by (simp add: 1(1) new_arg_dyn_proc_def bytes_of_def Let_def)
  next
    case (2 n m x excl qs ress)
    obtain us where us: "all_read_here ?q us" "map fst us = qs" "map snd us = map quota_val ress"
      using quota_list [OF 2(5) assms(2)] by blast
    have "reads_args (lam [arg_int, arg_int, arg_variadic ?q] (stripe_run e)) (spaced ws) (VAny (ADyn d))"
      using reads_args_lam_variadic [of "[(arg_int, n, VInt m), (arg_int, x, VInt excl)]" ?q us "stripe_run e"]
        2 balanced us
      by (simp add: tokens_simps token_int_text new_s_def assert_all_quotas text_err_def)
    then show ?thesis
      by (simp add: 2(1) new_arg_dyn_proc_def bytes_of_def Let_def)
  qed
qed

end
