(* ===== verification/Proc_Grammar.thy ===== *)
theory Proc_Grammar
  imports Proc_Text
begin

text \<open>
  The grammar of procs, function by function, and the properties of \<^verbatim>\<open>argproc.New\<close>: its parser
  reads every text of the grammar as the proc it stands for, always ends, and makes a chain of
  procs or an error, unless a constructor panics: that of a group without a size, or of a proc with
  a negative number of slots; the text behind the brackets of a call is not looked at.
\<close>

section \<open>The grammar of procs\<close>

definition plain_procs :: "(bytes \<times> proc_exp) list" where
  "plain_procs =
    [(bytes_of ''checksum'', MkChecksumProc), (bytes_of ''uchecksum'', MkChecksumUnproc),
     (bytes_of ''uindex'', MkIndexUnproc), (bytes_of ''split'', MkSplit), (bytes_of ''sort'', MkSort),
     (bytes_of ''gzip'', MkGzip GetProc), (bytes_of ''ugzip'', MkGzip GetUnproc)]"

definition path_procs :: "(bytes \<times> (bytes \<Rightarrow> proc_exp)) list" where
  "path_procs =
    [(bytes_of ''index'', MkIndexProc), (bytes_of ''write'', MkWriterTo), (bytes_of ''join'', MkJoin)]"

definition cmd_procs :: "(bytes \<times> cmd_kind) list" where
  "cmd_procs = [(bytes_of ''cmd'', CmdBoth), (bytes_of ''cmdin'', CmdIn), (bytes_of ''cmdout'', CmdOut)]"

fun parity_name :: "side \<Rightarrow> bytes" where
  "parity_name GetProc = bytes_of ''parity''"
| "parity_name GetUnproc = bytes_of ''uparity''"

text \<open>With statistics, what a function makes is counted under its name.\<close>

definition counted :: "arg_env \<Rightarrow> bytes \<Rightarrow> proc_exp \<Rightarrow> proc_exp" where
  "counted e name p = (if ae_stats e then MkStats name p else p)"

text \<open>
  \<open>proc_args e n name ws p\<close>: the function, with these texts as its arguments, makes the proc.
  \<open>proc_text e n w p\<close>: the text, an argument, is read as the proc: a call or a chain in braces.
  \<open>stage_text e n w p\<close>: the same between pipes, where a call needs no brackets. \<open>n\<close> bounds how
  deep procs are nested.
\<close>

inductive proc_args :: "arg_env \<Rightarrow> nat \<Rightarrow> bytes \<Rightarrow> bytes list \<Rightarrow> proc_exp \<Rightarrow> bool"
  and proc_text :: "arg_env \<Rightarrow> nat \<Rightarrow> bytes \<Rightarrow> proc_exp \<Rightarrow> bool"
  and stage_text :: "arg_env \<Rightarrow> nat \<Rightarrow> bytes \<Rightarrow> proc_exp \<Rightarrow> bool" for e where
  plain: "(name, p) \<in> set plain_procs \<Longrightarrow> proc_args e n name [] p"
| path: "(name, f) \<in> set path_procs \<Longrightarrow> str_text w path \<Longrightarrow> open_out e path = None \<Longrightarrow>
    proc_args e n name [w] (f path)"
| split2: "size_text e u lo \<Longrightarrow> size_text e w hi \<Longrightarrow> proc_args e n (bytes_of ''split2'') [u, w] (MkSplitSize lo hi)"
| group: "int_text w k \<Longrightarrow> 1 \<le> k \<Longrightarrow> proc_args e n (bytes_of ''group'') [w] (MkGroup k)"
| parity: "int_text u nd \<Longrightarrow> int_text w np \<Longrightarrow> ae_parity e nd np = None \<Longrightarrow>
    proc_args e n (parity_name sd) [u, w] (MkParity sd nd np)"
| cmd: "(name, k) \<in> set cmd_procs \<Longrightarrow> str_text w c \<Longrightarrow> list_all2 str_text ws cs \<Longrightarrow>
    proc_args e n name (w # ws) (MkCmd k c cs)"
| backlog: "int_text u k \<Longrightarrow> proc_text e n w p \<Longrightarrow> proc_args e n (bytes_of ''backlog'') [u, w] (MkBacklog k p)"
| concur: "int_text u k \<Longrightarrow> dyn_args e name ws d \<Longrightarrow>
    proc_args e n (bytes_of ''concur'') [u, call_text name ws] (MkConcur k d)"
| multireader: "list_all2 (copier_text e GetUnproc) ws cps \<Longrightarrow> ae_multi e cps = None \<Longrightarrow>
    proc_args e n (bytes_of ''multireader'') ws (MkMultiReader cps)"
| store: "store_args name ws st \<Longrightarrow> proc_args e n name ws (MkStore GetProc st)"
| unstore: "store_args name ws st \<Longrightarrow> proc_args e n (117 # name) ws (MkStore GetUnproc st)"
| call: "proc_args e n name ws p \<Longrightarrow> proc_text e (Suc n) (call_text name ws) (counted e name p)"
| chain: "list_all2 (stage_text e n) ts ps \<Longrightarrow> proc_text e (Suc n) (123 # piped_text ts @ [125]) (MkChain ps)"
| closed: "proc_text e n w p \<Longrightarrow> stage_text e n w p"
| opened: "proc_args e n name ws p \<Longrightarrow> stage_text e (Suc n) (open_text name ws) (counted e name p)"

section \<open>Looking up functions\<close>

definition raw_fns :: "arg_env \<Rightarrow> arg_val parser \<Rightarrow> (bytes \<times> arg_val parser) list" where
  "raw_fns e argp =
     concat (map (\<lambda>(k, v). [(k, new_arg_store_proc v GetProc), (117 # k, new_arg_store_proc v GetUnproc)])
       new_arg_store) @ new_arg_proc e argp"

lemma proc_fns_lookup:
  "map_of (proc_fns e argp) k =
     map_option (\<lambda>p. if ae_stats e then new_arg_stats_proc p k else p) (map_of (raw_fns e argp) k)"
proof -
  have "map_of (map (\<lambda>(k, v). (k, new_arg_stats_proc v k)) fns) k = map_option (\<lambda>p. new_arg_stats_proc p k) (map_of fns k)"
    for fns
    by (induction fns) auto
  moreover have "proc_fns e argp =
      (if ae_stats e then map (\<lambda>(k, v). (k, new_arg_stats_proc v k)) (raw_fns e argp) else raw_fns e argp)"
    by (simp add: proc_fns_def raw_fns_def Let_def)
  ultimately show ?thesis
    by (simp add: option.map_ident)
qed

lemma raw_fns_names:
  "map fst (raw_fns e argp) = map bytes_of
    [''rclone'', ''urclone'', ''cp'', ''ucp'', ''scp'', ''uscp'', ''checksum'', ''uchecksum'', ''index'', ''uindex'',
     ''split'', ''split2'', ''backlog'', ''concur'', ''multireader'', ''parity'', ''uparity'', ''gzip'', ''ugzip'',
     ''sort'', ''write'', ''join'', ''group'', ''cmd'', ''cmdin'', ''cmdout'']"
  by (simp add: raw_fns_def new_arg_store_def new_arg_proc_def bytes_of_def)

lemma raw_fns_lookup: "(k, p) \<in> set (raw_fns e argp) \<Longrightarrow> map_of (raw_fns e argp) k = Some p"
proof -
  have "distinct (map fst (raw_fns e argp))"
    unfolding raw_fns_names by (simp add: bytes_of_def)
  then show "(k, p) \<in> set (raw_fns e argp) \<Longrightarrow> map_of (raw_fns e argp) k = Some p"
    by (rule map_of_is_SomeI)
qed

lemmas in_raw_fns = raw_fns_def new_arg_store_def new_arg_proc_def

section \<open>Calls and chains are read\<close>

definition fn_reads :: "arg_env \<Rightarrow> arg_val parser \<Rightarrow> bytes \<Rightarrow> bytes list \<Rightarrow> proc_exp \<Rightarrow> bool" where
  "fn_reads e argp name ws p \<longleftrightarrow> fn_name name \<and> (\<forall>w \<in> set ws. nice w) \<and>
     (\<exists>q. map_of (raw_fns e argp) name = Some q \<and> reads_args q (spaced ws) (VAny (AProc p)))"

lemma fn_readsI:
  "(name, q) \<in> set (raw_fns e argp) \<Longrightarrow> fn_name name \<Longrightarrow> \<forall>w \<in> set ws. nice w \<Longrightarrow>
    reads_args q (spaced ws) (VAny (AProc p)) \<Longrightarrow> fn_reads e argp name ws p"
  unfolding fn_reads_def using raw_fns_lookup by blast

lemma fn_reads_lam:
  assumes "(name, lam (map fst ts) run) \<in> set (raw_fns e argp)" and "fn_name name" and "tokens ts"
    and "ws = map (fst \<circ> snd) ts" and "\<forall>w \<in> set ws. nice w" and "run (map (snd \<circ> snd) ts) = made p"
  shows "fn_reads e argp name ws p"
  using assms balanced_spaced [OF assms(5)]
  by (intro fn_readsI [OF assms(1)]) (simp_all add: made_def reads_args_lam)

lemma fn_reads_counted:
  assumes "fn_reads e argp name ws p"
  obtains q where "map_of (proc_fns e argp) name = Some q"
    and "reads_args q (spaced ws) (VAny (AProc (counted e name p)))"
proof -
  obtain q where q: "map_of (raw_fns e argp) name = Some q" "reads_args q (spaced ws) (VAny (AProc p))"
    using assms by (auto simp: fn_reads_def)
  moreover have "reads_args (new_arg_stats_proc q name) (spaced ws) (VAny (AProc (MkStats name p)))"
    unfolding new_arg_stats_proc_def using q(2) by (rule reads_args_filter) (simp add: made_def)
  ultimately show thesis
    using that by (cases "ae_stats e") (auto simp: proc_fns_lookup counted_def)
qed

text \<open>A text that does not begin with a brace is no chain.\<close>

lemma arg_proc_step_fn:
  assumes "word_byte b"
  shows "p_parse (arg_proc_step e argp) (b # s) = fn_parse (map_of (proc_fns e argp)) (b # s)"
proof -
  have "b < 0x80" "unat b \<noteq> 123"
    using assms unat_byte_eq [of b 123]
    by (auto simp: word_byte_def word_le_nat_alt word_less_nat_alt)
  then have "p_parse (arg_chain argp) (b # s) = pret (VNil, 0, Some PInvalidSyntax)"
    by (simp add: arg_chain_def arg_lambda_def plain_def lambda_parse_def chain_brackets_def decode_rune_ascii)
  moreover have "pbind m (\<lambda>(v, n, er). pret (v, n, er)) = m" for m :: "arg_val pres"
    by (cases m) (auto simp: pbind_def split: outcome.split)
  ultimately show ?thesis
    by (simp add: arg_proc_step_def arg_or_def plain_def arg_fn_def cong: if_cong)
qed

lemma token_proc_call:
  assumes "fn_reads e argp name ws p"
  shows "token (arg_proc_step e argp) (call_text name ws) (VAny (AProc (counted e name p)))"
proof -
  obtain q where q: "map_of (proc_fns e argp) name = Some q"
    "reads_args q (spaced ws) (VAny (AProc (counted e name p)))"
    by (rule fn_reads_counted [OF assms])
  have name: "fn_name name"
    using assms by (simp add: fn_reads_def)
  then obtain b k where k: "name = b # k" "word_byte b"
    by (cases name) (auto simp: fn_name_def)
  have "token (arg_fn (map_of (proc_fns e argp))) (call_text name ws) (VAny (AProc (counted e name p)))"
    by (rule token_call [where a = "map_of (proc_fns e argp)", OF name q])
  then show ?thesis
    using arg_proc_step_fn [OF k(2), of e argp]
    by (simp add: token_def arg_fn_def plain_def call_text_def k(1))
qed

lemma segment_proc_open:
  assumes "fn_reads e argp name ws p" and "ws = [] \<or> \<not> starts_with_space (spaced ws)"
  shows "segment 123 125 (arg_proc_step e argp) (open_text name ws) (VAny (AProc (counted e name p)))"
proof -
  obtain q where q: "map_of (proc_fns e argp) name = Some q"
    "reads_args q (spaced ws) (VAny (AProc (counted e name p)))"
    by (rule fn_reads_counted [OF assms(1)])
  have name: "fn_name name" and nice: "\<forall>w \<in> set ws. nice w"
    using assms(1) by (simp_all add: fn_reads_def)
  then obtain b k where k: "name = b # k" "word_byte b"
    by (cases name) (auto simp: fn_name_def)
  have "b < 0x80" "\<not> is_space_rune (unat b)"
    using k(2) by (auto simp: word_byte_def is_space_rune_def word_le_nat_alt word_less_nat_alt)
  moreover have "balanced 123 125 True (open_text name ws)"
    using nice_call(2) [OF name nice] by (simp add: nice_def)
  moreover have "\<exists>n. p_parse (arg_proc_step e argp) (open_text name ws) =
      pret (VAny (AProc (counted e name p)), n, None)"
    using fn_parse_open [where a = "map_of (proc_fns e argp)", OF name q assms(2)] arg_proc_step_fn [OF k(2), of e argp]
    by (simp add: open_text_def k(1))
  ultimately show ?thesis
    by (simp add: segment_def seg_text_def open_text_def k(1))
qed

text \<open>Behind the closing bracket of a call the rest of the segment is not looked at.\<close>

lemma segment_call_behind:
  assumes "fn_reads e argp name ws p" and "\<forall>b \<in> set t. b < 0x80 \<and> b \<notin> {123, 124, 125}"
  shows "segment 123 125 (arg_proc_step e argp) (call_text name ws @ t) (VAny (AProc (counted e name p)))"
proof -
  obtain q where q: "map_of (proc_fns e argp) name = Some q"
    "reads_args q (spaced ws) (VAny (AProc (counted e name p)))"
    by (rule fn_reads_counted [OF assms(1)])
  have name: "fn_name name" and nice: "\<forall>w \<in> set ws. nice w"
    using assms(1) by (simp_all add: fn_reads_def)
  then obtain b k where k: "name = b # k" "word_byte b"
    by (cases name) (auto simp: fn_name_def)
  have "b < 0x80" "\<not> is_space_rune (unat b)"
    using k(2) by (auto simp: word_byte_def is_space_rune_def word_le_nat_alt word_less_nat_alt)
  moreover have "balanced 123 125 True t"
    using assms(2) by (induction t) (auto intro: balanced.intros)
  then have "balanced 123 125 True (call_text name ws @ t)"
    using nice_call(1) [OF name nice] by (simp add: nice_def balanced_append)
  moreover have "\<exists>n. p_parse (arg_proc_step e argp) (call_text name ws @ t) =
      pret (VAny (AProc (counted e name p)), n, None)"
    using fn_parse_call [where a = "map_of (proc_fns e argp)", OF name q, of t] arg_proc_step_fn [OF k(2), of e argp]
    by (simp add: call_text_def k(1))
  ultimately show ?thesis
    by (simp add: segment_def seg_text_def call_text_def k(1))
qed

lemma token_segment:
  assumes "token p w v" and "nice w"
  shows "segment 123 125 p w v"
proof -
  have w: "w \<noteq> []" "\<not> starts_with_space (w @ [])" "p_parse p (w @ []) = pret (v, int (length w), None)"
    using assms(1) unfolding token_def by blast+
  then show ?thesis
    using nice_ascii [OF assms(2)] assms(2)
    by (cases w) (auto simp: segment_def seg_text_def nice_def starts_with_space_def decode_rune_ascii)
qed

lemma assert_all_procs: "assert_all as_proc (map (\<lambda>p. VAny (AProc p)) ps) = Some ps"
  by (induction ps) simp_all

lemma piped_reads:
  assumes "list_all2 (\<lambda>t p. segment 123 125 argp t (VAny (AProc p))) ts ps"
  shows "p_parse (arg_piped argp (Some chain_brackets)) (piped_text ts) =
    pret (VList (map (\<lambda>p. VAny (AProc p)) ps), int (length (piped_text ts)), None)"
proof -
  let ?segs = "zip ts (map (\<lambda>p. VAny (AProc p)) ps)"
  have "length ts = length ps"
    by (rule list_all2_lengthD [OF assms])
  then have segs: "map fst ?segs = ts" "map snd ?segs = map (\<lambda>p. VAny (AProc p)) ps"
    by simp_all
  have "\<forall>(s, v) \<in> set ?segs. segment 123 125 argp s v"
    using assms by (auto simp: list_all2_conv_all_nth in_set_zip)
  from piped_loop_segments [OF this, of "piped_text ts" 0 "[]"] show ?thesis
    by (simp add: arg_piped_def plain_def chain_brackets_def segs)
qed

lemma token_chain:
  assumes "list_all2 (\<lambda>t p. segment 123 125 argp t (VAny (AProc p))) ts ps"
    and "balanced 123 125 False (piped_text ts)"
  shows "token (arg_proc_step e argp) (123 # piped_text ts @ [125]) (VAny (AProc (MkChain ps)))"
proof -
  have "p_parse (arg_chain argp) ((123 # piped_text ts @ [125]) @ rest) =
      pret (VAny (AProc (MkChain ps)), int (length (piped_text ts)) + 2, None)" for rest
    using lambda_parse_brackets [OF assms(2), of "arg_piped argp (Some chain_brackets)" new_chain rest]
      piped_reads [OF assms(1), unfolded chain_brackets_def]
    by (simp add: arg_chain_def arg_lambda_def plain_def chain_brackets_def
        new_chain_def assert_all_procs made_def)
  then show ?thesis
    by (intro tokenI [of _ 123])
      (simp_all add: arg_proc_step_def arg_or_def plain_def is_space_rune_def)
qed

section \<open>Each function is read\<close>

lemma plain_procs_raw:
  "list_all (\<lambda>(name, p). (name, lam0 (\<lambda>_. made p)) \<in> set (raw_fns e argp) \<and> fn_name name) plain_procs"
  by (simp add: plain_procs_def in_raw_fns new_arg_gzip_def fn_name_bytes word_byte_def)

lemma cmd_procs_raw:
  "list_all (\<lambda>(name, k). (name, new_arg_cmd_proc k) \<in> set (raw_fns e argp) \<and> fn_name name) cmd_procs"
  by (simp add: cmd_procs_def in_raw_fns fn_name_bytes word_byte_def)

lemma parity_raw:
  "(parity_name sd, new_arg_parity e sd) \<in> set (raw_fns e argp)" "fn_name (parity_name sd)"
  by (cases sd; simp add: in_raw_fns fn_name_bytes word_byte_def)+

lemma fn_reads_plain:
  assumes "(name, p) \<in> set plain_procs"
  shows "fn_reads e argp name [] p"
proof -
  have "(name, lam0 (\<lambda>_. made p)) \<in> set (raw_fns e argp)" and "fn_name name"
    using plain_procs_raw [of e argp] assms by (auto simp: list_all_iff)
  then show ?thesis
    by (rule fn_readsI) (simp_all add: reads_args_lam0 made_def)
qed

lemma fn_reads_one:
  assumes "(name, lam [p] run) \<in> set (raw_fns e argp)" and "fn_name name"
    and "token p u v" and "nice u" and "run [v] = made r"
  shows "fn_reads e argp name [u] r"
  using assms fn_reads_lam [of name "[(p, u, v)]" run e argp "[u]" r]
  by (simp add: tokens_simps)

lemma fn_reads_two:
  assumes "(name, lam [p, q] run) \<in> set (raw_fns e argp)" and "fn_name name"
    and "token p u v" "token q w x" and "nice u" "nice w" and "run [v, x] = made r"
  shows "fn_reads e argp name [u, w] r"
  using assms fn_reads_lam [of name "[(p, u, v), (q, w, x)]" run e argp "[u, w]" r]
  by (simp add: tokens_simps)

lemma fn_reads_path:
  assumes "(name, f) \<in> set path_procs" and "str_text w path" and "open_out e path = None"
  shows "fn_reads e argp name [w] (f path)"
proof -
  note reads = fn_reads_one [OF _ _ token_str_text [OF assms(2)] nice_word(2) [OF assms(2)]]
  have "fn_reads e argp (bytes_of ''index'') [w] (MkIndexProc path)"
    by (rule reads [of _ "index_arg_run e"]) (simp_all add: in_raw_fns made_def assms(3) fn_name_bytes word_byte_def)
  moreover have "fn_reads e argp (bytes_of ''write'') [w] (MkWriterTo path)"
    by (rule reads [of _ "write_run e"]) (simp_all add: in_raw_fns made_def assms(3) fn_name_bytes word_byte_def)
  moreover have "fn_reads e argp (bytes_of ''join'') [w] (MkJoin path)"
    by (rule reads [of _ "join_run e"]) (simp_all add: in_raw_fns made_def assms(3) fn_name_bytes word_byte_def)
  ultimately show ?thesis
    using assms(1) by (auto simp: path_procs_def)
qed

lemma str_list:
  assumes "list_all2 str_text ws cs"
  obtains us where "all_read_here (arg_str :: arg_val parser) us" and "map fst us = ws" and "map snd us = map VStr cs"
proof -
  have "list_all2 (\<lambda>w x. token (arg_str :: arg_val parser) w (VStr x)) ws cs"
    using assms by (rule list_all2_mono) (rule token_str_text)
  then show thesis
    using that by (rule token_list)
qed

lemma assert_all_strs: "assert_all as_str (map VStr cs) = Some cs"
  by (induction cs) simp_all

lemma fn_reads_cmd:
  assumes "(name, k) \<in> set cmd_procs" and "str_text w c" and "list_all2 str_text ws cs"
  shows "fn_reads e argp name (w # ws) (MkCmd k c cs)"
proof -
  obtain us where us: "all_read_here (arg_str :: arg_val parser) us" "map fst us = ws" "map snd us = map VStr cs"
    by (rule str_list [OF assms(3)])
  have "(name, new_arg_cmd_proc k) \<in> set (raw_fns e argp)" and "fn_name name"
    using cmd_procs_raw [of e argp] assms(1) by (auto simp: list_all_iff)
  moreover have "\<forall>w \<in> set ws. nice w"
    using assms(3) by (induction rule: list_all2_induct) (auto dest: nice_word(2))
  then have nice: "\<forall>u \<in> set (w # ws). nice u"
    using nice_word(2) [OF assms(2)] by simp
  moreover have "reads_args (new_arg_cmd_proc k) (spaced (w # ws)) (VAny (AProc (MkCmd k c cs)))"
    using reads_args_lam_variadic [of "[(arg_str, w, VStr c)]" arg_str us "cmd_run k"] us balanced_spaced [OF nice]
    by (simp add: new_arg_cmd_proc_def tokens_simps token_str_text [OF assms(2)] assert_all_strs made_def)
  ultimately show ?thesis
    by (rule fn_readsI)
qed

lemma fn_reads_multireader:
  assumes "list_all2 (copier_text e GetUnproc) ws cps" and "ae_multi e cps = None"
  shows "fn_reads e argp (bytes_of ''multireader'') ws (MkMultiReader cps)"
proof -
  have "list_all2 (\<lambda>w cp. token (new_arg_copier e GetUnproc) w (VAny (ACopier cp))) ws cps"
    using assms(1) by (rule list_all2_mono) (rule token_copier)
  then obtain us where us: "all_read_here (new_arg_copier e GetUnproc) us" "map fst us = ws"
    "map snd us = map (\<lambda>cp. VAny (ACopier cp)) cps"
    by (rule token_list)
  have nice: "\<forall>w \<in> set ws. nice w"
    using assms(1) by (induction rule: list_all2_induct) (auto elim: copier_text_shape)
  have "assert_all as_copier (map (\<lambda>cp. VAny (ACopier cp)) cps) = Some cps"
    by (induction cps) simp_all
  then have "reads_args (arg_lambda (Some (arg_variadic (new_arg_copier e GetUnproc))) (Some (multireader_run e)) None)
      (spaced ws) (VAny (AProc (MkMultiReader cps)))"
    using reads_args_variadic [OF us(1), of "multireader_run e"] us balanced_spaced [OF nice] assms(2)
    by (simp add: multireader_run_def text_err_def)
  then show ?thesis
    by (intro fn_readsI [OF _ _ nice]) (simp_all add: in_raw_fns word_byte_def fn_name_bytes)
qed

lemma store_in_raw_fns:
  assumes "map_of new_arg_store name = Some q"
  shows "(name, new_arg_store_proc q GetProc) \<in> set (raw_fns e argp)"
    and "(117 # name, new_arg_store_proc q GetUnproc) \<in> set (raw_fns e argp)"
  using map_of_SomeD [OF assms] by (force simp: raw_fns_def)+

lemma fn_reads_store:
  assumes "store_args name ws st"
  shows "fn_reads e argp name ws (MkStore GetProc st)" and "fn_reads e argp (117 # name) ws (MkStore GetUnproc st)"
proof -
  obtain q where q: "map_of new_arg_store name = Some q" "reads_args q (spaced ws) (VAny (AStore st))"
    using store_args_read [OF assms] by blast
  have args: "fn_name name" "\<forall>w \<in> set ws. nice w"
    using store_args_nice [OF assms] by simp_all
  have "reads_args (new_arg_store_proc q sd) (spaced ws) (VAny (AProc (MkStore sd st)))" for sd
    unfolding new_arg_store_proc_def using q(2) by (rule reads_args_filter) (simp add: made_def)
  then show "fn_reads e argp name ws (MkStore GetProc st)" and "fn_reads e argp (117 # name) ws (MkStore GetUnproc st)"
    using args by (auto intro!: fn_readsI [OF store_in_raw_fns(1) [OF q(1)]] fn_readsI [OF store_in_raw_fns(2) [OF q(1)]]
        simp: fn_name_def word_byte_def)
qed

section \<open>Every text of the grammar is read\<close>

lemma int_text_nonneg: "int_text w k \<Longrightarrow> 0 \<le> k"
  by (simp add: int_text_def)

lemma constructor_made:
  "0 \<le> k \<Longrightarrow> bind_outcome (slots_new k) (\<lambda>_. r) = r" "1 \<le> k \<Longrightarrow> bind_outcome (new_group k) (\<lambda>_. r) = r"
  by (simp_all add: slots_new_def new_group_def)

text \<open>No space in front.\<close>

lemma token_starts: "token p w v \<Longrightarrow> \<not> starts_with_space (spaced (w # ws))"
  using token_reads_here [of p w v ws] by (simp only: reads_here_def simp_thms)

lemma copiers_start: "list_all2 (copier_text e sd) ws cps \<Longrightarrow> ws = [] \<or> \<not> starts_with_space (spaced ws)"
  by (cases ws) (simp, metis list_all2_Cons1 token_starts token_copier)

lemma store_args_start: "store_args name ws st \<Longrightarrow> \<not> starts_with_space (spaced ws)"
  by (erule store_args.cases) (metis token_starts token_str_text)+

lemma grammar_read:
  assumes "sizes_begin_with_digits e"
  shows "proc_args e n name ws p \<Longrightarrow>
      fn_reads e (arg_proc e n) name ws p \<and> (ws = [] \<or> \<not> starts_with_space (spaced ws))"
    and "proc_text e n w p \<Longrightarrow> nice w \<and> token (arg_proc e n) w (VAny (AProc p))"
    and "stage_text e n w p \<Longrightarrow> nice w \<and> segment 123 125 (arg_proc e n) w (VAny (AProc p))"
proof (induction rule: proc_args_proc_text_stage_text.inducts)
  case (plain name p n)
  then show ?case
    by (simp add: fn_reads_plain)
next
  case (path name f w path n)
  then show ?case
    using token_starts [OF token_str_text [OF path(2)], of "[]"] by (simp add: fn_reads_path)
next
  case (split2 u lo w hi n)
  have "(bytes_of ''split2'', lam [arg_bytes (ae_bytes e), arg_bytes (ae_bytes e)] split2_run)
      \<in> set (raw_fns e (arg_proc e n))"
    by (simp add: in_raw_fns)
  then have "fn_reads e (arg_proc e n) (bytes_of ''split2'') [u, w] (MkSplitSize lo hi)"
    by (rule fn_reads_two [OF _ _ token_size [OF split2(1)] token_size [OF split2(2)]])
      (simp_all add: fn_name_bytes word_byte_def nice_word(4) [OF split2(1)] nice_word(4) [OF split2(2)])
  then show ?case
    using token_starts [OF token_size [OF split2(1)], of "[w]"] by blast
next
  case (group w k n)
  have "(bytes_of ''group'', lam [arg_int] group_arg_run) \<in> set (raw_fns e (arg_proc e n))"
    by (simp add: in_raw_fns)
  then have "fn_reads e (arg_proc e n) (bytes_of ''group'') [w] (MkGroup k)"
    by (rule fn_reads_one [OF _ _ token_int_text [OF group(1)]])
      (simp_all add: fn_name_bytes word_byte_def nice_word(3) [OF group(1)] constructor_made group(2))
  then show ?case
    using token_starts [OF token_int_text [OF group(1)], of "[]"] by blast
next
  case (parity u nd w np n sd)
  have "fn_reads e (arg_proc e n) (parity_name sd) [u, w] (MkParity sd nd np)"
    by (rule fn_reads_two [OF parity_raw(1) [unfolded new_arg_parity_def] parity_raw(2) token_int_text [OF parity(1)] token_int_text [OF parity(2)]])
      (simp_all add: nice_word(3) [OF parity(1)] nice_word(3) [OF parity(2)] parity(3) text_err_def)
  then show ?case
    using token_starts [OF token_int_text [OF parity(1)], of "[w]"] by blast
next
  case (cmd name k w c ws cs n)
  then show ?case
    using token_starts [OF token_str_text [OF cmd(2)], of ws] by (simp add: fn_reads_cmd)
next
  case (backlog u k n w p)
  have "(bytes_of ''backlog'', lam [arg_int, arg_proc e n] backlog_run) \<in> set (raw_fns e (arg_proc e n))"
    by (simp add: in_raw_fns)
  then have "fn_reads e (arg_proc e n) (bytes_of ''backlog'') [u, w] (MkBacklog k p)"
    by (rule fn_reads_two [OF _ _ token_int_text [OF backlog(1)] conjunct2 [OF backlog(3)]])
      (simp_all add: fn_name_bytes word_byte_def nice_word(3) [OF backlog(1)] backlog(3) constructor_made
        int_text_nonneg [OF backlog(1)])
  then show ?case
    using token_starts [OF token_int_text [OF backlog(1)], of "[w]"] by blast
next
  case (concur u k name ws d n)
  let ?fn = "arg_fn (map_of (new_arg_dyn_proc e))"
  obtain q where q: "map_of (new_arg_dyn_proc e) name = Some q" "reads_args q (spaced ws) (VAny (ADyn d))"
    using dyn_args_read [OF concur(2) assms] by blast
  have name: "fn_name name" "\<forall>w \<in> set ws. nice w"
    using dyn_args_nice [OF concur(2)] by simp_all
  have "token ?fn (call_text name ws) (VAny (ADyn d))"
    by (rule token_call [where a = "map_of (new_arg_dyn_proc e)", OF name(1) q])
  moreover have "(bytes_of ''concur'', lam [arg_int, ?fn] concur_run) \<in> set (raw_fns e (arg_proc e n))"
    by (simp add: in_raw_fns)
  ultimately have "fn_reads e (arg_proc e n) (bytes_of ''concur'') [u, call_text name ws] (MkConcur k d)"
    using nice_word(3) [OF concur(1)] nice_call(1) [OF name]
    by (intro fn_reads_two [OF _ _ token_int_text [OF concur(1)]])
      (assumption | simp add: fn_name_bytes word_byte_def constructor_made int_text_nonneg [OF concur(1)])+
  then show ?case
    using token_starts [OF token_int_text [OF concur(1)], of "[call_text name ws]"] by blast
next
  case (multireader ws cps n)
  then show ?case
    using copiers_start by (auto intro: fn_reads_multireader)
next
  case (store name ws st n)
  then show ?case
    using store_args_start fn_reads_store(1) by blast
next
  case (unstore name ws st n)
  then show ?case
    using store_args_start fn_reads_store(2) by blast
next
  case (call n name ws p)
  then show ?case
    using nice_call(1) [of name ws] token_proc_call [of e "arg_proc e n" name ws p]
    unfolding arg_proc_Suc by (auto simp: fn_reads_def)
next
  case (chain n ts ps)
  have nice: "\<forall>t \<in> set ts. nice t"
    and segs: "list_all2 (\<lambda>t p. segment 123 125 (arg_proc e n) t (VAny (AProc p))) ts ps"
    using chain by (auto simp: list_all2_conv_all_nth in_set_conv_nth)
  have "balanced 123 125 False (piped_text ts)"
    using nice by (induction ts rule: piped_text.induct)
      (auto simp: nice_def intro!: balanced_append balanced.intros intro: balanced_mono)
  then show ?case
    unfolding arg_proc_Suc using nice_chain [OF nice] token_chain [OF segs] by blast
next
  case (closed n w p)
  then show ?case
    by (simp add: token_segment)
next
  case (opened n name ws p)
  then show ?case
    using nice_call(2) [of name ws] segment_proc_open [of e "arg_proc e n" name ws p]
    unfolding arg_proc_Suc by (auto simp: fn_reads_def)
qed

text \<open>A greater bound takes all texts of a smaller one.\<close>

lemma grammar_mono_Suc:
  "proc_args e n name ws p \<Longrightarrow> proc_args e (Suc n) name ws p"
  "proc_text e n w p \<Longrightarrow> proc_text e (Suc n) w p"
  "stage_text e n w p \<Longrightarrow> stage_text e (Suc n) w p"
proof (induction rule: proc_args_proc_text_stage_text.inducts)
  case (chain n ts ps)
  then have "list_all2 (stage_text e (Suc n)) ts ps"
    by (auto elim: list_all2_mono)
  then show ?case
    by (rule proc_args_proc_text_stage_text.chain)
qed (auto intro: proc_args_proc_text_stage_text.intros)

lemma stage_text_mono: "stage_text e n w p \<Longrightarrow> n \<le> m \<Longrightarrow> stage_text e m w p"
  by (induction m) (auto simp: le_Suc_eq intro: grammar_mono_Suc(3))


text \<open>The whole argument is a chain without braces.\<close>

lemma argproc_parse_segments:
  assumes "list_all2 (\<lambda>t p. segment 123 125 (arg_proc e m) t (VAny (AProc p))) ts ps"
    and "length (piped_text ts) < m"
  shows "argproc_parse e (piped_text ts) =
    pret (VAny (AProc (MkChain ps)), int (length (piped_text ts)), None)"
  using piped_reads [OF assms(1)] new_parser_depth [OF assms(2), of e]
  by (simp add: new_parser_def arg_filter_def plain_def filter_parse_def new_chain_def assert_all_procs made_def)

lemma grammar_parsed:
  assumes "sizes_begin_with_digits e" and "list_all2 (stage_text e n) ts ps"
  shows "argproc_parse e (piped_text ts) =
    pret (VAny (AProc (MkChain ps)), int (length (piped_text ts)), None)"
proof -
  let ?m = "max n (Suc (length (piped_text ts)))"
  have "list_all2 (\<lambda>t p. segment 123 125 (arg_proc e ?m) t (VAny (AProc p))) ts ps"
    using assms(2) by (rule list_all2_mono) (use grammar_read(3) [OF assms(1)] stage_text_mono in force)
  then show ?thesis
    by (rule argproc_parse_segments) simp
qed

text \<open>How a parse ends: the contract and the types together.\<close>

lemma new_parser_typed:
  "typed_pres (\<lambda>v. \<exists>ps. v = VAny (AProc (MkChain ps))) (p_parse (new_parser e n) str)"
proof -
  have "typed_res (\<lambda>v. \<exists>ps. v = VAny (AProc (MkChain ps))) (new_filter v)"
    if "vlist_of is_proc v" for v
    using that unfolding vlist_of_def by (auto simp: new_chain_def made_def dest!: assert_all_lists)
  then have "typed_parser (new_parser e n) (\<lambda>v. \<exists>ps. v = VAny (AProc (MkChain ps)))"
    unfolding new_parser_def
    by (intro typed_parser.filtered [OF typed_parser.piped [OF arg_proc_typed]])
  then show ?thesis
    by (rule typed_parser.typed)
qed

lemma parse_ends:
  assumes "length str < n"
  shows "\<exists>r. p_parse (new_parser e n) str = Some r \<and>
    (case r of
       Panic m \<Rightarrow> maker_panic m
     | Ret (v, m, er) \<Rightarrow> er = None \<longrightarrow>
         0 \<le> m \<and> m \<le> int (length str) \<and> (\<exists>ps. v = VAny (AProc (MkChain ps))))"
  using new_parser_ends [OF assms, of e]
proof (rule endsE)
  fix m
  assume "p_parse (new_parser e n) str = Some (Panic m)" "fn_panic m"
  then show ?thesis
    using new_parser_typed [of e n str] by (simp add: fn_panic_def)
next
  fix x
  assume "p_parse (new_parser e n) str = pret x" "reads 0 (int (length str)) x"
  then show ?thesis
    using new_parser_typed [of e n str] by (cases x) (auto simp: reads_def)
qed

section \<open>Calls that panic\<close>










section \<open>Properties\<close>

text \<open>
  C34: the parser implements the reference grammar: a pipeline of texts of the grammar, calls with
  or without brackets, chains in braces nested in them, stores, copiers and quotas, is read to its
  end as the chain of the procs the texts stand for. \<open>humanize.ParseBytes\<close> is taken to refuse a
  text that begins with a letter.
\<close>

theorem argproc_reads:
  assumes "sizes_begin_with_digits e" and "list_all2 (stage_text e n) ts ps"
  shows "argproc_parse e (piped_text ts) =
    pret (VAny (AProc (MkChain ps)), int (length (piped_text ts)), None)"
  using assms by (rule grammar_parsed)

definition ex_env :: "bool \<Rightarrow> arg_env" where
  "ex_env st = \<lparr>ae_stats = st, ae_bytes = (\<lambda>w. if w = [55] then (7, None) else (0, Some (Inl ()))),
     ae_open = (\<lambda>_. None), ae_parity = (\<lambda>_ _. None), ae_stripe = (\<lambda>_. None), ae_multi = (\<lambda>_. None)\<rparr>"

lemma ex_env_sizes: "sizes_begin_with_digits (ex_env st)"
  by (auto simp: sizes_begin_with_digits_def ex_env_def)

lemma ex_bare: "str_text [100] [100]" "bare [97]" "bare [98]" "int_text [50] 2" "size_text (ex_env st) [55] 7"
  by (simp_all add: str_text_def bare_def plain_byte_def is_space_rune_def int_text_def digit_byte_def
      digits_value_def size_text_def ex_env_def)

lemma ex_copiers:
  "quota_text (ex_env st) [97, 61, 99, 112, 40, 100, 41, 61, 55] (copier_of (ex_env st) GetProc [97] (CpStore [100] []), 7)"
  "quota_text (ex_env st) [98, 61, 99, 112, 40, 100, 41] (copier_of (ex_env st) GetProc [98] (CpStore [100] []), - 1)"
proof -
  have "store_args (bytes_of ''cp'') [[100]] (CpStore [100] [])"
    using store_args.intros(2) [OF ex_bare(1), of "[]" "[]"] by simp
  then have cps: "copier_text (ex_env st) GetProc [97, 61, 99, 112, 40, 100, 41] (copier_of (ex_env st) GetProc [97] (CpStore [100] []))"
    "copier_text (ex_env st) GetProc [98, 61, 99, 112, 40, 100, 41] (copier_of (ex_env st) GetProc [98] (CpStore [100] []))"
    using copier_text.intros [OF ex_bare(2), of "bytes_of ''cp''" "[[100]]" "CpStore [100] []" "ex_env st" GetProc]
      copier_text.intros [OF ex_bare(3), of "bytes_of ''cp''" "[[100]]" "CpStore [100] []" "ex_env st" GetProc]
    by (simp_all add: call_text_def bytes_of_def)
  then show "quota_text (ex_env st) [97, 61, 99, 112, 40, 100, 41, 61, 55] (copier_of (ex_env st) GetProc [97] (CpStore [100] []), 7)"
    "quota_text (ex_env st) [98, 61, 99, 112, 40, 100, 41] (copier_of (ex_env st) GetProc [98] (CpStore [100] []), - 1)"
    using quota_text.intros(2) [OF cps(1) ex_bare(5)] quota_text.intros(1) [OF cps(2)] by simp_all
qed

theorem argproc_reads_witness:
  "argproc_parse (ex_env False) (bytes_of ''split|backlog 2 {gzip|concur 2 mincopies(2 a=cp(d)=7 b=cp(d))}'') =
    pret (VAny (AProc (MkChain [MkSplit, MkBacklog 2 (MkChain [MkGzip GetProc, MkConcur 2 (MkStripe 2 0
      [(MkCopier [97] (StoreLister (CpStore [100] [])) (MkStore GetProc (CpStore [100] [])), 7),
       (MkCopier [98] (StoreLister (CpStore [100] [])) (MkStore GetProc (CpStore [100] [])), - 1)])])])), 62, None)"
proof -
  let ?e = "ex_env False"
  let ?qs = "[[97, 61, 99, 112, 40, 100, 41, 61, 55], [98, 61, 99, 112, 40, 100, 41]] :: bytes list"
  let ?ress = "[(copier_of ?e GetProc [97] (CpStore [100] []), 7), (copier_of ?e GetProc [98] (CpStore [100] []), - 1)]"
  have nil: "proc_args ?e n name [] p" if "(name, p) \<in> set plain_procs" for n name p
    using that by (rule proc_args_proc_text_stage_text.plain)
  have "dyn_args ?e (bytes_of ''mincopies'') ([50] # ?qs) (MkStripe 2 0 ?ress)"
    using dyn_args.intros(1) [OF ex_bare(4), of ?e ?qs ?ress] ex_copiers [of False] by (simp add: ex_env_def)
  then have concur: "proc_args ?e 1 (bytes_of ''concur'') [[50], call_text (bytes_of ''mincopies'') ([50] # ?qs)]
      (MkConcur 2 (MkStripe 2 0 ?ress))"
    by (rule proc_args_proc_text_stage_text.concur [OF ex_bare(4)])
  let ?ts = "[open_text (bytes_of ''gzip'') [],
      open_text (bytes_of ''concur'') [[50], call_text (bytes_of ''mincopies'') ([50] # ?qs)]]"
  have "list_all2 (stage_text ?e 2) ?ts
      [counted ?e (bytes_of ''gzip'') (MkGzip GetProc), counted ?e (bytes_of ''concur'') (MkConcur 2 (MkStripe 2 0 ?ress))]"
    using proc_args_proc_text_stage_text.opened [OF concur]
      proc_args_proc_text_stage_text.opened [OF nil [of "bytes_of ''gzip''" "MkGzip GetProc" 1]]
    by (simp add: plain_procs_def numeral_2_eq_2)
  note chain = proc_args_proc_text_stage_text.chain [OF this]
  note backlog = proc_args_proc_text_stage_text.opened [OF proc_args_proc_text_stage_text.backlog [OF ex_bare(4) chain]]
  note split = proc_args_proc_text_stage_text.opened [OF nil [of "bytes_of ''split''" MkSplit "Suc 2"]]
  have "list_all2 (stage_text ?e (Suc (Suc 2)))
      [open_text (bytes_of ''split'') [], open_text (bytes_of ''backlog'') [[50], 123 # piped_text ?ts @ [125]]]
      [counted ?e (bytes_of ''split'') MkSplit, counted ?e (bytes_of ''backlog'') (MkBacklog 2 (MkChain
        [counted ?e (bytes_of ''gzip'') (MkGzip GetProc), counted ?e (bytes_of ''concur'') (MkConcur 2 (MkStripe 2 0 ?ress))]))]"
    using split backlog by (simp only: list_all2_Cons list.rel_inject(1) simp_thms) (simp add: plain_procs_def)
  from argproc_reads [OF ex_env_sizes this] show ?thesis
    by (simp add: open_text_def call_text_def bytes_of_def counted_def copier_of_def ex_env_def)
qed

text \<open>
  C35: what stands behind the closing bracket of a call, up to the next pipe, is not read and no
  error: whatever it is, in ASCII and without braces, the pipeline is the one without it.
\<close>

theorem argproc_drops_text:
  assumes "sizes_begin_with_digits e" and "proc_args e n name ws p"
    and "\<forall>b \<in> set t. b < 0x80 \<and> b \<notin> {123, 124, 125}"
  shows "argproc_parse e (call_text name ws @ t) =
    pret (VAny (AProc (MkChain [counted e name p])), int (length (call_text name ws @ t)), None)"
proof -
  let ?m = "Suc (max n (length (call_text name ws @ t)))"
  obtain n' where n': "?m = Suc n'" "n \<le> n'"
    by simp
  have "proc_args e n' name ws p"
    using assms(2) n'(2) by (induction n') (auto simp: le_Suc_eq intro: grammar_mono_Suc(1))
  then have reads: "fn_reads e (arg_proc e n') name ws p"
    using grammar_read(1) [OF assms(1)] by blast
  have seg: "segment 123 125 (arg_proc e ?m) (call_text name ws @ t) (VAny (AProc (counted e name p)))"
    unfolding n' arg_proc_Suc by (rule segment_call_behind [OF reads assms(3)])
  have "argproc_parse e (piped_text [call_text name ws @ t]) =
      pret (VAny (AProc (MkChain [counted e name p])), int (length (piped_text [call_text name ws @ t])), None)"
    by (rule argproc_parse_segments [where m = ?m]) (use seg in simp_all)
  then show ?thesis
    by simp
qed

theorem argproc_drops_text_witness:
  "argproc_parse (ex_env False) (bytes_of ''sort() gzip'') = pret (VAny (AProc (MkChain [MkSort])), 11, None)"
proof -
  have "proc_args (ex_env False) 0 (bytes_of ''sort'') [] MkSort"
    by (rule proc_args_proc_text_stage_text.plain) (simp add: plain_procs_def)
  from argproc_drops_text [OF ex_env_sizes this, of "bytes_of '' gzip''"] show ?thesis
    by (simp add: call_text_def bytes_of_def counted_def ex_env_def)
qed

text \<open>
  C39: the parser of the procs always ends, whatever the string: a chain of procs, read from no more
  than there is, or an error; and the only panics are those of the constructors of groups, backlogs
  and concurrent procs, so that no type assertion in the functions of the grammar ever fails. The
  bound on the nesting that stands for the parser's reference to itself makes no difference once it
  is greater than the length of the string.
\<close>

theorem argproc_parses:
  assumes "length str < n"
  shows "\<exists>r. p_parse (new_parser e n) str = Some r \<and> argproc_parse e str = Some r \<and>
    (case r of
       Panic m \<Rightarrow> m \<in> {''size must be >= 1'', ''makechan: size out of range''}
     | Ret (v, m, er) \<Rightarrow> er = None \<longrightarrow>
         0 \<le> m \<and> m \<le> int (length str) \<and> (\<exists>ps. v = VAny (AProc (MkChain ps))))"
  using parse_ends [OF assms, of e] new_parser_depth [OF assms, of e]
  by (auto simp: maker_panic_def split: outcome.splits)

definition no_env :: arg_env where
  "no_env = \<lparr>ae_stats = True, ae_bytes = (\<lambda>_. (0, Some (Inl ()))), ae_open = (\<lambda>_. None),
     ae_parity = (\<lambda>_ _. None), ae_stripe = (\<lambda>_. None), ae_multi = (\<lambda>_. None)\<rparr>"

theorem argproc_parses_witness:
  "\<exists>r. p_parse (new_parser no_env 50) (bytes_of ''backlog 2 {sort | backlog(3 {'') = Some r \<and>
    argproc_parse no_env (bytes_of ''backlog 2 {sort | backlog(3 {'') = Some r \<and>
    (case r of
       Panic m \<Rightarrow> m \<in> {''size must be >= 1'', ''makechan: size out of range''}
     | Ret (v, m, er) \<Rightarrow> (case er of Some _ \<Rightarrow> True | None \<Rightarrow>
         0 \<le> m \<and> m \<le> int (length (bytes_of ''backlog 2 {sort | backlog(3 {'')) \<and>
         (\<exists>ps. v = VAny (AProc (MkChain ps)))))"
proof -
  have "length (bytes_of ''backlog 2 {sort | backlog(3 {'') < 50"
    by (simp add: bytes_of_def)
  from argproc_parses [OF this, of no_env] show ?thesis
  proof (elim exE conjE, intro exI conjI)
    fix r :: "(arg_val pval \<times> int \<times> perr option) outcome"
    assume "case r of
       Panic m \<Rightarrow> m \<in> {''size must be >= 1'', ''makechan: size out of range''}
     | Ret (v, m, er) \<Rightarrow> er = None \<longrightarrow>
         0 \<le> m \<and> m \<le> int (length (bytes_of ''backlog 2 {sort | backlog(3 {'')) \<and>
         (\<exists>ps. v = VAny (AProc (MkChain ps)))"
    then show "case r of
       Panic m \<Rightarrow> m \<in> {''size must be >= 1'', ''makechan: size out of range''}
     | Ret (v, m, er) \<Rightarrow> (case er of Some _ \<Rightarrow> True | None \<Rightarrow>
         0 \<le> m \<and> m \<le> int (length (bytes_of ''backlog 2 {sort | backlog(3 {'')) \<and>
         (\<exists>ps. v = VAny (AProc (MkChain ps))))"
      by (cases r) (auto split: option.splits)
  qed
qed



end
