(* ===== verification/Command_Line.thy ===== *)
theory Command_Line
  imports Proc_Grammar Procs
begin

text \<open>
  \<^verbatim>\<open>cmd/main.go\<close>: the command line, and one run of the program: a temporary directory and, when
  asked for, a ticker are set up, the proc string is parsed, the procs process the standard input
  as one chunk, and what was set up is taken down again by the deferred calls, which run after a
  return and after a panic, but not when the process is killed by a panic on another goroutine.
\<close>

section \<open>Flags\<close>

record cmd_args =
  ca_proc_str :: bytes
  ca_stats :: bool
  ca_version :: bool

definition no_args :: cmd_args where
  "no_args = \<lparr>ca_proc_str = [], ca_stats = False, ca_version = False\<rparr>"

datatype flag_err = ErrHelp | ErrFlag string

text \<open>\<open>strconv.ParseBool\<close>.\<close>

definition parse_bool :: "bytes \<Rightarrow> bool option" where
  "parse_bool s =
     (if s \<in> set (map bytes_of [''1'', ''t'', ''T'', ''TRUE'', ''true'', ''True'']) then Some True
      else if s \<in> set (map bytes_of [''0'', ''f'', ''F'', ''FALSE'', ''false'', ''False'']) then Some False
      else None)"

text \<open>The flag set of \<open>cmdArgs.Parse\<close>: what a boolean flag sets.\<close>

definition set_flag :: "bytes \<Rightarrow> bool \<Rightarrow> cmd_args \<Rightarrow> cmd_args option" where
  "set_flag name b a =
     (if name = bytes_of ''stats'' then Some (a\<lparr>ca_stats := b\<rparr>)
      else if name = bytes_of ''version'' then Some (a\<lparr>ca_version := b\<rparr>)
      else None)"

text \<open>
  \<open>flag.FlagSet.Parse\<close> with \<open>ContinueOnError\<close>, over boolean flags: the error, if any, and the
  arguments left; the flags before an error stay set.
\<close>

fun flags_parse :: "bytes list \<Rightarrow> cmd_args \<Rightarrow> (flag_err option \<times> bytes list) \<times> cmd_args" where
  "flags_parse [] a = ((None, []), a)"
| "flags_parse (s # rest) a =
     (case s of
        [] \<Rightarrow> ((None, s # rest), a)
      | [_] \<Rightarrow> ((None, s # rest), a)
      | c # c' # s' \<Rightarrow>
          if c \<noteq> 45 then ((None, s # rest), a)
          else if c' = 45 \<and> s' = [] then ((None, rest), a)
          else
            (let name = (if c' = 45 then s' else c' # s') in
             if hd name = 45 \<or> hd name = 61 then ((Some (ErrFlag ''bad flag syntax''), rest), a)
             else
               (let key = takeWhile (\<lambda>b. b \<noteq> 61) name;
                    val = (if 61 \<in> set name then Some (tl (dropWhile (\<lambda>b. b \<noteq> 61) name)) else None) in
                case set_flag key True a of
                  None \<Rightarrow>
                    ((Some (if key = bytes_of ''help'' \<or> key = bytes_of ''h'' then ErrHelp
                       else ErrFlag ''flag provided but not defined''), rest), a)
                | Some a1 \<Rightarrow>
                    (case val of
                       None \<Rightarrow> flags_parse rest a1
                     | Some v \<Rightarrow>
                         (case parse_bool v of
                            None \<Rightarrow> ((Some (ErrFlag ''invalid boolean value''), rest), a)
                          | Some b \<Rightarrow> flags_parse rest (the (set_flag key b a)))))))"

text \<open>
  \<open>cmdArgs.Parse\<close>: \<open>Inl\<close> is the exit with the usage, to the standard output or to the standard
  error. The first argument is the name of the program.
\<close>

datatype usage_exit = UsageStdout | UsageStderr

definition command_name :: "bytes list \<Rightarrow> bytes" where
  "command_name argv = (case argv of [] \<Rightarrow> bytes_of ''<command>'' | name # _ \<Rightarrow> name)"

text \<open>The lines of \<open>usage\<close>, with those \<open>PrintDefaults\<close> prints for the two flags.\<close>

definition url :: bytes where
  "url = bytes_of ''https://github.com/Roman2K/scat#usage''"

definition usage_text :: "bytes \<Rightarrow> bytes list" where
  "usage_text name =
     [bytes_of ''usage: '' @ name @ bytes_of '' [options] <proc>'',
      [],
      9 # bytes_of ''<proc>'' @ 9 # bytes_of ''proc string'',
      9 # 9 # bytes_of ''see '' @ url,
      [],
      bytes_of ''options:'',
      bytes_of ''  -stats'',
      bytes_of ''    '' @ 9 # bytes_of ''print stats: rates, quotas, etc.'',
      bytes_of ''  -version'',
      bytes_of ''    '' @ 9 # bytes_of ''show version'',
      [],
      bytes_of ''see '' @ url]"

definition cmd_args_parse :: "bytes list \<Rightarrow> usage_exit + cmd_args" where
  "cmd_args_parse argv =
     (case flags_parse (tl argv) no_args of
        ((e, rest), a) \<Rightarrow>
          if e \<noteq> None \<or> (length rest \<noteq> 1 \<and> \<not> ca_version a) then
            Inl (if e = Some ErrHelp then UsageStdout else UsageStderr)
          else Inr (a\<lparr>ca_proc_str := (case rest of [] \<Rightarrow> [] | s # _ \<Rightarrow> s)\<rparr>))"

section \<open>How a call ends\<close>

text \<open>
  A call of the main goroutine returns, panics, never ends, or does not because the process was
  killed: by a panic on another goroutine, or by the runtime.
\<close>

datatype 'a run_end = Returns 'a | Panics string | Killed string | NeverEnds

text \<open>\<open>defer\<close>: the deferred call runs after a return and after a panic.\<close>

fun after_call :: "'b run_end \<Rightarrow> 'a run_end \<Rightarrow> 'a run_end" where
  "after_call d (Killed m) = Killed m"
| "after_call d NeverEnds = NeverEnds"
| "after_call (Returns _) r = r"
| "after_call (Panics m) r = Panics m"
| "after_call (Killed m) r = Killed m"
| "after_call NeverEnds r = NeverEnds"

text \<open>
  \<open>procs.Process\<close> by how the results, the first call of \<open>Finish\<close> and the second end: one
  \<open>Finish\<close> is deferred, and one is the last call if the stream has no error.
\<close>

definition process_ends :: "res list run_end \<Rightarrow> err option run_end \<Rightarrow> err option run_end \<Rightarrow> err option run_end" where
  "process_ends results finish finish2 =
     (case results of
        Returns rs \<Rightarrow>
          (case stream_err rs of
             Some e \<Rightarrow> after_call finish (Returns (Some e))
           | None \<Rightarrow> after_call finish2 finish)
      | Panics m \<Rightarrow> after_call finish (Panics m)
      | Killed m \<Rightarrow> Killed m
      | NeverEnds \<Rightarrow> NeverEnds)"

lemma process_ends_driver:
  "process_ends (Returns rs) (Returns e) (Returns e2) = Returns (process_driver rs e)"
  by (simp add: process_ends_def process_driver_def del: stream_err_None_iff split: option.split)

section \<open>One run\<close>

text \<open>
  What the run finds outside: the error of \<open>TempDir\<close>, the environment of the parser, with or
  without counters, how the results and each call of \<open>Finish\<close> of the procs that were parsed end,
  the standard input, and which errors of the parser are those of a command a store ran to list
  itself, with its standard error.
\<close>

record cl_env =
  cl_temp :: "err option"
  cl_parser :: "bool \<Rightarrow> arg_env"
  cl_results :: "proc_exp \<Rightarrow> chunk \<Rightarrow> res list run_end"
  cl_finish :: "proc_exp \<Rightarrow> nat \<Rightarrow> err option run_end"
  cl_stdin :: "bytes \<times> err option"
  cl_exits :: "perr \<Rightarrow> string option"

definition version :: bytes where
  "version = bytes_of ''4''"

datatype cl_event =
    PrintedUsage usage_exit "bytes list"
  | PrintedVersion bytes
  | MadeTemp
  | StartedTicker
  | ProcessedBy proc_exp
  | StoppedTicker
  | FinishedTemp

datatype cl_err = TempErr err | ParseErr perr | ProcErr err

definition cl_seed :: "cl_env \<Rightarrow> chunk" where
  "cl_seed E = new_chunk 0 (Some (ReaderData (fst (cl_stdin E)) (snd (cl_stdin E)) False))"

text \<open>What was done, and how it ended.\<close>

type_synonym cl_run = "cl_event list \<times> cl_err option run_end"

definition doing :: "cl_event \<Rightarrow> cl_run \<Rightarrow> cl_run" where
  "doing ev r = (ev # fst r, snd r)"

text \<open>A deferred call of \<open>start\<close>, one that returns.\<close>

definition deferring :: "cl_event \<Rightarrow> cl_run \<Rightarrow> cl_run" where
  "deferring ev r =
     (fst r @ (case snd r of Returns _ \<Rightarrow> [ev] | Panics _ \<Rightarrow> [ev] | _ \<Rightarrow> []), snd r)"

fun map_end :: "('a \<Rightarrow> 'b) \<Rightarrow> 'a run_end \<Rightarrow> 'b run_end" where
  "map_end f (Returns x) = Returns (f x)"
| "map_end f (Panics m) = Panics m"
| "map_end f (Killed m) = Killed m"
| "map_end f NeverEnds = NeverEnds"

text \<open>The parse and what follows it; the type assertion on the result panics if it fails.\<close>

definition run_procs :: "cl_env \<Rightarrow> cmd_args \<Rightarrow> cl_run" where
  "run_procs E a =
     (case argproc_parse (cl_parser E (ca_stats a)) (ca_proc_str a) of
        None \<Rightarrow> ([], NeverEnds)
      | Some (Panic m) \<Rightarrow> ([], Panics m)
      | Some (Ret (v, n, Some e)) \<Rightarrow> ([], Returns (Some (ParseErr e)))
      | Some (Ret (v, n, None)) \<Rightarrow>
          (case v of
             VAny (AProc p) \<Rightarrow>
               doing (ProcessedBy p)
                 ([], map_end (map_option ProcErr)
                    (process_ends (cl_results E p (cl_seed E)) (cl_finish E p 0) (cl_finish E p 1)))
           | _ \<Rightarrow> ([], Panics ''interface conversion'')))"

definition start :: "cl_env \<Rightarrow> cmd_args \<Rightarrow> cl_run" where
  "start E a =
     (if ca_version a then ([PrintedVersion version], Returns None)
      else case cl_temp E of
             Some e \<Rightarrow> ([], Returns (Some (TempErr e)))
           | None \<Rightarrow>
               doing MadeTemp (deferring FinishedTemp
                 (if ca_stats a then doing StartedTicker (deferring StoppedTicker (run_procs E a))
                  else run_procs E a)))"

text \<open>
  \<open>main\<close>: how the process ends, with an exit status and the standard error of a command that
  failed, or by a panic of the main goroutine, which nothing recovers from, or of another one.
\<close>

datatype cl_status = Exit int "string option" | MainPanic string | OtherPanic string | Hangs

text \<open>The runtime exits with status 2 after a panic.\<close>

fun exit_status :: "cl_status \<Rightarrow> int option" where
  "exit_status (Exit n err) = Some n"
| "exit_status (MainPanic m) = Some 2"
| "exit_status (OtherPanic m) = Some 2"
| "exit_status Hangs = None"

definition captured_stderr :: "cl_env \<Rightarrow> cl_err \<Rightarrow> string option" where
  "captured_stderr E e =
     (case e of
        ProcErr (ExitError s) \<Rightarrow> Some s
      | ParseErr e \<Rightarrow> cl_exits E (original_err e)
      | _ \<Rightarrow> None)"

definition cl_main :: "cl_env \<Rightarrow> bytes list \<Rightarrow> cl_event list \<times> cl_status" where
  "cl_main E argv =
     (case cmd_args_parse argv of
        Inl u \<Rightarrow>
          ([PrintedUsage u (usage_text (command_name argv))], Exit (if u = UsageStdout then 0 else 2) None)
      | Inr a \<Rightarrow>
          (case start E a of (evs, r) \<Rightarrow>
             (evs,
              case r of
                Returns None \<Rightarrow> Exit 0 None
              | Returns (Some e) \<Rightarrow> Exit 1 (captured_stderr E e)
              | Panics m \<Rightarrow> MainPanic m
              | Killed m \<Rightarrow> OtherPanic m
              | NeverEnds \<Rightarrow> Hangs)))"

section \<open>Properties\<close>

text \<open>A proc string does not look like a flag.\<close>

definition no_flag :: "bytes \<Rightarrow> bool" where
  "no_flag s \<longleftrightarrow> s = [] \<or> hd s \<noteq> 45"

lemma flags_parse_stop: "no_flag s \<Longrightarrow> flags_parse (s # rest) a = ((None, s # rest), a)"
  by (cases s; cases "tl s") (auto simp: no_flag_def)

lemma flags_parse_stats:
  "flags_parse (bytes_of ''-stats'' # rest) a = flags_parse rest (a\<lparr>ca_stats := True\<rparr>)"
  by (simp add: bytes_of_def set_flag_def)

definition stats_flag :: "bool \<Rightarrow> bytes list" where
  "stats_flag st = (if st then [bytes_of ''-stats''] else [])"

lemma cmd_args_parse_proc:
  assumes "no_flag s"
  shows "cmd_args_parse (name # stats_flag st @ [s]) =
    Inr \<lparr>ca_proc_str = s, ca_stats = st, ca_version = False\<rparr>"
  using flags_parse_stop [OF assms]
  by (simp add: cmd_args_parse_def stats_flag_def flags_parse_stats no_args_def del: flags_parse.simps)

text \<open>
  C36: a run of the program with the text of a pipeline, with or without \<open>-stats\<close>, sends the
  standard input as one chunk through the procs the text stands for in the grammar; if these end,
  its exit status is 0 if they put out no error and finish without one, else 1; and the ticker and
  the temporary directory are there before the procs and taken down after them.
\<close>

theorem main_runs_procs:
  assumes "sizes_begin_with_digits (cl_parser E st)" and "list_all2 (stage_text (cl_parser E st) n) ts ps"
    and "no_flag (piped_text ts)" and "cl_temp E = None"
    and "cl_results E (MkChain ps) (cl_seed E) = Returns rs"
    and "cl_finish E (MkChain ps) 0 = Returns fin" and "cl_finish E (MkChain ps) 1 = Returns fin2"
  shows "\<exists>err. cl_main E (name # stats_flag st @ [piped_text ts]) =
      (MadeTemp # (if st then [StartedTicker] else []) @ [ProcessedBy (MkChain ps)] @
          (if st then [StoppedTicker] else []) @ [FinishedTemp],
       Exit (if process_driver rs fin = None then 0 else 1) err)"
  using grammar_parsed [OF assms(1,2)] assms(4-7)
  by (cases "process_driver rs fin"; cases st)
    (simp_all add: cl_main_def cmd_args_parse_proc [OF assms(3)] start_def run_procs_def doing_def deferring_def
      process_ends_driver)

text \<open>A run of \<^verbatim>\<open>sort\<close> that finds a gap.\<close>

definition ex_cl :: cl_env where
  "ex_cl = \<lparr>cl_temp = None, cl_parser = ex_env, cl_results = (\<lambda>_ _. Returns []),
     cl_finish = (\<lambda>_ _. Returns (Some ErrShort)), cl_stdin = ([1, 2], None), cl_exits = (\<lambda>_. None)\<rparr>"

lemma main_runs_procs_witness:
  "\<exists>err. cl_main ex_cl (bytes_of ''scat'' # stats_flag False @ [bytes_of ''sort'']) =
    ([MadeTemp, ProcessedBy (MkChain [MkSort]), FinishedTemp], Exit 1 err)"
proof -
  have "proc_args (ex_env False) 0 (bytes_of ''sort'') [] MkSort"
    by (rule proc_args_proc_text_stage_text.plain) (simp add: plain_procs_def)
  from proc_args_proc_text_stage_text.opened [OF this]
  have "list_all2 (stage_text (cl_parser ex_cl False) 1) [bytes_of ''sort''] [MkSort]"
    by (simp add: open_text_def bytes_of_def counted_def ex_env_def ex_cl_def)
  from main_runs_procs [OF _ this, of "[]" "Some ErrShort" "Some ErrShort" "bytes_of ''scat''"] show ?thesis
    using ex_env_sizes by (simp add: ex_cl_def no_flag_def bytes_of_def process_driver_def stream_err_def)
qed





end
