(* ===== verification/Ansi_Refresh.thy ===== *)
theory Ansi_Refresh
  imports Stats
begin

text \<open>
  \<^verbatim>\<open>ansirefresh/ansirefresh.go\<close>: the writer that puts each table over the one before, and what a
  terminal shows of what it writes.
\<close>

section \<open>Writing over what was written\<close>

record ansi_writer =
  aw_nlines :: nat
  aw_flushed :: bool

definition new_ansi_writer :: ansi_writer where
  "new_ansi_writer = \<lparr>aw_nlines = 0, aw_flushed = False\<rparr>"

definition clear_line :: string where
  "clear_line = CHR 0x1B # ''[2K'' @ [CHR 0x0D]"

definition move_up_clear :: string where
  "move_up_clear = CHR 0x1B # ''[0A'' @ CHR 0x1B # ''[2K'' @ [CHR 0x0D]"

fun clear_lines :: "'w text_writer \<Rightarrow> nat \<Rightarrow> 'w \<Rightarrow> err option \<times> 'w" where
  "clear_lines wr 0 w = (None, w)"
| "clear_lines wr (Suc n) w =
     (case wr move_up_clear w of
        ((_, Some e), w') \<Rightarrow> (Some e, w')
      | ((_, None), w') \<Rightarrow> clear_lines wr n w')"

definition ansi_clear :: "'w text_writer \<Rightarrow> nat \<Rightarrow> 'w \<Rightarrow> err option \<times> 'w" where
  "ansi_clear wr n w =
     (case wr clear_line w of
        ((_, Some e), w') \<Rightarrow> (Some e, w')
      | ((_, None), w') \<Rightarrow> clear_lines wr n w')"

definition ansi_write ::
  "'w text_writer \<Rightarrow> string \<Rightarrow> ansi_writer \<times> 'w \<Rightarrow> (int \<times> err option) \<times> ansi_writer \<times> 'w" where
  "ansi_write wr b st =
     (case st of (aw, w) \<Rightarrow>
        (case (if aw_flushed aw then ansi_clear wr (aw_nlines aw) w else (None, w)) of
           (Some e, w') \<Rightarrow> ((0, Some e), aw, w')
         | (None, w') \<Rightarrow>
             (let n = (if aw_flushed aw then 0 else aw_nlines aw) + count_list b (CHR 0x0A) in
              case wr b w' of (r, w'') \<Rightarrow> (r, \<lparr>aw_nlines = n, aw_flushed = False\<rparr>, w''))))"

definition ansi_flush :: "ansi_writer \<Rightarrow> ansi_writer" where
  "ansi_flush aw = aw\<lparr>aw_flushed := True\<rparr>"

section \<open>The screen\<close>

text \<open>
  A terminal with the cursor at the end of a row: the rows above, the row, the rows below, which
  are empty whenever text goes to them here.
\<close>

record screen =
  sn_above :: "string list"
  sn_row :: string
  sn_below :: "string list"

fun screen_put :: "char \<Rightarrow> screen \<Rightarrow> screen" where
  "screen_put c t =
     (if c = CHR 0x0A then
        t\<lparr>sn_above := sn_above t @ [sn_row t],
          sn_row := (case sn_below t of [] \<Rightarrow> [] | r # _ \<Rightarrow> r), sn_below := tl (sn_below t)\<rparr>
      else t\<lparr>sn_row := sn_row t @ [c]\<rparr>)"

definition screen_write :: "screen text_writer" where
  "screen_write s t =
     ((int (length s), None),
      if s = clear_line then t\<lparr>sn_row := []\<rparr>
      else if s = move_up_clear then
        (if sn_above t = [] then t\<lparr>sn_row := []\<rparr>
         else t\<lparr>sn_above := butlast (sn_above t), sn_row := [], sn_below := sn_row t # sn_below t\<rparr>)
      else fold screen_put s t)"

fun split_lf :: "string \<Rightarrow> string list" where
  "split_lf [] = [[]]"
| "split_lf (c # s) =
     (if c = CHR 0x0A then [] # split_lf s
      else (case split_lf s of [] \<Rightarrow> [[c]] | l # ls \<Rightarrow> (c # l) # ls))"

lemma split_lf_ne [simp]: "split_lf s \<noteq> []"
  by (induction s) (auto split: list.splits)

definition blank :: "string list \<Rightarrow> nat \<Rightarrow> screen" where
  "blank upper m = \<lparr>sn_above = upper, sn_row = [], sn_below = replicate m []\<rparr>"

text \<open>What a text leaves on the screen below the rows \<open>upper\<close>.\<close>

definition shown :: "string list \<Rightarrow> string \<Rightarrow> nat \<Rightarrow> screen" where
  "shown upper s m = \<lparr>sn_above = upper @ butlast (split_lf s), sn_row = last (split_lf s),
     sn_below = replicate (m - count_list s (CHR 0x0A)) []\<rparr>"

lemma split_lf_append:
  "split_lf (a @ b) = butlast (split_lf a) @ (last (split_lf a) @ hd (split_lf b)) # tl (split_lf b)"
proof (induction a)
  case (Cons c a)
  obtain l ls where "split_lf a = l # ls"
    using split_lf_ne by (meson list.exhaust)
  with Cons show ?case
    by (cases ls) auto
qed simp

lemma screen_put_shown: "screen_put c (shown upper s m) = shown upper (s @ [c]) m"
proof -
  have "split_lf (s @ [c]) = (if c = CHR 0x0A then split_lf s @ [[]]
      else butlast (split_lf s) @ [last (split_lf s) @ [c]])"
    by (simp add: split_lf_append)
  then show ?thesis
    by (cases "m - count_list s (CHR 0x0A)") (auto simp: shown_def Suc_diff_Suc)
qed

lemma fold_screen_put: "fold screen_put b (shown upper s m) = shown upper (s @ b) m"
  by (induction b arbitrary: s) (simp_all add: screen_put_shown del: screen_put.simps)

lemma shown_Nil: "shown upper [] m = blank upper m"
  by (simp add: shown_def blank_def)

lemma length_split_lf: "length (split_lf s) = Suc (count_list s (CHR 0x0A))"
  by (induction s) (auto split: list.split)

definition plain_text :: "string \<Rightarrow> bool" where
  "plain_text s \<longleftrightarrow> s \<noteq> clear_line \<and> s \<noteq> move_up_clear"

lemma screen_write_plain:
  "plain_text b \<Longrightarrow> snd (screen_write b (shown upper s m)) = shown upper (s @ b) m"
  by (simp add: screen_write_def plain_text_def fold_screen_put)

lemma clear_line_neq: "move_up_clear \<noteq> clear_line"
  by (simp add: move_up_clear_def clear_line_def)

lemma clear_lines_screen:
  "k \<le> length rows \<Longrightarrow>
   clear_lines screen_write k \<lparr>sn_above = upper @ rows, sn_row = [], sn_below = replicate m []\<rparr> =
     (None, \<lparr>sn_above = upper @ take (length rows - k) rows, sn_row = [], sn_below = replicate (k + m) []\<rparr>)"
proof (induction k arbitrary: rows m)
  case (Suc k)
  then have "rows \<noteq> []"
    by auto
  then have up: "screen_write move_up_clear \<lparr>sn_above = upper @ rows, sn_row = [], sn_below = replicate m []\<rparr> =
      ((int (length move_up_clear), None),
       \<lparr>sn_above = upper @ butlast rows, sn_row = [], sn_below = replicate (Suc m) []\<rparr>)"
    by (simp add: screen_write_def clear_line_neq butlast_append)
  have "take (length (butlast rows) - k) (butlast rows) = take (length rows - Suc k) rows"
    by (simp add: butlast_conv_take)
  then show ?case
    using Suc.IH [of "butlast rows" "Suc m"] Suc.prems by (simp add: up)
qed simp

lemma ansi_clear_shown:
  "\<exists>m'. ansi_clear screen_write (count_list s (CHR 0x0A)) (shown upper s m) = (None, blank upper m')"
proof -
  have "snd (screen_write clear_line (shown upper s m)) =
      \<lparr>sn_above = upper @ butlast (split_lf s), sn_row = [],
       sn_below = replicate (m - count_list s (CHR 0x0A)) []\<rparr>"
    by (simp add: screen_write_def shown_def)
  then show ?thesis
    using clear_lines_screen [of "count_list s (CHR 0x0A)" "butlast (split_lf s)"]
    by (auto simp: ansi_clear_def screen_write_def length_split_lf blank_def)
qed

text \<open>The writes of a frame, then \<open>Flush\<close>.\<close>

definition ansi_frame :: "'w text_writer \<Rightarrow> string list \<Rightarrow> ansi_writer \<times> 'w \<Rightarrow> ansi_writer \<times> 'w" where
  "ansi_frame wr bs st =
     (case fold (\<lambda>b st. snd (ansi_write wr b st)) bs st of (aw, w) \<Rightarrow> (ansi_flush aw, w))"

lemma ansi_writes_more:
  assumes "\<forall>b \<in> set bs. plain_text b"
  shows "fold (\<lambda>b st. snd (ansi_write screen_write b st)) bs
      (\<lparr>aw_nlines = count_list s (CHR 0x0A), aw_flushed = False\<rparr>, shown upper s m) =
    (\<lparr>aw_nlines = count_list (s @ concat bs) (CHR 0x0A), aw_flushed = False\<rparr>, shown upper (s @ concat bs) m)"
  using assms
proof (induction bs arbitrary: s)
  case (Cons b bs)
  have "snd (ansi_write screen_write b
      (\<lparr>aw_nlines = count_list s (CHR 0x0A), aw_flushed = False\<rparr>, shown upper s m)) =
      (\<lparr>aw_nlines = count_list (s @ b) (CHR 0x0A), aw_flushed = False\<rparr>, shown upper (s @ b) m)"
    using Cons.prems screen_write_plain [of b upper s m]
    by (cases "screen_write b (shown upper s m)") (auto simp: ansi_write_def)
  then show ?case
    using Cons.IH [of "s @ b"] Cons.prems by simp
qed simp

text \<open>A frame, over the frame before it or over nothing.\<close>

definition frame_base :: "string list \<Rightarrow> ansi_writer \<times> screen \<Rightarrow> bool" where
  "frame_base upper st \<longleftrightarrow>
     (\<exists>m. st = (new_ansi_writer, blank upper m)) \<or>
     (\<exists>s m. st = (\<lparr>aw_nlines = count_list s (CHR 0x0A), aw_flushed = True\<rparr>, shown upper s m))"

lemma ansi_frame_shown:
  assumes "frame_base upper st" and "bs \<noteq> []" and "\<forall>b \<in> set bs. plain_text b"
  shows "\<exists>m. ansi_frame screen_write bs st =
    (\<lparr>aw_nlines = count_list (concat bs) (CHR 0x0A), aw_flushed = True\<rparr>, shown upper (concat bs) m)"
proof -
  obtain b bs' where bs: "bs = b # bs'"
    using assms(2) by (cases bs) auto
  have "\<exists>m. snd (ansi_write screen_write b st) =
      (\<lparr>aw_nlines = count_list b (CHR 0x0A), aw_flushed = False\<rparr>, shown upper b m)"
    using assms(1) unfolding frame_base_def
  proof (elim disjE exE)
    fix m
    assume "st = (new_ansi_writer, blank upper m)"
    then show ?thesis
      using assms(3) screen_write_plain [of b upper "[]" m]
      by (auto simp: ansi_write_def new_ansi_writer_def bs shown_Nil split: prod.split)
  next
    fix s m
    assume st: "st = (\<lparr>aw_nlines = count_list s (CHR 0x0A), aw_flushed = True\<rparr>, shown upper s m)"
    obtain m' where "ansi_clear screen_write (count_list s (CHR 0x0A)) (shown upper s m) = (None, blank upper m')"
      using ansi_clear_shown by blast
    then show ?thesis
      using assms(3) screen_write_plain [of b upper "[]" m']
      by (auto simp: ansi_write_def bs shown_Nil st split: prod.split)
  qed
  then obtain m where "snd (ansi_write screen_write b st) =
      (\<lparr>aw_nlines = count_list b (CHR 0x0A), aw_flushed = False\<rparr>, shown upper b m)" ..
  then show ?thesis
    using ansi_writes_more [of bs' b upper m] assms(3)
    by (intro exI [of _ m]) (simp add: ansi_frame_def bs ansi_flush_def)
qed

lemma ansi_frames_shown:
  assumes "frame_base upper st" and "\<forall>bs \<in> set (frames @ [bs]). bs \<noteq> [] \<and> (\<forall>b \<in> set bs. plain_text b)"
  shows "\<exists>m. fold (ansi_frame screen_write) (frames @ [bs]) st =
    (\<lparr>aw_nlines = count_list (concat bs) (CHR 0x0A), aw_flushed = True\<rparr>, shown upper (concat bs) m)"
  using assms
proof (induction frames arbitrary: st)
  case Nil
  then show ?case
    using ansi_frame_shown [of upper st bs] by simp
next
  case (Cons f frames)
  obtain m where "ansi_frame screen_write f st =
      (\<lparr>aw_nlines = count_list (concat f) (CHR 0x0A), aw_flushed = True\<rparr>, shown upper (concat f) m)"
    using ansi_frame_shown [OF Cons.prems(1), of f] Cons.prems(2) by auto
  then have "frame_base upper (ansi_frame screen_write f st)"
    by (auto simp: frame_base_def)
  then show ?case
    using Cons.IH Cons.prems(2) by simp
qed

section \<open>Properties\<close>

text \<open>
  C33: after any frames, each written in one or more pieces and flushed, the screen shows the rows
  that were upper the first and the last frame, and nothing of those in between.
\<close>

theorem ansi_shows_last:
  assumes "\<forall>bs \<in> set (frames @ [bs]). bs \<noteq> [] \<and> (\<forall>b \<in> set bs. plain_text b)"
  shows "\<exists>m aw. fold (ansi_frame screen_write) (frames @ [bs]) (new_ansi_writer, blank upper 0) =
    (aw, shown upper (concat bs) m)"
proof -
  have "frame_base upper (new_ansi_writer, blank upper 0)"
    unfolding frame_base_def by blast
  from ansi_frames_shown [OF this assms] show ?thesis
    by blast
qed

theorem ansi_shows_last_witness:
  "\<exists>t. snd (fold (ansi_frame screen_write)
      ([[''ab'', [CHR 0x0A], ''c'', [CHR 0x0A]]] @ [[''d'', [CHR 0x0A]]]) (new_ansi_writer, blank [''$''] 0)) = t \<and>
    sn_above t = [''$'', ''d''] \<and> sn_row t = []"
proof -
  have "\<forall>bs \<in> set ([[''ab'', [CHR 0x0A], ''c'', [CHR 0x0A]]] @ [[''d'', [CHR 0x0A]]]).
      bs \<noteq> [] \<and> (\<forall>b \<in> set bs. plain_text b)"
    by (simp add: plain_text_def clear_line_def move_up_clear_def)
  from ansi_shows_last [OF this, of "[''$'']"] show ?thesis
    by (auto simp: shown_def)
qed

end
