(* ===== verification/Ticker.thy ===== *)
theory Ticker
  imports Ansi_Refresh
begin

text \<open>
  \<^verbatim>\<open>ansirefresh/ticker.go\<close>: the goroutine that writes a frame when it starts, at every tick of
  a timer, and a last one when it is stopped. Its steps, those of the timer, of the callers of
  \<open>Stop\<close> and of whoever changes what is shown come in any order.
\<close>

section \<open>The writes of a frame\<close>

text \<open>An \<open>io.WriterTo\<close> that writes pieces until an error, as \<open>Statsd.WriteTo\<close> does.\<close>

fun write_pieces :: "'w text_writer \<Rightarrow> string list \<Rightarrow> 'w \<Rightarrow> err option \<times> 'w" where
  "write_pieces wr [] w = (None, w)"
| "write_pieces wr (b # bs) w =
     (case wr b w of
        ((_, Some e), w') \<Rightarrow> (Some e, w')
      | ((_, None), w') \<Rightarrow> write_pieces wr bs w')"

definition write_flush ::
  "(ansi_writer \<times> 'w \<Rightarrow> err option \<times> ansi_writer \<times> 'w) \<Rightarrow> ansi_writer \<times> 'w \<Rightarrow>
   err option \<times> ansi_writer \<times> 'w" where
  "write_flush write_to st =
     (case write_to st of
        (Some e, st') \<Rightarrow> (Some e, st')
      | (None, (aw, w)) \<Rightarrow> (None, (ansi_flush aw, w)))"

text \<open>The function of \<open>NewWriteTicker\<close>: \<open>report\<close> prints an error.\<close>

definition tick_write ::
  "(err \<Rightarrow> 'w \<Rightarrow> 'w) \<Rightarrow> ('e \<Rightarrow> ansi_writer \<times> 'w \<Rightarrow> err option \<times> ansi_writer \<times> 'w) \<Rightarrow>
   'e \<Rightarrow> ansi_writer \<times> 'w \<Rightarrow> ansi_writer \<times> 'w" where
  "tick_write report write_to env st =
     (case write_flush (write_to env) st of
        (Some e, (aw, w)) \<Rightarrow> (aw, report e w)
      | (None, st') \<Rightarrow> st')"

section \<open>The goroutine\<close>

text \<open>
  Where the goroutine is, whether the timer's channel (of one slot) holds a tick, whether \<open>stop\<close>
  is closed, what the function reads and what it writes to. \<open>done\<close> is closed once the goroutine
  has returned.
\<close>

datatype tick_phase = Starting | Selecting | Stopped

record ('e, 'w) ticker =
  tk_phase :: tick_phase
  tk_tick :: bool
  tk_stop :: bool
  tk_env :: 'e
  tk_world :: 'w

definition new_ticker :: "'e \<Rightarrow> 'w \<Rightarrow> ('e, 'w) ticker" where
  "new_ticker env w =
     \<lparr>tk_phase = Starting, tk_tick = False, tk_stop = False, tk_env = env, tk_world = w\<rparr>"

definition tick_call :: "('e \<Rightarrow> 'w \<Rightarrow> 'w) \<Rightarrow> ('e, 'w) ticker \<Rightarrow> 'w" where
  "tick_call fn s = fn (tk_env s) (tk_world s)"

inductive go_step :: "('e \<Rightarrow> 'w \<Rightarrow> 'w) \<Rightarrow> ('e, 'w) ticker \<Rightarrow> ('e, 'w) ticker \<Rightarrow> bool" for fn where
  go_first: "tk_phase s = Starting \<Longrightarrow>
    go_step fn s (s\<lparr>tk_phase := Selecting, tk_world := tick_call fn s\<rparr>)"
| go_tick: "tk_phase s = Selecting \<Longrightarrow> tk_tick s \<Longrightarrow>
    go_step fn s (s\<lparr>tk_tick := False, tk_world := tick_call fn s\<rparr>)"
| go_stop: "tk_phase s = Selecting \<Longrightarrow> tk_stop s \<Longrightarrow>
    go_step fn s (s\<lparr>tk_phase := Stopped, tk_world := tick_call fn s\<rparr>)"

inductive tick_step :: "('e \<Rightarrow> 'w \<Rightarrow> 'w) \<Rightarrow> ('e, 'w) ticker \<Rightarrow> ('e, 'w) ticker \<Rightarrow> bool" for fn where
  goroutine: "go_step fn s s' \<Longrightarrow> tick_step fn s s'"
| timer: "tick_step fn s (s\<lparr>tk_tick := True\<rparr>)"
| close_stop: "tick_step fn s (s\<lparr>tk_stop := True\<rparr>)"
| change: "tick_step fn s (s\<lparr>tk_env := e\<rparr>)"

text \<open>\<open>Stop\<close> closes \<open>stop\<close> once, whoever calls it, and returns when \<open>done\<close> is closed.\<close>

definition ticker_stop :: "('e, 'w) ticker \<Rightarrow> ('e, 'w) ticker" where
  "ticker_stop s = s\<lparr>tk_stop := True\<rparr>"

definition stop_returns :: "('e, 'w) ticker \<Rightarrow> bool" where
  "stop_returns s \<longleftrightarrow> tk_stop s \<and> tk_phase s = Stopped"

inductive_cases go_stepE: "go_step fn s s'"

lemma stopped_stays: "\<not> go_step fn s s'" if "tk_phase s = Stopped"
  using that by (auto elim: go_stepE)

section \<open>The last frame\<close>

text \<open>
  The goroutine returns by a last call of the function. Seen from a state in which \<open>stop\<close> is
  closed and the goroutine runs, that call is still to come.
\<close>

lemma stopped_by_call:
  assumes "(tick_step fn)\<^sup>*\<^sup>* s0 s" and "tk_phase s0 \<noteq> Stopped" and "tk_phase s = Stopped"
  shows "\<exists>s1. (tick_step fn)\<^sup>*\<^sup>* s0 s1 \<and> (tick_step fn)\<^sup>*\<^sup>* s1 s \<and> tk_world s = tick_call fn s1"
  using assms(1,3)
proof (induction rule: rtranclp_induct)
  case base
  with assms(2) show ?case by simp
next
  case (step s s')
  show ?case
  proof (cases "tk_phase s = Stopped")
    case True
    from step.hyps(2) True have same: "tk_world s' = tk_world s"
      using stopped_stays [OF True] by (auto elim: tick_step.cases)
    from step.IH [OF True] obtain s1 where s1: "(tick_step fn)\<^sup>*\<^sup>* s0 s1" "(tick_step fn)\<^sup>*\<^sup>* s1 s"
      "tk_world s = tick_call fn s1" by blast
    with same step.hyps(2) show ?thesis
      by (metis rtranclp.rtrancl_into_rtrancl)
  next
    case False
    with step.prems step.hyps(2) have "tk_world s' = tick_call fn s"
      by (auto elim!: tick_step.cases go_stepE)
    with step.hyps show ?thesis
      by (metis r_into_rtranclp)
  qed
qed

text \<open>What every call keeps of what is written to.\<close>

lemma world_kept:
  assumes "(tick_step fn)\<^sup>*\<^sup>* s0 s" and "\<And>e w. good w \<Longrightarrow> good (fn e w)" and "good (tk_world s0)"
  shows "good (tk_world s)"
  using assms(1,3)
proof (induction rule: rtranclp_induct)
  case (step s s')
  then show ?case
    by (auto elim!: tick_step.cases go_stepE simp: tick_call_def assms(2))
qed

section \<open>Frames on a screen\<close>

definition frame_to ::
  "('e \<Rightarrow> string list) \<Rightarrow> 'e \<Rightarrow> ansi_writer \<times> screen \<Rightarrow> err option \<times> ansi_writer \<times> screen" where
  "frame_to show_env env = write_pieces (ansi_write screen_write) (show_env env)"

lemma screen_write_ok: "\<exists>n t'. screen_write s t = ((n, None), t')"
  by (simp add: screen_write_def)

lemma ansi_write_screen_ok: "\<exists>n st'. ansi_write screen_write b st = ((n, None), st')"
proof -
  have clear: "fst (clear_lines screen_write n t) = None" for n t
  proof (induction n arbitrary: t)
    case (Suc n)
    obtain k t' where "screen_write move_up_clear t = ((k, None), t')"
      using screen_write_ok by blast
    with Suc show ?case by simp
  qed simp
  have "fst (ansi_clear screen_write n t) = None" for n t
    using clear screen_write_ok [of clear_line t] by (auto simp: ansi_clear_def)
  then obtain t where "(if aw_flushed (fst st) then ansi_clear screen_write (aw_nlines (fst st)) (snd st)
      else (None, snd st)) = (None, t)"
    by (metis prod.collapse)
  moreover obtain n t' where "screen_write b t = ((n, None), t')"
    using screen_write_ok by blast
  ultimately show ?thesis
    by (simp add: ansi_write_def case_prod_unfold Let_def)
qed

lemma write_pieces_screen:
  "write_pieces (ansi_write screen_write) bs st =
     (None, fold (\<lambda>b st. snd (ansi_write screen_write b st)) bs st)"
proof (induction bs arbitrary: st)
  case (Cons b bs)
  obtain n st' where "ansi_write screen_write b st = ((n, None), st')"
    using ansi_write_screen_ok by blast
  with Cons show ?case by simp
qed simp

lemma tick_write_frame:
  "tick_write report (frame_to show_env) env st = ansi_frame screen_write (show_env env) st"
  by (simp add: tick_write_def write_flush_def frame_to_def write_pieces_screen ansi_frame_def split: prod.split)

section \<open>Properties\<close>

text \<open>
  C38: once \<open>Stop\<close> has returned, the screen shows, under the rows that were there before, exactly
  one frame, and that frame shows what there was to show at some moment after \<open>Stop\<close> was called
  and before it returned: nothing counted before \<open>Stop\<close> is missing from it.
\<close>

theorem ticker_last_frame:
  assumes pieces: "\<And>e. show_env e \<noteq> [] \<and> (\<forall>b \<in> set (show_env e). plain_text b)"
    and fn: "fn = tick_write report (frame_to show_env)"
    and start: "(tick_step fn)\<^sup>*\<^sup>* (new_ticker e (new_ansi_writer, blank upper 0)) s0"
    and stop: "tk_phase s0 \<noteq> Stopped" "(tick_step fn)\<^sup>*\<^sup>* (ticker_stop s0) s" "stop_returns s"
  shows "\<exists>s1 aw m. (tick_step fn)\<^sup>*\<^sup>* (ticker_stop s0) s1 \<and> (tick_step fn)\<^sup>*\<^sup>* s1 s \<and>
    tk_world s = (aw, shown upper (concat (show_env (tk_env s1))) m)"
proof -
  have frame: "frame_base upper (fn e w)" if "frame_base upper w" for e w
    using ansi_frame_shown [OF that, of "show_env e"] pieces [of e]
    unfolding fn tick_write_frame frame_base_def by blast
  have kept: "frame_base upper (tk_world t')"
    if "(tick_step fn)\<^sup>*\<^sup>* t t'" "frame_base upper (tk_world t)" for t t'
    using world_kept [OF that(1), of "frame_base upper"] frame that(2) by blast
  have "frame_base upper (new_ansi_writer, blank upper 0)"
    unfolding frame_base_def by blast
  then have "frame_base upper (tk_world (ticker_stop s0))"
    using kept [OF start] by (simp add: new_ticker_def ticker_stop_def)
  have "tk_phase (ticker_stop s0) \<noteq> Stopped" "tk_phase s = Stopped"
    using stop(1,3) by (simp_all add: ticker_stop_def stop_returns_def)
  from stopped_by_call [OF stop(2) this] obtain s1 where s1:
    "(tick_step fn)\<^sup>*\<^sup>* (ticker_stop s0) s1" "(tick_step fn)\<^sup>*\<^sup>* s1 s" "tk_world s = tick_call fn s1"
    by blast
  from ansi_frame_shown [OF kept [OF s1(1) \<open>frame_base upper (tk_world (ticker_stop s0))\<close>], of "show_env (tk_env s1)"] pieces [of "tk_env s1"] s1 show ?thesis
    by (auto simp: tick_call_def fn tick_write_frame)
qed

text \<open>A counter shown as a line of as many characters.\<close>

definition ex_show :: "nat \<Rightarrow> string list" where
  "ex_show n = [replicate n CHR ''x'', [CHR 0x0A]]"

definition ex_fn :: "nat \<Rightarrow> ansi_writer \<times> screen \<Rightarrow> ansi_writer \<times> screen" where
  "ex_fn = tick_write (\<lambda>_ t. t) (frame_to ex_show)"

lemma ticker_last_frame_witness:
  "\<exists>s1 s aw m. (tick_step ex_fn)\<^sup>*\<^sup>* s1 s \<and> stop_returns s \<and>
    tk_world s = (aw, shown [''$''] (concat (ex_show (tk_env s1))) m)"
proof -
  let ?u = "new_ticker 2 (new_ansi_writer, blank [''$''] 0)"
  let ?s1 = "(ticker_stop ?u)\<lparr>tk_phase := Selecting, tk_world := tick_call ex_fn (ticker_stop ?u)\<rparr>"
  let ?s2 = "?s1\<lparr>tk_env := 3\<rparr>"
  let ?t = "?s2\<lparr>tk_phase := Stopped, tk_world := tick_call ex_fn ?s2\<rparr>"
  have first: "tick_step ex_fn (ticker_stop ?u) ?s1"
    by (rule goroutine [OF go_first]) (simp add: ticker_stop_def new_ticker_def)
  have second: "tick_step ex_fn ?s1 ?s2"
    by (rule change)
  have third: "tick_step ex_fn ?s2 ?t"
    by (rule goroutine [OF go_stop]) (simp_all add: ticker_stop_def)
  have run: "(tick_step ex_fn)\<^sup>*\<^sup>* (ticker_stop ?u) ?t"
    by (rule converse_rtranclp_into_rtranclp [of "tick_step ex_fn", OF first],
        rule converse_rtranclp_into_rtranclp [of "tick_step ex_fn", OF second],
        rule r_into_rtranclp [of "tick_step ex_fn", OF third])
  have pieces: "ex_show e \<noteq> [] \<and> (\<forall>b \<in> set (ex_show e). plain_text b)" for e
    by (cases e) (auto simp: ex_show_def plain_text_def clear_line_def move_up_clear_def)
  have phase: "tk_phase ?u \<noteq> Stopped" and stopped: "stop_returns ?t"
    by (simp_all add: new_ticker_def stop_returns_def ticker_stop_def)
  from ticker_last_frame [OF pieces ex_fn_def rtranclp.rtrancl_refl phase run stopped] stopped
  show ?thesis by blast
qed

end
