(* ===== verification/Commands.thy ===== *)
theory Commands
  imports Chain
begin

text \<open>
  \<^verbatim>\<open>procs/cmdfunc.go\<close>: procs that run a command for each chunk, with the chunk's data on its
  standard input, its standard output as the new data, or both. What a command does is a
  parameter.
\<close>

section \<open>Commands\<close>

text \<open>\<open>exec.Cmd\<close>: the environment is that of the program if there is none.\<close>

record exec_cmd =
  ec_name :: string
  ec_args :: "string list"
  ec_env :: "string list option"
  ec_stdin :: "(bytes \<times> err option) option"

definition exec_command :: "string \<Rightarrow> string list \<Rightarrow> exec_cmd" where
  "exec_command name args = \<lparr>ec_name = name, ec_args = args, ec_env = None, ec_stdin = None\<rparr>"

text \<open>
  How a command ends otherwise than well: it is not started, it exits with another status than 0,
  or its input or output fails. A runner gives what it wrote to standard output and standard
  error, and how it ended.
\<close>

datatype run_stop = NotStarted err | ExitStatus | CopyFailed err

type_synonym 'w runner = "exec_cmd \<Rightarrow> 'w \<Rightarrow> (bytes \<times> string \<times> run_stop option) \<times> 'w"

text \<open>The error of \<open>Run\<close>, with standard error put in an \<open>ExitError\<close> by \<open>runCaptureStderr\<close>.\<close>

definition stop_err :: "string \<Rightarrow> run_stop option \<Rightarrow> err option" where
  "stop_err serr stop =
     (case stop of
        None \<Rightarrow> None
      | Some ExitStatus \<Rightarrow> Some (ExitError serr)
      | Some (NotStarted e) \<Rightarrow> Some e
      | Some (CopyFailed e) \<Rightarrow> Some e)"

definition run_capture_stderr :: "'w runner \<Rightarrow> exec_cmd \<Rightarrow> 'w \<Rightarrow> (bytes \<times> err option) \<times> 'w" where
  "run_capture_stderr run cmd w =
     (case run cmd w of ((out, serr, stop), w') \<Rightarrow> ((out, stop_err serr stop), w'))"

section \<open>Procs\<close>

text \<open>What makes the command of a chunk.\<close>

type_synonym cmd_fn = "chunk \<Rightarrow> (err + exec_cmd) outcome"

definition cmd_in_process :: "'w runner \<Rightarrow> cmd_fn \<Rightarrow> 'w chunk_fn" where
  "cmd_in_process run fn c w =
     bind_outcome (fn c) (\<lambda>r.
       case r of
         Inl e \<Rightarrow> Ret ((Some e, c), w)
       | Inr cmd \<Rightarrow>
           bind_outcome (data_reader (chunk_data c)) (\<lambda>(rd, d).
             case run_capture_stderr run (cmd\<lparr>ec_stdin := Some rd\<rparr>) w of
               ((_, e), w') \<Rightarrow> Ret ((e, mark_read d c), w')))"

text \<open>With an error, \<open>ChunkFunc\<close> sends the chunk it was given.\<close>

definition cmd_out_process :: "'w runner \<Rightarrow> cmd_fn \<Rightarrow> 'w chunk_fn" where
  "cmd_out_process run fn c w =
     bind_outcome (fn c) (\<lambda>r.
       case r of
         Inl e \<Rightarrow> Ret ((Some e, c), w)
       | Inr cmd \<Rightarrow>
           (case run_capture_stderr run cmd w of
              ((out, Some e), w') \<Rightarrow> Ret ((Some e, c), w')
            | ((out, None), w') \<Rightarrow> Ret ((None, with_data (BytesData out) c), w')))"

definition cmd_process :: "'w runner \<Rightarrow> cmd_fn \<Rightarrow> 'w chunk_fn" where
  "cmd_process run fn c w =
     bind_outcome (fn c) (\<lambda>r.
       case r of
         Inl e \<Rightarrow> Ret ((Some e, c), w)
       | Inr cmd \<Rightarrow>
           bind_outcome (data_reader (chunk_data c)) (\<lambda>(rd, d).
             cmd_out_process run (\<lambda>_. Ret (Inr (cmd\<lparr>ec_stdin := Some rd\<rparr>))) (mark_read d c) w))"

text \<open>\<open>Filter\<close> around a proc that may panic.\<close>

definition filter_res :: "(res \<Rightarrow> res) \<Rightarrow> 'st oprocess \<Rightarrow> 'st oprocess" where
  "filter_res f p c st = bind_outcome (p c st) (\<lambda>(rs, st'). Ret (map f rs, st'))"

section \<open>Words in a message\<close>

text \<open>
  The pattern \<open>\b(?i:words)\b\<close>, where \<open>words\<close> begins and ends with letters, over ASCII text: a
  copy of the words in any case with no letter, digit or underscore right before or after it.
\<close>

definition word_char :: "char \<Rightarrow> bool" where
  "word_char c \<longleftrightarrow> (let n = of_char c :: nat in
     (48 \<le> n \<and> n \<le> 57) \<or> (65 \<le> n \<and> n \<le> 90) \<or> n = 95 \<or> (97 \<le> n \<and> n \<le> 122))"

definition lower_char :: "char \<Rightarrow> char" where
  "lower_char c = (let n = of_char c :: nat in if 65 \<le> n \<and> n \<le> 90 then char_of (n + 32) else c)"

definition words_here :: "char option \<Rightarrow> string \<Rightarrow> string \<Rightarrow> bool" where
  "words_here prev words s \<longleftrightarrow>
     map lower_char (take (length words) s) = words \<and>
     (case prev of None \<Rightarrow> True | Some c \<Rightarrow> \<not> word_char c) \<and>
     (case drop (length words) s of [] \<Rightarrow> True | c # _ \<Rightarrow> \<not> word_char c)"

fun has_words :: "char option \<Rightarrow> string \<Rightarrow> string \<Rightarrow> bool" where
  "has_words prev words [] = words_here prev words []"
| "has_words prev words (c # cs) = (words_here prev words (c # cs) \<or> has_words (Some c) words cs)"

lemma has_words_here:
  assumes "pre = [] \<or> \<not> word_char (last pre)" and "map lower_char mid = words"
    and "post = [] \<or> \<not> word_char (hd post)" and "pre = [] \<Longrightarrow> prev = None \<or> \<not> word_char (the prev)"
  shows "has_words prev words (pre @ mid @ post)"
  using assms(1,4)
proof (induction pre arbitrary: prev)
  case Nil
  then have "words_here prev words (mid @ post)"
    using assms(2,3) by (auto simp: words_here_def split: option.split list.split)
  then show ?case
    by (cases "mid @ post") simp_all
next
  case (Cons c pre)
  then have "has_words (Some c) words (pre @ mid @ post)"
    by (intro Cons.IH) (auto split: if_splits)
  then show ?case
    by simp
qed

end
