(* ===== verification/Temp_Files.thy ===== *)
theory Temp_Files
  imports Commands Dir_Store
begin

text \<open>
  \<^verbatim>\<open>tmpdedup/\<close> and \<^verbatim>\<open>procs/pathcmd.go\<close>: temporary files shared by the calls that want the
  same path. The first call creates the file, each call is counted in the file's wait group, and a
  goroutine removes the file when the count is back at zero. The steps of the callers and of the
  goroutines interleave; \<open>Get\<close> and \<open>remove\<close> hold the lock and are one step each.
\<close>

section \<open>The manager\<close>

text \<open>
  The goroutine of a wait group: before it calls \<open>Wait\<close>, blocked there, released by the last
  \<open>Done\<close> but not running yet, past \<open>Wait\<close> and about to remove the file, done.
\<close>

datatype cleaner = Starting | Waits | Woken | Removes | Gone

text \<open>
  \<open>tm_created\<close> maps a path to its wait group, a number; \<open>tm_counts\<close> and \<open>tm_cleaners\<close> are the
  counter, the path and the goroutine of each wait group ever made, \<open>tm_running\<close> the counter of
  \<open>man.wg\<close>, \<open>tm_files\<close> the files.
\<close>

record tmp_man =
  tm_created :: "(string \<times> nat) list"
  tm_counts :: "nat list"
  tm_cleaners :: "(string \<times> cleaner) list"
  tm_running :: nat
  tm_files :: "(string \<times> bytes) list"

definition new_tmp_man :: "(string \<times> bytes) list \<Rightarrow> tmp_man" where
  "new_tmp_man files =
     \<lparr>tm_created = [], tm_counts = [], tm_cleaners = [], tm_running = 0, tm_files = files\<rparr>"

type_synonym create_fn = "(string \<times> bytes) list \<Rightarrow> err option \<times> (string \<times> bytes) list"

text \<open>\<open>Get\<close>: the wait group, or the error of \<open>create\<close>.\<close>

definition man_get :: "string \<Rightarrow> create_fn \<Rightarrow> tmp_man \<Rightarrow> (err + nat) \<times> tmp_man" where
  "man_get path create st =
     (case map_of (tm_created st) path of
        Some i \<Rightarrow> (Inr i, st\<lparr>tm_counts := (tm_counts st)[i := tm_counts st ! i + 1]\<rparr>)
      | None \<Rightarrow>
          (case create (tm_files st) of
             (Some e, files) \<Rightarrow> (Inl e, st\<lparr>tm_files := files\<rparr>)
           | (None, files) \<Rightarrow>
               (Inr (length (tm_counts st)),
                st\<lparr>tm_files := files,
                   tm_counts := tm_counts st @ [1],
                   tm_running := tm_running st + 1,
                   tm_cleaners := tm_cleaners st @ [(path, Starting)],
                   tm_created := AList.update path (length (tm_counts st)) (tm_created st)\<rparr>)))"

definition set_cleaner :: "nat \<Rightarrow> cleaner \<Rightarrow> tmp_man \<Rightarrow> tmp_man" where
  "set_cleaner i ph st =
     st\<lparr>tm_cleaners := (tm_cleaners st)[i := (fst (tm_cleaners st ! i), ph)]\<rparr>"

text \<open>\<open>Done\<close> of a wait group; the last one releases a goroutine that waits.\<close>

definition tmp_done :: "nat \<Rightarrow> tmp_man \<Rightarrow> tmp_man outcome" where
  "tmp_done i st =
     (if tm_counts st ! i = 0 then Panic ''sync: negative WaitGroup counter''
      else
        (let st' = st\<lparr>tm_counts := (tm_counts st)[i := tm_counts st ! i - 1]\<rparr> in
         Ret (if tm_counts st ! i = 1 \<and> snd (tm_cleaners st ! i) = Waits
              then set_cleaner i Woken st' else st')))"

definition man_remove :: "string \<Rightarrow> tmp_man \<Rightarrow> err option \<times> tmp_man" where
  "man_remove path st =
     (if map_of (tm_created st) path = None then (Some (ErrText ''file not supposed to be created''), st)
      else if map_of (tm_files st) path = None then (Some (ErrText ''no such file''), st)
      else (None, st\<lparr>tm_files := AList.delete path (tm_files st),
                     tm_created := AList.delete path (tm_created st)\<rparr>))"

definition man_len :: "tmp_man \<Rightarrow> nat" where
  "man_len st = length (tm_created st)"

text \<open>
  A step of a goroutine. One that finds its released wait group in use again panics, as
  \<open>sync.WaitGroup\<close> is documented not to be reused before \<open>Wait\<close> has returned.
\<close>

definition cleaner_move :: "nat \<Rightarrow> tmp_man \<Rightarrow> tmp_man outcome" where
  "cleaner_move i st =
     (case snd (tm_cleaners st ! i) of
        Starting \<Rightarrow> Ret (set_cleaner i (if tm_counts st ! i = 0 then Removes else Waits) st)
      | Woken \<Rightarrow>
          if tm_counts st ! i \<noteq> 0 then Panic ''sync: WaitGroup is reused before previous Wait has returned''
          else Ret (set_cleaner i Removes st)
      | Removes \<Rightarrow>
          (case man_remove (fst (tm_cleaners st ! i)) st of
             (Some e, st') \<Rightarrow> Panic ''remove''
           | (None, st') \<Rightarrow> Ret ((set_cleaner i Gone st')\<lparr>tm_running := tm_running st' - 1\<rparr>))
      | _ \<Rightarrow> Ret st)"

definition cleaner_moves :: "nat \<Rightarrow> tmp_man \<Rightarrow> bool" where
  "cleaner_moves i st \<longleftrightarrow>
     i < length (tm_cleaners st) \<and> snd (tm_cleaners st ! i) \<in> {Starting, Woken, Removes}"

text \<open>
  What the manager expects of the functions that create a file: without an error the file is
  there, and no other file is touched.
\<close>

definition creates :: "string \<Rightarrow> create_fn \<Rightarrow> bool" where
  "creates path create \<longleftrightarrow>
     (\<forall>files e files'. create files = (e, files') \<longrightarrow>
        (e = None \<longrightarrow> map_of files' path \<noteq> None) \<and>
        (\<forall>p. p \<noteq> path \<longrightarrow> map_of files' p = map_of files p))"

inductive clean_step :: "tmp_man \<Rightarrow> tmp_man outcome \<Rightarrow> bool" where
  clean: "cleaner_moves i st \<Longrightarrow> clean_step st (cleaner_move i st)"

inductive tmp_step :: "tmp_man \<Rightarrow> tmp_man outcome \<Rightarrow> bool" where
  get: "creates path create \<Longrightarrow> man_get path create st = (r, st') \<Longrightarrow> tmp_step st (Ret st')"
| release: "i < length (tm_counts st) \<Longrightarrow> 0 < tm_counts st ! i \<Longrightarrow> tmp_step st (tmp_done i st)"
| cleaner: "clean_step st r \<Longrightarrow> tmp_step st r"

inductive tmp_reach :: "tmp_man \<Rightarrow> bool" where
  start: "tmp_reach (new_tmp_man files)"
| step: "tmp_reach st \<Longrightarrow> tmp_step st (Ret st') \<Longrightarrow> tmp_reach st'"

inductive_cases clean_stepE: "clean_step st r"

section \<open>The directory\<close>

record tmp_dir =
  td_path :: string
  td_man :: tmp_man
  td_deleted :: bool
  td_exists :: bool

definition temp_dir :: "string \<Rightarrow> (string \<times> bytes) list \<Rightarrow> tmp_dir" where
  "temp_dir path files =
     \<lparr>td_path = path, td_man = new_tmp_man files, td_deleted = False, td_exists = True\<rparr>"

definition tmp_dir_get :: "string \<Rightarrow> (string \<Rightarrow> create_fn) \<Rightarrow> tmp_dir \<Rightarrow> (string \<times> (err + nat)) \<times> tmp_dir" where
  "tmp_dir_get name create td =
     (let path = path_join [td_path td, name] in
      case man_get path (create path) (td_man td) of (r, m) \<Rightarrow> ((path, r), td\<lparr>td_man := m\<rparr>))"

text \<open>\<open>os.Remove\<close> of the directory: it must be there and hold no file.\<close>

definition below :: "string \<Rightarrow> string \<Rightarrow> bool" where
  "below d p \<longleftrightarrow> take (length d + 1) p = d @ ''/''"

definition tmp_dir_finish :: "tmp_dir \<Rightarrow> err option \<times> tmp_dir" where
  "tmp_dir_finish td =
     (if man_len (td_man td) > 0 then (Some (ErrText ''leftover files''), td)
      else if td_deleted td then (None, td)
      else if \<not> td_exists td then (Some (ErrText ''no such file''), td\<lparr>td_deleted := True\<rparr>)
      else if list_ex (\<lambda>(p, b). below (td_path td) p) (tm_files (td_man td))
        then (Some (ErrText ''directory not empty''), td\<lparr>td_deleted := True\<rparr>)
      else (None, td\<lparr>td_deleted := True, td_exists := False\<rparr>))"

section \<open>Commands over a temporary file\<close>

text \<open>
  \<open>pathCmdIn\<close>: the data of the chunk goes to the file of its hash, unless another call has it
  there, and the command gets the path. The command sees the files.
\<close>

type_synonym 'w path_runner = "(string \<Rightarrow> bytes option) \<Rightarrow> 'w runner"

text \<open>The function that creates the file, from what the chunk's reader delivers.\<close>

definition create_from :: "bytes \<times> err option \<Rightarrow> string \<Rightarrow> create_fn" where
  "create_from rd path files =
     (if map_of files path \<noteq> None then (Some (ErrText ''file exists''), files)
      else (snd rd, AList.update path (fst rd) files))"

text \<open>The reader is read only when the file is created.\<close>

definition path_get :: "chunk \<Rightarrow> tmp_dir \<Rightarrow> ((string \<times> (err + nat)) \<times> chunk \<times> tmp_dir) outcome" where
  "path_get c td =
     (let name = hex_string (chunk_hash c); path = path_join [td_path td, name] in
      if map_of (tm_created (td_man td)) path \<noteq> None \<or> map_of (tm_files (td_man td)) path \<noteq> None then
        (case tmp_dir_get name (create_from ([], None)) td of (r, td') \<Rightarrow> Ret (r, c, td'))
      else
        bind_outcome (data_reader (chunk_data c)) (\<lambda>(rd, d).
          case tmp_dir_get name (create_from rd) td of (r, td') \<Rightarrow> Ret (r, mark_read d c, td')))"

definition path_cmd_in ::
  "'w path_runner \<Rightarrow> (chunk \<Rightarrow> string \<Rightarrow> err + exec_cmd) \<Rightarrow> (tmp_dir \<times> 'w) chunk_fn" where
  "path_cmd_in run new_cmd c st =
     (case st of (td, w) \<Rightarrow>
        bind_outcome (path_get c td) (\<lambda>((path, r), c', td').
          case r of
            Inl e \<Rightarrow> Ret ((Some e, c'), (td', w))
          | Inr i \<Rightarrow>
              (case (case new_cmd c' path of
                       Inl e \<Rightarrow> (Some e, w)
                     | Inr cmd \<Rightarrow>
                         (case run (map_of (tm_files (td_man td'))) cmd w of
                            ((_, _, stop), w') \<Rightarrow> (stop_err [] stop, w'))) of
                 (e, w') \<Rightarrow>
                   bind_outcome (tmp_done i (td_man td')) (\<lambda>m.
                     Ret ((e, c'), (td'\<lparr>td_man := m\<rparr>, w'))))))"

section \<open>The invariant\<close>

lemma nth_update: "xs[i := x] ! j = (if i = j \<and> j < length xs then x else xs ! j)"
  by (cases "i < length xs") (auto simp: nth_list_update list_update_beyond)

text \<open>The wait group \<open>i\<close> is that of a file at \<open>p\<close>, not yet removed.\<close>

definition live :: "tmp_man \<Rightarrow> string \<Rightarrow> nat \<Rightarrow> bool" where
  "live st p i \<longleftrightarrow> i < length (tm_cleaners st) \<and> fst (tm_cleaners st ! i) = p \<and>
     snd (tm_cleaners st ! i) \<noteq> Gone"

definition waits_ok :: "tmp_man \<Rightarrow> bool" where
  "waits_ok st \<longleftrightarrow> (\<forall>i < length (tm_cleaners st). snd (tm_cleaners st ! i) = Waits \<longrightarrow> 0 < tm_counts st ! i)"

definition tmp_inv :: "tmp_man \<Rightarrow> bool" where
  "tmp_inv st \<longleftrightarrow>
     length (tm_cleaners st) = length (tm_counts st) \<and>
     distinct (map fst (tm_created st)) \<and>
     tm_running st = length (tm_created st) \<and>
     (\<forall>p i. map_of (tm_created st) p = Some i \<longleftrightarrow> live st p i) \<and>
     dom (map_of (tm_created st)) \<subseteq> dom (map_of (tm_files st)) \<and>
     waits_ok st"

lemma tmp_invD:
  assumes "tmp_inv st"
  shows "length (tm_cleaners st) = length (tm_counts st)" "distinct (map fst (tm_created st))"
    "tm_running st = length (tm_created st)"
    "map_of (tm_created st) p = Some i \<longleftrightarrow> live st p i"
    "dom (map_of (tm_created st)) \<subseteq> dom (map_of (tm_files st))" "waits_ok st"
  using assms unfolding tmp_inv_def by blast+

lemma tmp_invI:
  assumes "length (tm_cleaners st) = length (tm_counts st)" "distinct (map fst (tm_created st))"
    "tm_running st = length (tm_created st)"
    "\<And>p i. map_of (tm_created st) p = Some i \<longleftrightarrow> live st p i"
    "dom (map_of (tm_created st)) \<subseteq> dom (map_of (tm_files st))" "waits_ok st"
  shows "tmp_inv st"
  using assms unfolding tmp_inv_def by blast

lemma tmp_inv_new: "tmp_inv (new_tmp_man files)"
  by (rule tmp_invI) (simp_all add: new_tmp_man_def live_def waits_ok_def)

lemma length_update_fresh: "map_of xs k = None \<Longrightarrow> length (AList.update k v xs) = Suc (length xs)"
  by (induction xs) (auto split: if_splits)

lemma distinct_update: "distinct (map fst xs) \<Longrightarrow> distinct (map fst (AList.update k v xs))"
  by (rule distinct_update)

lemma length_delete_key:
  "distinct (map fst xs) \<Longrightarrow> map_of xs k \<noteq> None \<Longrightarrow> length (AList.delete k xs) = length xs - 1"
proof (induction xs)
  case (Cons x xs)
  show ?case
  proof (cases "fst x = k")
    case True
    then have "map_of xs k = None"
      using Cons.prems(1) by (auto simp: map_of_eq_None_iff)
    then have "AList.delete k xs = xs"
      by (simp add: delete_id map_of_eq_None_iff)
    with True show ?thesis
      by (cases x) (simp add: AList.delete_eq)
  next
    case False
    moreover from False Cons.prems have "map_of xs k \<noteq> None" "distinct (map fst xs)"
      by (cases x; simp)+
    moreover from this have "xs \<noteq> []" by auto
    ultimately show ?thesis
      using Cons.IH by (cases x) (simp add: AList.delete_eq)
  qed
qed simp

lemma man_get_inv:
  assumes "tmp_inv st" and "creates path create" and "man_get path create st = (r, st')"
  shows "tmp_inv st'"
proof (cases "map_of (tm_created st) path")
  case (Some i)
  then have st': "st' = st\<lparr>tm_counts := (tm_counts st)[i := tm_counts st ! i + 1]\<rparr>"
    using assms(3) by (simp add: man_get_def)
  have "live st' = live st"
    by (simp add: st' live_def fun_eq_iff)
  with tmp_invD [OF assms(1)] show ?thesis
    by (intro tmp_invI) (auto simp: st' waits_ok_def nth_update)
next
  case None
  obtain e files where c: "create (tm_files st) = (e, files)"
    by fastforce
  have files: "e = None \<Longrightarrow> map_of files path \<noteq> None" "p \<noteq> path \<Longrightarrow> map_of files p = map_of (tm_files st) p" for p
    using assms(2) c unfolding creates_def by blast+
  have kept: "dom (map_of (tm_created st)) \<subseteq> dom (map_of files)"
  proof
    fix p
    assume p: "p \<in> dom (map_of (tm_created st))"
    then have "p \<noteq> path"
      using None by auto
    moreover have "p \<in> dom (map_of (tm_files st))"
      using p tmp_invD(5) [OF assms(1)] by blast
    ultimately show "p \<in> dom (map_of files)"
      using files(2) by (simp add: dom_def)
  qed
  show ?thesis
  proof (cases e)
    case (Some x)
    then have st': "st' = st\<lparr>tm_files := files\<rparr>"
      using assms(3) None c by (simp add: man_get_def)
    have "live st' = live st"
      by (simp add: st' live_def fun_eq_iff)
    with tmp_invD [OF assms(1)] kept show ?thesis
      by (intro tmp_invI) (simp_all add: st' waits_ok_def)
  next
    case e: None
    then have st': "st' = st\<lparr>tm_files := files, tm_counts := tm_counts st @ [1],
        tm_running := tm_running st + 1, tm_cleaners := tm_cleaners st @ [(path, Starting)],
        tm_created := AList.update path (length (tm_counts st)) (tm_created st)\<rparr>"
      using assms(3) None c by (simp add: man_get_def)
    note inv = tmp_invD [OF assms(1)]
    have "live st' p i \<longleftrightarrow> (if i = length (tm_counts st) then p = path else live st p i)" for p i
      using inv(1) by (auto simp: st' live_def nth_append)
    moreover have "\<not> live st path i" "\<not> live st p (length (tm_counts st))" for p i
      using inv(4) [of path i] None inv(1) by (simp_all add: live_def)
    ultimately have "map_of (tm_created st') p = Some i \<longleftrightarrow> live st' p i" for p i
      using inv(4) [of p i] by (auto simp: st' update_conv')
    moreover have "waits_ok st'"
      using inv(1,6) by (auto simp: waits_ok_def st' nth_append less_Suc_eq)
    moreover have "dom (map_of (tm_created st')) \<subseteq> dom (map_of (tm_files st'))"
      using kept files(1) [OF e] by (auto simp: st' update_conv')
    ultimately show ?thesis
      using inv None by (intro tmp_invI) (simp_all add: st' length_update_fresh distinct_update)
  qed
qed

lemma live_set_cleaner:
  "snd (tm_cleaners st ! i) \<noteq> Gone \<Longrightarrow> ph \<noteq> Gone \<Longrightarrow> live (set_cleaner i ph st) = live st"
  by (auto simp: live_def set_cleaner_def nth_update fun_eq_iff)

lemma set_cleaner_inv:
  assumes "tmp_inv st" and "snd (tm_cleaners st ! i) \<noteq> Gone" and "ph \<noteq> Gone"
    and "ph = Waits \<Longrightarrow> 0 < tm_counts st ! i"
  shows "tmp_inv (set_cleaner i ph st)"
proof -
  have "waits_ok (set_cleaner i ph st)"
    using tmp_invD(6) [OF assms(1)] assms(4) by (auto simp: waits_ok_def set_cleaner_def nth_update)
  with tmp_invD [OF assms(1)] live_set_cleaner [OF assms(2,3)] show ?thesis
    by (intro tmp_invI) (simp_all add: set_cleaner_def)
qed

lemma tmp_done_inv:
  assumes "tmp_inv st" and "i < length (tm_counts st)" and "tmp_done i st = Ret st'"
  shows "tmp_inv st'"
proof -
  let ?st = "st\<lparr>tm_counts := (tm_counts st)[i := tm_counts st ! i - 1]\<rparr>"
  note inv = tmp_invD [OF assms(1)]
  have live: "live ?st = live st"
    by (simp add: live_def fun_eq_iff)
  show ?thesis
  proof (cases "tm_counts st ! i = 1 \<and> snd (tm_cleaners st ! i) = Waits")
    case True
    then have st': "st' = set_cleaner i Woken ?st"
      using assms(3) by (simp add: tmp_done_def Let_def)
    have "live st' = live st"
      unfolding st' using True live by (subst live_set_cleaner) simp_all
    moreover have "waits_ok st'"
      using inv(1,6) assms(2) by (auto simp: waits_ok_def st' set_cleaner_def nth_update)
    ultimately show ?thesis
      using inv by (intro tmp_invI) (simp_all add: st' set_cleaner_def)
  next
    case False
    then have st': "st' = ?st"
      using assms(3) by (auto simp: tmp_done_def Let_def split: if_split_asm)
    have "waits_ok st'"
      using inv(6) assms(2,3) False
      by (auto simp: waits_ok_def st' nth_update tmp_done_def split: if_split_asm)
    then show ?thesis
      using inv live by (intro tmp_invI) (simp_all add: st')
  qed
qed

text \<open>A goroutine about to remove its file finds it.\<close>

lemma man_remove_live:
  assumes "tmp_inv st" and "live st p i"
  shows "man_remove p st = (None, st\<lparr>tm_files := AList.delete p (tm_files st),
      tm_created := AList.delete p (tm_created st)\<rparr>)"
proof -
  have "p \<in> dom (map_of (tm_created st))"
    using assms(2) tmp_invD(4) [OF assms(1), of p i] by blast
  moreover from this have "p \<in> dom (map_of (tm_files st))"
    using tmp_invD(5) [OF assms(1)] by blast
  ultimately show ?thesis
    by (auto simp: man_remove_def)
qed

lemma cleaner_move_inv:
  assumes "tmp_inv st" and "cleaner_moves i st" and "cleaner_move i st = Ret st'"
  shows "tmp_inv st'"
proof (cases "snd (tm_cleaners st ! i) = Removes")
  case False
  then show ?thesis
    using assms by (auto simp: cleaner_move_def cleaner_moves_def split: if_splits intro!: set_cleaner_inv)
next
  case True
  define p where "p = fst (tm_cleaners st ! i)"
  note inv = tmp_invD [OF assms(1)]
  have i: "i < length (tm_cleaners st)"
    using assms(2) by (simp add: cleaner_moves_def)
  then have mine: "live st p i"
    using True by (simp add: live_def p_def)
  have st': "st' = (set_cleaner i Gone (st\<lparr>tm_files := AList.delete p (tm_files st),
      tm_created := AList.delete p (tm_created st)\<rparr>))\<lparr>tm_running := tm_running st - 1\<rparr>"
    using assms(3) unfolding cleaner_move_def True p_def [symmetric] man_remove_live [OF assms(1) mine]
    by simp
  have only: "j = i" if "live st p j" for j
    using that mine inv(4) [of p j] inv(4) [of p i] by simp
  have live: "live st' q j \<longleftrightarrow> j \<noteq> i \<and> live st q j" for q j
    using i by (auto simp: live_def st' set_cleaner_def nth_update)
  have "map_of (tm_created st') q = Some j \<longleftrightarrow> q \<noteq> p \<and> live st q j" for q j
    using inv(4) [of q j] by (simp add: st' set_cleaner_def delete_conv')
  also have "q \<noteq> p \<and> live st q j \<longleftrightarrow> live st' q j" for q j
    unfolding live using only by (auto simp: live_def p_def)
  finally have created: "map_of (tm_created st') q = Some j \<longleftrightarrow> live st' q j" for q j .
  have "map_of (tm_created st) p \<noteq> None"
    using mine inv(4) [of p i] by simp
  then have "length (tm_created st') = length (tm_created st) - 1"
    using inv(2) by (simp add: st' set_cleaner_def length_delete_key)
  moreover have "distinct (map fst (tm_created st'))"
    using inv(2) by (simp add: st' set_cleaner_def distinct_delete)
  moreover have "dom (map_of (tm_created st')) \<subseteq> dom (map_of (tm_files st'))"
    using inv(5) by (auto simp: st' set_cleaner_def delete_conv')
  moreover have "waits_ok st'"
    using inv(6) by (auto simp: waits_ok_def st' set_cleaner_def nth_update)
  ultimately show ?thesis
    using inv(1,3) created by (intro tmp_invI) (simp_all add: st' set_cleaner_def)
qed

lemma tmp_reach_inv: "tmp_reach st \<Longrightarrow> tmp_inv st"
proof (induction rule: tmp_reach.induct)
  case (start files)
  show ?case
    by (rule tmp_inv_new)
next
  case (step st st')
  from step(2) show ?case
  proof (cases rule: tmp_step.cases)
    case (get path create r)
    then show ?thesis
      using step.IH man_get_inv by blast
  next
    case (release i)
    then show ?thesis
      using step.IH tmp_done_inv by metis
  next
    case cleaner
    then show ?thesis
      using step.IH cleaner_move_inv by (elim clean_stepE) metis
  qed
qed

section \<open>The goroutines finish\<close>

fun cleaner_rank :: "cleaner \<Rightarrow> nat" where
  "cleaner_rank Starting = 3"
| "cleaner_rank Waits = 2"
| "cleaner_rank Woken = 2"
| "cleaner_rank Removes = 1"
| "cleaner_rank Gone = 0"

definition tmp_rank :: "tmp_man \<Rightarrow> nat" where
  "tmp_rank st = (\<Sum>(p, ph) \<leftarrow> tm_cleaners st. cleaner_rank ph)"

definition cleans :: "tmp_man \<Rightarrow> tmp_man \<Rightarrow> bool" where
  "cleans st st' \<longleftrightarrow> clean_step st (Ret st')"

lemma tmp_rank_set:
  assumes "i < length (tm_cleaners st)" and "cleaner_rank ph < cleaner_rank (snd (tm_cleaners st ! i))"
  shows "tmp_rank (set_cleaner i ph st) < tmp_rank st"
  using assms sum_list_update_less [of i "tm_cleaners st" "\<lambda>(p, ph). cleaner_rank ph" "(fst (tm_cleaners st ! i), ph)"]
  by (simp add: tmp_rank_def set_cleaner_def case_prod_beta)

lemma tmp_rank_upd [simp]:
  "tmp_rank (st\<lparr>tm_running := n\<rparr>) = tmp_rank st"
  by (simp add: tmp_rank_def)

lemma man_remove_cleaners:
  "man_remove p st = (None, st') \<Longrightarrow> tm_cleaners st' = tm_cleaners st \<and> tm_counts st' = tm_counts st"
  by (auto simp: man_remove_def split: if_splits)

lemma tmp_rank_cleans:
  assumes "cleans st st'"
  shows "tmp_rank st' < tmp_rank st"
proof -
  obtain i where moves: "cleaner_moves i st" and move: "cleaner_move i st = Ret st'"
    using assms unfolding cleans_def by (auto elim: clean_stepE)
  have i: "i < length (tm_cleaners st)"
    using moves by (simp add: cleaner_moves_def)
  show ?thesis
  proof (cases "snd (tm_cleaners st ! i) = Removes")
    case False
    then show ?thesis
      using moves move i
      by (auto simp: cleaner_move_def cleaner_moves_def split: if_splits intro!: tmp_rank_set)
  next
    case True
    obtain st1 where st1: "man_remove (fst (tm_cleaners st ! i)) st = (None, st1)"
      and st': "st' = (set_cleaner i Gone st1)\<lparr>tm_running := tm_running st1 - 1\<rparr>"
      using move True by (auto simp: cleaner_move_def split: prod.splits option.splits)
    have "tm_cleaners st1 = tm_cleaners st"
      using man_remove_cleaners [OF st1] ..
    then have "tmp_rank (set_cleaner i Gone st1) < tmp_rank st1" "tmp_rank st1 = tmp_rank st"
      using i True tmp_rank_set [of i st1 Gone] by (simp_all add: tmp_rank_def)
    then show ?thesis
      by (simp add: st')
  qed
qed

lemma cleans_wf: "wfp (\<lambda>st' st. cleans st st')"
  by (rule wfp_if_convertible_to_nat [of _ tmp_rank]) (rule tmp_rank_cleans)

definition idle :: "tmp_man \<Rightarrow> bool" where
  "idle st \<longleftrightarrow> (\<forall>n \<in> set (tm_counts st). n = 0)"

lemma cleans_idle:
  assumes "cleans st st'" and "idle st"
  shows "idle st'"
  using assms unfolding cleans_def
  by (auto elim!: clean_stepE simp: idle_def cleaner_move_def set_cleaner_def
      split: cleaner.splits if_splits prod.splits option.splits dest!: man_remove_cleaners)

lemma cleaner_move_returns:
  assumes "tmp_inv st" and "cleaner_moves i st" and "tm_counts st ! i = 0 \<or> snd (tm_cleaners st ! i) \<noteq> Woken"
  shows "\<exists>st'. cleaner_move i st = Ret st'"
proof -
  have "live st (fst (tm_cleaners st ! i)) i"
    using assms(2) by (auto simp: cleaner_moves_def live_def)
  from man_remove_live [OF assms(1) this] show ?thesis
    using assms(2,3) by (auto simp: cleaner_moves_def cleaner_move_def)
qed

lemma idle_cleans:
  assumes "tmp_inv st" and "idle st"
  shows "(\<forall>r. clean_step st r \<longrightarrow> returns r) \<and> (man_len st = 0 \<or> (\<exists>st'. cleans st st'))"
proof
  have count: "tm_counts st ! i = 0" if "i < length (tm_cleaners st)" for i
    using assms that tmp_invD(1) [OF assms(1)] by (simp add: idle_def)
  have move: "\<exists>st'. cleaner_move i st = Ret st'" if "cleaner_moves i st" for i
    using that count by (intro cleaner_move_returns assms(1)) (simp_all add: cleaner_moves_def)
  show "\<forall>r. clean_step st r \<longrightarrow> returns r"
    using move by (force elim!: clean_stepE)
  show "man_len st = 0 \<or> (\<exists>st'. cleans st st')"
  proof (cases "tm_created st")
    case Nil
    then show ?thesis
      by (simp add: man_len_def)
  next
    case (Cons x xs)
    obtain p i where x: "x = (p, i)"
      by fastforce
    have "live st p i"
      using Cons x tmp_invD(4) [OF assms(1), of p i] by simp
    moreover from this have "snd (tm_cleaners st ! i) \<noteq> Waits"
      using tmp_invD(6) [OF assms(1)] count by (auto simp: waits_ok_def live_def)
    ultimately have "cleaner_moves i st"
      by (cases "snd (tm_cleaners st ! i)") (auto simp: cleaner_moves_def live_def)
    then show ?thesis
      using move clean_step.clean unfolding cleans_def by metis
  qed
qed

lemma cleans_inv: "cleans st st' \<Longrightarrow> tmp_inv st \<Longrightarrow> tmp_inv st'"
  unfolding cleans_def by (elim clean_stepE) (metis cleaner_move_inv)

section \<open>What happens to the files\<close>

definition tmp_moves :: "tmp_man \<Rightarrow> tmp_man \<Rightarrow> bool" where
  "tmp_moves st st' \<longleftrightarrow> tmp_step st (Ret st')"

text \<open>The file of a wait group is the same from one state to the next, until its goroutine is done.\<close>

definition keeps :: "nat \<Rightarrow> tmp_man \<Rightarrow> tmp_man \<Rightarrow> bool" where
  "keeps i st st' \<longleftrightarrow> i < length (tm_cleaners st') \<and> fst (tm_cleaners st' ! i) = fst (tm_cleaners st ! i) \<and>
     (snd (tm_cleaners st' ! i) \<noteq> Gone \<longrightarrow> snd (tm_cleaners st ! i) \<noteq> Gone \<and>
       map_of (tm_files st') (fst (tm_cleaners st ! i)) = map_of (tm_files st) (fst (tm_cleaners st ! i)))"

lemma keepsI:
  assumes "i < length (tm_cleaners st)" and "tm_cleaners st' = tm_cleaners st"
    and "snd (tm_cleaners st ! i) \<noteq> Gone \<Longrightarrow>
      map_of (tm_files st') (fst (tm_cleaners st ! i)) = map_of (tm_files st) (fst (tm_cleaners st ! i))"
  shows "keeps i st st'"
  using assms by (simp add: keeps_def)

lemma keeps_set_cleaner:
  assumes "i < length (tm_cleaners st)" and "snd (tm_cleaners st ! j) \<noteq> Gone"
  shows "keeps i st (set_cleaner j ph (st\<lparr>tm_counts := cs\<rparr>))"
  using assms by (auto simp: keeps_def set_cleaner_def nth_update)

lemma get_keeps:
  assumes inv: "tmp_inv st" and create: "creates path create" and get: "man_get path create st = (r, st')"
    and i: "i < length (tm_cleaners st)"
  shows "keeps i st st'"
proof (cases "map_of (tm_created st) path")
  case (Some j)
  then show ?thesis
    using get i by (auto simp: man_get_def intro!: keepsI)
next
  case None
  obtain e files where c: "create (tm_files st) = (e, files)"
    by fastforce
  have other: "map_of files p = map_of (tm_files st) p" if "p \<noteq> path" for p
    using create c that unfolding creates_def by blast
  have "fst (tm_cleaners st ! i) \<noteq> path" if "snd (tm_cleaners st ! i) \<noteq> Gone"
    using that i None tmp_invD(4) [OF inv, of path i] by (auto simp: live_def)
  then show ?thesis
    using get i None c other by (cases e) (auto simp: man_get_def keeps_def nth_append)
qed

lemma done_keeps:
  assumes "tmp_inv st" and "tmp_done j st = Ret st'" and "i < length (tm_cleaners st)"
  shows "keeps i st st'"
proof (cases "tm_counts st ! j = 1 \<and> snd (tm_cleaners st ! j) = Waits")
  case True
  then show ?thesis
    using assms(2,3) by (auto simp: tmp_done_def Let_def intro!: keeps_set_cleaner)
next
  case False
  then show ?thesis
    using assms(2,3) by (auto simp: tmp_done_def Let_def intro!: keepsI split: if_split_asm)
qed

lemma cleaner_keeps:
  assumes "tmp_inv st" and "cleaner_moves j st" and "cleaner_move j st = Ret st'" and i: "i < length (tm_cleaners st)"
  shows "keeps i st st'"
proof (cases "snd (tm_cleaners st ! j) = Removes")
  case False
  then show ?thesis
    using assms keeps_set_cleaner [of i st j _ "tm_counts st"]
    by (auto simp: cleaner_move_def cleaner_moves_def split: if_splits)
next
  case True
  let ?p = "fst (tm_cleaners st ! j)"
  have mine: "live st ?p j"
    using True assms(2) by (simp add: live_def cleaner_moves_def)
  have st': "st' = (set_cleaner j Gone (st\<lparr>tm_files := AList.delete ?p (tm_files st),
      tm_created := AList.delete ?p (tm_created st)\<rparr>))\<lparr>tm_running := tm_running st - 1\<rparr>"
    using assms(3) unfolding cleaner_move_def True man_remove_live [OF assms(1) mine] by simp
  have "fst (tm_cleaners st ! i) \<noteq> ?p" if "i \<noteq> j" and "snd (tm_cleaners st ! i) \<noteq> Gone"
    using that i mine tmp_invD(4) [OF assms(1), of ?p i] tmp_invD(4) [OF assms(1), of ?p j] by (auto simp: live_def)
  then show ?thesis
    using i by (auto simp: keeps_def st' set_cleaner_def nth_update delete_conv')
qed

lemma move_keeps:
  assumes "tmp_inv st" and "tmp_moves st st'" and "i < length (tm_cleaners st)"
  shows "keeps i st st'" and "tmp_inv st'"
  using assms unfolding tmp_moves_def
  by (auto elim!: tmp_step.cases clean_stepE intro: get_keeps done_keeps cleaner_keeps man_get_inv
      tmp_done_inv cleaner_move_inv dest: sym)

lemma moves_keep:
  assumes "tmp_moves\<^sup>*\<^sup>* st st'" and "tmp_inv st" and "i < length (tm_cleaners st)"
  shows "keeps i st st' \<and> tmp_inv st'"
  using assms(1)
proof (induction rule: rtranclp_induct)
  case base
  then show ?case
    using assms(2,3) by (simp add: keeps_def)
next
  case (step st1 st2)
  then have "i < length (tm_cleaners st1)"
    by (simp add: keeps_def)
  with step move_keeps [of st1 st2 i] show ?case
    by (simp add: keeps_def)
qed

text \<open>A wait group given out is that of its path.\<close>

lemma man_get_live:
  assumes "tmp_inv st" and "creates path create" and "man_get path create st = (Inr i, st1)"
  shows "live st1 path i" and "map_of (tm_files st1) path =
      map_of (if path \<in> dom (map_of (tm_created st)) then tm_files st else snd (create (tm_files st))) path"
proof -
  have "map_of (tm_created st1) path = Some i"
    using assms(3) by (auto simp: man_get_def update_conv' split: option.splits prod.splits)
  then show "live st1 path i"
    using tmp_invD(4) [OF man_get_inv [OF assms]] by simp
  show "map_of (tm_files st1) path =
      map_of (if path \<in> dom (map_of (tm_created st)) then tm_files st else snd (create (tm_files st))) path"
    using assms(3) by (auto simp: man_get_def split: option.splits prod.splits)
qed

text \<open>The files the goroutines have removed are those of the paths no longer registered.\<close>

lemma cleans_files:
  assumes "cleans st st'" and "tmp_inv st"
  shows "dom (map_of (tm_created st')) \<subseteq> dom (map_of (tm_created st)) \<and>
    map_of (tm_files st') =
      map_of (tm_files st) |` (- (dom (map_of (tm_created st)) - dom (map_of (tm_created st'))))"
proof -
  obtain i where moves: "cleaner_moves i st" and move: "cleaner_move i st = Ret st'"
    using assms(1) unfolding cleans_def by (auto elim: clean_stepE)
  show ?thesis
  proof (cases "snd (tm_cleaners st ! i) = Removes")
    case False
    then have "tm_files st' = tm_files st \<and> tm_created st' = tm_created st"
      using moves move by (auto simp: cleaner_move_def cleaner_moves_def set_cleaner_def split: if_splits)
    then show ?thesis
      by (simp add: restrict_map_def)
  next
    case True
    let ?p = "fst (tm_cleaners st ! i)"
    have mine: "live st ?p i"
      using True moves by (simp add: live_def cleaner_moves_def)
    then have "map_of (tm_created st) ?p = Some i"
      using tmp_invD(4) [OF assms(2)] by simp
    moreover have "tm_files st' = AList.delete ?p (tm_files st)" "tm_created st' = AList.delete ?p (tm_created st)"
      using move unfolding cleaner_move_def True man_remove_live [OF assms(2) mine] by (auto simp: set_cleaner_def)
    ultimately show ?thesis
      by (auto simp: delete_conv' restrict_map_def fun_eq_iff split: if_splits)
  qed
qed

section \<open>Properties\<close>

text \<open>
  C30: the file behind a wait group that \<open>Get\<close> gives out is what \<open>create\<close> wrote, or what was
  there when the path is shared; whatever the interleaving from then on, until the goroutine of the
  wait group has removed it, the path is registered with that wait group and the file has that same
  content. There are as many goroutines as registered paths, so \<open>Wait\<close> returns when none is left,
  and no goroutine finds its file missing or unregistered.
\<close>

theorem tmp_files_kept:
  assumes "tmp_reach st" and "creates path create" and "man_get path create st = (Inr i, st1)"
    and "tmp_moves\<^sup>*\<^sup>* st1 st2"
  shows "(snd (tm_cleaners st2 ! i) \<noteq> Gone \<longrightarrow>
      map_of (tm_created st2) path = Some i \<and> map_of (tm_files st2) path \<noteq> None \<and>
      map_of (tm_files st2) path =
        map_of (if path \<in> dom (map_of (tm_created st)) then tm_files st else snd (create (tm_files st))) path) \<and>
    man_len st2 = tm_running st2 \<and>
    (\<forall>j < length (tm_cleaners st2). snd (tm_cleaners st2 ! j) = Removes \<longrightarrow> returns (cleaner_move j st2))"
proof -
  note inv = tmp_reach_inv [OF assms(1)]
  note got = man_get_live [OF inv assms(2,3)]
  have kept: "keeps i st1 st2" and inv2: "tmp_inv st2"
    using moves_keep [OF assms(4) man_get_inv [OF inv assms(2,3)], of i] got(1) by (simp_all add: live_def)
  have created: "map_of (tm_created st2) path = Some i" if "snd (tm_cleaners st2 ! i) \<noteq> Gone"
    using that kept got(1) tmp_invD(4) [OF inv2, of path i] by (simp add: keeps_def live_def)
  moreover have "map_of (tm_files st2) path \<noteq> None" if "snd (tm_cleaners st2 ! i) \<noteq> Gone"
    using created [OF that] tmp_invD(5) [OF inv2] by blast
  moreover have "map_of (tm_files st2) path = map_of (tm_files st1) path" if "snd (tm_cleaners st2 ! i) \<noteq> Gone"
    using that kept got(1) by (simp add: keeps_def live_def)
  moreover have "man_len st2 = tm_running st2"
    using tmp_invD(3) [OF inv2] by (simp add: man_len_def)
  moreover have "returns (cleaner_move j st2)"
    if "j < length (tm_cleaners st2)" and "snd (tm_cleaners st2 ! j) = Removes" for j
    using that cleaner_move_returns [OF inv2, of j] by (auto simp: cleaner_moves_def)
  ultimately show ?thesis
    using got(2) by simp
qed

text \<open>Two callers with one file, the first of them done.\<close>

definition write_file :: "string \<Rightarrow> create_fn" where
  "write_file path files = (None, AList.update path [1] files)"

lemma write_file_creates: "creates path (write_file path)"
  by (auto simp: creates_def write_file_def update_conv')

definition one_file :: "string \<Rightarrow> nat \<Rightarrow> cleaner \<Rightarrow> tmp_man" where
  "one_file path n ph = \<lparr>tm_created = [(path, 0)], tm_counts = [n], tm_cleaners = [(path, ph)],
     tm_running = 1, tm_files = [(path, [1])]\<rparr>"

lemma reach_one_file: "tmp_reach (one_file path 1 Starting)"
proof (rule tmp_reach.step)
  show "tmp_reach (new_tmp_man [])"
    by (rule tmp_reach.start)
  show "tmp_step (new_tmp_man []) (Ret (one_file path 1 Starting))"
    by (rule tmp_step.get [OF write_file_creates, of path _ "Inr 0"])
      (simp add: man_get_def new_tmp_man_def write_file_def one_file_def)
qed

theorem tmp_files_kept_witness:
  "\<exists>st1. man_get ''f'' (write_file ''f'') (new_tmp_man []) = (Inr 0, st1) \<and>
    map_of (tm_files (one_file ''f'' 2 Starting)) ''f'' = Some [1] \<and>
    map_of (tm_files (one_file ''f'' 2 Starting)) ''f'' =
      map_of (snd (write_file ''f'' (tm_files (new_tmp_man [])))) ''f'' \<and>
    tmp_moves\<^sup>*\<^sup>* st1 (one_file ''f'' 2 Starting)"
proof -
  have got: "man_get ''f'' (write_file ''f'') (new_tmp_man []) = (Inr 0, one_file ''f'' 1 Starting)"
    by (simp add: man_get_def new_tmp_man_def write_file_def one_file_def)
  have "tmp_moves (one_file ''f'' 1 Starting) (one_file ''f'' 2 Starting)"
    unfolding tmp_moves_def
    by (rule tmp_step.get [OF write_file_creates, of "''f''" _ "Inr 0"]) (simp add: man_get_def one_file_def)
  then have "tmp_moves\<^sup>*\<^sup>* (one_file ''f'' 1 Starting) (one_file ''f'' 2 Starting)"
    by blast
  from tmp_files_kept [OF tmp_reach.start write_file_creates got this] this got show ?thesis
    by (simp add: one_file_def new_tmp_man_def)
qed

text \<open>
  C31: when every call has given its file back, the goroutines run to their end: none of them
  panics, one can always go on while a path is registered, and they cannot go on for ever. On the
  way the files removed are exactly those of the paths no longer registered: at the end none of the
  registered ones is left, and no other file is touched.
\<close>

theorem tmp_files_drained:
  assumes "tmp_reach st" and "\<forall>n \<in> set (tm_counts st). n = 0" and "cleans\<^sup>*\<^sup>* st st1"
  shows "(\<forall>r. clean_step st1 r \<longrightarrow> returns r) \<and> (man_len st1 = 0 \<or> (\<exists>st2. cleans st1 st2)) \<and>
    wfp (\<lambda>st' st. cleans st st') \<and>
    map_of (tm_files st1) =
      map_of (tm_files st) |` (- (dom (map_of (tm_created st)) - dom (map_of (tm_created st1)))) \<and>
    (man_len st1 = 0 \<longrightarrow> map_of (tm_files st1) = map_of (tm_files st) |` (- dom (map_of (tm_created st))))"
proof -
  have reached: "tmp_inv st1 \<and> idle st1 \<and> dom (map_of (tm_created st1)) \<subseteq> dom (map_of (tm_created st)) \<and>
    map_of (tm_files st1) =
      map_of (tm_files st) |` (- (dom (map_of (tm_created st)) - dom (map_of (tm_created st1))))"
    using assms(3)
  proof (induction rule: rtranclp_induct)
    case base
    then show ?case
      using tmp_reach_inv [OF assms(1)] assms(2) by (simp add: idle_def)
  next
    case (step st1 st2)
    note files = cleans_files [OF step.hyps(2)]
    have "- (dom (map_of (tm_created st)) - dom (map_of (tm_created st2))) =
      - (dom (map_of (tm_created st)) - dom (map_of (tm_created st1))) \<inter>
      - (dom (map_of (tm_created st1)) - dom (map_of (tm_created st2)))"
      using step.IH files by blast
    then show ?case
      using step cleans_inv cleans_idle files by (metis restrict_restrict subset_trans)
  qed
  moreover have "dom (map_of (tm_created st1)) = {}" if "man_len st1 = 0"
    using that by (simp add: man_len_def)
  ultimately show ?thesis
    using idle_cleans cleans_wf by (metis Diff_empty)
qed

lemma reach_removes: "tmp_reach (one_file path 0 Removes)"
proof (rule tmp_reach.step)
  show "tmp_reach (one_file path 0 Starting)"
  proof (rule tmp_reach.step [OF reach_one_file])
    show "tmp_step (one_file path 1 Starting) (Ret (one_file path 0 Starting))"
      using tmp_step.release [of 0 "one_file path 1 Starting"]
      by (simp add: one_file_def tmp_done_def)
  qed
  show "tmp_step (one_file path 0 Starting) (Ret (one_file path 0 Removes))"
    using tmp_step.cleaner [OF clean_step.clean [of 0 "one_file path 0 Starting"]]
    by (simp add: one_file_def cleaner_moves_def cleaner_move_def set_cleaner_def)
qed

theorem tmp_files_drained_witness:
  "\<exists>st. cleans (one_file ''f'' 0 Removes) st \<and> man_len st = 0 \<and> map_of (tm_files st) = Map.empty"
proof -
  let ?st = "\<lparr>tm_created = [], tm_counts = [0], tm_cleaners = [(''f'', Gone)], tm_running = 0, tm_files = []\<rparr>"
  have zero: "\<forall>n \<in> set (tm_counts (one_file ''f'' 0 Removes)). n = 0"
    by (simp add: one_file_def)
  have step: "cleans (one_file ''f'' 0 Removes) ?st"
    using clean_step.clean [of 0 "one_file ''f'' 0 Removes"]
    by (simp add: cleans_def one_file_def cleaner_moves_def cleaner_move_def man_remove_def set_cleaner_def
        AList.delete_eq)
  then have "cleans\<^sup>*\<^sup>* (one_file ''f'' 0 Removes) ?st"
    by blast
  from tmp_files_drained [OF reach_removes zero this]
  have "map_of (tm_files ?st) = Map.empty"
    by (auto simp: man_len_def one_file_def)
  with step show ?thesis
    by (intro exI [of _ ?st]) (simp add: man_len_def)
qed

text \<open>
  C32: \<open>Get\<close> gives out a file whose last user is gone and whose goroutine has returned from \<open>Wait\<close> but
  not yet taken the lock: the file is then removed under its new user.
\<close>

theorem tmp_get_races_remove:
  "\<exists>st st1 st2. tmp_reach st \<and> man_get path create st = (Inr 0, st1) \<and>
    tm_files st1 = tm_files st \<and> clean_step st1 (Ret st2) \<and>
    tm_counts st2 = [1] \<and> map_of (tm_files st1) path \<noteq> None \<and> map_of (tm_files st2) path = None"
proof -
  let ?st2 = "\<lparr>tm_created = [], tm_counts = [1], tm_cleaners = [(path, Gone)], tm_running = 0, tm_files = []\<rparr>"
  have "man_get path create (one_file path 0 Removes) = (Inr 0, one_file path 1 Removes)"
    by (simp add: man_get_def one_file_def)
  moreover have "clean_step (one_file path 1 Removes) (Ret ?st2)"
    using clean_step.clean [of 0 "one_file path 1 Removes"]
    by (simp add: one_file_def cleaner_moves_def cleaner_move_def man_remove_def set_cleaner_def
        AList.delete_eq)
  ultimately show ?thesis
    using reach_removes by (intro exI [of _ "one_file path 0 Removes"] exI [of _ "one_file path 1 Removes"]
        exI [of _ ?st2]) (simp add: one_file_def)
qed

end
