(* ===== verification/Dd_Store.thy ===== *)
theory Dd_Store
  imports Commands Dir_Store
begin

text \<open>
  \<^verbatim>\<open>stores/dd.go\<close>: the store that reads and writes files with \<open>dd\<close> and lists them with
  \<open>find\<close>, on this host or over \<open>ssh\<close>.
\<close>

section \<open>Commands of the store\<close>

definition dd_bs_arg :: string where
  "dd_bs_arg = ''bs=1048576''"

record dd =
  dd_dir :: dir
  dd_command :: "(string \<Rightarrow> string list \<Rightarrow> exec_cmd) option"
  dd_str_command :: "(string list \<Rightarrow> string \<Rightarrow> exec_cmd) option"

definition dd_run_command :: "dd \<Rightarrow> string \<Rightarrow> string list \<Rightarrow> exec_cmd" where
  "dd_run_command s name args =
     (case dd_command s of None \<Rightarrow> exec_command | Some fn \<Rightarrow> fn) name args"

definition default_str_command :: "string list \<Rightarrow> string \<Rightarrow> exec_cmd" where
  "default_str_command env str = (exec_command ''sh'' [''-c'', str])\<lparr>ec_env := Some env\<rparr>"

definition dd_run_str_command :: "dd \<Rightarrow> string list \<Rightarrow> string \<Rightarrow> exec_cmd" where
  "dd_run_str_command s env str =
     (case dd_str_command s of None \<Rightarrow> default_str_command | Some fn \<Rightarrow> fn) env str"

text \<open>\<open>env.exports\<close>: the names of the variables.\<close>

fun env_exports :: "string list \<Rightarrow> string list" where
  "env_exports [] = []"
| "env_exports (s # env) =
     (if CHR ''='' \<in> set s then takeWhile (\<lambda>c. c \<noteq> CHR ''='') s # env_exports env
      else env_exports env)"

fun join_spaces :: "string list \<Rightarrow> string" where
  "join_spaces [] = []"
| "join_spaces [s] = s"
| "join_spaces (s # ss) = s @ '' '' @ join_spaces ss"

definition dd_out_command :: "dd \<Rightarrow> string \<Rightarrow> string \<Rightarrow> exec_cmd" where
  "dd_out_command s path of_arg =
     (if dir_part (dd_dir s) \<noteq> [] then
        (let env = [''ddproc_dir='' @ path_dir path, ''ddproc_of='' @ of_arg, ''ddproc_bs='' @ dd_bs_arg];
             exports = env_exports env;
             export = (if exports \<noteq> [] then ''export '' @ join_spaces exports else ''true'')
         in dd_run_str_command s env
              (export @ '' && mkdir -p \"$ddproc_dir\"'' @ '' && dd \"$ddproc_of\" \"$ddproc_bs\"''))
      else dd_run_command s ''dd'' [of_arg, dd_bs_arg])"

definition dd_cmd :: "dd \<Rightarrow> cmd_fn" where
  "dd_cmd s c =
     bind_outcome (full_path (dd_dir s) (chunk_hash c)) (\<lambda>path.
       Ret (Inr (dd_out_command s path (''of='' @ path))))"

definition dd_load_cmd :: "dd \<Rightarrow> cmd_fn" where
  "dd_load_cmd s c =
     bind_outcome (full_path (dd_dir s) (chunk_hash c)) (\<lambda>path.
       Ret (Inr (dd_run_command s ''dd'' [''if='' @ path, dd_bs_arg])))"

definition dd_proc :: "'w runner \<Rightarrow> dd \<Rightarrow> 'w oprocess" where
  "dd_proc run s = func_proc (cmd_in_process run (dd_cmd s))"

text \<open>The filter of \<open>Unproc\<close>: a missing file is missing data.\<close>

definition no_such_file :: "string \<Rightarrow> bool" where
  "no_such_file serr = has_words None ''no such file'' serr"

definition dd_missing :: "res \<Rightarrow> res" where
  "dd_missing r =
     (case res_err r of
        Some (ExitError serr) \<Rightarrow>
          if no_such_file serr then Res (res_chunk r) (Some (MissingDataError (ExitError serr))) else r
      | _ \<Rightarrow> r)"

definition dd_unproc :: "'w runner \<Rightarrow> dd \<Rightarrow> 'w oprocess" where
  "dd_unproc run s = filter_res dd_missing (func_proc (cmd_out_process run (dd_load_cmd s)))"

section \<open>Listing with find\<close>

text \<open>\<open>strconv.ParseInt\<close> to base 10 and 64 bits.\<close>

definition parse_int :: "string \<Rightarrow> string + int" where
  "parse_int s =
     (let neg = (s \<noteq> [] \<and> hd s = CHR ''-'');
          ds = (if s \<noteq> [] \<and> (hd s = CHR ''+'' \<or> hd s = CHR ''-'') then tl s else s) in
      case dec_run 0 ds of (n, rest) \<Rightarrow>
        if ds = [] \<or> rest \<noteq> [] then Inl ''invalid syntax''
        else (let i = (if neg then - int n else int n) in
              if i < - (2 ^ 63) \<or> 2 ^ 63 \<le> i then Inl ''value out of range'' else Inr i))"

text \<open>\<open>filepath.Base\<close>\<close>

definition path_base :: "string \<Rightarrow> string" where
  "path_base p =
     (let q = rev (dropWhile (\<lambda>c. c = CHR ''/'') (rev p)) in
      if p = [] then ''.'' else if q = [] then ''/'' else last (split_slash q))"

text \<open>\<open>byteSep\<close>: what ends in a NUL; the rest at the end of the output is left out.\<close>

fun nul_tokens :: "string \<Rightarrow> string \<Rightarrow> string list" where
  "nul_tokens acc [] = []"
| "nul_tokens acc (c # cs) =
     (if c = CHR 0x00 then acc # nul_tokens [] cs else nul_tokens (acc @ [c]) cs)"

text \<open>\<open>sendResults\<close>: a size and then a path, with \<open>-1\<close> for no size.\<close>

fun find_entries :: "string list \<Rightarrow> int \<Rightarrow> dir_ls_res list \<times> err option" where
  "find_entries [] have_size = ([], None)"
| "find_entries (t # ts) have_size =
     (if have_size < 0 then
        (case parse_int t of
           Inl e \<Rightarrow> ([], Some (ErrText e))
         | Inr sz \<Rightarrow>
             if sz < 0 then ([], Some (ErrText ''size can't be negative''))
             else find_entries ts sz)
      else
        (case find_entries ts (- 1) of (rs, e) \<Rightarrow>
           (\<lparr>dl_name = path_base t, dl_size = word_of_int have_size, dl_err = None\<rparr> # rs, e)))"

definition find_args :: "string \<Rightarrow> nat \<Rightarrow> string list" where
  "find_args dir depth =
     [dir, ''-mindepth'', dec_nat depth, ''-maxdepth'', dec_nat depth, ''-type'', ''f'', ''-printf'',
      ''%s'' @ [CHR 0x5C] @ ''0%p'' @ [CHR 0x5C] @ ''0'']"

text \<open>
  \<open>Wait\<close> has the last word on the error; of a command that was not started it says no more than
  that.
\<close>

definition find_err :: "string \<Rightarrow> run_stop option \<Rightarrow> err option \<Rightarrow> err option" where
  "find_err serr stop err =
     (case stop of
        None \<Rightarrow> err
      | Some (NotStarted _) \<Rightarrow> Some (ErrText ''exec: not started'')
      | Some _ \<Rightarrow> stop_err serr stop)"

definition find_dir_lister :: "'w runner \<Rightarrow> dd \<Rightarrow> 'w \<Rightarrow> string \<Rightarrow> nat \<Rightarrow> dir_ls_res list" where
  "find_dir_lister run s w dir depth =
     (case fst (run (dd_run_command s ''find'' (find_args dir depth)) w) of
        (out, serr, stop) \<Rightarrow>
          (case (case stop of
                   Some (NotStarted e) \<Rightarrow> ([], Some e)
                 | _ \<Rightarrow> find_entries (nul_tokens [] (map (\<lambda>b. char_of (unat b)) out)) (- 1)) of
             (rs, err) \<Rightarrow>
               rs @ (case find_err serr stop err of
                       None \<Rightarrow> []
                     | Some e \<Rightarrow> [\<lparr>dl_name = [], dl_size = 0, dl_err = Some e\<rparr>])))"

definition dd_ls :: "'w runner \<Rightarrow> dd \<Rightarrow> 'w \<Rightarrow> ls_entry list \<times> err option" where
  "dd_ls run s w = dir_ls (find_dir_lister run s w) (dd_dir s)"

section \<open>Over ssh\<close>

fun escape_backslash :: "string \<Rightarrow> string" where
  "escape_backslash [] = []"
| "escape_backslash (c # cs) =
     (if c = CHR 0x5C then [c, c] else [c]) @ escape_backslash cs"

definition scp_command :: "string \<Rightarrow> string \<Rightarrow> string list \<Rightarrow> exec_cmd" where
  "scp_command host name args = exec_command ''ssh'' ([host, name] @ map escape_backslash args)"

definition scp_str_command :: "string \<Rightarrow> string list \<Rightarrow> string \<Rightarrow> exec_cmd" where
  "scp_str_command host env str = exec_command ''ssh'' (([host] @ env) @ [str])"

definition new_scp :: "string \<Rightarrow> dir \<Rightarrow> dd" where
  "new_scp host d = \<lparr>dd_dir = d, dd_command = Some (scp_command host),
     dd_str_command = Some (scp_str_command host)\<rparr>"

section \<open>Reading the output of find\<close>

lemma nul_tokens_append:
  "CHR 0x00 \<notin> set s \<Longrightarrow> nul_tokens acc (s @ CHR 0x00 # rest) = (acc @ s) # nul_tokens [] rest"
  by (induction s arbitrary: acc) auto

lemma dec_nat_digit: "\<exists>d < 10. c = hex_digit d" if "c \<in> set (dec_nat n)"
  using that
proof (induction n rule: dec_nat.induct)
  case (1 n)
  then show ?case
    by (subst (asm) (2) dec_nat.simps) (auto split: if_splits intro: exI [of _ "n mod 10"])
qed

lemma dec_nat_not: "c \<in> {CHR 0x00, CHR ''-'', CHR ''+'', CHR ''/''} \<Longrightarrow> c \<notin> set (dec_nat n)"
proof
  have "\<forall>d \<in> set [0..<10]. hex_digit d \<notin> {CHR 0x00, CHR ''-'', CHR ''+'', CHR ''/''}"
    by code_simp
  moreover assume "c \<in> {CHR 0x00, CHR ''-'', CHR ''+'', CHR ''/''}" and "c \<in> set (dec_nat n)"
  ultimately show False
    using dec_nat_digit [of c n] by auto
qed

lemma parse_int_dec_nat:
  assumes "n < 2 ^ 63"
  shows "parse_int (dec_nat n) = Inr (int n)"
proof -
  obtain d cs where d: "dec_nat n = d # cs"
    using dec_nat_Cons by blast
  have "d \<noteq> CHR ''-''" "d \<noteq> CHR ''+''"
    using dec_nat_not [of d n] by (auto simp: d)
  moreover have "dec_run 0 (dec_nat n) = (n, [])"
    using dec_run_append [of 0 n "[]"] by simp
  ultimately show ?thesis
    using assms by (simp add: parse_int_def d)
qed

lemma path_base_plain:
  assumes "plain_name f"
  shows "path_base (pre @ CHR ''/'' # f) = f"
proof -
  have f: "f \<noteq> []" "CHR ''/'' \<notin> set f"
    using assms by (simp_all add: plain_name_def)
  then have "last f \<noteq> CHR ''/''"
    using last_in_set by fastforce
  then have "rev (dropWhile (\<lambda>c. c = CHR ''/'') (rev (pre @ CHR ''/'' # f))) = pre @ CHR ''/'' # f"
    using f(1) by (cases "rev f") (auto simp: last_rev hd_rev [symmetric])
  then show ?thesis
    using f by (simp add: path_base_def split_slash_append split_slash_plain)
qed

text \<open>What \<open>find\<close> prints for files of hashes: sizes and paths.\<close>

fun find_output :: "(hash \<times> nat \<times> string) list \<Rightarrow> string" where
  "find_output [] = []"
| "find_output ((h, n, pre) # fs) =
     dec_nat n @ CHR 0x00 # (pre @ CHR ''/'' # hex_string h) @ CHR 0x00 # find_output fs"

definition find_listed :: "hash \<times> nat \<times> string \<Rightarrow> bool" where
  "find_listed f \<longleftrightarrow> (case f of (h, n, pre) \<Rightarrow> length h = 32 \<and> n < 2 ^ 63 \<and> CHR 0x00 \<notin> set pre)"

lemma hex_string_no_nul: "CHR 0x00 \<notin> set (hex_string h)"
proof -
  have "\<forall>n \<in> set [0..<16]. hex_digit n \<noteq> CHR 0x00"
    by code_simp
  then have "CHR 0x00 \<notin> set (hex_byte b)" for b
    using byte_digits [of b] by (auto simp: hex_byte_def)
  then show ?thesis
    by (auto simp: hex_string_def)
qed

lemma find_entries_output:
  assumes "\<forall>f \<in> set fs. find_listed f"
  shows "find_entries (nul_tokens [] (find_output fs)) (- 1) =
    (map (\<lambda>(h, n, _). \<lparr>dl_name = hex_string h, dl_size = word_of_nat n, dl_err = None\<rparr>) fs, None)"
  using assms
proof (induction fs)
  case (Cons f fs)
  obtain h n pre where f: "f = (h, n, pre)"
    by (cases f)
  have find_listed: "length h = 32" "n < 2 ^ 63" "CHR 0x00 \<notin> set pre"
    using Cons.prems by (auto simp: f find_listed_def)
  have "CHR 0x00 \<notin> set (pre @ CHR ''/'' # hex_string h)"
    using find_listed hex_string_no_nul by auto
  then have "nul_tokens [] (find_output (f # fs)) =
      dec_nat n # (pre @ CHR ''/'' # hex_string h) # nul_tokens [] (find_output fs)"
    using dec_nat_not [of "CHR 0x00" n] unfolding f find_output.simps
    by (simp only: nul_tokens_append append_Nil insert_iff simp_thms)
  moreover have "h \<noteq> []"
    using find_listed(1) by auto
  ultimately show ?case
    using Cons find_listed by (simp add: f parse_int_dec_nat path_base_plain hex_string_plain)
qed simp

lemma dir_collect_hashes:
  assumes "\<forall>f \<in> set fs. find_listed f"
  shows "dir_collect (map (\<lambda>(h, n, _). \<lparr>dl_name = hex_string h, dl_size = word_of_nat n, dl_err = None\<rparr>) fs @ rs) =
    (map (\<lambda>(h, n, _). \<lparr>le_hash = h, le_size = word_of_nat n\<rparr>) fs @ fst (dir_collect rs), snd (dir_collect rs))"
  using assms
proof (induction fs)
  case (Cons f fs)
  obtain h n pre where f: "f = (h, n, pre)"
    by (cases f)
  have "length h = 32"
    using Cons.prems by (auto simp: f find_listed_def)
  moreover from this have "scan_hex (hex_string h @ []) = Inr (h, [])"
    by (intro scan_hex_string) auto
  ultimately show ?case
    using Cons by (simp add: f load_slice_def case_prod_beta)
qed simp

section \<open>A store on a host\<close>

text \<open>The store of \<^verbatim>\<open>Dd\<close> on this host, or on another over \<open>ssh\<close>.\<close>

definition dd_at :: "string option \<Rightarrow> dir \<Rightarrow> dd" where
  "dd_at host d =
     (case host of
        None \<Rightarrow> \<lparr>dd_dir = d, dd_command = None, dd_str_command = None\<rparr>
      | Some h \<Rightarrow> new_scp h d)"

text \<open>
  The commands, word for word: \<open>dd\<close> into a file, the same with its directory made before, and \<open>dd\<close> out
  of a file. Over \<open>ssh\<close> the words are arguments behind the host; the variables stand before the
  script, which the remote shell takes as assignments.
\<close>

definition store_script :: string where
  "store_script =
     ''export ddproc_dir ddproc_of ddproc_bs && mkdir -p \"$ddproc_dir\" && dd \"$ddproc_of\" \"$ddproc_bs\"''"

definition store_line :: "string option \<Rightarrow> string \<Rightarrow> exec_cmd" where
  "store_line host p =
     (case host of
        None \<Rightarrow> exec_command ''dd'' [''of='' @ p, ''bs=1048576'']
      | Some h \<Rightarrow> exec_command ''ssh'' [h, ''dd'', ''of='' @ p, ''bs=1048576''])"

definition store_in_line :: "string option \<Rightarrow> string \<Rightarrow> string \<Rightarrow> exec_cmd" where
  "store_in_line host d p =
     (let vars = [''ddproc_dir='' @ d, ''ddproc_of=of='' @ p, ''ddproc_bs=bs=1048576'']
      in case host of
           None \<Rightarrow> (exec_command ''sh'' [''-c'', store_script])\<lparr>ec_env := Some vars\<rparr>
         | Some h \<Rightarrow> exec_command ''ssh'' (h # vars @ [store_script]))"

definition load_line :: "string option \<Rightarrow> string \<Rightarrow> exec_cmd" where
  "load_line host p =
     (case host of
        None \<Rightarrow> exec_command ''dd'' [''if='' @ p, ''bs=1048576'']
      | Some h \<Rightarrow> exec_command ''ssh'' [h, ''dd'', ''if='' @ p, ''bs=1048576''])"

lemma escape_plain: "CHR 0x5C \<notin> set s \<Longrightarrow> escape_backslash s = s"
  by (induction s) auto

text \<open>What the store runs, if there is no backslash in the path.\<close>

lemma dd_run_at:
  assumes "host = None \<or> CHR 0x5C \<notin> set p"
  shows "dd_run_command (dd_at host d) ''dd'' [''if='' @ p, dd_bs_arg] = load_line host p"
    and "dd_run_command (dd_at host d) ''dd'' [''of='' @ p, dd_bs_arg] = store_line host p"
  using assms
  by (auto simp: dd_run_command_def dd_at_def new_scp_def scp_command_def load_line_def store_line_def
      dd_bs_arg_def escape_plain split: option.split)

lemma dd_out_at:
  assumes "host = None \<or> CHR 0x5C \<notin> set p"
  shows "dd_out_command (dd_at host d) p (''of='' @ p) =
    (if dir_part d = [] then store_line host p else store_in_line host (path_dir p) p)"
proof -
  have d: "dd_dir (dd_at host d) = d"
    by (simp add: dd_at_def new_scp_def split: option.split)
  show ?thesis
  proof (cases "dir_part d = []")
    case True
    then show ?thesis
      using dd_run_at(2) [OF assms, of d] by (simp add: dd_out_command_def d)
  next
    case False
    then show ?thesis
      by (simp add: dd_out_command_def d Let_def dd_run_str_command_def dd_at_def new_scp_def scp_str_command_def
          default_str_command_def store_in_line_def store_script_def dd_bs_arg_def split: option.split)
  qed
qed

section \<open>Properties\<close>

text \<open>
  The files of a host: in which of its states commands work, the contents by path, and which
  directories exist.
\<close>

record 'w host_fs =
  h_ok :: "'w \<Rightarrow> bool"
  h_files :: "'w \<Rightarrow> string \<Rightarrow> bytes option"
  h_dir :: "'w \<Rightarrow> string \<Rightarrow> bool"

text \<open>The command line, with the bytes on its standard input, leaves them in the file.\<close>

definition puts :: "'w runner \<Rightarrow> 'w host_fs \<Rightarrow> exec_cmd \<Rightarrow> string \<Rightarrow> bytes \<Rightarrow> 'w \<Rightarrow> bool" where
  "puts run H cmd p b w \<longleftrightarrow>
     (\<exists>out serr w'. run (cmd\<lparr>ec_stdin := Some (b, None)\<rparr>) w = ((out, serr, None), w') \<and> h_ok H w' \<and>
        h_files H w' = (h_files H w)(p \<mapsto> b) \<and> (\<forall>d. h_dir H w d \<longrightarrow> h_dir H w' d))"

text \<open>
  What \<open>dd\<close>, \<open>mkdir -p\<close> and the shell do on the host with paths \<open>P\<close>: \<open>dd of=\<close> stores its input in a file
  whose directory exists, the script makes the directory first, and \<open>dd if=\<close> writes a file out or
  exits with the message of a missing one.
\<close>

definition dd_works :: "'w runner \<Rightarrow> 'w host_fs \<Rightarrow> string option \<Rightarrow> (string \<Rightarrow> bool) \<Rightarrow> bool" where
  "dd_works run H host P \<longleftrightarrow>
     (\<forall>p b w. P p \<longrightarrow> h_ok H w \<longrightarrow> h_dir H w (path_dir p) \<longrightarrow> puts run H (store_line host p) p b w) \<and>
     (\<forall>p b w. P p \<longrightarrow> h_ok H w \<longrightarrow> puts run H (store_in_line host (path_dir p) p) p b w) \<and>
     (\<forall>p w. P p \<longrightarrow> h_ok H w \<longrightarrow>
        (\<exists>out serr stop w'. run (load_line host p) w = ((out, serr, stop), w') \<and> h_ok H w' \<and>
           h_files H w' = h_files H w \<and>
           (case h_files H w p of
              Some b \<Rightarrow> stop = None \<and> out = b
            | None \<Rightarrow> stop = Some ExitStatus \<and> no_such_file serr)))"

text \<open>
  C28: the data a chunk is stored with is what comes back for its hash, from a store on this host or
  over \<open>ssh\<close>, whose directory is divided into others, made as needed, or exists; a hash never stored
  comes back as missing data, on which the multireader goes on to the next copy. What the commands
  do is assumed of the command lines themselves, over \<open>ssh\<close> for paths without a backslash.
\<close>

theorem dd_roundtrip:
  assumes "dd_works run H host P" and "\<And>h q. full_path d h = Ret q \<Longrightarrow> P q"
    and "\<And>q. P q \<Longrightarrow> host = None \<or> CHR 0x5C \<notin> set q"
    and "full_path d (chunk_hash c) = Ret p" and "data_reader (chunk_data c) = Ret ((b, None), dat)"
    and "h_ok H w" and "dir_part d \<noteq> [] \<or> h_dir H w (path_dir p)"
  shows "\<exists>w'. dd_proc run (dd_at host d) c w = Ret ([Res (Some (mark_read dat c)) None], w') \<and> h_ok H w' \<and>
    h_files H w' = (h_files H w)(p \<mapsto> b) \<and>
    (\<forall>c2 q. full_path d (chunk_hash c2) = Ret q \<longrightarrow>
      (\<exists>w'' serr. h_files H w'' = h_files H w' \<and> dd_unproc run (dd_at host d) c2 w' =
        Ret ([case h_files H w' q of
                Some b' \<Rightarrow> Res (Some (with_data (BytesData b') c2)) None
              | None \<Rightarrow> Res (Some c2) (Some (MissingDataError (ExitError serr)))], w'')))"
proof -
  have dir: "dd_dir (dd_at host d) = d"
    by (simp add: dd_at_def new_scp_def split: option.split)
  have P: "P p" and plain: "host = None \<or> CHR 0x5C \<notin> set p"
    using assms(2) [OF assms(4)] assms(3) by blast+
  have "puts run H (dd_out_command (dd_at host d) p (''of='' @ p)) p b w"
    using assms(1,6,7) P unfolding dd_out_at [OF plain] dd_works_def by simp
  then obtain out serr w' where store:
    "run ((dd_out_command (dd_at host d) p (''of='' @ p))\<lparr>ec_stdin := Some (b, None)\<rparr>) w = ((out, serr, None), w')"
    "h_ok H w'" "h_files H w' = (h_files H w)(p \<mapsto> b)"
    by (auto simp: puts_def)
  have proc: "dd_proc run (dd_at host d) c w = Ret ([Res (Some (mark_read dat c)) None], w')"
    using store(1)
    by (simp add: dd_proc_def func_proc_def cmd_in_process_def dd_cmd_def dir assms(4,5)
        run_capture_stderr_def stop_err_def)
  have "\<exists>w'' serr. h_files H w'' = h_files H w' \<and> dd_unproc run (dd_at host d) c2 w' =
      Ret ([case h_files H w' q of
              Some b' \<Rightarrow> Res (Some (with_data (BytesData b') c2)) None
            | None \<Rightarrow> Res (Some c2) (Some (MissingDataError (ExitError serr)))], w'')"
    if q: "full_path d (chunk_hash c2) = Ret q" for c2 q
  proof -
    have "P q" and plain_q: "host = None \<or> CHR 0x5C \<notin> set q"
      using assms(2) [OF q] assms(3) by blast+
    then obtain out serr stop w'' where
      "run (dd_run_command (dd_at host d) ''dd'' [''if='' @ q, dd_bs_arg]) w' = ((out, serr, stop), w'')"
      "h_files H w'' = h_files H w'"
      "case h_files H w' q of Some b \<Rightarrow> stop = None \<and> out = b
         | None \<Rightarrow> stop = Some ExitStatus \<and> no_such_file serr"
      using assms(1) store(2) unfolding dd_works_def dd_run_at(1) [OF plain_q] by blast
    then show ?thesis
      by (intro exI [of _ w''] exI [of _ serr])
        (auto simp: dd_unproc_def filter_res_def func_proc_def cmd_out_process_def dd_load_cmd_def dir q
          run_capture_stderr_def stop_err_def dd_missing_def split: option.splits)
  qed
  with proc store(2,3) show ?thesis
    by blast
qed

text \<open>
  A host with \<open>dd\<close>, and a shell that runs the script: the variables are those of the environment.
\<close>

definition env_value :: "string \<Rightarrow> string list \<Rightarrow> string" where
  "env_value k env =
     (case filter (\<lambda>e. take (Suc (length k)) e = k @ ''='') env of [] \<Rightarrow> [] | e # _ \<Rightarrow> drop (Suc (length k)) e)"

definition dd_tool :: "string \<Rightarrow> (bytes \<times> err option) option \<Rightarrow> fs \<Rightarrow> (bytes \<times> string \<times> run_stop option) \<times> fs" where
  "dd_tool arg inp f =
     (let p = drop 3 arg; missing = (([], ''dd: No such file or directory'', Some ExitStatus), f) in
      if take 3 arg = ''of='' then
        (if path_dir p \<in> set (fs_dirs f) then
           (([], [], None),
            f\<lparr>fs_files := AList.update p (case inp of Some (b, _) \<Rightarrow> b | None \<Rightarrow> []) (fs_files f)\<rparr>)
         else missing)
      else (case map_of (fs_files f) p of Some b \<Rightarrow> ((b, [], None), f) | None \<Rightarrow> missing))"

definition ex_host :: "fs runner" where
  "ex_host cmd f =
     (if ec_name cmd = ''dd'' then dd_tool (hd (ec_args cmd)) (ec_stdin cmd) f
      else (case ec_env cmd of
              None \<Rightarrow> (([], ''not found'', Some ExitStatus), f)
            | Some env \<Rightarrow>
                if ec_name cmd = ''sh'' \<and> ec_args cmd = [''-c'', store_script] then
                  dd_tool (env_value ''ddproc_of'' env) (ec_stdin cmd) (mkdir_all (env_value ''ddproc_dir'' env) f)
                else (([], ''not found'', Some ExitStatus), f)))"

definition ex_host_fs :: "fs host_fs" where
  "ex_host_fs = \<lparr>h_ok = (\<lambda>_. True), h_files = (\<lambda>f. map_of (fs_files f)), h_dir = (\<lambda>f d. d \<in> set (fs_dirs f))\<rparr>"

lemma ex_host_works: "dd_works ex_host ex_host_fs None (\<lambda>_. True)"
proof -
  have "map lower_char ''No such file'' = ''no such file''"
    by code_simp
  then have missing: "no_such_file (''dd: '' @ ''No such file'' @ '' or directory'')"
    unfolding no_such_file_def
    by (intro has_words_here) (simp_all add: word_char_def)
  have "puts ex_host ex_host_fs (store_line None p) p b w" if "path_dir p \<in> set (fs_dirs w)" for p b w
    using that by (simp add: puts_def store_line_def exec_command_def ex_host_def ex_host_fs_def dd_tool_def update_conv')
  moreover have "puts ex_host ex_host_fs (store_in_line None (path_dir p) p) p b w" for p b w
    by (simp add: puts_def store_in_line_def exec_command_def ex_host_def ex_host_fs_def dd_tool_def
        env_value_def mkdir_all_def update_conv' Let_def)
  ultimately show ?thesis
    using missing by (auto simp: dd_works_def ex_host_def ex_host_fs_def dd_tool_def load_line_def exec_command_def
        split: option.split)
qed

text \<open>A store divided by the first two digits of the hash, on a host without any directory.\<close>

definition ex_dir :: dir where
  "ex_dir = \<lparr>dir_path = ''d'', dir_part = [2]\<rparr>"

theorem dd_roundtrip_witness:
  "\<exists>w' w''. dd_proc ex_host (dd_at None ex_dir) (new_chunk 0 (Some (BytesData [1, 2])))
        \<lparr>fs_files = [], fs_dirs = []\<rparr> =
      Ret ([Res (Some (new_chunk 0 (Some (BytesData [1, 2])))) None], w') \<and>
    dd_unproc ex_host (dd_at None ex_dir) (new_chunk 3 None) w' =
      Ret ([Res (Some (with_data (BytesData [1, 2]) (new_chunk 3 None))) None], w'')"
proof -
  let ?c = "new_chunk 0 (Some (BytesData [1, 2]))" and ?w = "\<lparr>fs_files = [], fs_dirs = []\<rparr>"
  obtain p where p: "full_path ex_dir (chunk_hash ?c) = Ret p"
    by (simp add: ex_dir_def full_path_def Let_def length_hex_string zero_hash_def)
  then have p': "full_path ex_dir (chunk_hash (new_chunk 3 None)) = Ret p"
    by simp
  have data: "data_reader (chunk_data ?c) = Ret (([1, 2], None), BytesData [1, 2])"
    by (simp add: data_reader_def)
  obtain w' where stored: "dd_proc ex_host (dd_at None ex_dir) ?c ?w = Ret ([Res (Some (mark_read (BytesData [1, 2]) ?c)) None], w')"
    and files: "h_files ex_host_fs w' = (h_files ex_host_fs ?w)(p \<mapsto> [1, 2])"
    and load: "\<forall>c2 q. full_path ex_dir (chunk_hash c2) = Ret q \<longrightarrow>
      (\<exists>w'' serr. h_files ex_host_fs w'' = h_files ex_host_fs w' \<and> dd_unproc ex_host (dd_at None ex_dir) c2 w' =
        Ret ([case h_files ex_host_fs w' q of
                Some b' \<Rightarrow> Res (Some (with_data (BytesData b') c2)) None
              | None \<Rightarrow> Res (Some c2) (Some (MissingDataError (ExitError serr)))], w''))"
    using dd_roundtrip [OF ex_host_works _ _ p data, of ?w] by (auto simp: ex_dir_def ex_host_fs_def)
  have "mark_read (BytesData [1, 2]) ?c = ?c"
    by (simp add: new_chunk_def)
  then show ?thesis
    using stored load p' files by fastforce
qed

end
