(* ===== verification/Rclone_Store.thy ===== *)
theory Rclone_Store
  imports Dd_Store Temp_Files
begin

text \<open>
  \<^verbatim>\<open>stores/rclone.go\<close>: the store kept by the command \<open>rclone\<close>, which copies a temporary file
  to the remote, writes a file of it out, and lists it.
\<close>

section \<open>Storing and loading\<close>

definition rclone_proc_cmd :: "string \<Rightarrow> chunk \<Rightarrow> string \<Rightarrow> err + exec_cmd" where
  "rclone_proc_cmd remote c path = Inr (exec_command ''rclone'' [''copy'', path, remote, ''-q''])"

definition rclone_proc :: "'w path_runner \<Rightarrow> string \<Rightarrow> (tmp_dir \<times> 'w) oprocess" where
  "rclone_proc run remote = func_proc (path_cmd_in run (rclone_proc_cmd remote))"

definition rclone_cat :: "string \<Rightarrow> exec_cmd" where
  "rclone_cat remote = exec_command ''rclone'' [''cat'', remote]"

definition rclone_load_cmd :: "string \<Rightarrow> cmd_fn" where
  "rclone_load_cmd remote c = Ret (Inr (rclone_cat (remote @ ''/'' @ hex_string (chunk_hash c))))"

definition err_rclone_zero_bytes :: err where
  "err_rclone_zero_bytes = ErrText ''downloaded 0 bytes''"

text \<open>\<open>getSize\<close>: the size of the data, which may have to be read for it.\<close>

definition rclone_size :: "chunk option \<Rightarrow> ((err + int) \<times> chunk option) outcome" where
  "rclone_size c =
     (case c of
        None \<Rightarrow> Ret (Inl (ErrText ''no chunk''), None)
      | Some c \<Rightarrow>
          (case data_size (chunk_data c) of
             Some sz \<Rightarrow> Ret (Inr sz, Some c)
           | None \<Rightarrow>
               bind_outcome (data_bytes (chunk_data c)) (\<lambda>((b, e), d).
                 Ret (case e of Some e \<Rightarrow> Inl e | None \<Rightarrow> Inr (int (length b)), Some (mark_read d c)))))"

definition rclone_download_err :: "res \<Rightarrow> (err option \<times> chunk option) outcome" where
  "rclone_download_err r =
     (case res_err r of
        Some e \<Rightarrow> Ret (Some (MissingDataError e), res_chunk r)
      | None \<Rightarrow>
          bind_outcome (rclone_size (res_chunk r)) (\<lambda>(sz, c).
            Ret (case sz of
                   Inl e \<Rightarrow> Some (MissingDataError e)
                 | Inr sz \<Rightarrow> if sz \<le> 0 then Some (MissingDataError err_rclone_zero_bytes) else None, c)))"

definition rclone_filter :: "res \<Rightarrow> res outcome" where
  "rclone_filter r =
     bind_outcome (rclone_download_err r) (\<lambda>(e, c).
       Ret (Res c (case e of Some e \<Rightarrow> Some e | None \<Rightarrow> res_err r)))"

text \<open>\<open>Filter\<close> with a function that may panic.\<close>

fun map_outcome :: "('a \<Rightarrow> 'b outcome) \<Rightarrow> 'a list \<Rightarrow> 'b list outcome" where
  "map_outcome f [] = Ret []"
| "map_outcome f (x # xs) =
     bind_outcome (f x) (\<lambda>y. bind_outcome (map_outcome f xs) (\<lambda>ys. Ret (y # ys)))"

definition rclone_unproc :: "'w runner \<Rightarrow> string \<Rightarrow> 'w oprocess" where
  "rclone_unproc run remote c w =
     bind_outcome (func_proc (cmd_out_process run (rclone_load_cmd remote)) c w) (\<lambda>(rs, w').
     bind_outcome (map_outcome rclone_filter rs) (\<lambda>rs. Ret (rs, w')))"

section \<open>Listing\<close>

text \<open>\<open>bufio.ScanLines\<close>: a carriage return before the line feed is dropped.\<close>

definition drop_cr :: "string \<Rightarrow> string" where
  "drop_cr l = (if l \<noteq> [] \<and> last l = CHR 0x0D then butlast l else l)"

fun scan_lines :: "string \<Rightarrow> string \<Rightarrow> string list" where
  "scan_lines acc [] = (if acc = [] then [] else [drop_cr acc])"
| "scan_lines acc (c # cs) =
     (if c = CHR 0x0A then drop_cr acc # scan_lines [] cs else scan_lines (acc @ [c]) cs)"

text \<open>\<open>Sscanf\<close> with the format \<open>"%d %x"\<close>.\<close>

definition scan_size_hash :: "string \<Rightarrow> scan_stop + (int \<times> bytes) \<times> string" where
  "scan_size_hash s =
     (case scan_dec s of
        Inl e \<Rightarrow> Inl e
      | Inr (i, s1) \<Rightarrow>
          (case advance_space s1 of
             Inl e \<Rightarrow> Inl e
           | Inr s2 \<Rightarrow>
               (case scan_hex s2 of
                  Inl e \<Rightarrow> Inl e
                | Inr (bs, s3) \<Rightarrow> Inr ((i, bs), s3))))"

fun rclone_entries :: "string list \<Rightarrow> ls_entry list" where
  "rclone_entries [] = []"
| "rclone_entries (l # ls) =
     (case scan_size_hash l of
        Inl _ \<Rightarrow> rclone_entries ls
      | Inr ((i, buf), _) \<Rightarrow>
          (case load_slice buf of
             Inl _ \<Rightarrow> rclone_entries ls
           | Inr h \<Rightarrow> \<lparr>le_hash = h, le_size = word_of_int i\<rparr> # rclone_entries ls))"

definition rclone_ls :: "'w runner \<Rightarrow> string \<Rightarrow> 'w \<Rightarrow> err + ls_entry list" where
  "rclone_ls run remote w =
     (case fst (run (exec_command ''rclone'' [''ls'', remote, ''-q'']) w) of
        (out, serr, stop) \<Rightarrow>
          (case stop_err serr stop of
             Some e \<Rightarrow> Inl e
           | None \<Rightarrow> Inr (rclone_entries (scan_lines [] (map (\<lambda>b. char_of (unat b)) out)))))"

section \<open>Names and lines\<close>

lemma path_base_name:
  assumes "plain_name f"
  shows "path_base f = f"
proof -
  have f: "f \<noteq> []" "CHR ''/'' \<notin> set f"
    using assms by (simp_all add: plain_name_def)
  then have "last f \<noteq> CHR ''/''"
    using last_in_set by fastforce
  then have "rev (dropWhile (\<lambda>c. c = CHR ''/'') (rev f)) = f"
    using f(1) by (cases "rev f") (auto simp: last_rev hd_rev [symmetric])
  then show ?thesis
    using f by (simp add: path_base_def split_slash_plain)
qed

lemma path_base_join: "plain_name f \<Longrightarrow> path_base (path_join (es @ [f])) = f"
  using path_join_last [of f es] path_base_name path_base_plain by auto

lemma scan_lines_append:
  "CHR 0x0A \<notin> set l \<Longrightarrow> scan_lines acc (l @ CHR 0x0A # s) = drop_cr (acc @ l) # scan_lines [] s"
  by (induction l arbitrary: acc) auto

text \<open>A line of a listing: the size, padded, and a path that begins with the digits of a hash.\<close>

definition rclone_line :: "hash \<times> nat \<times> nat \<times> string \<Rightarrow> string" where
  "rclone_line l = (case l of (h, n, pad, suffix) \<Rightarrow>
     replicate pad CHR '' '' @ dec_int (int n) @ '' '' @ hex_string h @ suffix)"

definition rclone_line_ok :: "hash \<times> nat \<times> nat \<times> string \<Rightarrow> bool" where
  "rclone_line_ok l \<longleftrightarrow> (case l of (h, n, pad, suffix) \<Rightarrow>
     length h = 32 \<and> n < 2 ^ 63 \<and> CHR 0x0A \<notin> set suffix \<and> CHR 0x0D \<notin> set suffix \<and>
     (suffix = [] \<or> hex_val (hd suffix) = None))"

lemma scan_dec_pad: "scan_dec (replicate pad CHR '' '' @ s) = scan_dec s"
  by (induction pad) (simp_all add: scan_dec_def is_space_def)

lemma scan_rclone_line:
  assumes "rclone_line_ok (h, n, pad, suffix)"
  shows "scan_size_hash (rclone_line (h, n, pad, suffix)) = Inr ((int n, h), suffix)"
proof -
  have ok: "length h = 32" "n < 2 ^ 63" "suffix = [] \<or> hex_val (hd suffix) = None"
    using assms by (auto simp: rclone_line_ok_def)
  have h: "h \<noteq> []"
    using ok(1) by auto
  have "dec_val (CHR '' '') = None"
    by (simp add: dec_val_def)
  then have "scan_dec (dec_int (int n) @ '' '' @ hex_string h @ suffix) =
      Inr (int n, '' '' @ hex_string h @ suffix)"
    using ok(2) by (intro scan_dec_int) simp_all
  moreover have "drop_blanks (hex_string h @ suffix) = hex_string h @ suffix"
  proof -
    obtain b h' where "h = b # h'"
      using h by (cases h) auto
    then show ?thesis
      using hex_digit_not_space [of "unat b div 16"] byte_digits(1) [of b]
      by (simp add: hex_string_def hex_byte_def)
  qed
  ultimately show ?thesis
    using scan_hex_string [OF h ok(3)]
    by (simp add: scan_size_hash_def rclone_line_def scan_dec_pad advance_space_def is_space_def)
qed

lemma hex_digit_no_break: "n < 16 \<Longrightarrow> hex_digit n \<noteq> CHR 0x0A \<and> hex_digit n \<noteq> CHR 0x0D"
proof -
  have "\<forall>n \<in> set [0..<16]. hex_digit n \<noteq> CHR 0x0A \<and> hex_digit n \<noteq> CHR 0x0D"
    by code_simp
  then show "n < 16 \<Longrightarrow> hex_digit n \<noteq> CHR 0x0A \<and> hex_digit n \<noteq> CHR 0x0D"
    by simp
qed

lemma rclone_line_chars:
  assumes "rclone_line_ok l"
  shows "set (rclone_line l) \<inter> {CHR 0x0A, CHR 0x0D} = {}"
proof -
  obtain h n pad suffix where l: "l = (h, n, pad, suffix)"
    by (cases l)
  have "c \<noteq> CHR 0x0A \<and> c \<noteq> CHR 0x0D" if c: "c \<in> set (dec_nat m)" for c m
  proof -
    obtain d where "d < 10" "c = hex_digit d"
      using dec_nat_digit [OF c] by blast
    with hex_digit_no_break [of d] show ?thesis
      by simp
  qed
  then have "set (dec_nat m) \<inter> {CHR 0x0A, CHR 0x0D} = {}" for m
    by blast
  moreover have "set (hex_byte b) \<inter> {CHR 0x0A, CHR 0x0D} = {}" for b
    using hex_digit_no_break byte_digits [of b] by (auto simp: hex_byte_def)
  then have "set (hex_string h) \<inter> {CHR 0x0A, CHR 0x0D} = {}"
    unfolding hex_string_def by fastforce
  ultimately show ?thesis
    using assms by (auto simp: l rclone_line_def rclone_line_ok_def dec_int_def)
qed

definition rclone_listing :: "(hash \<times> nat \<times> nat \<times> string) list \<Rightarrow> string" where
  "rclone_listing ls = concat (map (\<lambda>l. rclone_line l @ [CHR 0x0A]) ls)"

lemma scan_rclone_listing:
  assumes "\<forall>l \<in> set ls. rclone_line_ok l"
  shows "scan_lines [] (rclone_listing ls) = map rclone_line ls"
  using assms
proof (induction ls)
  case (Cons l ls)
  have "set (rclone_line l) \<inter> {CHR 0x0A, CHR 0x0D} = {}"
    using Cons.prems by (intro rclone_line_chars) simp
  then have "CHR 0x0A \<notin> set (rclone_line l)" "drop_cr (rclone_line l) = rclone_line l"
    by (auto simp: drop_cr_def dest!: last_in_set)
  then show ?case
    using Cons by (simp add: rclone_listing_def scan_lines_append)
qed (simp add: rclone_listing_def)

lemma rclone_entries_lines:
  assumes "\<forall>l \<in> set ls. rclone_line_ok l"
  shows "rclone_entries (map rclone_line ls) = map (\<lambda>(h, n, _). \<lparr>le_hash = h, le_size = word_of_nat n\<rparr>) ls"
  using assms
proof (induction ls)
  case (Cons l ls)
  obtain h n pad suffix where l: "l = (h, n, pad, suffix)"
    by (cases l)
  have ok: "rclone_line_ok (h, n, pad, suffix)"
    using Cons.prems by (simp add: l)
  then have "length h = 32"
    by (simp add: rclone_line_ok_def)
  then show ?case
    using Cons scan_rclone_line [OF ok] by (simp add: l load_slice_def)
qed simp

section \<open>Through the temporary file\<close>

lemma tmp_dir_get_fresh:
  assumes "map_of (tm_created (td_man td)) path = None" and "create path (tm_files (td_man td)) = (None, files)"
    and "path = path_join [td_path td, name]"
  shows "tmp_dir_get name create td = ((path, Inr (length (tm_counts (td_man td)))),
    td\<lparr>td_man := (td_man td)\<lparr>tm_files := files,
       tm_counts := tm_counts (td_man td) @ [1],
       tm_running := tm_running (td_man td) + 1,
       tm_cleaners := tm_cleaners (td_man td) @ [(path, Starting)],
       tm_created := AList.update path (length (tm_counts (td_man td))) (tm_created (td_man td))\<rparr>\<rparr>)"
  using assms by (simp add: tmp_dir_get_def man_get_def Let_def)

text \<open>
  A chunk whose file is not there: the command runs over a file with its data, and the file's
  wait group is back at zero.
\<close>

lemma path_cmd_in_fresh:
  assumes "path = path_join [td_path td, hex_string (chunk_hash c)]"
    and "map_of (tm_created (td_man td)) path = None" and "map_of (tm_files (td_man td)) path = None"
    and "data_reader (chunk_data c) = Ret ((b, None), d)" and "new_cmd (mark_read d c) path = Inr cmd"
    and "run ((map_of (tm_files (td_man td)))(path \<mapsto> b)) cmd w = ((out, serr, stop), w')"
    and "length (tm_cleaners (td_man td)) = length (tm_counts (td_man td))"
  shows "\<exists>td'. path_cmd_in run new_cmd c (td, w) = Ret ((stop_err [] stop, mark_read d c), (td', w')) \<and>
    tm_counts (td_man td') = tm_counts (td_man td) @ [0] \<and>
    tm_cleaners (td_man td') = tm_cleaners (td_man td) @ [(path, Starting)] \<and>
    map_of (tm_files (td_man td')) path = Some b"
proof -
  let ?m = "td_man td" and ?n = "length (tm_counts (td_man td))"
  have "create_from (b, None) path (tm_files ?m) = (None, AList.update path b (tm_files ?m))"
    using assms(3) by (simp add: create_from_def)
  from tmp_dir_get_fresh [where create = "create_from (b, None)", OF assms(2) this assms(1)]
  have get: "path_get c td = Ret ((path, Inr ?n), mark_read d c,
    td\<lparr>td_man := ?m\<lparr>tm_files := AList.update path b (tm_files ?m),
       tm_counts := tm_counts ?m @ [1], tm_running := tm_running ?m + 1,
       tm_cleaners := tm_cleaners ?m @ [(path, Starting)],
       tm_created := AList.update path ?n (tm_created ?m)\<rparr>\<rparr>)"
    using assms(2-4) by (simp add: path_get_def Let_def assms(1) [symmetric])
  have files: "map_of (AList.update path b (tm_files ?m)) = (map_of (tm_files ?m))(path \<mapsto> b)"
    by (simp add: update_conv')
  show ?thesis
    using assms(7) by (simp add: path_cmd_in_def get assms(5) files assms(6) tmp_done_def Let_def nth_append)
qed

section \<open>Properties\<close>

text \<open>
  What \<open>rclone\<close> does to the files of a remote: \<open>view\<close> is their contents by name. A file copied
  to the remote is there under its base name; the output of \<open>cat\<close> is the file, or nothing, with or
  without an error, if there is none.
\<close>

definition rclone_works :: "'w path_runner \<Rightarrow> ('w \<Rightarrow> string \<Rightarrow> bytes option) \<Rightarrow> string \<Rightarrow> bool" where
  "rclone_works run view remote \<longleftrightarrow>
     (\<forall>files path b w. files path = Some b \<longrightarrow>
        (\<exists>out serr w'. run files (exec_command ''rclone'' [''copy'', path, remote, ''-q'']) w =
             ((out, serr, None), w') \<and>
           view w' = (view w)(remote @ ''/'' @ path_base path \<mapsto> b))) \<and>
     (\<forall>files name w. \<exists>out serr stop w'.
        run files (rclone_cat name) w = ((out, serr, stop), w') \<and> view w' = view w \<and>
        (case view w name of Some b \<Rightarrow> stop = None \<and> out = b | None \<Rightarrow> out = []))"

lemma rclone_loads:
  assumes "rclone_works run view remote"
  shows "\<exists>r w''. rclone_unproc (run Map.empty) remote c2 w' = Ret ([r], w'') \<and> view w'' = view w' \<and>
    (case view w' (remote @ ''/'' @ hex_string (chunk_hash c2)) of
       Some (x # xs) \<Rightarrow> r = Res (Some (with_data (BytesData (x # xs)) c2)) None
     | _ \<Rightarrow> \<exists>e. res_err r = Some (MissingDataError e))"
proof -
  let ?name = "remote @ ''/'' @ hex_string (chunk_hash c2)"
  obtain out serr stop w'' where cat: "run Map.empty (rclone_cat ?name) w' = ((out, serr, stop), w'')"
    and same: "view w'' = view w'"
    and out: "case view w' ?name of Some b \<Rightarrow> stop = None \<and> out = b | None \<Rightarrow> out = []"
    using assms [unfolded rclone_works_def, THEN conjunct2, rule_format, of Map.empty ?name w'] by blast
  define r where "r = (case stop_err serr stop of
      Some e \<Rightarrow> Res (Some c2) (Some (MissingDataError e))
    | None \<Rightarrow> Res (Some (with_data (BytesData out) c2))
        (if out = [] then Some (MissingDataError err_rclone_zero_bytes) else None))"
  have "rclone_unproc (run Map.empty) remote c2 w' = Ret ([r], w'')"
    by (cases "stop_err serr stop")
      (simp_all add: rclone_unproc_def func_proc_def cmd_out_process_def rclone_load_cmd_def
        run_capture_stderr_def cat [simplified] r_def rclone_filter_def rclone_download_err_def rclone_size_def)
  moreover have "case view w' ?name of
        Some (x # xs) \<Rightarrow> r = Res (Some (with_data (BytesData (x # xs)) c2)) None
      | _ \<Rightarrow> \<exists>e. res_err r = Some (MissingDataError e)"
    using out by (auto simp: r_def stop_err_def split: option.splits list.split)
  ultimately show ?thesis
    using same by blast
qed

text \<open>
  C29: a chunk stored on a remote comes back for its hash, unless its data is empty: an empty file
  is taken for missing data, as is a missing one. The temporary file is released.
\<close>

theorem rclone_roundtrip:
  assumes "rclone_works run view remote" and "data_reader (chunk_data c) = Ret ((b, None), d)"
    and "path = path_join [td_path td, hex_string (chunk_hash c)]" and "chunk_hash c \<noteq> []"
    and "map_of (tm_created (td_man td)) path = None" and "map_of (tm_files (td_man td)) path = None"
    and "tmp_reach (td_man td)"
  shows "\<exists>td' w'. rclone_proc run remote c (td, w) = Ret ([Res (Some (mark_read d c)) None], (td', w')) \<and>
    tm_counts (td_man td') = tm_counts (td_man td) @ [0] \<and>
    view w' = (view w)(remote @ ''/'' @ hex_string (chunk_hash c) \<mapsto> b) \<and>
    (\<forall>c2. \<exists>r w''. rclone_unproc (run Map.empty) remote c2 w' = Ret ([r], w'') \<and> view w'' = view w' \<and>
       (case view w' (remote @ ''/'' @ hex_string (chunk_hash c2)) of
          Some (x # xs) \<Rightarrow> r = Res (Some (with_data (BytesData (x # xs)) c2)) None
        | _ \<Rightarrow> \<exists>e. res_err r = Some (MissingDataError e)))"
proof -
  have len: "length (tm_cleaners (td_man td)) = length (tm_counts (td_man td))"
    by (rule tmp_invD(1) [OF tmp_reach_inv [OF assms(7)]])
  have base: "path_base path = hex_string (chunk_hash c)"
    unfolding assms(3) using path_base_join [OF hex_string_plain [OF assms(4)], of "[td_path td]"] by simp
  obtain out serr w' where copy: "run ((map_of (tm_files (td_man td)))(path \<mapsto> b))
      (exec_command ''rclone'' [''copy'', path, remote, ''-q'']) w = ((out, serr, None), w')"
    and view: "view w' = (view w)(remote @ ''/'' @ hex_string (chunk_hash c) \<mapsto> b)"
    using assms(1) [unfolded rclone_works_def, THEN conjunct1, rule_format,
        of "(map_of (tm_files (td_man td)))(path \<mapsto> b)" path b w] unfolding base by auto
  have cmd: "rclone_proc_cmd remote (mark_read d c) path =
      Inr (exec_command ''rclone'' [''copy'', path, remote, ''-q''])"
    by (simp add: rclone_proc_cmd_def)
  obtain td' where proc: "rclone_proc run remote c (td, w) = Ret ([Res (Some (mark_read d c)) None], (td', w'))"
    and counts: "tm_counts (td_man td') = tm_counts (td_man td) @ [0]"
    using path_cmd_in_fresh [where run = run and new_cmd = "rclone_proc_cmd remote", OF assms(3,5,6,2) cmd copy len]
    by (auto simp: rclone_proc_def func_proc_def stop_err_def)
  show ?thesis
    using proc counts view rclone_loads [OF assms(1)] by blast
qed

definition rclone_host :: "(string \<times> bytes) list path_runner" where
  "rclone_host files cmd w =
     (if hd (ec_args cmd) = ''copy'' then
        (case files (ec_args cmd ! 1) of
           Some b \<Rightarrow> (([], [], None), AList.update (ec_args cmd ! 2 @ ''/'' @ path_base (ec_args cmd ! 1)) b w)
         | None \<Rightarrow> (([], [], Some ExitStatus), w))
      else (((case map_of w (ec_args cmd ! 1) of Some b \<Rightarrow> b | None \<Rightarrow> []), [], None), w))"

lemma rclone_host_works: "rclone_works rclone_host map_of remote"
  by (auto simp: rclone_works_def rclone_host_def exec_command_def rclone_cat_def update_conv'
      split: option.split)

theorem rclone_roundtrip_witness:
  "\<exists>td' w' r w''.
    rclone_proc rclone_host ''r:x'' (new_chunk 0 (Some (BytesData [1, 2]))) (temp_dir ''t'' [], []) =
      Ret ([Res (Some (mark_read (BytesData [1, 2]) (new_chunk 0 (Some (BytesData [1, 2]))))) None], (td', w')) \<and>
    tm_counts (td_man td') = [0] \<and>
    rclone_unproc (rclone_host Map.empty) ''r:x'' (new_chunk 3 None) w' = Ret ([r], w'') \<and>
    r = Res (Some (with_data (BytesData [1, 2]) (new_chunk 3 None))) None"
proof -
  let ?c = "new_chunk 0 (Some (BytesData [1, 2]))" and ?td = "temp_dir ''t'' []"
  have data: "data_reader (chunk_data ?c) = Ret (([1, 2], None), BytesData [1, 2])"
    by (simp add: data_reader_def)
  have hash: "chunk_hash ?c \<noteq> []"
    by (simp add: zero_hash_def)
  have reach: "tmp_reach (td_man ?td)"
    by (simp add: temp_dir_def tmp_reach.start)
  have empty: "map_of (tm_created (td_man ?td)) p = None" "map_of (tm_files (td_man ?td)) p = None" for p
    by (simp_all add: temp_dir_def new_tmp_man_def)
  obtain td' w' where stored: "rclone_proc rclone_host ''r:x'' ?c (?td, []) =
      Ret ([Res (Some (mark_read (BytesData [1, 2]) ?c)) None], (td', w'))"
    and counts: "tm_counts (td_man td') = tm_counts (td_man ?td) @ [0]"
    and view: "map_of w' = (map_of [])(''r:x'' @ ''/'' @ hex_string (chunk_hash ?c) \<mapsto> [1, 2])"
    and load: "\<forall>c2. \<exists>r w''. rclone_unproc (rclone_host Map.empty) ''r:x'' c2 w' = Ret ([r], w'') \<and> map_of w'' = map_of w' \<and>
       (case map_of w' (''r:x'' @ ''/'' @ hex_string (chunk_hash c2)) of
          Some (x # xs) \<Rightarrow> r = Res (Some (with_data (BytesData (x # xs)) c2)) None
        | _ \<Rightarrow> \<exists>e. res_err r = Some (MissingDataError e))"
    using rclone_roundtrip [OF rclone_host_works data refl hash empty reach, of "''r:x''" "[]"] by blast
  have "map_of w' (''r:x'' @ ''/'' @ hex_string (chunk_hash (new_chunk 3 None))) = Some [1, 2]"
    using view by simp
  with load [rule_format, of "new_chunk 3 None"] stored counts show ?thesis
    by (auto simp: temp_dir_def new_tmp_man_def)
qed

end
