(* ===== verification/Spec2Isabelle.thy ===== *)
theory Spec2Isabelle
  imports Quota_Report Sorter Grouping Index_Writer Index_Scanner Backup Redundancy Raid_Twins Lock_Order Command_Line Ticker
    Slots Parity_Proc Temp_Files Dd_Store Rclone_Store
begin

text \<open>
  A verification library for \<^verbatim>\<open>scat\<close>, a backup tool: a command line describes a pipeline of
  \<^emph>\<open>procs\<close> that split, hash, index, compress, encrypt and store a stream, and the pipeline that brings it
  back.

  \<^bold>\<open>The program.\<close> A \<^emph>\<open>chunk\<close> (\<^verbatim>\<open>chunk.go\<close>) has a number, a hash, a target size, data and values put on
  it under keys. A \<^emph>\<open>proc\<close> (\<^verbatim>\<open>procs/procs.go\<close>) takes a chunk and puts out results, chunks with or without
  an error, on a channel; its \<open>Finish\<close> tells whether something is left in it. \<^verbatim>\<open>cmd/main.go\<close> parses the text of a
  pipeline with \<^verbatim>\<open>argproc/\<close>, over the parsers of \<^verbatim>\<open>argparse/\<close>, gives it the standard input as one chunk, and
  waits for the results and for \<open>Finish\<close>. \<^verbatim>\<open>procs/chain.go\<close> composes procs; the others change chunks
  (\<^verbatim>\<open>procs/checksum.go\<close>, \<^verbatim>\<open>procs/gzip.go\<close>, \<^verbatim>\<open>procs/cmdfunc.go\<close>, \<^verbatim>\<open>procs/pathcmd.go\<close>, \<^verbatim>\<open>procs/parity.go\<close>), cut and collect them
  (\<^verbatim>\<open>split/\<close>, \<^verbatim>\<open>procs/group.go\<close>, \<^verbatim>\<open>procs/sort.go\<close>, \<^verbatim>\<open>procs/join.go\<close>), bound how many are under way
  (\<^verbatim>\<open>slots/\<close>, \<^verbatim>\<open>procs/backlog.go\<close>, \<^verbatim>\<open>procs/concur.go\<close>) or record them (\<^verbatim>\<open>procs/index.go\<close>, \<^verbatim>\<open>index/\<close>).
  Stores (\<^verbatim>\<open>stores/\<close>) save chunks under their hashes and list what they have. \<^verbatim>\<open>stores/stripe/\<close> chooses, with the
  striper of \<^verbatim>\<open>stripe/\<close>, the registry of \<^verbatim>\<open>stores/copies/\<close> and the quotas of \<^verbatim>\<open>stores/quota/\<close>, which stores get
  a copy of a chunk; \<^verbatim>\<open>stores/multireader.go\<close> reads a chunk from any store that has it. \<^verbatim>\<open>stats/\<close> counts what
  passes, and \<^verbatim>\<open>ansirefresh/\<close> shows it.

  \<^bold>\<open>How the code is modelled.\<close> A struct is a record and a tagged value a datatype. A method that
  changes its receiver returns the receiver's new state; a method under a lock is one step. A channel of results
  is the list of what is sent on it. A call that may panic returns \<open>outcome\<close>, one that may not return
  an option (\<open>None\<close> is no return), the main goroutine one of the ends of \<open>run_end\<close>, through which deferred calls
  run or not; an error is a value of \<open>err\<close> or \<open>perr\<close>. Go's \<open>int\<close> is \<open>int\<close> with
  \<open>wrap_int\<close> where it can wrap, the unsigned integers are words, a string is its bytes (\<open>bytes\<close>) where runes matter
  and a \<open>string\<close> where they do not. A map is an association list whose order is one that Go's range may take.
  Concurrent goroutines are step relations (\<^verbatim>\<open>Slots\<close>, \<^verbatim>\<open>Lock_Order\<close>, \<^verbatim>\<open>Temp_Files\<close>, \<^verbatim>\<open>Ticker\<close>), runs of their steps in any order
  (\<^verbatim>\<open>Quota_Report\<close>) or of atomic calls (\<^verbatim>\<open>Index_Writer\<close>, \<^verbatim>\<open>Grouping\<close>, \<^verbatim>\<open>Store_Stripe\<close>), or, for the stages of a chain, lists
  merged by a parameter that may be any interleaving.

  \<^bold>\<open>Shared theories.\<close>
  \<^item> \<^verbatim>\<open>Scat_Prelude\<close>: 64-bit integers, panics, errors, loops that may not end (\<open>go_loop\<close>), general lemmas.
  \<^item> \<^verbatim>\<open>Utf8\<close>: bytes as runes, as \<open>range\<close> and \<open>strings.IndexFunc\<close> read them. \<^verbatim>\<open>Scanning\<close>: the part of
    \<open>fmt.Sscanf\<close> and \<open>fmt.Fscanf\<close> the program uses, and that it reads what was printed.

  \<^bold>\<open>Chunks and procs.\<close>
  \<^item> \<^verbatim>\<open>Chunk\<close>: \<^verbatim>\<open>chunk.go\<close>, \<^verbatim>\<open>checksum/checksum.go\<close>. Data read once only (\<open>ReaderData\<close>) panics when read again.
  \<^item> \<^verbatim>\<open>Procs\<close>: \<^verbatim>\<open>procs/procs.go\<close>, \<^verbatim>\<open>procs/procfunc.go\<close>, \<^verbatim>\<open>concur/concur.go\<close> and the wrappers of \<^verbatim>\<open>procs/\<close> as functions.
    \<^verbatim>\<open>Chain\<close>: \<^verbatim>\<open>procs/chain.go\<close>, and the wrappers as procs of a chain (\<open>proc\<close>). A proc that keeps the
    pointer to the first chunk sees what the stages change in place: \<open>seen_after\<close>, \<open>stages_seen\<close>.
  \<^item> \<^verbatim>\<open>Rolling\<close>: the interface (locale \<open>rolling\<close>) of a store of values by position, with what \<open>Sort\<close> and
    \<open>Index\<close> need of it. \<^verbatim>\<open>Series\<close>: \<^verbatim>\<open>seriessort/series.go\<close> and its interpretation \<open>ser\<close>.
  \<^item> \<^verbatim>\<open>Sorter\<close>: \<^verbatim>\<open>procs/sort.go\<close>. The chunks up to the first missing number leave in order, whatever the
    order of arrival.
  \<^item> \<^verbatim>\<open>Grouping\<close>: \<^verbatim>\<open>procs/group.go\<close>. One aggregate for each complete group, each of contiguous chunks.
  \<^item> \<^verbatim>\<open>Slots\<close>: \<^verbatim>\<open>slots/slots.go\<close>, \<^verbatim>\<open>procs/backlog.go\<close>, \<^verbatim>\<open>procs/concur.go\<close>. Invariant and progress of the calls by
    rule induction; both procs interpret the locale \<open>slot_user\<close>.
  \<^item> \<^verbatim>\<open>Codecs\<close>: \<^verbatim>\<open>procs/checksum.go\<close>, \<^verbatim>\<open>procs/gzip.go\<close>, \<^verbatim>\<open>procs/writerto.go\<close>, \<^verbatim>\<open>procs/join.go\<close>. Locale \<open>codec\<close>, two
    functions of which the second undoes the first, and \<open>blind_codec\<close>, one that does so whatever the hash.
  \<^item> \<^verbatim>\<open>Splitting\<close>: \<^verbatim>\<open>split/splitter.go\<close>, \<^verbatim>\<open>procs/split.go\<close>, the loop of \<open>ChunkIterFunc\<close> (\<^verbatim>\<open>procs/procfunc.go\<close>).
  \<^item> \<^verbatim>\<open>Parity_Proc\<close>: \<^verbatim>\<open>procs/parity.go\<close>. A group that lost no more shards than there are for parity gives back
    its chunk.
  \<^item> \<^verbatim>\<open>Commands\<close>: \<^verbatim>\<open>procs/cmdfunc.go\<close>. \<^verbatim>\<open>Temp_Files\<close>: \<^verbatim>\<open>tmpdedup/man.go\<close>, \<^verbatim>\<open>tmpdedup/dir.go\<close>, \<^verbatim>\<open>procs/pathcmd.go\<close>: the
    files shared by hash, with the goroutine of each as steps; a file in use keeps what it was created with, and
    in the end exactly the files created are gone.

  \<^bold>\<open>Index.\<close>
  \<^item> \<^verbatim>\<open>Index_Format\<close>: \<^verbatim>\<open>index/write.go\<close>. \<^verbatim>\<open>Index_Writer\<close>: \<^verbatim>\<open>procs/index.go\<close>, with the specification of what the
    index holds after any calls (\<open>index_run_written\<close>) and that it holds all in the end (\<open>index_run_drained\<close>).
  \<^item> \<^verbatim>\<open>Index_Scanner\<close>: \<^verbatim>\<open>index/scanner.go\<close>. What was written is read back, and what a cut at any byte of the last
    line makes of it is told case by case.
  \<^item> \<^verbatim>\<open>Chain_Index\<close>: the index proc inside a chain, and what its text is after the chain has run; \<^verbatim>\<open>Backup\<close> and
    \<^verbatim>\<open>Raid\<close> rest on it.

  \<^bold>\<open>Stores.\<close>
  \<^item> \<^verbatim>\<open>Stores\<close>: \<^verbatim>\<open>stores/stores.go\<close>, and the interfaces of a store: \<open>chunk_store\<close> (what is saved can be loaded) and
    \<open>listed_store\<close> (and is listed).
  \<^item> \<^verbatim>\<open>Mem_Store\<close>: \<^verbatim>\<open>stores/mem.go\<close>, interpretations \<open>mem\<close> of \<open>blob_store\<close> and \<open>listed_store\<close>.
  \<^item> \<^verbatim>\<open>Dir_Store\<close>: \<^verbatim>\<open>stores/strpart.go\<close>, \<^verbatim>\<open>stores/dir.go\<close>, \<^verbatim>\<open>stores/cp.go\<close>, interpretation \<open>cp\<close> of \<open>chunk_store\<close>.
    \<^verbatim>\<open>Dd_Store\<close>: \<^verbatim>\<open>stores/dd.go\<close>; its round trip is over a host of which it is assumed what it does with the
    command lines, written out as text (\<open>store_line\<close>, \<open>store_in_line\<close>, \<open>load_line\<close>), and the functions of the store are
    shown to build them. \<^verbatim>\<open>Rclone_Store\<close>: \<^verbatim>\<open>stores/rclone.go\<close>, over \<^verbatim>\<open>Temp_Files\<close>.
  \<^item> \<^verbatim>\<open>Striper\<close>: \<^verbatim>\<open>stripe/stripe.go\<close> and \<^verbatim>\<open>stripe/rr.go\<close>. The striper is proved against a sequence of destinations
    (locale \<open>cyclic_seq\<close>), which the round robin is (interpretation \<open>rr\<close>): its results are sound, it returns when
    the sequence covers the destinations, and with an empty sequence it loops when a location is held and an item
    is short of them.
  \<^item> \<^verbatim>\<open>Copies\<close>: \<^verbatim>\<open>stores/copies/copies.go\<close> (locale \<open>registry\<close>, interpretation \<open>reg\<close>). \<^verbatim>\<open>Quota\<close>:
    \<^verbatim>\<open>stores/quota/quota.go\<close>. \<^verbatim>\<open>Store_Stripe\<close>: \<^verbatim>\<open>stores/stripe/stripe.go\<close> over both and the striper.
    \<^verbatim>\<open>Lock_Order\<close>: the locks that calls of its \<open>Procs\<close> under way at once take and give back, as steps; two calls can
    block each other exactly when they share two hashes.
  \<^item> \<^verbatim>\<open>Multireader\<close>: \<^verbatim>\<open>stores/multireader.go\<close>.

  \<^bold>\<open>Statistics and the screen.\<close>
  \<^item> \<^verbatim>\<open>Stats\<close>: \<^verbatim>\<open>slidecnt/counter.go\<close>, \<^verbatim>\<open>stats/\<close>. \<^verbatim>\<open>Quota_Report\<close>: the reports \<^verbatim>\<open>argproc/argproc.go\<close> puts
    between the quotas and the counters. A use is counted, read and shown in three steps, as the code shows it
    without the lock; the counters show what the quota manager has when the reports do not overtake each other
    (\<open>counts_apart\<close>), and an older use when they do (\<open>stats_show_stale_use\<close>).
  \<^item> \<^verbatim>\<open>Ansi_Refresh\<close>: \<^verbatim>\<open>ansirefresh/ansirefresh.go\<close>, and a screen that obeys what it writes. \<^verbatim>\<open>Ticker\<close>:
    \<^verbatim>\<open>ansirefresh/ticker.go\<close>; after \<open>Stop\<close> the screen shows the last frame.

  \<^bold>\<open>Command line.\<close>
  \<^item> \<^verbatim>\<open>Argparse\<close>: \<^verbatim>\<open>argparse/\<close>, a definition for each parser. \<^verbatim>\<open>Argparse_Contract\<close>: what a parser promises
    (locale \<open>parser_within\<close>, given which panics its functions may have, \<open>arg_parser\<close> where they have none,
    \<open>eager_parser\<close>, \<open>bracketed_parser\<close>), kept by every combinator, with the single arguments and the calls
    of \<^verbatim>\<open>argproc/argproc.go\<close> as interpretations. \<^verbatim>\<open>Argparse_Props\<close>: what they read.
  \<^item> \<^verbatim>\<open>Argproc\<close>: \<^verbatim>\<open>argproc/argproc.go\<close>. A parse makes expressions (\<open>proc_exp\<close>, \<open>store_exp\<close>, \<open>dyn_exp\<close>) that name
    the constructors called; one that panics, for a group of less than one chunk or a negative number of slots,
    makes the parse panic, as nothing recovers from it. \<^verbatim>\<open>Argproc_Types\<close> (locale \<open>typed_parser\<close>): no type assertion
    fails. \<^verbatim>\<open>Argproc_Props\<close>: the parser ends, with no panics but those, and its depth does not matter.
  \<^item> \<^verbatim>\<open>Proc_Text\<close>, \<^verbatim>\<open>Proc_Grammar\<close>: a reference grammar of pipelines as inductive predicates, and that the
    parser reads each text of it as what it stands for, and panics on the sizes the constructors refuse.
  \<^item> \<^verbatim>\<open>Command_Line\<close>: \<^verbatim>\<open>cmd/main.go\<close>: flags, usage, what is set up and, by deferred calls, taken down, and how the
    program ends: with an exit status, by a panic of the main goroutine or of another, or never.

  \<^bold>\<open>Components together.\<close>
  \<^item> \<^verbatim>\<open>Backup\<close>: the split stream through \<^verbatim>\<open>checksum | index | gzip | checksum | cp\<close> and back, from the
    index and the directory, through the restore chain and \<open>join\<close>: what comes out is what went in.
  \<^item> \<^verbatim>\<open>Redundancy\<close>: the stripe store and the multireader over the same stores: what was copied \<open>min\<close> times is
    read as long as fewer than \<open>min\<close> of its stores are lost.
  \<^item> \<^verbatim>\<open>Raid_Chain\<close>, \<^verbatim>\<open>Raid_Read\<close>, \<^verbatim>\<open>Raid_Store\<close>, \<^verbatim>\<open>Raid\<close>: the two chains of \<^verbatim>\<open>integration_test/raid5_test.go\<close>.
    \<open>checksum | index | parity | checksum | group | stripe\<close> writes a stream to stores, and the multireader with
    \<open>checksum | group | parity | join\<close> brings it back. \<^verbatim>\<open>Raid_Chain\<close> has the procs, the chains and what the writing chain
    does over any store that keeps the shards of a group (locale \<open>group_store\<close>); \<^verbatim>\<open>Raid_Read\<close> what the reading chain
    makes of shards that came back or not; \<^verbatim>\<open>Raid_Store\<close> that the stripe store keeps the shards apart, and what is
    left when stores are lost; \<^verbatim>\<open>Raid\<close> interprets the locale on it (\<open>raid_store\<close>) and shows that the stream comes back
    (\<open>raid_restores\<close>). Chunks go in one after the other, in any order; the copies of a call are made in any order,
    their results arrive in any order, and the multireader draws any permutations. A \<open>Procs\<close> that would wait for
    ever is a panic of the concur proc, and its slots are back when \<open>Finish\<close> is called. \<^verbatim>\<open>Raid_Twins\<close>: two
    equal shards in a group leave the index short of one, and the chunk is not read back.

  \<^bold>\<open>Parameters.\<close> Code that is not in the repository is an argument of the definitions that use it: SHA-256, gzip,
  the content-defined chunker (where it cuts), the Reed-Solomon encoder (with the law that enough shards
  give back the others), \<open>humanize\<close>, the order in which a chain's goroutines send, the shuffle of the
  multireader, the order of a map, the writer and the time, the quotient of floating-point numbers, commands
  and what they print, \<open>filepath.Glob\<close> and \<open>os.Stat\<close>. The hypotheses on them are stated in each theorem and hold
  in its witness.

  \<^bold>\<open>Bounds and fuel.\<close> Positions stay below \<open>pos_limit\<close>, \<open>2 ^ 62\<close>, so that the growth of a series does not
  overflow; a stream of that many chunks does not occur. \<open>scan_all\<close> has one turn more than the index has characters, and
  a line takes at least one; \<open>split_iter\<close> has one more than the pieces left, and \<open>None\<close> would tell that this is too
  few, which \<^verbatim>\<open>Splitting\<close> and \<^verbatim>\<open>Backup\<close> exclude. The parser of procs has a depth, as its grammar refers to itself; any depth
  above the length of the text gives the same result (\<^verbatim>\<open>Argproc_Props\<close>), and \<open>argproc_parse\<close> takes one. The loops
  of the striper and of variadic arguments are \<open>partial_function\<close>s whose \<open>None\<close> is a loop that does not end;
  their termination, or not, is proved.

  \<^bold>\<open>Not modelled.\<close> What is written to standard error for a recovered error or a failed reader, the text of an
  error there, the seeding of the random numbers, errors of \<open>MkdirAll\<close> other than a missing directory, and
  \<^verbatim>\<open>testutil/\<close>, which only tests import. In \<^verbatim>\<open>Command_Line\<close> how the parsed procs end is a parameter: \<^verbatim>\<open>Backup\<close> and
  \<^verbatim>\<open>Raid\<close> follow a pipeline each instead, both without the backlogs around their chains. Calls that run at
  the same time inside one proc are those of the step relations and runs above; no other interleaving inside a call
  is followed.
\<close>

end
